(* ===== verification/Prelude.thy ===== *)
theory Prelude
  imports Main "HOL-Library.Word" "HOL-Library.AList" "HOL-Library.Char_ord"
    "HOL-Library.List_Lexorder" "HOL-Library.Sublist" "HOL-Library.Product_Lexorder"
begin

text \<open>
  The Go language and standard-library layer shared by every component.

  \<^item> A Go \<open>string\<close> is its sequence of bytes, so it is a HOL \<open>string\<close> (a list of 8-bit
    characters); comparison with \<open><\<close> is bytewise lexicographic, which is the order of
    \<open>List_Lexorder\<close> over \<open>Char_ord\<close>.
  \<^item> \<open>uint64\<close> is \<open>64 word\<close> (it wraps); \<open>time.Time\<close> is the number of nanoseconds since
    Go's zero time, so \<open>IsZero\<close> is \<open>t = 0\<close> and \<open>UTC()\<close> is the identity on instants.
  \<^item> A Go \<open>map[string]T\<close> that the code iterates is an association list with distinct
    keys; \<open>m[k] = v\<close> is \<open>AList.update\<close>, \<open>delete\<close> is \<open>AList.delete\<close>, a lookup is \<open>map_of\<close>.
    The list order stands for one iteration order of the Go runtime.
  \<^item> \<open>strings.TrimSpace\<close>, \<open>sort.Strings\<close>, \<open>strconv.FormatUint\<close> and the coercion of invalid
    UTF-8 that \<open>encoding/json\<close> performs are defined on bytes.
  \<^item> What is left of the standard library and cannot be defined here in full (SHA-256, the
    Unicode case tables beyond ASCII, the \<open>float64\<close> transit of JSON numbers of at least
    \<open>2 ^ 53\<close>, the RFC 3339 text of an instant) is the record \<open>goenv\<close>, an argument of the definitions that use it.
\<close>

named_theorems go_simps \<open>unfolding rules of the Go standard-library layer\<close>

section \<open>Machine types\<close>

type_synonym u64 = "64 word"
type_synonym gotime = int

lemma unat_of_nat_u64: "n < 2 ^ 64 \<Longrightarrow> unat (of_nat n :: u64) = n"
  by (simp add: unat_of_nat)

text \<open>The \<open>time.Duration\<close> constants the code uses, in nanoseconds.\<close>

abbreviation second_ns :: int where "second_ns \<equiv> 1000000000"
abbreviation minute_ns :: int where "minute_ns \<equiv> 60000000000"
abbreviation hour_ns :: int where "hour_ns \<equiv> 3600000000000"

text \<open>\<open>if at.IsZero() { at = time.Now().UTC() } else { at = at.UTC() }\<close>\<close>

definition at_or_now :: "gotime \<Rightarrow> gotime \<Rightarrow> gotime" where
  "at_or_now at wall = (if at = 0 then wall else at)"

section \<open>JSON values\<close>

text \<open>
  What \<open>json.Unmarshal\<close> yields for an \<open>any\<close> target. A \<open>time.Time\<close> is marshalled as its
  RFC 3339 text with nanoseconds; the text is kept abstract as \<open>JTime\<close>.
\<close>

datatype json =
    JNull
  | JBool bool
  | JNum int
  | JStr string
  | JTime gotime
  | JArr "json list"
  | JObj "(string \<times> json) list"

section \<open>The parts of the standard library taken as parameters\<close>

record goenv =
  sha256hex :: "string \<Rightarrow> string"
  lower_unicode :: "string \<Rightarrow> string"
  json_big :: "int \<Rightarrow> json"
  fmt_time :: "gotime \<Rightarrow> string"

section \<open>Strings\<close>

text \<open>
  The UTF-8 encodings of the characters \<open>unicode.IsSpace\<close> accepts: tab, newline, vertical
  tab, form feed, carriage return, space, U+0085, U+00A0, U+1680, U+2000 to U+200A, U+2028,
  U+2029, U+202F, U+205F and U+3000.
\<close>

definition space_codes :: "int list list" where
  "space_codes =
    [[9], [10], [11], [12], [13], [32], [194, 133], [194, 160], [225, 154, 128],
     [226, 128, 128], [226, 128, 129], [226, 128, 130], [226, 128, 131], [226, 128, 132],
     [226, 128, 133], [226, 128, 134], [226, 128, 135], [226, 128, 136], [226, 128, 137],
     [226, 128, 138], [226, 128, 168], [226, 128, 169], [226, 128, 175], [226, 129, 159],
     [227, 128, 128]]"

definition bytes_of :: "string \<Rightarrow> int list" where
  "bytes_of s = map of_char s"

text \<open>The length of the white-space character a string starts with, 0 when it starts with none.\<close>

definition lead_space :: "int list list \<Rightarrow> string \<Rightarrow> nat" where
  "lead_space ws s =
     (case s of
        [] \<Rightarrow> 0
      | c # _ \<Rightarrow>
          (case find (\<lambda>w. hd w = of_char c \<and> take (length w) (bytes_of s) = w) ws of
             None \<Rightarrow> 0
           | Some w \<Rightarrow> length w))"

function trim_by :: "int list list \<Rightarrow> string \<Rightarrow> string" where
  "trim_by ws s =
     (if lead_space ws s = 0 then s else trim_by ws (drop (lead_space ws s) s))"
  by pat_completeness auto
termination
  by (relation "measure (\<lambda>(ws, s). length s)")
    (auto simp: lead_space_def split: list.splits option.splits)

declare trim_by.simps [simp del]

text \<open>\<open>strings.TrimSpace\<close>: the white space is cut at the front and then at the back.\<close>

definition trim_space :: "string \<Rightarrow> string" where
  "trim_space s = rev (trim_by (map rev space_codes) (rev (trim_by space_codes s)))"

definition trimmed :: "string \<Rightarrow> bool" where
  "trimmed s \<longleftrightarrow> trim_space s = s"

lemma trim_by_no_lead: "lead_space ws (trim_by ws s) = 0"
  by (induction ws s rule: trim_by.induct) (subst trim_by.simps, simp)

lemma trim_by_fixed: "lead_space ws s = 0 \<Longrightarrow> trim_by ws s = s"
  by (subst trim_by.simps) simp

lemma trim_by_Nil [simp]: "trim_by ws [] = []"
  by (rule trim_by_fixed) (simp add: lead_space_def)

lemma trim_by_suffix: "suffix (trim_by ws s) s"
proof (induction ws s rule: trim_by.induct)
  case (1 ws s)
  show ?case
  proof (cases "lead_space ws s = 0")
    case True
    then show ?thesis by (simp add: trim_by_fixed)
  next
    case False
    with "1" have "suffix (trim_by ws (drop (lead_space ws s) s)) (drop (lead_space ws s) s)"
      by simp
    with False show ?thesis
      by (subst trim_by.simps) (auto intro: suffix_order.trans suffix_drop)
  qed
qed

lemma take_eq_iff_prefix: "take (length w) xs = w \<longleftrightarrow> prefix w xs"
  by (metis append_eq_conv_conj prefix_def take_is_prefix)

lemma lead_space_0_iff:
  assumes "[] \<notin> set ws"
  shows "lead_space ws s = 0 \<longleftrightarrow> (\<forall>w \<in> set ws. \<not> prefix w (bytes_of s))"
proof (cases s)
  case Nil
  with assms show ?thesis by (auto simp: lead_space_def bytes_of_def)
next
  case (Cons c cs)
  let ?P = "\<lambda>w. hd w = of_char c \<and> take (length w) (bytes_of s) = w"
  have head: "?P w \<longleftrightarrow> prefix w (bytes_of s)" if "w \<in> set ws" for w
  proof -
    from that assms have "w \<noteq> []" by metis
    then obtain b bs where "w = b # bs" by (auto simp: neq_Nil_conv)
    with Cons show ?thesis by (auto simp: take_eq_iff_prefix bytes_of_def)
  qed
  show ?thesis
  proof (cases "find ?P ws")
    case None
    then have "\<forall>w \<in> set ws. \<not> ?P w" by (simp add: find_None_iff)
    with head have "\<forall>w \<in> set ws. \<not> prefix w (bytes_of s)" by blast
    moreover from None Cons have "lead_space ws s = 0" by (simp add: lead_space_def)
    ultimately show ?thesis by simp
  next
    case (Some w)
    then have "w \<in> set ws" "?P w" by (auto simp: find_Some_iff)
    moreover from this assms have "w \<noteq> []" by auto
    moreover from \<open>w \<in> set ws\<close> \<open>?P w\<close> head have "prefix w (bytes_of s)" by blast
    moreover from Cons Some have "lead_space ws s = length w" by (simp add: lead_space_def)
    ultimately show ?thesis by auto
  qed
qed

lemma space_codes_nonempty: "[] \<notin> set space_codes" "[] \<notin> set (map rev space_codes)"
  by (auto simp: space_codes_def)

lemma trim_space_trimmed [simp]: "trim_space (trim_space s) = trim_space s"
proof -
  let ?l = "trim_by space_codes s"
  let ?r = "trim_by (map rev space_codes) (rev ?l)"
  have "prefix (rev ?r) ?l"
    using trim_by_suffix [of "map rev space_codes" "rev ?l"] by (simp add: suffix_to_prefix)
  then have pre: "prefix (bytes_of (rev ?r)) (bytes_of ?l)"
    unfolding bytes_of_def by (rule map_mono_prefix)
  have "lead_space space_codes ?l = 0" by (rule trim_by_no_lead)
  then have "lead_space space_codes (rev ?r) = 0"
    using pre by (auto simp: lead_space_0_iff [OF space_codes_nonempty(1)]
        dest: prefix_order.trans)
  then have left: "trim_by space_codes (rev ?r) = rev ?r" by (rule trim_by_fixed)
  have "lead_space (map rev space_codes) ?r = 0" by (rule trim_by_no_lead)
  then have "trim_by (map rev space_codes) ?r = ?r" by (rule trim_by_fixed)
  with left show ?thesis by (simp add: trim_space_def)
qed

text \<open>
  Evaluation shortcut: a string whose first and last bytes are visible ASCII is trimmed.
\<close>

definition plain_char :: "char \<Rightarrow> bool" where
  "plain_char c \<longleftrightarrow> (32::int) < of_char c \<and> of_char c < (128::int)"

lemma lead_space_plain:
  assumes "plain_char c" and "\<forall>w \<in> set ws. \<not> (32 < hd w \<and> hd w < 128)"
  shows "lead_space ws (c # cs) = 0"
proof -
  have "find (\<lambda>w. hd w = of_char c \<and> take (length w) (bytes_of (c # cs)) = w) ws = None"
    using assms by (auto simp: find_None_iff plain_char_def)
  then show ?thesis by (simp add: lead_space_def)
qed

lemma trim_space_plain:
  assumes "s \<noteq> []" and "plain_char (hd s)" and "plain_char (last s)"
  shows "trim_space s = s"
proof -
  have "\<forall>w \<in> set space_codes. \<not> (32 < hd w \<and> hd w < 128)"
    "\<forall>w \<in> set (map rev space_codes). \<not> (32 < hd w \<and> hd w < 128)"
    by (simp_all add: space_codes_def)
  moreover obtain c cs d ds where "s = c # cs" "rev s = d # ds" "d = last s" "c = hd s"
    using assms(1) by (cases s; cases "rev s") (auto simp: last_rev simp flip: hd_rev)
  ultimately have "lead_space space_codes s = 0" "lead_space (map rev space_codes) (rev s) = 0"
    using lead_space_plain assms(2,3) by metis+
  then show ?thesis by (simp add: trim_space_def trim_by_fixed)
qed

lemma trim_space_code [code]:
  "trim_space s =
     (if s = [] then []
      else if plain_char (hd s) \<and> plain_char (last s) then s
      else rev (trim_by (map rev space_codes) (rev (trim_by space_codes s))))"
  using trim_space_plain [of s] by (simp add: trim_space_def)

lemma trim_space_Nil [simp]: "trim_space [] = []"
  by (simp add: trim_space_def)

lemma trimmed_trim_space [simp]: "trimmed (trim_space s)"
  by (simp add: trimmed_def)

lemma trim_space_of_trimmed: "trimmed s \<Longrightarrow> trim_space s = s"
  by (simp add: trimmed_def)

text \<open>
  The loop shared by the code's list normalisers: each value is trimmed, empty and repeated
  values are skipped, the first occurrence is kept.
\<close>

fun uniq_trim :: "string list \<Rightarrow> string list \<Rightarrow> string list" where
  "uniq_trim seen [] = []"
| "uniq_trim seen (v # vs) =
     (let w = trim_space v in
      if w = [] then uniq_trim seen vs
      else if w \<in> set seen then uniq_trim seen vs
      else w # uniq_trim (w # seen) vs)"

lemma set_uniq_trim: "set (uniq_trim seen vs) = trim_space ` set vs - insert [] (set seen)"
  by (induction seen vs rule: uniq_trim.induct) (auto simp: Let_def)

lemma distinct_uniq_trim: "distinct (uniq_trim seen vs)"
  by (induction seen vs rule: uniq_trim.induct) (auto simp: Let_def set_uniq_trim)

lemma set_update_subset: "set (AList.update k v m) \<subseteq> insert (k, v) (set m)"
  by (induction m) auto

lemma find_append_case:
  "find P (xs @ ys) = (case find P xs of None \<Rightarrow> find P ys | Some x \<Rightarrow> Some x)"
  by (induction xs) auto

text \<open>Two strictly sorted lists with the same elements are equal.\<close>

lemma sort_distinct_set_eq:
  "distinct xs \<Longrightarrow> distinct ys \<Longrightarrow> set xs = set ys \<Longrightarrow> sort xs = sort ys"
  for xs ys :: "'a::linorder list"
  by (metis sorted_distinct_set_unique sorted_sort distinct_sort set_sort)

text \<open>\<open>strings.ToLower\<close>: bytewise on ASCII text, the Unicode tables otherwise.\<close>

definition is_ascii :: "string \<Rightarrow> bool" where
  "is_ascii s \<longleftrightarrow> (\<forall>c \<in> set s. of_char c < (128::int))"

definition ascii_lower :: "char \<Rightarrow> char" where
  "ascii_lower c = (if of_char c \<ge> (65::int) \<and> of_char c \<le> (90::int)
                    then char_of (of_char c + (32::int)) else c)"

definition to_lower :: "('z) goenv_scheme \<Rightarrow> string \<Rightarrow> string" where
  "to_lower G s = (if is_ascii s then map ascii_lower s else lower_unicode G s)"

text \<open>\<open>strings.ToUpper\<close>: the same with the Unicode upper-case table as an argument.\<close>

definition ascii_upper :: "char \<Rightarrow> char" where
  "ascii_upper c = (if of_char c \<ge> (97::int) \<and> of_char c \<le> (122::int)
                    then char_of (of_char c - (32::int)) else c)"

definition to_upper :: "(string \<Rightarrow> string) \<Rightarrow> string \<Rightarrow> string" where
  "to_upper uni s = (if is_ascii s then map ascii_upper s else uni s)"

text \<open>\<open>strconv.FormatUint(n, 10)\<close> and \<open>strconv.Itoa\<close> on non-negative numbers.\<close>

fun itoa :: "nat \<Rightarrow> string" where
  "itoa n = (if n < 10 then [char_of (48 + n)] else itoa (n div 10) @ [char_of (48 + n mod 10)])"

declare itoa.simps [simp del]

definition digits_val :: "string \<Rightarrow> nat" where
  "digits_val s = foldl (\<lambda>a c. 10 * a + (of_char c - 48)) 0 s"

lemma digits_val_itoa: "digits_val (itoa n) = n"
proof (induction n rule: itoa.induct)
  case (1 n)
  show ?case
  proof (cases "n < 10")
    case True
    then show ?thesis by (subst itoa.simps) (simp add: digits_val_def)
  next
    case False
    with "1" have "digits_val (itoa (n div 10)) = n div 10" by simp
    with False show ?thesis by (subst itoa.simps) (simp add: digits_val_def)
  qed
qed

lemma itoa_inject [simp]: "itoa m = itoa n \<longleftrightarrow> m = n"
  by (metis digits_val_itoa)

lemma itoa_digits: "c \<in> set (itoa n) \<Longrightarrow> (48::nat) \<le> of_char c \<and> of_char c \<le> (57::nat)"
  by (induction n rule: itoa.induct) (subst (asm) (2) itoa.simps, auto split: if_splits)

lemma itoa_no_colon: "CHR '':'' \<notin> set (itoa n)"
  using itoa_digits [of "CHR '':''" n] by auto

text \<open>Two keys built as prefix, colon and number agree only when prefix and number agree.\<close>

lemma split_last_inject:
  assumes "xs @ x # us = ys @ x # vs" and "x \<notin> set us" and "x \<notin> set vs"
  shows "xs = ys \<and> us = vs"
proof -
  have cut: "takeWhile (\<lambda>y. y \<noteq> x) (rev (zs @ x # ws)) = rev ws"
    if "x \<notin> set ws" for zs ws
    using that by (simp add: takeWhile_append)
  have "rev us = rev vs"
    using cut [of us xs] cut [of vs ys] assms by simp
  with assms(1) show ?thesis by simp
qed

lemma key_number_inject:
  "a @ '':'' @ itoa m = b @ '':'' @ itoa n \<longleftrightarrow> a = b \<and> m = n"
  using split_last_inject [of a "CHR '':''" "itoa m" b "itoa n"] by (auto simp: itoa_no_colon)

section \<open>UTF-8 coercion of JSON text\<close>

text \<open>
  \<open>utf8.DecodeRuneInString\<close>: the size of the valid UTF-8 character a byte sequence starts
  with, 0 when its first byte starts no valid character (surrogates and over-long forms are
  invalid).
\<close>

definition cont_byte :: "int \<Rightarrow> bool" where
  "cont_byte b \<longleftrightarrow> 128 \<le> b \<and> b \<le> 191"

fun utf8_size :: "int list \<Rightarrow> nat" where
  "utf8_size [] = 0"
| "utf8_size (b0 # bs) =
     (if b0 < 128 then 1
      else (case bs of
        [] \<Rightarrow> 0
      | b1 # bs1 \<Rightarrow>
          if 194 \<le> b0 \<and> b0 \<le> 223 then (if cont_byte b1 then 2 else 0)
          else (case bs1 of
            [] \<Rightarrow> 0
          | b2 # bs2 \<Rightarrow>
              if b0 = 224 then (if 160 \<le> b1 \<and> b1 \<le> 191 \<and> cont_byte b2 then 3 else 0)
              else if b0 = 237 then (if 128 \<le> b1 \<and> b1 \<le> 159 \<and> cont_byte b2 then 3 else 0)
              else if 225 \<le> b0 \<and> b0 \<le> 239 then (if cont_byte b1 \<and> cont_byte b2 then 3 else 0)
              else (case bs2 of
                [] \<Rightarrow> 0
              | b3 # _ \<Rightarrow>
                  if b0 = 240 then
                    (if 144 \<le> b1 \<and> b1 \<le> 191 \<and> cont_byte b2 \<and> cont_byte b3 then 4 else 0)
                  else if 241 \<le> b0 \<and> b0 \<le> 243 then
                    (if cont_byte b1 \<and> cont_byte b2 \<and> cont_byte b3 then 4 else 0)
                  else if b0 = 244 then
                    (if 128 \<le> b1 \<and> b1 \<le> 143 \<and> cont_byte b2 \<and> cont_byte b3 then 4 else 0)
                  else 0))))"

text \<open>\<open>json.Marshal\<close> writes each invalid byte as U+FFFD; other text survives the round trip.\<close>

function utf8_coerce :: "string \<Rightarrow> string" where
  "utf8_coerce s =
     (case s of
        [] \<Rightarrow> []
      | c # cs \<Rightarrow>
          (let n = utf8_size (bytes_of s) in
           if n = 0 then [CHR 0xEF, CHR 0xBF, CHR 0xBD] @ utf8_coerce cs
           else take n s @ utf8_coerce (drop n s)))"
  by pat_completeness auto
termination
  by (relation "measure length") auto

declare utf8_coerce.simps [simp del]

definition valid_utf8 :: "string \<Rightarrow> bool" where
  "valid_utf8 s \<longleftrightarrow> utf8_coerce s = s"

lemma utf8_coerce_Nil [simp]: "utf8_coerce [] = []"
  by (subst utf8_coerce.simps) simp

lemma utf8_coerce_ascii: "is_ascii s \<Longrightarrow> utf8_coerce s = s"
proof (induction s)
  case Nil
  show ?case by simp
next
  case (Cons c cs)
  then have "is_ascii cs" and "of_char c < (128::int)" by (auto simp: is_ascii_def)
  with Cons.IH show ?case by (subst utf8_coerce.simps) (simp add: bytes_of_def)
qed

lemma valid_utf8_ascii: "is_ascii s \<Longrightarrow> valid_utf8 s"
  by (simp add: valid_utf8_def utf8_coerce_ascii)

lemma utf8_coerce_eq_Nil [simp]: "utf8_coerce s = [] \<longleftrightarrow> s = []"
proof (cases s)
  case (Cons c cs)
  have "utf8_coerce (c # cs) \<noteq> []"
    by (subst utf8_coerce.simps) (auto simp: Let_def)
  with Cons show ?thesis by simp
qed simp

text \<open>Marshalling coerces the text inside nested values as well.\<close>

primrec coerce_json :: "json \<Rightarrow> json" where
  "coerce_json JNull = JNull"
| "coerce_json (JBool b) = JBool b"
| "coerce_json (JNum n) = JNum n"
| "coerce_json (JStr s) = JStr (utf8_coerce s)"
| "coerce_json (JTime t) = JTime t"
| "coerce_json (JArr js) = JArr (map coerce_json js)"
| "coerce_json (JObj fs) = JObj (map (\<lambda>(k, v). (utf8_coerce k, v)) (map (map_prod id coerce_json) fs))"

section \<open>Outcomes of a durable write\<close>

text \<open>
  \<open>WOk\<close>: the bytes are on disk and the call returned no error. \<open>WLost\<close>: an error, nothing was
  written. \<open>WTorn\<close>: an error after part of the bytes were written. \<open>WUnsynced\<close>: all bytes were
  written, but a later \<open>Sync\<close>, \<open>Close\<close> or \<open>Chmod\<close> reported an error.
\<close>

datatype write_outcome = WOk | WLost string | WTorn string | WUnsynced string

section \<open>Decoding JSON fields into struct fields\<close>

text \<open>
  \<open>json.Unmarshal\<close> into a struct: a missing field or \<open>null\<close> leaves the zero value, a value
  of the wrong kind is an error (\<open>None\<close>).
\<close>

definition jfield :: "string \<Rightarrow> json \<Rightarrow> json option" where
  "jfield k j = (case j of JObj fs \<Rightarrow> Some (case map_of fs k of None \<Rightarrow> JNull | Some v \<Rightarrow> v)
                 | JNull \<Rightarrow> Some JNull | _ \<Rightarrow> None)"

definition dec_str :: "json \<Rightarrow> string option" where
  "dec_str j = (case j of JStr s \<Rightarrow> Some s | JNull \<Rightarrow> Some [] | _ \<Rightarrow> None)"

definition dec_u64 :: "json \<Rightarrow> u64 option" where
  "dec_u64 j = (case j of JNum n \<Rightarrow> (if 0 \<le> n \<and> n < 2 ^ 64 then Some (of_int n) else None)
                | JNull \<Rightarrow> Some 0 | _ \<Rightarrow> None)"

definition dec_int :: "json \<Rightarrow> int option" where
  "dec_int j = (case j of JNum n \<Rightarrow> (if - (2 ^ 63) \<le> n \<and> n < 2 ^ 63 then Some n else None)
                | JNull \<Rightarrow> Some 0 | _ \<Rightarrow> None)"

definition dec_time :: "json \<Rightarrow> gotime option" where
  "dec_time j = (case j of JTime t \<Rightarrow> Some t | JNull \<Rightarrow> Some 0 | _ \<Rightarrow> None)"

fun dec_list :: "json list \<Rightarrow> string list option" where
  "dec_list [] = Some []"
| "dec_list (j # js) =
     (case dec_str j of None \<Rightarrow> None | Some s \<Rightarrow> map_option ((#) s) (dec_list js))"

definition dec_strs :: "json \<Rightarrow> string list option" where
  "dec_strs j = (case j of JArr js \<Rightarrow> dec_list js | JNull \<Rightarrow> Some [] | _ \<Rightarrow> None)"

text \<open>
  A \<open>uint64\<close> or \<open>int\<close> that travels through an \<open>any\<close> value becomes a \<open>float64\<close>: exact below
  \<open>2 ^ 53\<close>, whatever the library makes of it above.
\<close>

definition enc_u64 :: "('z) goenv_scheme \<Rightarrow> u64 \<Rightarrow> json" where
  "enc_u64 G r = (if uint r < 2 ^ 53 then JNum (uint r) else json_big G (uint r))"

definition enc_int :: "('z) goenv_scheme \<Rightarrow> int \<Rightarrow> json" where
  "enc_int G n = (if - (2 ^ 53) < n \<and> n < 2 ^ 53 then JNum n else json_big G n)"

definition enc_str :: "string \<Rightarrow> json" where
  "enc_str s = JStr (utf8_coerce s)"

definition enc_strs :: "string list \<Rightarrow> json" where
  "enc_strs ss = JArr (map enc_str ss)"

text \<open>\<open>omitempty\<close>: the field is left out when it holds the zero value.\<close>

definition omit_str :: "string \<Rightarrow> string \<Rightarrow> (string \<times> json) list" where
  "omit_str k s = (if s = [] then [] else [(k, enc_str s)])"

definition omit_strs :: "string \<Rightarrow> string list \<Rightarrow> (string \<times> json) list" where
  "omit_strs k ss = (if ss = [] then [] else [(k, enc_strs ss)])"

lemma dec_list_map_JStr [simp]: "dec_list (map JStr ss) = Some ss"
  by (induction ss) (auto simp: dec_str_def)

lemma map_enc_str: "list_all valid_utf8 ss \<Longrightarrow> map enc_str ss = map JStr ss"
  by (induction ss) (auto simp: enc_str_def valid_utf8_def)

definition small_u64 :: "u64 \<Rightarrow> bool" where
  "small_u64 r \<longleftrightarrow> uint r < 2 ^ 53"

definition small_int :: "int \<Rightarrow> bool" where
  "small_int n \<longleftrightarrow> - (2 ^ 53) < n \<and> n < 2 ^ 53"

lemma dec_u64_enc: "small_u64 r \<Longrightarrow> dec_u64 (enc_u64 G r) = Some r"
  by (simp add: dec_u64_def enc_u64_def small_u64_def)

lemma dec_int_enc: "small_int n \<Longrightarrow> dec_int (enc_int G n) = Some n"
  by (simp add: dec_int_def enc_int_def small_int_def)

lemma dec_str_enc: "valid_utf8 s \<Longrightarrow> dec_str (enc_str s) = Some s"
  by (simp add: dec_str_def enc_str_def valid_utf8_def)

lemma dec_strs_enc: "list_all valid_utf8 ss \<Longrightarrow> dec_strs (enc_strs ss) = Some ss"
  by (simp add: dec_strs_def enc_strs_def map_enc_str)

lemmas json_codec = dec_u64_enc dec_int_enc dec_str_enc dec_strs_enc

section \<open>Go maps as association lists\<close>

lemma map_of_update [simp]: "map_of (AList.update k v m) = (map_of m)(k \<mapsto> v)"
  by (rule update_conv')

lemma map_of_delete [simp]: "map_of (AList.delete k m) = (map_of m)(k := None)"
  by (rule delete_conv')

lemma set_alist_update:
  "distinct (map fst m) \<Longrightarrow> set (AList.update k v m) = insert (k, v) {kv \<in> set m. fst kv \<noteq> k}"
  by (induction m) (auto simp: rev_image_eqI)

text \<open>
  Sorting the values of a map by an injective key gives a result that does not depend on the
  order in which the map was iterated.
\<close>

lemma sort_key_set_eq:
  fixes f :: "'a \<Rightarrow> 'b::linorder"
  assumes "distinct xs" "distinct ys" "set xs = set ys" "inj_on f (set xs)"
  shows "sort_key f xs = sort_key f ys"
proof -
  have "inj_on f (set (sort_key f xs) \<union> set (sort_key f ys))"
    using assms(3,4) by simp
  then show ?thesis
    using assms by (intro map_sorted_distinct_set_unique [of f]) (simp_all add: distinct_map)
qed

lemma trim_by_length: "length (trim_by ws s) \<le> length s"
  using trim_by_suffix [of ws s] by (rule suffix_length_le)

lemma trimmed_no_trail:
  assumes "trimmed s"
  shows "lead_space (map rev space_codes) (rev s) = 0"
proof -
  let ?l = "trim_by space_codes s"
  have "rev (trim_by (map rev space_codes) (rev ?l)) = s" using assms by (simp add: trimmed_def trim_space_def)
  then have "length s \<le> length ?l" using trim_by_length [of "map rev space_codes" "rev ?l"]
    by (metis length_rev)
  then have "?l = s" using trim_by_suffix [of space_codes s]
    by (metis append_eq_append_conv append_Nil suffix_def suffix_length_le le_antisym)
  then have "trim_by (map rev space_codes) (rev s) = rev s"
    using assms by (metis rev_rev_ident trim_space_def trimmed_def)
  then show ?thesis by (metis trim_by_no_lead)
qed

lemma prefix_append_avoid: "prefix w (xs @ y # zs) \<Longrightarrow> y \<notin> set w \<Longrightarrow> prefix w xs"
  by (induction xs arbitrary: w) (auto simp: prefix_Cons)

text \<open>A visible ASCII prefix before a trimmed text leaves the whole trimmed.\<close>

lemma trimmed_key:
  assumes "plain_char c" and "plain_char d" and "trimmed s"
  shows "trimmed (c # p @ d # s)"
proof -
  let ?k = "c # p @ d # s"
  have "\<forall>w \<in> set space_codes. \<not> (32 < hd w \<and> hd w < 128)" by (simp add: space_codes_def)
  then have "lead_space space_codes ?k = 0" using assms(1) by (intro lead_space_plain)
  moreover have "lead_space (map rev space_codes) (rev ?k) = 0"
    unfolding lead_space_0_iff [OF space_codes_nonempty(2)]
  proof
    fix w assume w: "w \<in> set (map rev space_codes)"
    have "\<forall>w \<in> set (map rev space_codes). \<forall>b \<in> set w. \<not> (32 < b \<and> b < 128)"
      by (simp add: space_codes_def)
    with w assms(2) have d: "of_char d \<notin> set w" by (auto simp: plain_char_def)
    have "\<not> prefix w (bytes_of (rev s))"
      using trimmed_no_trail [OF assms(3)] w unfolding lead_space_0_iff [OF space_codes_nonempty(2)] by blast
    then show "\<not> prefix w (bytes_of (rev ?k))"
      using prefix_append_avoid [OF _ d, of "bytes_of (rev s)" "bytes_of (rev (c # p))"]
      by (auto simp: bytes_of_def)
  qed
  ultimately show ?thesis by (simp add: trimmed_def trim_space_def trim_by_fixed)
qed

lemma utf8_size_append: "utf8_size bs \<noteq> 0 \<Longrightarrow> utf8_size (bs @ cs) = utf8_size bs"
proof -
  assume h: "utf8_size bs \<noteq> 0"
  consider "bs = []" | b0 where "bs = [b0]" | b0 b1 where "bs = [b0, b1]"
    | b0 b1 b2 where "bs = [b0, b1, b2]" | b0 b1 b2 b3 r where "bs = b0 # b1 # b2 # b3 # r"
    by (metis list.exhaust)
  then show ?thesis
    using h by cases (simp_all split: if_splits)
qed

lemma utf8_size_le: "utf8_size bs \<le> length bs"
  by (cases bs rule: utf8_size.cases) (auto split: list.splits)

lemma utf8_coerce_length: "length s \<le> length (utf8_coerce s)"
proof (induction s rule: utf8_coerce.induct)
  case (1 s)
  show ?case
  proof (cases s)
    case (Cons c cs)
    let ?n = "utf8_size (bytes_of s)"
    have "?n \<le> length s" using utf8_size_le [of "bytes_of s"] by (simp add: bytes_of_def)
    then show ?thesis using 1 Cons
      by (subst utf8_coerce.simps) (cases "?n = 0"; simp add: Let_def; fastforce)
  qed simp
qed

lemma valid_utf8_step:
  assumes "valid_utf8 (c # cs)"
  shows "utf8_size (bytes_of (c # cs)) \<noteq> 0"
    and "valid_utf8 (drop (utf8_size (bytes_of (c # cs))) (c # cs))"
proof -
  let ?s = "c # cs" and ?n = "utf8_size (bytes_of (c # cs))"
  have v: "utf8_coerce ?s = ?s" using assms by (simp add: valid_utf8_def)
  show n: "?n \<noteq> 0"
  proof
    assume "?n = 0"
    then have "length (utf8_coerce ?s) = 3 + length (utf8_coerce cs)"
      by (subst utf8_coerce.simps) simp
    with v utf8_coerce_length [of cs] show False by simp
  qed
  have "take ?n ?s @ utf8_coerce (drop ?n ?s) = take ?n ?s @ drop ?n ?s"
    using v n by (subst (asm) utf8_coerce.simps) (simp add: Let_def)
  then show "valid_utf8 (drop ?n ?s)" by (simp only: same_append_eq valid_utf8_def)
qed

lemma valid_utf8_append: "valid_utf8 a \<Longrightarrow> valid_utf8 b \<Longrightarrow> valid_utf8 (a @ b)"
proof (induction a rule: length_induct)
  case (1 a)
  show ?case
  proof (cases a)
    case Nil
    with 1 show ?thesis by simp
  next
    case (Cons c cs)
    let ?n = "utf8_size (bytes_of a)"
    have n: "?n \<noteq> 0" "valid_utf8 (drop ?n a)" using valid_utf8_step 1 Cons by auto
    have le: "?n \<le> length a" using utf8_size_le [of "bytes_of a"] by (simp add: bytes_of_def)
    have "length (drop ?n a) < length a" using n(1) Cons by simp
    with 1 n(2) have v: "valid_utf8 (drop ?n a @ b)" by blast
    have "utf8_size (bytes_of (a @ b)) = ?n"
      using utf8_size_append [of "bytes_of a" "bytes_of b"] n(1) by (simp add: bytes_of_def)
    then have "utf8_coerce (a @ b) = take ?n (a @ b) @ utf8_coerce (drop ?n (a @ b))"
      using n(1) Cons by (subst utf8_coerce.simps) (simp add: Let_def)
    with le v show ?thesis by (simp add: valid_utf8_def)
  qed
qed

lemma is_ascii_itoa: "is_ascii (itoa n)"
  using itoa_digits [of _ n] unfolding is_ascii_def by (force simp: of_char_def)

lemma itoa_not_Nil [simp]: "itoa n \<noteq> []"
  by (subst itoa.simps) simp

lemma trimmed_number_key: "plain_char c \<Longrightarrow> trimmed (c # p @ itoa n)"
proof -
  assume c: "plain_char c"
  have "last (itoa n) \<in> set (itoa n)" by simp
  from itoa_digits [OF this] have "plain_char (last (itoa n))"
    using of_nat_of_char [of "last (itoa n)", where 'a = int] unfolding plain_char_def by linarith
  with c show ?thesis unfolding trimmed_def by (intro trim_space_plain) simp_all
qed
text \<open>
  Values that survive the trip through a JSON payload and the coercion of the log line.
\<close>

lemma coerce_json_JObj:
  "coerce_json (JObj fs) = JObj (map (\<lambda>(k, v). (utf8_coerce k, coerce_json v)) fs)"
  by (simp add: case_prod_beta o_def)

lemma coerce_enc [simp]:
  "valid_utf8 s \<Longrightarrow> coerce_json (enc_str s) = enc_str s"
  "list_all valid_utf8 ss \<Longrightarrow> coerce_json (enc_strs ss) = enc_strs ss"
  "small_u64 r \<Longrightarrow> coerce_json (enc_u64 G r) = enc_u64 G r"
  "small_int n \<Longrightarrow> coerce_json (enc_int G n) = enc_int G n"
  by (auto simp: enc_str_def enc_strs_def enc_u64_def enc_int_def valid_utf8_def list_all_iff
      small_u64_def small_int_def)

lemma map_of_omit [simp]:
  "map_of (omit_str k s @ fs) k' = (if s \<noteq> [] \<and> k' = k then Some (enc_str s) else map_of fs k')"
  "map_of (omit_strs k ss @ fs) k' = (if ss \<noteq> [] \<and> k' = k then Some (enc_strs ss) else map_of fs k')"
  by (simp_all add: omit_str_def omit_strs_def)

lemma coerce_omit:
  "is_ascii k \<Longrightarrow> valid_utf8 s \<Longrightarrow>
     map (\<lambda>(k, v). (utf8_coerce k, coerce_json v)) (omit_str k s) = omit_str k s"
  "is_ascii k \<Longrightarrow> list_all valid_utf8 ss \<Longrightarrow>
     map (\<lambda>(k, v). (utf8_coerce k, coerce_json v)) (omit_strs k ss) = omit_strs k ss"
  by (simp_all add: omit_str_def omit_strs_def utf8_coerce_ascii)

lemma jfield_JObj: "jfield k (JObj fs) = Some (case map_of fs k of None \<Rightarrow> JNull | Some v \<Rightarrow> v)"
  by (simp add: jfield_def)

lemma dec_omit:
  "dec_time (JTime t) = Some t"
  "valid_utf8 s \<Longrightarrow> dec_str (case (if s \<noteq> [] then Some (enc_str s) else None) of
     None \<Rightarrow> JNull | Some v \<Rightarrow> v) = Some s"
  "list_all valid_utf8 ss \<Longrightarrow> dec_strs (case (if ss \<noteq> [] then Some (enc_strs ss) else None) of
     None \<Rightarrow> JNull | Some v \<Rightarrow> v) = Some ss"
  using dec_str_enc [of s] dec_strs_enc [of ss]
  by (simp_all add: dec_time_def) (simp_all add: dec_str_def dec_strs_def)

lemma valid_utf8_Cons: "of_char c < (128::int) \<Longrightarrow> valid_utf8 (c # s) = valid_utf8 s"
  unfolding valid_utf8_def by (subst utf8_coerce.simps) (simp add: bytes_of_def)

lemma valid_utf8_itoa: "valid_utf8 (itoa n)"
  by (rule valid_utf8_ascii [OF is_ascii_itoa])

end
