(* ===== verification/EventLog.thy ===== *)
theory EventLog
  imports Prelude
begin

text \<open>
  The durable event log of \<open>internal/runtimeevents\<close>: one append-only JSON-lines file and one
  snapshot file per (workspace, task). The file system part the store owns is the record
  \<open>evstore\<close>; a file is the list of its lines, each a decoded event or a torn line that does
  not parse. Lines are assumed to stay below the scanner's 4 MiB limit. The clock and the
  outcome of the write are arguments of the operations.

  The theory shows that \<open>Append\<close> keeps every log readable with contiguous sequence numbers and
  unique idempotency keys, that a repeated key appends nothing, and that \<open>Replay\<close> returns the
  snapshot with exactly the events after it.
\<close>

section \<open>Types\<close>

abbreviation SchemaVersion :: int where "SchemaVersion \<equiv> 1"

datatype ev_error = ErrInvalidEvent | ErrCorruptLog | EvIO string

record event =
  ev_schema :: int
  ev_seq :: u64
  ev_id :: string
  ev_type :: string
  ev_time :: gotime
  ev_session :: string
  ev_task :: string
  ev_agent :: string
  ev_activation :: string
  ev_worktree :: string
  ev_patch :: string
  ev_trace :: string
  ev_idem :: string
  ev_payload :: "(string \<times> json) list"

record snapshot =
  sn_schema :: int
  sn_task :: string
  sn_seq :: u64
  sn_created :: gotime
  sn_state :: "(string \<times> json) list"

definition zero_event :: event where
  "zero_event = \<lparr>ev_schema = 0, ev_seq = 0, ev_id = [], ev_type = [], ev_time = 0, ev_session = [],
     ev_task = [], ev_agent = [], ev_activation = [], ev_worktree = [], ev_patch = [], ev_trace = [],
     ev_idem = [], ev_payload = []\<rparr>"

definition zero_snapshot :: snapshot where
  "zero_snapshot = \<lparr>sn_schema = 0, sn_task = [], sn_seq = 0, sn_created = 0, sn_state = []\<rparr>"

definition normalizeEvent :: "gotime \<Rightarrow> event \<Rightarrow> string \<Rightarrow> ev_error + event" where
  "normalizeEvent now e task0 =
     (let task = trim_space task0;
          e1 = e\<lparr>ev_task := trim_space (ev_task e), ev_type := trim_space (ev_type e),
                 ev_id := trim_space (ev_id e), ev_session := trim_space (ev_session e),
                 ev_agent := trim_space (ev_agent e), ev_activation := trim_space (ev_activation e),
                 ev_worktree := trim_space (ev_worktree e), ev_patch := trim_space (ev_patch e),
                 ev_trace := trim_space (ev_trace e), ev_idem := trim_space (ev_idem e)\<rparr>
      in if task = [] \<or> ev_type e1 = [] then Inl ErrInvalidEvent
         else
           let e2 = (if ev_task e1 = [] then e1\<lparr>ev_task := task\<rparr> else e1) in
           if ev_task e2 \<noteq> task then Inl ErrInvalidEvent
           else
             let e3 = (if ev_schema e2 = 0 then e2\<lparr>ev_schema := SchemaVersion\<rparr> else e2) in
             if ev_schema e3 \<noteq> SchemaVersion then Inl ErrInvalidEvent
             else Inr (if ev_time e3 = 0 then e3\<lparr>ev_time := now\<rparr> else e3))"

definition normalizeSnapshot :: "gotime \<Rightarrow> snapshot \<Rightarrow> string \<Rightarrow> ev_error + snapshot" where
  "normalizeSnapshot now sn task0 =
     (let task = trim_space task0;
          s1 = sn\<lparr>sn_task := trim_space (sn_task sn)\<rparr>
      in if task = [] then Inl ErrInvalidEvent
         else
           let s2 = (if sn_task s1 = [] then s1\<lparr>sn_task := task\<rparr> else s1) in
           if sn_task s2 \<noteq> task then Inl ErrInvalidEvent
           else
             let s3 = (if sn_schema s2 = 0 then s2\<lparr>sn_schema := SchemaVersion\<rparr> else s2) in
             if sn_schema s3 \<noteq> SchemaVersion then Inl ErrInvalidEvent
             else Inr (if sn_created s3 = 0 then s3\<lparr>sn_created := now\<rparr> else s3))"

section \<open>The store\<close>

datatype evline = Line event | Torn

type_synonym evpath = "string \<times> string"

record evstore =
  ev_files :: "evpath \<Rightarrow> evline list"
  ev_snaps :: "evpath \<Rightarrow> snapshot option"

definition empty_evstore :: evstore where
  "empty_evstore = \<lparr>ev_files = (\<lambda>_. []), ev_snaps = (\<lambda>_. None)\<rparr>"

abbreviation defaultListLimit :: int where "defaultListLimit \<equiv> 500"
abbreviation maxListLimit :: int where "maxListLimit \<equiv> 5000"

definition ev_digest :: "('z) goenv_scheme \<Rightarrow> string list \<Rightarrow> string" where
  "ev_digest G parts =
     take 24 (sha256hex G (concat (map (\<lambda>p. trim_space p @ [CHR 0x00]) parts)))"

definition eventPath :: "('z) goenv_scheme \<Rightarrow> string \<Rightarrow> string \<Rightarrow> evpath" where
  "eventPath G ws task = (ev_digest G [''workspace'', ws], ev_digest G [''task'', task])"

definition validateScope :: "string \<Rightarrow> string \<Rightarrow> bool" where
  "validateScope ws task \<longleftrightarrow> \<not> (trim_space ws = [] \<or> trim_space task = [])"

definition bad_envelope :: "event \<Rightarrow> bool" where
  "bad_envelope e \<longleftrightarrow> ev_schema e \<noteq> SchemaVersion \<or> ev_seq e = 0 \<or> ev_id e = [] \<or> ev_type e = []
     \<or> ev_task e = []"

fun read_lines :: "u64 \<Rightarrow> evline list \<Rightarrow> ev_error + event list" where
  "read_lines previous [] = Inr []"
| "read_lines previous (Torn # ls) = Inl ErrCorruptLog"
| "read_lines previous (Line e # ls) =
     (if bad_envelope e then Inl ErrCorruptLog
      else if previous \<noteq> 0 \<and> ev_seq e \<noteq> previous + 1 then Inl ErrCorruptLog
      else (case read_lines (ev_seq e) ls of Inl x \<Rightarrow> Inl x | Inr es \<Rightarrow> Inr (e # es)))"

definition readEvents :: "evline list \<Rightarrow> ev_error + event list" where
  "readEvents ls = read_lines 0 ls"

text \<open>The event as it comes back from its JSON line.\<close>

definition coerce_event :: "event \<Rightarrow> event" where
  "coerce_event e = e\<lparr>ev_id := utf8_coerce (ev_id e), ev_type := utf8_coerce (ev_type e),
     ev_session := utf8_coerce (ev_session e), ev_task := utf8_coerce (ev_task e),
     ev_agent := utf8_coerce (ev_agent e), ev_activation := utf8_coerce (ev_activation e),
     ev_worktree := utf8_coerce (ev_worktree e), ev_patch := utf8_coerce (ev_patch e),
     ev_trace := utf8_coerce (ev_trace e), ev_idem := utf8_coerce (ev_idem e),
     ev_payload := map (\<lambda>(k, v). (utf8_coerce k, coerce_json v)) (ev_payload e)\<rparr>"

definition eventID :: "('z) goenv_scheme \<Rightarrow> string \<Rightarrow> u64 \<Rightarrow> event \<Rightarrow> string" where
  "eventID G task seq e = ''evt_'' @
     ev_digest G [task, itoa (unat seq), ev_type e, fmt_time G (ev_time e), ev_idem e]"

text \<open>\<open>AppendJSONLDurable\<close> on the log file, with the error it reports.\<close>

definition write_line ::
  "write_outcome \<Rightarrow> evline list \<Rightarrow> event \<Rightarrow> evline list \<times> ev_error option" where
  "write_line io ls e =
     (case io of
        WOk \<Rightarrow> (ls @ [Line (coerce_event e)], None)
      | WLost x \<Rightarrow> (ls, Some (EvIO x))
      | WTorn x \<Rightarrow> (ls @ [Torn], Some (EvIO x))
      | WUnsynced x \<Rightarrow> (ls @ [Line (coerce_event e)], Some (EvIO x)))"

definition find_idem :: "string \<Rightarrow> event list \<Rightarrow> event option" where
  "find_idem k evs = (if k = [] then None else find (\<lambda>x. ev_idem x = k) evs)"

definition next_seq :: "event list \<Rightarrow> u64" where
  "next_seq evs = (if evs = [] then 1 else ev_seq (last evs) + 1)"

definition ev_append ::
  "('z) goenv_scheme \<Rightarrow> gotime \<Rightarrow> write_outcome \<Rightarrow> evstore \<Rightarrow> string \<Rightarrow> string \<Rightarrow> event
     \<Rightarrow> evstore \<times> (ev_error + event \<times> bool)" where
  "ev_append G now io s ws task e0 =
     (if \<not> validateScope ws task then (s, Inl ErrInvalidEvent)
      else case normalizeEvent now e0 task of
        Inl x \<Rightarrow> (s, Inl x)
      | Inr e1 \<Rightarrow>
          let p = eventPath G ws task in
          case readEvents (ev_files s p) of
            Inl x \<Rightarrow> (s, Inl x)
          | Inr evs \<Rightarrow>
              case find_idem (ev_idem e1) evs of
                Some old \<Rightarrow> (s, Inr (old, False))
              | None \<Rightarrow>
                  let seq = next_seq evs;
                      e2 = e1\<lparr>ev_seq := seq\<rparr>;
                      e3 = (if ev_id e2 = [] then e2\<lparr>ev_id := eventID G task seq e2\<rparr> else e2);
                      (ls, err) = write_line io (ev_files s p) e3;
                      s' = s\<lparr>ev_files := (ev_files s)(p := ls)\<rparr>
                  in (s', case err of Some x \<Rightarrow> Inl x | None \<Rightarrow> Inr (e3, True)))"

definition clamp_limit :: "int \<Rightarrow> nat" where
  "clamp_limit limit =
     (let l1 = (if limit \<le> 0 then defaultListLimit else limit);
          l2 = (if l1 > maxListLimit then maxListLimit else l1)
      in nat l2)"

definition ev_list ::
  "('z) goenv_scheme \<Rightarrow> evstore \<Rightarrow> string \<Rightarrow> string \<Rightarrow> u64 \<Rightarrow> int \<Rightarrow> ev_error + event list" where
  "ev_list G s ws task after limit =
     (if \<not> validateScope ws task then Inl ErrInvalidEvent
      else case readEvents (ev_files s (eventPath G ws task)) of
        Inl x \<Rightarrow> Inl x
      | Inr evs \<Rightarrow> Inr (take (clamp_limit limit) (filter (\<lambda>e. \<not> ev_seq e \<le> after) evs)))"

definition LatestSequence ::
  "('z) goenv_scheme \<Rightarrow> evstore \<Rightarrow> string \<Rightarrow> string \<Rightarrow> ev_error + u64" where
  "LatestSequence G s ws task =
     (if \<not> validateScope ws task then Inl ErrInvalidEvent
      else case readEvents (ev_files s (eventPath G ws task)) of
        Inl x \<Rightarrow> Inl x
      | Inr evs \<Rightarrow> Inr (if evs = [] then 0 else ev_seq (last evs)))"

text \<open>\<open>WriteJSONAtomic\<close> replaces the file by a rename, so a failed write never tears it.\<close>

definition SaveSnapshot ::
  "('z) goenv_scheme \<Rightarrow> gotime \<Rightarrow> write_outcome \<Rightarrow> evstore \<Rightarrow> string \<Rightarrow> string \<Rightarrow> snapshot
     \<Rightarrow> evstore \<times> (ev_error + snapshot)" where
  "SaveSnapshot G now io s ws task sn0 =
     (if \<not> validateScope ws task then (s, Inl ErrInvalidEvent)
      else case normalizeSnapshot now sn0 task of
        Inl x \<Rightarrow> (s, Inl x)
      | Inr sn \<Rightarrow>
          let p = eventPath G ws task in
          case readEvents (ev_files s p) of
            Inl x \<Rightarrow> (s, Inl x)
          | Inr evs \<Rightarrow>
              let latest = (if evs = [] then 0 else ev_seq (last evs)) in
              if sn_seq sn > latest then (s, Inl ErrInvalidEvent)
              else
                let disk = sn\<lparr>sn_task := utf8_coerce (sn_task sn),
                              sn_state := map (\<lambda>(k, v). (utf8_coerce k, coerce_json v)) (sn_state sn)\<rparr>;
                    s' = s\<lparr>ev_snaps := (ev_snaps s)(p := Some disk)\<rparr>
                in case io of
                     WOk \<Rightarrow> (s', Inr sn)
                   | WUnsynced x \<Rightarrow> (s', Inl (EvIO x))
                   | WLost x \<Rightarrow> (s, Inl (EvIO x))
                   | WTorn x \<Rightarrow> (s, Inl (EvIO x)))"

definition LoadSnapshot ::
  "('z) goenv_scheme \<Rightarrow> evstore \<Rightarrow> string \<Rightarrow> string \<Rightarrow> ev_error + snapshot option" where
  "LoadSnapshot G s ws task =
     (if \<not> validateScope ws task then Inl ErrInvalidEvent
      else case ev_snaps s (eventPath G ws task) of
        None \<Rightarrow> Inr None
      | Some sn \<Rightarrow>
          if sn_schema sn \<noteq> SchemaVersion \<or> trim_space (sn_task sn) \<noteq> trim_space task
          then Inl ErrCorruptLog else Inr (Some sn))"

definition Replay ::
  "('z) goenv_scheme \<Rightarrow> evstore \<Rightarrow> string \<Rightarrow> string \<Rightarrow> int
     \<Rightarrow> ev_error + (snapshot option \<times> event list)" where
  "Replay G s ws task limit =
     (case LoadSnapshot G s ws task of
        Inl x \<Rightarrow> Inl x
      | Inr sn \<Rightarrow>
          let after = (case sn of None \<Rightarrow> 0 | Some x \<Rightarrow> sn_seq x) in
          case ev_list G s ws task after limit of Inl x \<Rightarrow> Inl x | Inr evs \<Rightarrow> Inr (sn, evs))"

section \<open>The log invariant\<close>

text \<open>
  A well-formed log: every line parses, the \<open>i\<close>-th event has sequence number \<open>i\<close> (from 1) and
  a complete envelope, and no two events carry the same non-empty idempotency key.
\<close>

fun wf_from :: "nat \<Rightarrow> evline list \<Rightarrow> bool" where
  "wf_from n [] = True"
| "wf_from n (Torn # ls) = False"
| "wf_from n (Line e # ls) =
     (ev_seq e = of_nat (Suc n) \<and> \<not> bad_envelope e \<and> wf_from (Suc n) ls)"

fun log_events :: "evline list \<Rightarrow> event list" where
  "log_events [] = []"
| "log_events (Torn # ls) = log_events ls"
| "log_events (Line e # ls) = e # log_events ls"

definition idem_keys :: "evline list \<Rightarrow> string list" where
  "idem_keys ls = filter (\<lambda>k. k \<noteq> []) (map ev_idem (log_events ls))"

definition log_inv :: "evline list \<Rightarrow> bool" where
  "log_inv ls \<longleftrightarrow> wf_from 0 ls \<and> distinct (idem_keys ls)"

lemma wf_from_append: "wf_from n (ls @ ks) \<longleftrightarrow> wf_from n ls \<and> wf_from (n + length ls) ks"
  by (induction n ls rule: wf_from.induct) auto

lemma log_events_append [simp]: "log_events (ls @ ks) = log_events ls @ log_events ks"
  by (induction ls rule: log_events.induct) auto

lemma length_log_events: "wf_from n ls \<Longrightarrow> length (log_events ls) = length ls"
  by (induction n ls rule: wf_from.induct) auto

lemma idem_keys_append [simp]: "idem_keys (ls @ ks) = idem_keys ls @ idem_keys ks"
  by (simp add: idem_keys_def)

lemma read_lines_wf: "wf_from n ls \<Longrightarrow> read_lines (of_nat n) ls = Inr (log_events ls)"
proof (induction n ls rule: wf_from.induct)
  case (3 n e ls)
  then have "read_lines (of_nat (Suc n)) ls = Inr (log_events ls)" by simp
  with "3.prems" show ?case by (simp add: add.commute)
qed simp_all

lemma readEvents_wf: "wf_from 0 ls \<Longrightarrow> readEvents ls = Inr (log_events ls)"
  using read_lines_wf [of 0 ls] by (simp add: readEvents_def)

lemma wf_from_nth: "wf_from n ls \<Longrightarrow> i < length ls \<Longrightarrow> ev_seq (log_events ls ! i) = of_nat (Suc (n + i))"
  by (induction n ls arbitrary: i rule: wf_from.induct) (auto simp: nth_Cons' add_ac gr0_conv_Suc)

lemma next_seq_wf: "wf_from 0 ls \<Longrightarrow> next_seq (log_events ls) = of_nat (Suc (length ls))"
proof (cases ls rule: rev_cases)
  case Nil
  then show ?thesis by (simp add: next_seq_def)
next
  case (snoc ks l)
  assume "wf_from 0 ls"
  with snoc obtain e where "l = Line e" "ev_seq e = of_nat (Suc (length ks))"
    by (cases l) (auto simp: wf_from_append)
  with snoc show ?thesis by (simp add: next_seq_def add.commute)
qed

lemma torn_unreadable: "Torn \<in> set ls \<Longrightarrow> read_lines n ls = Inl ErrCorruptLog"
  by (induction n ls rule: read_lines.induct) (auto split: sum.splits)

lemma find_idem_None:
  "find_idem k (log_events ls) = None \<Longrightarrow> k \<noteq> [] \<Longrightarrow> k \<notin> set (idem_keys ls)"
  by (auto simp: find_idem_def idem_keys_def find_None_iff split: if_splits)

section \<open>What one append does\<close>

text \<open>The shape of every accepted event, and the file after it.\<close>

lemma normalizeEvent_Inr:
  assumes "normalizeEvent now e0 task = Inr e1"
  shows "ev_schema e1 = SchemaVersion" "ev_type e1 = trim_space (ev_type e0)" "ev_type e1 \<noteq> []"
    "ev_task e1 = trim_space task" "ev_task e1 \<noteq> []" "ev_idem e1 = trim_space (ev_idem e0)"
    "ev_payload e1 = ev_payload e0" "ev_id e1 = trim_space (ev_id e0)"
proof -
  have "ev_schema e1 = SchemaVersion \<and> ev_type e1 = trim_space (ev_type e0) \<and> ev_type e1 \<noteq> [] \<and>
    ev_task e1 = trim_space task \<and> ev_task e1 \<noteq> [] \<and> ev_idem e1 = trim_space (ev_idem e0) \<and>
    ev_payload e1 = ev_payload e0 \<and> ev_id e1 = trim_space (ev_id e0)"
    using assms unfolding normalizeEvent_def Let_def by (simp split: if_split_asm) auto
  then show "ev_schema e1 = SchemaVersion" "ev_type e1 = trim_space (ev_type e0)" "ev_type e1 \<noteq> []"
    "ev_task e1 = trim_space task" "ev_task e1 \<noteq> []" "ev_idem e1 = trim_space (ev_idem e0)"
    "ev_payload e1 = ev_payload e0" "ev_id e1 = trim_space (ev_id e0)" by blast+
qed

definition stored_event ::
  "('z) goenv_scheme \<Rightarrow> string \<Rightarrow> event list \<Rightarrow> event \<Rightarrow> event" where
  "stored_event G task evs e1 =
     (let e2 = e1\<lparr>ev_seq := next_seq evs\<rparr> in
      if ev_id e2 = [] then e2\<lparr>ev_id := eventID G task (next_seq evs) e2\<rparr> else e2)"

lemma stored_event_fields [simp]:
  "ev_seq (stored_event G task evs e1) = next_seq evs"
  "ev_schema (stored_event G task evs e1) = ev_schema e1"
  "ev_type (stored_event G task evs e1) = ev_type e1"
  "ev_task (stored_event G task evs e1) = ev_task e1"
  "ev_idem (stored_event G task evs e1) = ev_idem e1"
  "ev_payload (stored_event G task evs e1) = ev_payload e1"
  "ev_id (stored_event G task evs e1) \<noteq> []"
  by (auto simp: stored_event_def Let_def eventID_def)

lemma coerce_event_fields [simp]:
  "ev_seq (coerce_event e) = ev_seq e" "ev_schema (coerce_event e) = ev_schema e"
  "ev_type (coerce_event e) = utf8_coerce (ev_type e)"
  "ev_idem (coerce_event e) = utf8_coerce (ev_idem e)"
  "ev_payload (coerce_event e) = map (\<lambda>(k, v). (utf8_coerce k, coerce_json v)) (ev_payload e)"
  "ev_task (coerce_event e) = utf8_coerce (ev_task e)"
  "ev_id (coerce_event e) = utf8_coerce (ev_id e)"
  by (simp_all add: coerce_event_def)

text \<open>An accepted append on a readable log, with a key that is not in the log yet.\<close>

lemma ev_append_fresh:
  assumes "validateScope ws task" and "normalizeEvent now e0 task = Inr e1"
    and "wf_from 0 (ev_files s (eventPath G ws task))"
    and "find_idem (ev_idem e1) (log_events (ev_files s (eventPath G ws task))) = None"
  shows "ev_append G now WOk s ws task e0 =
    (let ls = ev_files s (eventPath G ws task); e = stored_event G task (log_events ls) e1
     in (s\<lparr>ev_files := (ev_files s)(eventPath G ws task := ls @ [Line (coerce_event e)])\<rparr>,
         Inr (e, True)))"
  using assms by (simp add: ev_append_def readEvents_wf write_line_def stored_event_def Let_def)

lemma ev_append_files_cases:
  obtains (same) "ev_files (fst (ev_append G now io s ws task e0)) = ev_files s"
  | (torn) x where "io = WTorn x"
  | (added) e1 evs where "normalizeEvent now e0 task = Inr e1"
      "readEvents (ev_files s (eventPath G ws task)) = Inr evs"
      "find_idem (ev_idem e1) evs = None"
      "ev_files (fst (ev_append G now io s ws task e0)) =
         (ev_files s)(eventPath G ws task :=
            ev_files s (eventPath G ws task) @ [Line (coerce_event (stored_event G task evs e1))])"
proof (cases "validateScope ws task")
  case False
  then show ?thesis using same by (simp add: ev_append_def)
next
  case scope: True
  show ?thesis
  proof (cases "normalizeEvent now e0 task")
    case (Inl x)
    with scope show ?thesis using same by (simp add: ev_append_def)
  next
    case norm: (Inr e1)
    show ?thesis
    proof (cases "readEvents (ev_files s (eventPath G ws task))")
      case (Inl x)
      with scope norm show ?thesis using same by (simp add: ev_append_def)
    next
      case rd: (Inr evs)
      show ?thesis
      proof (cases "find_idem (ev_idem e1) evs")
        case (Some old)
        with scope norm rd show ?thesis using same by (simp add: ev_append_def)
      next
        case None
        with scope norm rd same torn added show ?thesis
          by (cases io) (auto simp: ev_append_def write_line_def stored_event_def Let_def)
      qed
    qed
  qed
qed

lemma wf_from_snoc:
  assumes "wf_from 0 ls" and "length ls < 2 ^ 64 - 1" and "ev_schema e = SchemaVersion"
    and "ev_seq e = of_nat (Suc (length ls))" and "ev_id e \<noteq> []" "ev_type e \<noteq> []" "ev_task e \<noteq> []"
  shows "wf_from 0 (ls @ [Line e])"
proof -
  have "(of_nat (Suc (length ls)) :: u64) \<noteq> 0"
    using assms(2) by (simp only: word_of_nat_eq_0_iff) (auto dest: dvd_imp_le)
  with assms show ?thesis by (simp add: wf_from_append bad_envelope_def)
qed

section \<open>Properties\<close>

definition logs_ok :: "evstore \<Rightarrow> bool" where
  "logs_ok s \<longleftrightarrow> (\<forall>p. log_inv (ev_files s p))"

lemma logs_okD: "logs_ok s \<Longrightarrow> log_inv (ev_files s p)"
  by (cases p) (simp add: logs_ok_def)

lemma logs_ok_wf: "logs_ok s \<Longrightarrow> wf_from 0 (ev_files s p)"
  by (simp add: log_inv_def logs_okD [unfolded log_inv_def])

lemma logs_ok_empty: "logs_ok empty_evstore"
  by (simp add: logs_ok_def empty_evstore_def log_inv_def idem_keys_def)

lemma empty_evstore_files [simp]: "ev_files empty_evstore p = []"
  by (simp add: empty_evstore_def)

lemma logs_ok_update: "logs_ok s \<Longrightarrow> log_inv ls \<Longrightarrow> logs_ok (s\<lparr>ev_files := (ev_files s)(p := ls)\<rparr>)"
  by (auto simp: logs_ok_def)

lemma log_inv_snoc:
  assumes "log_inv ls" and "length ls < 2 ^ 64 - 1"
    and "normalizeEvent now e0 task = Inr e1" and "valid_utf8 (ev_idem e1)"
    and "find_idem (ev_idem e1) (log_events ls) = None"
  shows "log_inv (ls @ [Line (coerce_event (stored_event G task (log_events ls) e1))])"
proof -
  let ?e = "coerce_event (stored_event G task (log_events ls) e1)"
  from assms(1) have wf: "wf_from 0 ls" by (simp add: log_inv_def)
  have "wf_from 0 (ls @ [Line ?e])"
    using wf assms(2) normalizeEvent_Inr [OF assms(3)]
    by (intro wf_from_snoc) (simp_all add: next_seq_wf)
  moreover have "distinct (idem_keys (ls @ [Line ?e]))"
    using assms(1,4,5) find_idem_None [of "ev_idem e1" ls]
    by (auto simp: log_inv_def idem_keys_def valid_utf8_def)
  ultimately show ?thesis by (simp add: log_inv_def)
qed

text \<open>
  C11. \<open>Store.Append\<close> keeps the log invariant of every log of the store: sequence numbers stay
  contiguous from 1, envelopes complete and idempotency keys unique, for every outcome of the
  write that does not tear the line and every key that is valid UTF-8.
\<close>

theorem ev_append_preserves_log_inv:
  assumes "logs_ok s" and "length (ev_files s (eventPath G ws task)) < 2 ^ 64 - 1"
    and "\<forall>x. io \<noteq> WTorn x" and "valid_utf8 (trim_space (ev_idem e0))"
  shows "logs_ok (fst (ev_append G now io s ws task e0))"
proof (cases rule: ev_append_files_cases [of G now io s ws task e0])
  case same
  with assms(1) show ?thesis by (simp add: logs_ok_def)
next
  case (torn x)
  with assms(3) show ?thesis by simp
next
  case (added e1 evs)
  let ?p = "eventPath G ws task"
  have "evs = log_events (ev_files s ?p)"
    using added(2) by (simp add: readEvents_wf [OF logs_ok_wf [OF assms(1)]])
  moreover have "valid_utf8 (ev_idem e1)"
    using assms(4) normalizeEvent_Inr(6) [OF added(1)] by simp
  ultimately have "log_inv (ev_files s ?p @ [Line (coerce_event (stored_event G task evs e1))])"
    using log_inv_snoc [of "ev_files s ?p" now e0 task e1 G] logs_okD [OF assms(1)] assms(2) added(1,3)
    by simp
  with assms(1) added(4) show ?thesis by (simp add: logs_ok_def)
qed

definition demo_env :: goenv where
  "demo_env = \<lparr>sha256hex = (\<lambda>_. ''h''), lower_unicode = (\<lambda>s. s), json_big = (\<lambda>_. JNull),
     fmt_time = (\<lambda>_. ''t'')\<rparr>"

definition demo_event :: event where
  "demo_event = zero_event\<lparr>ev_type := ''tick'', ev_idem := ''k1''\<rparr>"

theorem ev_append_preserves_log_inv_witness:
  "logs_ok (fst (ev_append demo_env 7 WOk empty_evstore ''w'' ''t'' demo_event))"
proof (rule ev_append_preserves_log_inv)
  show "logs_ok empty_evstore" by (rule logs_ok_empty)
  show "length (ev_files empty_evstore (eventPath demo_env ''w'' ''t'')) < 2 ^ 64 - 1"
    by (simp add: empty_evstore_def)
  show "\<forall>x. WOk \<noteq> WTorn x" by simp
  show "valid_utf8 (trim_space (ev_idem demo_event))" by code_simp
qed

text \<open>
  \<open>Append\<close> is idempotent in the key: after an append that was durably written, a second
  append to the same task with the same key, whatever its other fields and whatever the
  outcome a write would have, changes nothing and returns the first event with
  \<open>appended = false\<close>.
\<close>

theorem ev_append_idempotent:
  assumes "ev_append G now WOk s ws task e0 = (s', Inr (e, True))"
    and "logs_ok s" and "length (ev_files s (eventPath G ws task)) < 2 ^ 64 - 1"
    and "trim_space (ev_idem e0) \<noteq> []" and "valid_utf8 (trim_space (ev_idem e0))"
    and "normalizeEvent now2 e0' task = Inr e1'" and "trim_space (ev_idem e0') = trim_space (ev_idem e0)"
  shows "ev_append G now2 io s' ws task e0' = (s', Inr (coerce_event e, False))"
proof -
  let ?ls = "ev_files s (eventPath G ws task)"
  have wf: "log_inv ?ls" "wf_from 0 ?ls" using assms(2) by (auto intro: logs_okD logs_ok_wf)
  obtain e1 where norm: "normalizeEvent now e0 task = Inr e1" and sc: "validateScope ws task"
    and fresh: "find_idem (ev_idem e1) (log_events ?ls) = None"
    using assms(1) wf(2)
    by (auto simp: ev_append_def readEvents_wf Let_def split: if_splits sum.splits option.splits)
  have s': "s' = s\<lparr>ev_files := (ev_files s)(eventPath G ws task := ?ls @ [Line (coerce_event e)])\<rparr>"
    and e: "e = stored_event G task (log_events ?ls) e1"
    using assms(1) ev_append_fresh [OF sc norm wf(2) fresh] by (auto simp: Let_def)
  have "valid_utf8 (ev_idem e1)" and k1: "ev_idem e1 = trim_space (ev_idem e0)"
    using assms(5) normalizeEvent_Inr(6) [OF norm] by simp_all
  then have key: "ev_idem (coerce_event e) = trim_space (ev_idem e0)"
    by (simp add: e valid_utf8_def)
  have "log_inv (?ls @ [Line (coerce_event e)])"
    using log_inv_snoc [OF wf(1) assms(3) norm \<open>valid_utf8 (ev_idem e1)\<close> fresh] by (simp add: e)
  then have rd: "readEvents (?ls @ [Line (coerce_event e)]) = Inr (log_events ?ls @ [coerce_event e])"
    by (simp add: log_inv_def readEvents_wf)
  have "find_idem (trim_space (ev_idem e0)) (log_events ?ls @ [coerce_event e]) = Some (coerce_event e)"
    using fresh assms(4) key k1 by (auto simp: find_idem_def find_append_case)
  then show ?thesis
    using sc rd assms(6,7) normalizeEvent_Inr(6) [OF assms(6)] by (simp add: ev_append_def s' Let_def)
qed

theorem ev_append_idempotent_witness:
  "let (s1, r1) = ev_append demo_env 7 WOk empty_evstore ''w'' ''t'' demo_event
   in case r1 of Inr (e, True) \<Rightarrow>
        ev_append demo_env 9 (WLost ''x'') s1 ''w'' ''t'' (demo_event\<lparr>ev_agent := ''a''\<rparr>)
          = (s1, Inr (coerce_event e, False))
      | _ \<Rightarrow> False"
proof -
  let ?r = "ev_append demo_env 7 WOk empty_evstore ''w'' ''t'' demo_event"
  obtain e where e: "snd ?r = Inr (e, True)"
  proof -
    have "case snd ?r of Inr (e, True) \<Rightarrow> True | _ \<Rightarrow> False" by code_simp
    then show ?thesis using that by (auto split: sum.splits prod.splits bool.splits)
  qed
  have n: "\<exists>e1. normalizeEvent 9 (demo_event\<lparr>ev_agent := ''a''\<rparr>) ''t'' = Inr e1"
  proof -
    have "case normalizeEvent 9 (demo_event\<lparr>ev_agent := ''a''\<rparr>) ''t'' of Inr _ \<Rightarrow> True | Inl _ \<Rightarrow> False"
      by code_simp
    then show ?thesis by (auto split: sum.splits)
  qed
  have k: "trim_space (ev_idem demo_event) = ''k1''" "valid_utf8 (trim_space (ev_idem demo_event))"
    by code_simp+
  have "ev_append demo_env 9 (WLost ''x'') (fst ?r) ''w'' ''t'' (demo_event\<lparr>ev_agent := ''a''\<rparr>)
          = (fst ?r, Inr (coerce_event e, False))"
    using n k e
    by (elim exE, intro ev_append_idempotent [of demo_env 7 empty_evstore _ _ demo_event])
      (auto simp: prod_eq_iff logs_ok_empty empty_evstore_files demo_event_def)
  with e show ?thesis by (auto simp: case_prod_beta)
qed

lemma seq_filter_drop:
  assumes "wf_from n ls" and "n + length ls < 2 ^ 64" and "n \<le> unat k"
  shows "filter (\<lambda>e. \<not> ev_seq e \<le> k) (log_events ls) = drop (unat k - n) (log_events ls)"
  using assms
proof (induction n ls rule: wf_from.induct)
  case (3 n e ls)
  then have small: "Suc n < 2 ^ 64" by simp
  then have u: "unat (ev_seq e) = Suc n"
    using "3.prems"(1) by (simp add: unat_of_nat_u64 del: of_nat_Suc)
  show ?case
  proof (cases "Suc n \<le> unat k")
    case True
    then have "ev_seq e \<le> k" using u by (simp add: word_le_nat_alt)
    moreover from True have "unat k - n = Suc (unat k - Suc n)" by simp
    ultimately show ?thesis using "3" True by simp
  next
    case False
    then have k: "unat k = n" using "3.prems"(3) by simp
    have "\<not> ev_seq x \<le> k" if x: "x \<in> set (log_events ls)" for x
    proof -
      obtain i where i: "i < length ls" "log_events ls ! i = x"
        using x "3.prems"(1) length_log_events [of "Suc n" ls] by (auto simp: in_set_conv_nth)
      then have "ev_seq x = of_nat (Suc (Suc n + i))"
        using wf_from_nth [of "Suc n" ls i] "3.prems"(1) by auto
      moreover have "Suc (Suc n + i) < 2 ^ 64" using i "3.prems"(2) by simp
      ultimately have "unat (ev_seq x) = Suc (Suc n + i)"
        by (simp add: unat_of_nat_u64 del: of_nat_Suc)
      with k show ?thesis by (simp add: word_le_nat_alt)
    qed
    moreover have "\<not> ev_seq e \<le> k" using u k by (simp add: word_le_nat_alt)
    ultimately show ?thesis using k by (simp add: filter_id_conv)
  qed
qed simp_all

lemma ev_list_wf:
  assumes "validateScope ws task" and "wf_from 0 (ev_files s (eventPath G ws task))"
    and "length (ev_files s (eventPath G ws task)) < 2 ^ 64"
  shows "ev_list G s ws task after limit =
    Inr (take (clamp_limit limit) (drop (unat after) (log_events (ev_files s (eventPath G ws task)))))"
  using assms seq_filter_drop [of 0 "ev_files s (eventPath G ws task)" after]
  by (simp add: ev_list_def readEvents_wf)

text \<open>
  Snapshot and tail fit together: after \<open>SaveSnapshot\<close> succeeded, \<open>Replay\<close> returns that
  snapshot and, in order and up to the limit, exactly the events the snapshot does not cover
  (those after position \<open>sn_seq\<close>), so nothing is replayed twice and nothing is skipped.
\<close>

theorem replay_after_snapshot:
  assumes "SaveSnapshot G now WOk s ws task sn0 = (s', Inr sn)"
    and "wf_from 0 (ev_files s (eventPath G ws task))"
    and "length (ev_files s (eventPath G ws task)) < 2 ^ 64" and "valid_utf8 (trim_space task)"
  shows "\<exists>disk. sn_seq disk = sn_seq sn \<and> sn_task disk = sn_task sn \<and>
    unat (sn_seq sn) \<le> length (ev_files s (eventPath G ws task)) \<and>
    Replay G s' ws task limit =
      Inr (Some disk, take (clamp_limit limit)
        (drop (unat (sn_seq sn)) (log_events (ev_files s (eventPath G ws task)))))"
proof -
  let ?ls = "ev_files s (eventPath G ws task)"
  have sc: "validateScope ws task"
    using assms(1) by (auto simp: SaveSnapshot_def split: if_splits)
  define disk where "disk = sn\<lparr>sn_task := utf8_coerce (sn_task sn),
     sn_state := map (\<lambda>(k, v). (utf8_coerce k, coerce_json v)) (sn_state sn)\<rparr>"
  have le: "\<not> sn_seq sn > (if log_events ?ls = [] then 0 else ev_seq (last (log_events ?ls)))"
    and s': "s' = s\<lparr>ev_snaps := (ev_snaps s)(eventPath G ws task := Some disk)\<rparr>"
    and norm: "normalizeSnapshot now sn0 task = Inr sn"
    using assms(1,2) sc
    by (auto simp: SaveSnapshot_def readEvents_wf Let_def disk_def split: if_splits sum.splits)
  from norm have task: "sn_task sn = trim_space task" and sch: "sn_schema sn = SchemaVersion"
    by (auto simp: normalizeSnapshot_def Let_def split: if_splits)
  have dt: "sn_task disk = sn_task sn" "sn_seq disk = sn_seq sn" "sn_schema disk = SchemaVersion"
    using assms(4) task sch by (simp_all add: disk_def valid_utf8_def)
  have "unat (sn_seq sn) \<le> length ?ls"
  proof (cases ?ls rule: rev_cases)
    case Nil
    with le show ?thesis by (simp add: word_gt_0)
  next
    case (snoc ks l)
    then have "ev_seq (log_events ?ls ! length ks) = of_nat (Suc (length ks))"
      using wf_from_nth [OF assms(2), of "length ks"] by simp
    moreover have "length (log_events ?ls) = Suc (length ks)"
      using length_log_events [OF assms(2)] snoc by simp
    then have "log_events ?ls \<noteq> []" "last (log_events ?ls) = log_events ?ls ! length ks"
      using last_conv_nth [of "log_events ?ls"] by fastforce+
    ultimately have "sn_seq sn \<le> of_nat (Suc (length ks))" using le by simp
    then show ?thesis
      using snoc assms(3) by (simp add: word_le_nat_alt unat_of_nat_u64 del: of_nat_Suc)
  qed
  moreover have "LoadSnapshot G s' ws task = Inr (Some disk)"
    using sc dt task by (simp add: LoadSnapshot_def s')
  moreover have "ev_list G s' ws task (sn_seq sn) limit =
      Inr (take (clamp_limit limit) (drop (unat (sn_seq sn)) (log_events ?ls)))"
    using ev_list_wf [of ws task s' G] sc assms(2,3) by (simp add: s')
  ultimately show ?thesis using dt by (intro exI [of _ disk]) (simp add: Replay_def)
qed

definition demo_store1 :: evstore where
  "demo_store1 = fst (ev_append demo_env 8 WOk
     (fst (ev_append demo_env 7 WOk empty_evstore ''w'' ''t'' demo_event)) ''w'' ''t''
     (demo_event\<lparr>ev_idem := ''k2''\<rparr>))"

definition demo_snap :: snapshot where
  "demo_snap = \<lparr>sn_schema = 1, sn_task = ''t'', sn_seq = 1, sn_created = 5, sn_state = []\<rparr>"

theorem replay_after_snapshot_witness:
  "\<exists>disk. sn_seq disk = 1 \<and> Replay demo_env
     (fst (SaveSnapshot demo_env 9 WOk demo_store1 ''w'' ''t'' demo_snap)) ''w'' ''t'' 10 =
     Inr (Some disk, take (clamp_limit 10)
       (drop 1 (log_events (ev_files demo_store1 (eventPath demo_env ''w'' ''t'')))))"
proof -
  let ?r = "SaveSnapshot demo_env 9 WOk demo_store1 ''w'' ''t'' demo_snap"
  have "(case snd ?r of Inr sn \<Rightarrow> sn = demo_snap | Inl _ \<Rightarrow> False)"
    "wf_from 0 (ev_files demo_store1 (eventPath demo_env ''w'' ''t''))"
    "length (ev_files demo_store1 (eventPath demo_env ''w'' ''t'')) = 2"
    "valid_utf8 (trim_space ''t'')" "sn_seq demo_snap = 1"
    by code_simp+
  moreover from this have "?r = (fst ?r, Inr demo_snap)" by (auto simp: prod_eq_iff split: sum.splits)
  ultimately show ?thesis
    using replay_after_snapshot [of demo_env 9 demo_store1 "''w''" "''t''" demo_snap "fst ?r" demo_snap 10]
    by auto
qed

section \<open>Appending from a component that holds an optional store\<close>

text \<open>
  The \<open>appendLocked\<close> methods of the components: nothing happens without a store, otherwise the
  event is appended and only the error is passed on.
\<close>

definition append_opt ::
  "('z) goenv_scheme \<Rightarrow> gotime \<Rightarrow> write_outcome \<Rightarrow> evstore option \<Rightarrow> string \<Rightarrow> string \<Rightarrow> event
     \<Rightarrow> evstore option \<times> ev_error option" where
  "append_opt G t io oes ws task e =
     (case oes of
        None \<Rightarrow> (None, None)
      | Some es \<Rightarrow>
          let (es', r) = ev_append G t io es ws task e
          in (Some es', case r of Inl x \<Rightarrow> Some x | Inr _ \<Rightarrow> None))"

text \<open>A write either happens durably or not at all.\<close>

definition io_clean :: "write_outcome \<Rightarrow> bool" where
  "io_clean io \<longleftrightarrow> io = WOk \<or> (\<exists>x. io = WLost x)"

lemma ev_append_clean_error:
  "ev_append G t io es ws task e = (es', Inl x) \<Longrightarrow> io_clean io \<Longrightarrow> es' = es"
  by (auto simp: ev_append_def io_clean_def write_line_def Let_def
      split: if_splits sum.splits option.splits prod.splits)

lemma ev_append_extends:
  "ev_append G t io es ws task e = (es', r) \<Longrightarrow> prefix (ev_files es p) (ev_files es' p)"
  by (auto simp: ev_append_def write_line_def Let_def
      split: if_splits sum.splits option.splits prod.splits write_outcome.splits)

lemma ev_append_grows:
  "ev_append G t io es ws task e = (es', r) \<Longrightarrow> length (ev_files es p) \<le> length (ev_files es' p)"
  using ev_append_extends prefix_length_le by blast

lemma append_opt_error:
  "append_opt G t io oes ws task e = (oes', Some x) \<Longrightarrow> io_clean io \<Longrightarrow> oes' = oes"
  by (cases oes) (auto simp: append_opt_def split: prod.splits sum.splits dest: ev_append_clean_error)

lemma append_opt_grows:
  "append_opt G t io (Some es) ws task e = (Some es', err) \<Longrightarrow> length (ev_files es p) \<le> length (ev_files es' p)"
  by (auto simp: append_opt_def split: prod.splits dest: ev_append_grows)

lemma append_opt_SomeD: "append_opt G t io (Some es) ws task e = (oes, err) \<Longrightarrow> \<exists>es'. oes = Some es'"
  by (auto simp: append_opt_def split: prod.splits)

end
