(* ===== verification/Interfaces.thy ===== *)
theory Interfaces
  imports EventLog
begin

text \<open>
  The contracts several components share, stated once as locales and interpreted by each
  component on its own operations:

  \<^item> \<open>status_machine\<close>: a transition table whose terminal states cannot be left;
  \<^item> \<open>cas_store\<close>: records with a \<open>uint64\<close> revision that a caller may replace only when it
    names the current revision (task nodes, mailbox messages, agents, activations);
  \<^item> \<open>entity_log\<close>: records that are written to the task's event log before the hot map changes
    and are rebuilt from the log on restart.
\<close>

section \<open>Status machines\<close>

locale status_machine =
  fixes allowed :: "'st \<Rightarrow> 'st \<Rightarrow> bool" and terminal :: "'st \<Rightarrow> bool"
  assumes terminal_stuck: "allowed a b \<Longrightarrow> terminal a \<Longrightarrow> b = a"
begin

lemma terminal_forever:
  assumes "allowed\<^sup>*\<^sup>* a b" and "terminal a"
  shows "b = a"
  using assms
proof (induction rule: rtranclp_induct)
  case (step b c)
  then show ?case using terminal_stuck by blast
qed simp

text \<open>Along a history of allowed steps all entries after a terminal one are equal to it.\<close>

lemma history_stuck:
  assumes "successively allowed (a # h)" and "terminal a" and "b \<in> set h"
  shows "b = a"
  using assms
proof (induction h)
  case (Cons c h)
  then have "c = a" using terminal_stuck by auto
  with Cons show ?case by (cases h) auto
qed simp

end

section \<open>Compare-and-swap on revisions\<close>

text \<open>Run a list of calls; the second component lists the calls that changed their record.\<close>

fun cas_run :: "('c \<Rightarrow> 's \<Rightarrow> 's \<times> bool) \<Rightarrow> 's \<Rightarrow> 'c list \<Rightarrow> 's \<times> 'c list" where
  "cas_run cas s [] = (s, [])"
| "cas_run cas s (c # cs) =
     (let (s', won) = cas c s; (s'', ws) = cas_run cas s' cs in (s'', if won then c # ws else ws))"

lemma u64_offsets_distinct: "n \<le> 2 ^ 64 \<Longrightarrow> distinct (map (\<lambda>i. r + of_nat i :: u64) [0..<n])"
  by (auto simp: distinct_map inj_on_def word_of_nat_eq_iff take_bit_nat_def)

lemma distinct_pairs:
  assumes "\<And>k. distinct (map g (filter (\<lambda>c. f c = k) cs))"
  shows "distinct (map (\<lambda>c. (f c, g c)) cs)"
  using assms
proof (induction cs)
  case (Cons c cs)
  have "distinct (map g (filter (\<lambda>x. f x = k) cs))" for k
    using Cons.prems [of k] by (simp split: if_splits)
  moreover have "(f c, g c) \<notin> set (map (\<lambda>c. (f c, g c)) cs)"
    using Cons.prems [of "f c"] by force
  ultimately show ?case using Cons.IH by simp
qed simp

locale cas_store =
  fixes rev_of :: "'s \<Rightarrow> 'k \<Rightarrow> u64 option"
    and cas :: "'c \<Rightarrow> 's \<Rightarrow> 's \<times> bool"
    and ckey :: "'c \<Rightarrow> 'k" and cexp :: "'c \<Rightarrow> u64"
    and ok_call :: "'c \<Rightarrow> bool"
  assumes win_expected: "ok_call c \<Longrightarrow> cas c s = (s', True) \<Longrightarrow> rev_of s (ckey c) = Some (cexp c)"
    and win_bumps: "ok_call c \<Longrightarrow> cas c s = (s', True) \<Longrightarrow>
      rev_of s' = (rev_of s)(ckey c \<mapsto> cexp c + 1)"
    and lose_keeps: "ok_call c \<Longrightarrow> cas c s = (s', False) \<Longrightarrow> rev_of s' = rev_of s"
begin

lemma wins_of_missing:
  assumes "list_all ok_call cs" and "rev_of s k = None"
  shows "filter (\<lambda>c. ckey c = k) (snd (cas_run cas s cs)) = []"
  using assms
proof (induction cs arbitrary: s)
  case (Cons c cs)
  obtain s' won where c: "cas c s = (s', won)" by fastforce
  have "rev_of s' k = None \<and> (won \<longrightarrow> ckey c \<noteq> k)"
    using Cons.prems c win_expected [of c s s'] win_bumps [of c s s'] lose_keeps [of c s s']
    by (cases won) auto
  with Cons c show ?case by (auto simp: Let_def case_prod_beta)
qed simp

lemma wins_of_key:
  assumes "list_all ok_call cs" and "rev_of s k = Some r"
  shows "\<exists>n \<le> length cs. map cexp (filter (\<lambda>c. ckey c = k) (snd (cas_run cas s cs)))
    = map (\<lambda>i. r + of_nat i) [0..<n] \<and> rev_of (fst (cas_run cas s cs)) k = Some (r + of_nat n)"
  using assms
proof (induction cs arbitrary: s r)
  case (Cons c cs)
  obtain s' won where c: "cas c s = (s', won)" by fastforce
  obtain s'' ws where rest: "cas_run cas s' cs = (s'', ws)" by fastforce
  show ?case
  proof (cases "won \<and> ckey c = k")
    case True
    then have e: "cexp c = r" "rev_of s' k = Some (r + 1)"
      using Cons.prems c win_expected [of c s s'] win_bumps [of c s s'] by auto
    obtain n where n: "n \<le> length cs" "rev_of s'' k = Some (r + 1 + of_nat n)"
      "map cexp (filter (\<lambda>c. ckey c = k) ws) = map (\<lambda>i. r + 1 + of_nat i) [0..<n]"
      using Cons.IH [OF _ e(2)] Cons.prems(1) rest by auto
    have "map cexp (filter (\<lambda>c. ckey c = k) (c # ws)) = map (\<lambda>i. r + of_nat i) [0..<Suc n]"
      using True e(1) n(3) by (simp add: upt_conv_Cons map_Suc_upt [symmetric] o_def add.assoc
          del: upt_Suc)
    with True n rest c show ?thesis by (intro exI [of _ "Suc n"]) (simp add: add_ac)
  next
    case False
    then have e: "rev_of s' k = Some r"
      using Cons.prems c win_bumps [of c s s'] lose_keeps [of c s s'] by (cases won) auto
    obtain n where "n \<le> length cs" "rev_of s'' k = Some (r + of_nat n)"
      "map cexp (filter (\<lambda>c. ckey c = k) ws) = map (\<lambda>i. r + of_nat i) [0..<n]"
      using Cons.IH [OF _ e] Cons.prems(1) rest by auto
    with False rest c show ?thesis by (intro exI [of _ n]) auto
  qed
qed simp

text \<open>No lost update: of all calls that name the same record and revision at most one wins.\<close>

lemma one_winner:
  assumes "list_all ok_call cs" and "length cs \<le> 2 ^ 64"
  shows "distinct (map (\<lambda>c. (ckey c, cexp c)) (snd (cas_run cas s cs)))"
proof (rule distinct_pairs)
  fix k
  show "distinct (map cexp (filter (\<lambda>c. ckey c = k) (snd (cas_run cas s cs))))"
  proof (cases "rev_of s k")
    case None
    with assms(1) show ?thesis by (simp add: wins_of_missing)
  next
    case (Some r)
    then obtain n where "n \<le> length cs"
      "map cexp (filter (\<lambda>c. ckey c = k) (snd (cas_run cas s cs))) = map (\<lambda>i. r + of_nat i) [0..<n]"
      using wins_of_key [OF assms(1)] by blast
    with assms(2) show ?thesis using u64_offsets_distinct [of n r] by (simp del: distinct_map)
  qed
qed

end

section \<open>Records kept in the event log\<close>

text \<open>
  Replay: decode each event (\<open>None\<close>: the event is of another kind and is skipped; \<open>Some None\<close>:
  the payload does not decode) and store the record under its id.
\<close>

fun replay_with ::
  "(event \<Rightarrow> 'e option option) \<Rightarrow> ('e \<Rightarrow> string) \<Rightarrow> (string \<times> 'e) list \<Rightarrow> event list
     \<Rightarrow> (string \<times> 'e) list option" where
  "replay_with dec eid m [] = Some m"
| "replay_with dec eid m (e # es) =
     (case dec e of
        None \<Rightarrow> replay_with dec eid m es
      | Some None \<Rightarrow> None
      | Some (Some x) \<Rightarrow> replay_with dec eid (AList.update (eid x) x m) es)"

lemma replay_with_append:
  "replay_with dec eid m (es @ fs) =
     (case replay_with dec eid m es of None \<Rightarrow> None | Some m' \<Rightarrow> replay_with dec eid m' fs)"
  by (induction es arbitrary: m) (auto split: option.splits)

text \<open>
  The hot map \<open>m\<close> is what the events rebuild, every own event carries the idempotency key of a
  version at most as new as the hot one, and no foreign event uses a key of this component.
\<close>

definition in_sync ::
  "(event \<Rightarrow> 'e option option) \<Rightarrow> ('e \<Rightarrow> string) \<Rightarrow> ('e \<Rightarrow> nat) \<Rightarrow> ('e \<Rightarrow> bool) \<Rightarrow> (bool \<Rightarrow> 'e \<Rightarrow> event)
     \<Rightarrow> event list \<Rightarrow> (string \<times> 'e) list \<Rightarrow> bool" where
  "in_sync dec eid erev jstable put evs m \<longleftrightarrow>
     (\<exists>m'. replay_with dec eid [] evs = Some m' \<and> map_of m' = map_of m) \<and>
     (\<forall>e \<in> set evs. \<forall>a x. jstable x \<longrightarrow> ev_idem e = ev_idem (put a x) \<longrightarrow>
        (\<exists>c. map_of m (eid x) = Some c \<and> (\<not> a \<longrightarrow> erev x \<le> erev c)))"

text \<open>A version that may be written: a new record, or a newer version of a known one.\<close>

definition writable ::
  "('e \<Rightarrow> string) \<Rightarrow> ('e \<Rightarrow> nat) \<Rightarrow> (string \<times> 'e) list \<Rightarrow> bool \<Rightarrow> 'e \<Rightarrow> bool" where
  "writable eid erev m a x \<longleftrightarrow>
     (if a then map_of m (eid x) = None
      else (\<exists>c. map_of m (eid x) = Some c \<and> erev c < erev x))"

locale entity_log =
  fixes task :: string
    and dec :: "event \<Rightarrow> 'e option option" and eid :: "'e \<Rightarrow> string" and erev :: "'e \<Rightarrow> nat"
    and jstable :: "'e \<Rightarrow> bool" and put :: "bool \<Rightarrow> 'e \<Rightarrow> event"
  assumes put_key_inject: "ev_idem (put a x) = ev_idem (put b y) \<Longrightarrow>
      a = b \<and> eid x = eid y \<and> (\<not> a \<longrightarrow> erev x = erev y)"
    and put_key_text: "jstable x \<Longrightarrow> ev_idem (put a x) \<noteq> [] \<and> trimmed (ev_idem (put a x))
      \<and> valid_utf8 (ev_idem (put a x))"
    and put_accepted: "jstable x \<Longrightarrow> \<exists>e1. normalizeEvent now (put a x) task = Inr e1"
    and dec_put: "jstable x \<Longrightarrow> ev_type e = utf8_coerce (trim_space (ev_type (put a x))) \<Longrightarrow>
      ev_payload e = map (\<lambda>(k, v). (utf8_coerce k, coerce_json v)) (ev_payload (put a x)) \<Longrightarrow>
      dec e = Some (Some x)"
begin

lemma in_sync_empty: "in_sync dec eid erev jstable put [] []"
  by (simp add: in_sync_def)

lemma in_sync_cong:
  "in_sync dec eid erev jstable put evs m \<Longrightarrow> map_of m = map_of n \<Longrightarrow>
     in_sync dec eid erev jstable put evs n"
  by (simp add: in_sync_def)

lemma fresh_key:
  assumes "in_sync dec eid erev jstable put evs m" and "writable eid erev m a x" and "jstable x"
  shows "find_idem (ev_idem (put a x)) evs = None"
proof -
  have "ev_idem e \<noteq> ev_idem (put a x)" if "e \<in> set evs" for e
  proof
    assume "ev_idem e = ev_idem (put a x)"
    with assms that obtain c where "map_of m (eid x) = Some c" "\<not> a \<longrightarrow> erev x \<le> erev c"
      unfolding in_sync_def by blast
    with assms(2) show False by (auto simp: writable_def split: if_splits)
  qed
  then show ?thesis by (auto simp: find_idem_def find_None_iff)
qed

lemma in_sync_snoc:
  assumes "in_sync dec eid erev jstable put evs m" and "writable eid erev m a x"
    and "dec e = Some (Some x)" and "ev_idem e = ev_idem (put a x)"
  shows "in_sync dec eid erev jstable put (evs @ [e]) (AList.update (eid x) x m)"
proof -
  obtain m' where m': "replay_with dec eid [] evs = Some m'" "map_of m' = map_of m"
    using assms(1) by (auto simp: in_sync_def)
  have "replay_with dec eid [] (evs @ [e]) = Some (AList.update (eid x) x m')"
    using m'(1) assms(3) by (simp add: replay_with_append)
  moreover have "\<exists>c. map_of (AList.update (eid x) x m) (eid y) = Some c \<and> (\<not> b \<longrightarrow> erev y \<le> erev c)"
    if "d \<in> set (evs @ [e])" "jstable y" "ev_idem d = ev_idem (put b y)" for d b y
  proof (cases "d \<in> set evs")
    case True
    with assms(1) that(2,3) obtain c where "map_of m (eid y) = Some c" "\<not> b \<longrightarrow> erev y \<le> erev c"
      unfolding in_sync_def by blast
    with assms(2) show ?thesis by (cases "eid y = eid x") (auto simp: writable_def split: if_splits)
  next
    case False
    with that(1) have "d = e" by simp
    with that(3) assms(4) put_key_inject [of b y a x] show ?thesis by auto
  qed
  ultimately show ?thesis using m'(2) unfolding in_sync_def by auto
qed

text \<open>An event of another component leaves the records alone.\<close>

lemma in_sync_foreign:
  assumes "in_sync dec eid erev jstable put evs m" and "dec e = None"
    and "\<And>a x. jstable x \<Longrightarrow> ev_idem e \<noteq> ev_idem (put a x)"
  shows "in_sync dec eid erev jstable put (evs @ [e]) m"
  using assms unfolding in_sync_def by (fastforce simp: replay_with_append)

text \<open>A durable append of a writable version is accepted and keeps log and hot map in step.\<close>

lemma append_in_sync:
  assumes "in_sync dec eid erev jstable put (log_events (ev_files s p)) m"
    and "writable eid erev m a x" and "jstable x" and "validateScope ws task"
    and "p = eventPath G ws task" and "log_inv (ev_files s p)" and "length (ev_files s p) < 2 ^ 64 - 1"
  shows "\<exists>s' e. ev_append G now WOk s ws task (put a x) = (s', Inr (e, True)) \<and>
    log_inv (ev_files s' p) \<and> length (ev_files s' p) = Suc (length (ev_files s p)) \<and>
    in_sync dec eid erev jstable put (log_events (ev_files s' p)) (AList.update (eid x) x m)"
proof -
  let ?ls = "ev_files s p"
  obtain e1 where norm: "normalizeEvent now (put a x) task = Inr e1"
    using put_accepted [OF assms(3)] by blast
  note e1 = normalizeEvent_Inr [OF norm]
  have key: "ev_idem e1 = ev_idem (put a x)" "valid_utf8 (ev_idem (put a x))"
    using put_key_text [OF assms(3), of a] e1(6) by (simp_all add: trimmed_def)
  have wf: "wf_from 0 ?ls" using assms(6) by (simp add: log_inv_def)
  have fresh: "find_idem (ev_idem e1) (log_events ?ls) = None"
    using fresh_key [OF assms(1-3)] key(1) by simp
  define e where "e = stored_event G task (log_events ?ls) e1"
  have app: "ev_append G now WOk s ws task (put a x) =
      (s\<lparr>ev_files := (ev_files s)(p := ?ls @ [Line (coerce_event e)])\<rparr>, Inr (e, True))"
    using ev_append_fresh [of ws task now "put a x" e1 s G] assms(4,5) norm wf fresh
    by (simp add: e_def Let_def)
  have "dec (coerce_event e) = Some (Some x)"
    by (rule dec_put [OF assms(3), where a = a]) (simp_all add: e_def e1)
  moreover have "ev_idem (coerce_event e) = ev_idem (put a x)"
    using key by (simp add: e_def valid_utf8_def)
  ultimately have "in_sync dec eid erev jstable put (log_events ?ls @ [coerce_event e])
      (AList.update (eid x) x m)"
    using in_sync_snoc [OF assms(1,2)] by blast
  moreover have "log_inv (?ls @ [Line (coerce_event e)])"
    using log_inv_snoc [OF assms(6,7) norm _ fresh] key by (simp add: e_def)
  ultimately show ?thesis using app by (intro exI [of _ e] exI) auto
qed

text \<open>A write that is lost leaves the store as it was and is reported.\<close>

lemma append_lost:
  assumes "in_sync dec eid erev jstable put (log_events (ev_files s p)) m"
    and "writable eid erev m a x" and "jstable x" and "validateScope ws task"
    and "p = eventPath G ws task" and "log_inv (ev_files s p)"
  shows "ev_append G now (WLost r) s ws task (put a x) = (s, Inl (EvIO r))"
proof -
  obtain e1 where norm: "normalizeEvent now (put a x) task = Inr e1"
    using put_accepted [OF assms(3)] by blast
  have "ev_idem e1 = ev_idem (put a x)"
    using put_key_text [OF assms(3), of a] normalizeEvent_Inr(6) [OF norm] by (simp add: trimmed_def)
  then have "find_idem (ev_idem e1) (log_events (ev_files s p)) = None"
    using fresh_key [OF assms(1-3)] by simp
  moreover have "readEvents (ev_files s p) = Inr (log_events (ev_files s p))"
    using assms(6) by (simp add: log_inv_def readEvents_wf)
  ultimately show ?thesis
    using assms(4,5) norm by (simp add: ev_append_def write_line_def Let_def)
qed

text \<open>
  The same for a component with an optional store: on success log and hot map stay in step, on
  a clean failure nothing was written.
\<close>

lemma append_opt_in_sync:
  assumes "append_opt G now io (Some s) ws task (put a x) = (Some s', None)" and "io_clean io"
    and "in_sync dec eid erev jstable put (log_events (ev_files s p)) m"
    and "writable eid erev m a x" and "jstable x" and "validateScope ws task"
    and "p = eventPath G ws task" and "log_inv (ev_files s p)" and "length (ev_files s p) < 2 ^ 64 - 1"
  shows "log_inv (ev_files s' p) \<and>
    in_sync dec eid erev jstable put (log_events (ev_files s' p)) (AList.update (eid x) x m)"
proof -
  have "io = WOk"
    using assms(1,2) append_lost [OF assms(3-8)] by (auto simp: io_clean_def append_opt_def)
  with assms(1) append_in_sync [OF assms(3-9), of now] show ?thesis
    by (auto simp: append_opt_def)
qed

text \<open>An append by another component, under event types and keys of its own.\<close>

lemma foreign_in_sync:
  assumes "ev_append G t io s ws task e = (s', r)" and "io_clean io"
    and "\<And>e'. ev_type e' = utf8_coerce (trim_space (ev_type e)) \<Longrightarrow> dec e' = None"
    and "\<And>a x. trim_space (ev_idem e) \<noteq> ev_idem (put a x)" and "valid_utf8 (trim_space (ev_idem e))"
    and "in_sync dec eid erev jstable put (log_events (ev_files s p)) m"
    and "p = eventPath G ws task" and "log_inv (ev_files s p)" and "length (ev_files s p) < 2 ^ 64 - 1"
  shows "log_inv (ev_files s' p) \<and> in_sync dec eid erev jstable put (log_events (ev_files s' p)) m"
proof -
  have s': "s' = fst (ev_append G t io s ws task e)" using assms(1) by simp
  show ?thesis
  proof (cases rule: ev_append_files_cases [of G t io s ws task e])
    case same
    with assms(6,8) s' show ?thesis by simp
  next
    case (torn x)
    with assms(2) show ?thesis by (simp add: io_clean_def)
  next
    case (added e1 evs)
    note n = normalizeEvent_Inr [OF added(1)]
    let ?e = "coerce_event (stored_event G task evs e1)"
    have evs: "evs = log_events (ev_files s p)"
      using added(2) assms(7,8) by (simp add: readEvents_wf log_inv_def)
    have v: "valid_utf8 (ev_idem e1)" using assms(5) n(6) by simp
    have "dec ?e = None" using assms(3) [of ?e] n(2) by simp
    moreover have "ev_idem ?e \<noteq> ev_idem (put a x)" for a x
      using assms(4) n(6) v by (simp add: valid_utf8_def)
    ultimately have "in_sync dec eid erev jstable put (evs @ [?e]) m"
      using assms(6) evs by (intro in_sync_foreign) simp_all
    moreover have "log_inv (ev_files s p @ [Line ?e])"
      using log_inv_snoc [OF assms(8,9) added(1) v] added(3) evs by simp
    ultimately show ?thesis using added(4) s' evs assms(7) by simp
  qed
qed

end

end
