(* ===== verification/TaskDag.thy ===== *)
theory TaskDag
  imports Interfaces
begin

text \<open>
  The task DAG of \<open>internal/orchestration/taskdag.go\<close> and \<open>taskdag_view.go\<close>: nodes with
  revisions, a status machine, blocked-by edges with cycle detection, and a durable event
  written before the hot map changes. The lock makes every operation atomic, so an operation
  is a function from the state (the DAG and the event store it points to) to the new state
  and a result.
\<close>

section \<open>Types\<close>

abbreviation "TaskNodePending \<equiv> ''pending''"
abbreviation "TaskNodeRunning \<equiv> ''running''"
abbreviation "TaskNodeCompleted \<equiv> ''completed''"
abbreviation "TaskNodeFailed \<equiv> ''failed''"
abbreviation "TaskNodeCancelled \<equiv> ''cancelled''"
abbreviation "eventTaskNodeAdded \<equiv> ''taskdag.node_added''"
abbreviation "eventTaskNodeUpdated \<equiv> ''taskdag.node_updated''"

datatype dag_error =
    ErrInvalidTaskDAG | ErrTaskNodeExists | ErrTaskNodeMissing | ErrTaskDAGCycle
  | ErrTaskNodeBlocked | ErrStaleTaskNode | DagEvents ev_error

record task_node =
  nid :: string
  nrev :: u64
  nsubject :: string
  ndesc :: string
  nstatus :: string
  nowner :: string
  nblocked :: "string list"
  nread :: "string list"
  nwrite :: "string list"
  nverif :: "string list"
  ncreated :: gotime
  nupdated :: gotime

definition zero_node :: task_node where
  "zero_node = \<lparr>nid = [], nrev = 0, nsubject = [], ndesc = [], nstatus = [], nowner = [],
     nblocked = [], nread = [], nwrite = [], nverif = [], ncreated = 0, nupdated = 0\<rparr>"

type_synonym dag_nodes = "(string \<times> task_node) list"

record task_dag =
  dag_ws :: string
  dag_task :: string
  dag_nodes :: dag_nodes

text \<open>\<open>events == nil\<close> is \<open>None\<close>.\<close>

type_synonym dag_state = "task_dag \<times> evstore option"

section \<open>Helpers\<close>

definition normalizeTaskStrings :: "string list \<Rightarrow> string list" where
  "normalizeTaskStrings vs = sort (uniq_trim [] vs)"

definition normalizeTaskNode :: "gotime \<Rightarrow> task_node \<Rightarrow> task_node" where
  "normalizeTaskNode now n =
     (let n1 = n\<lparr>nid := trim_space (nid n), nsubject := trim_space (nsubject n),
                 ndesc := trim_space (ndesc n), nowner := trim_space (nowner n),
                 nblocked := normalizeTaskStrings (nblocked n),
                 nread := normalizeTaskStrings (nread n), nwrite := normalizeTaskStrings (nwrite n),
                 nverif := normalizeTaskStrings (nverif n)\<rparr>;
          n2 = (if nstatus n1 = [] then n1\<lparr>nstatus := TaskNodePending\<rparr> else n1);
          n3 = (if nrev n2 = 0 then n2\<lparr>nrev := 1\<rparr> else n2);
          n4 = (if ncreated n3 = 0 then n3\<lparr>ncreated := now\<rparr> else n3)
      in (if nupdated n4 = 0 then n4\<lparr>nupdated := ncreated n4\<rparr> else n4))"

definition validTaskNodeStatus :: "string \<Rightarrow> bool" where
  "validTaskNodeStatus st \<longleftrightarrow> st = TaskNodePending \<or> st = TaskNodeRunning \<or> st = TaskNodeCompleted
     \<or> st = TaskNodeFailed \<or> st = TaskNodeCancelled"

definition taskNodeTransitionAllowed :: "string \<Rightarrow> string \<Rightarrow> bool" where
  "taskNodeTransitionAllowed from to =
     (if from = to then True
      else if from = TaskNodePending then to = TaskNodeRunning \<or> to = TaskNodeCancelled
      else if from = TaskNodeRunning then
        to = TaskNodeCompleted \<or> to = TaskNodeFailed \<or> to = TaskNodeCancelled
      else if from = TaskNodeFailed then to = TaskNodePending \<or> to = TaskNodeCancelled
      else False)"

definition sameTaskNode :: "task_node \<Rightarrow> task_node \<Rightarrow> bool" where
  "sameTaskNode a b \<longleftrightarrow> nid a = nid b \<and> nrev a = nrev b \<and> nsubject a = nsubject b \<and> ndesc a = ndesc b
     \<and> nstatus a = nstatus b \<and> nowner a = nowner b \<and> nblocked a = nblocked b \<and> nread a = nread b
     \<and> nwrite a = nwrite b \<and> nverif a = nverif b"

text \<open>\<open>dagPayload\<close> and \<open>dagDecode\<close>: the node as a JSON value and back.\<close>

definition dagPayload :: "('z) goenv_scheme \<Rightarrow> task_node \<Rightarrow> json" where
  "dagPayload G n = JObj (
     [(''id'', enc_str (nid n)), (''revision'', enc_u64 G (nrev n)),
      (''subject'', enc_str (nsubject n))] @ omit_str ''description'' (ndesc n) @
     [(''status'', enc_str (nstatus n))] @ omit_str ''ownerAgentId'' (nowner n) @
     omit_strs ''blockedBy'' (nblocked n) @ omit_strs ''readScope'' (nread n) @
     omit_strs ''writeScope'' (nwrite n) @ omit_strs ''verification'' (nverif n) @
     [(''createdAt'', JTime (ncreated n)), (''updatedAt'', JTime (nupdated n))])"

definition dagDecode :: "json \<Rightarrow> task_node option" where
  "dagDecode j =
     Option.bind (Option.bind (jfield ''id'' j) dec_str) (\<lambda>i.
     Option.bind (Option.bind (jfield ''revision'' j) dec_u64) (\<lambda>r.
     Option.bind (Option.bind (jfield ''subject'' j) dec_str) (\<lambda>s.
     Option.bind (Option.bind (jfield ''description'' j) dec_str) (\<lambda>d.
     Option.bind (Option.bind (jfield ''status'' j) dec_str) (\<lambda>st.
     Option.bind (Option.bind (jfield ''ownerAgentId'' j) dec_str) (\<lambda>w.
     Option.bind (Option.bind (jfield ''blockedBy'' j) dec_strs) (\<lambda>b.
     Option.bind (Option.bind (jfield ''readScope'' j) dec_strs) (\<lambda>rs.
     Option.bind (Option.bind (jfield ''writeScope'' j) dec_strs) (\<lambda>wr.
     Option.bind (Option.bind (jfield ''verification'' j) dec_strs) (\<lambda>v.
     Option.bind (Option.bind (jfield ''createdAt'' j) dec_time) (\<lambda>c.
     Option.bind (Option.bind (jfield ''updatedAt'' j) dec_time) (\<lambda>u.
       Some \<lparr>nid = i, nrev = r, nsubject = s, ndesc = d, nstatus = st, nowner = w, nblocked = b,
             nread = rs, nwrite = wr, nverif = v, ncreated = c, nupdated = u\<rparr>))))))))))))"

section \<open>Blocking and cycles\<close>

definition blockers_of :: "dag_nodes \<Rightarrow> string \<Rightarrow> string list" where
  "blockers_of m i = (case map_of m i of None \<Rightarrow> [] | Some n \<Rightarrow> nblocked n)"

definition unblockedLocked :: "dag_nodes \<Rightarrow> string \<Rightarrow> bool" where
  "unblockedLocked m i =
     (case map_of m i of
        None \<Rightarrow> False
      | Some n \<Rightarrow> list_all (\<lambda>b. case map_of m b of None \<Rightarrow> False
                                | Some d \<Rightarrow> nstatus d = TaskNodeCompleted) (nblocked n))"

text \<open>
  The depth-first search of \<open>hasCycleLocked\<close>. The closure \<open>visit\<close> shares the maps \<open>visiting\<close>
  and \<open>visited\<close>, here lists threaded through the calls. The fuel bounds the recursion depth;
  \<open>None\<close> would mean that it ran out, which \<open>visit_enough_fuel\<close> excludes.
\<close>

type_synonym dfs = "string list \<times> string list"

fun visit :: "nat \<Rightarrow> dag_nodes \<Rightarrow> string \<Rightarrow> dfs \<Rightarrow> (bool \<times> dfs) option"
and visit_all :: "nat \<Rightarrow> dag_nodes \<Rightarrow> string list \<Rightarrow> dfs \<Rightarrow> (bool \<times> dfs) option" where
  "visit 0 m i st = None"
| "visit (Suc f) m i (visiting, visited) =
     (if i \<in> set visiting then Some (True, (visiting, visited))
      else if i \<in> set visited then Some (False, (visiting, visited))
      else case visit_all f m (blockers_of m i) (i # visiting, visited) of
             None \<Rightarrow> None
           | Some (True, st) \<Rightarrow> Some (True, st)
           | Some (False, (ving, ved)) \<Rightarrow> Some (False, (removeAll i ving, i # ved)))"
| "visit_all f m [] st = Some (False, st)"
| "visit_all f m (b # bs) st =
     (case visit f m b st of
        None \<Rightarrow> None
      | Some (True, st') \<Rightarrow> Some (True, st')
      | Some (False, st') \<Rightarrow> visit_all f m bs st')"

definition hasCycleLocked :: "dag_nodes \<Rightarrow> bool" where
  "hasCycleLocked m =
     (case visit_all (Suc (length m)) m (map fst m) ([], []) of
        None \<Rightarrow> True
      | Some (b, _) \<Rightarrow> b)"

section \<open>Operations\<close>

definition dag_event :: "('z) goenv_scheme \<Rightarrow> string \<Rightarrow> string \<Rightarrow> task_node \<Rightarrow> string \<Rightarrow> event" where
  "dag_event G task ty n key =
     zero_event\<lparr>ev_type := ty, ev_task := task, ev_agent := nowner n, ev_idem := key,
       ev_payload := [(''node'', dagPayload G n)]\<rparr>"

definition dag_appendLocked ::
  "('z) goenv_scheme \<Rightarrow> gotime \<Rightarrow> write_outcome \<Rightarrow> dag_state \<Rightarrow> string \<Rightarrow> task_node \<Rightarrow> string
     \<Rightarrow> evstore option \<times> ev_error option" where
  "dag_appendLocked G t io s ty n key =
     append_opt G t io (snd s) (dag_ws (fst s)) (dag_task (fst s))
       (dag_event G (dag_task (fst s)) ty n key)"

definition add_key :: "task_node \<Rightarrow> string" where
  "add_key n = ''task-node:add:'' @ nid n"

definition update_key :: "task_node \<Rightarrow> string" where
  "update_key n = ''task-node:update:'' @ nid n @ '':'' @ itoa (unat (nrev n))"

text \<open>The check \<open>Add\<close> and \<open>SetDependencies\<close> make for each blocker, in order.\<close>

fun check_blockers :: "dag_nodes \<Rightarrow> string \<Rightarrow> string list \<Rightarrow> dag_error option" where
  "check_blockers m i [] = None"
| "check_blockers m i (b # bs) =
     (if b = i then Some ErrTaskDAGCycle
      else if map_of m b = None then Some ErrTaskNodeMissing
      else check_blockers m i bs)"

definition dag_Add ::
  "('z) goenv_scheme \<Rightarrow> gotime \<Rightarrow> gotime \<Rightarrow> write_outcome \<Rightarrow> dag_state \<Rightarrow> task_node
     \<Rightarrow> dag_state \<times> (dag_error + task_node)" where
  "dag_Add G now t io s n0 =
     (let n = normalizeTaskNode now n0; m = dag_nodes (fst s) in
      if nid n = [] \<or> nsubject n = [] then (s, Inl ErrInvalidTaskDAG)
      else case map_of m (nid n) of
        Some old \<Rightarrow> (s, if sameTaskNode old n then Inr old else Inl ErrTaskNodeExists)
      | None \<Rightarrow>
          case check_blockers m (nid n) (nblocked n) of
            Some x \<Rightarrow> (s, Inl x)
          | None \<Rightarrow>
              let (es', err) = dag_appendLocked G t io s eventTaskNodeAdded n (add_key n) in
              case err of
                Some x \<Rightarrow> ((fst s, es'), Inl (DagEvents x))
              | None \<Rightarrow> (((fst s)\<lparr>dag_nodes := AList.update (nid n) n m\<rparr>, es'), Inr n))"

text \<open>
  \<open>update\<close> takes the mutation as a closure. A mutation may touch the node map of the DAG
  (\<open>SetDependencies\<close> does), so it returns the map as well.
\<close>

type_synonym mutation = "dag_nodes \<Rightarrow> task_node \<Rightarrow> dag_nodes \<times> (dag_error + task_node)"

definition dag_update ::
  "('z) goenv_scheme \<Rightarrow> gotime \<Rightarrow> gotime \<Rightarrow> write_outcome \<Rightarrow> dag_state \<Rightarrow> string \<Rightarrow> u64 \<Rightarrow> mutation
     \<Rightarrow> dag_state \<times> (dag_error + task_node)" where
  "dag_update G now t io s id0 expected mutate =
     (let i = trim_space id0; m = dag_nodes (fst s) in
      case map_of m i of
        None \<Rightarrow> (s, Inl ErrTaskNodeMissing)
      | Some current \<Rightarrow>
          if expected = 0 \<or> nrev current \<noteq> expected then (s, Inl ErrStaleTaskNode)
          else
            let (m1, res) = mutate m current; s1 = ((fst s)\<lparr>dag_nodes := m1\<rparr>, snd s) in
            case res of
              Inl x \<Rightarrow> (s1, Inl x)
            | Inr u0 \<Rightarrow>
                let u = u0\<lparr>nrev := nrev u0 + 1, nupdated := now\<rparr>;
                    (es', err) = dag_appendLocked G t io s1 eventTaskNodeUpdated u (update_key u)
                in case err of
                     Some x \<Rightarrow> ((fst s1, es'), Inl (DagEvents x))
                   | None \<Rightarrow> (((fst s1)\<lparr>dag_nodes := AList.update i u m1\<rparr>, es'), Inr u))"

definition mutate_status :: "string \<Rightarrow> mutation" where
  "mutate_status st m n =
     (m, if \<not> validTaskNodeStatus st then Inl ErrInvalidTaskDAG
         else if st = TaskNodeRunning \<and> \<not> unblockedLocked m (nid n) then Inl ErrTaskNodeBlocked
         else if \<not> taskNodeTransitionAllowed (nstatus n) st then Inl ErrInvalidTaskDAG
         else Inr (n\<lparr>nstatus := st\<rparr>))"

definition mutate_owner :: "string \<Rightarrow> mutation" where
  "mutate_owner w m n = (m, Inr (n\<lparr>nowner := trim_space w\<rparr>))"

text \<open>
  \<open>SetDependencies\<close> probes for a cycle by writing the changed node into the map under the
  caller's \<open>id\<close> and then restoring \<open>d.nodes[id]\<close>; \<open>id\<close> is not trimmed here, and reading a
  missing key yields the zero node.
\<close>

definition mutate_deps :: "string \<Rightarrow> string list \<Rightarrow> mutation" where
  "mutate_deps id0 bs0 m n =
     (let bs = normalizeTaskStrings bs0 in
      case check_blockers m id0 bs of
        Some x \<Rightarrow> (m, Inl x)
      | None \<Rightarrow>
          let original = (case map_of m id0 of None \<Rightarrow> zero_node | Some o' \<Rightarrow> o');
              n' = n\<lparr>nblocked := bs\<rparr>;
              cyc = hasCycleLocked (AList.update id0 n' m);
              m' = AList.update id0 original (AList.update id0 n' m)
          in (m', if cyc then Inl ErrTaskDAGCycle else Inr n'))"

datatype dag_op = OpStatus string | OpOwner string | OpDeps "string list"

fun op_mutation :: "string \<Rightarrow> dag_op \<Rightarrow> mutation" where
  "op_mutation id0 (OpStatus st) = mutate_status st"
| "op_mutation id0 (OpOwner w) = mutate_owner w"
| "op_mutation id0 (OpDeps bs) = mutate_deps id0 bs"

text \<open>\<open>SetStatus\<close>, \<open>AssignOwner\<close> and \<open>SetDependencies\<close>.\<close>

definition SetStatus where
  "SetStatus G now t io s id0 expected st = dag_update G now t io s id0 expected (mutate_status st)"

definition AssignOwner where
  "AssignOwner G now t io s id0 expected w = dag_update G now t io s id0 expected (mutate_owner w)"

definition SetDependencies where
  "SetDependencies G now t io s id0 expected bs =
     dag_update G now t io s id0 expected (mutate_deps id0 bs)"

definition dag_Node :: "task_dag \<Rightarrow> string \<Rightarrow> task_node option" where
  "dag_Node d id0 = map_of (dag_nodes d) (trim_space id0)"

definition Runnable :: "task_dag \<Rightarrow> task_node list" where
  "Runnable d = sort_key nid
     (filter (\<lambda>n. nstatus n = TaskNodePending \<and> unblockedLocked (dag_nodes d) (nid n))
        (map snd (dag_nodes d)))"

definition dag_Nodes :: "task_dag \<Rightarrow> task_node list" where
  "dag_Nodes d = sort_key nid (map snd (dag_nodes d))"

text \<open>\<open>NewTaskDAG\<close> replays the stored events of the task.\<close>

definition dag_decode_event :: "event \<Rightarrow> task_node option option" where
  "dag_decode_event e =
     (if ev_type e \<noteq> eventTaskNodeAdded \<and> ev_type e \<noteq> eventTaskNodeUpdated then None
      else Some (dagDecode (case map_of (ev_payload e) ''node'' of None \<Rightarrow> JNull | Some j \<Rightarrow> j)))"

fun dag_replay :: "dag_nodes \<Rightarrow> event list \<Rightarrow> dag_error + dag_nodes" where
  "dag_replay m [] = Inr m"
| "dag_replay m (e # es) =
     (case dag_decode_event e of
        None \<Rightarrow> dag_replay m es
      | Some None \<Rightarrow> Inl ErrInvalidTaskDAG
      | Some (Some n) \<Rightarrow> dag_replay (AList.update (nid n) n m) es)"

definition NewTaskDAG ::
  "('z) goenv_scheme \<Rightarrow> evstore option \<Rightarrow> string \<Rightarrow> string \<Rightarrow> dag_error + task_dag" where
  "NewTaskDAG G events ws0 task0 =
     (let ws = trim_space ws0; task = trim_space task0 in
      if ws = [] \<or> task = [] then Inl ErrInvalidTaskDAG
      else case events of
        None \<Rightarrow> Inr \<lparr>dag_ws = ws, dag_task = task, dag_nodes = []\<rparr>
      | Some es \<Rightarrow>
          (case ev_list G es ws task 0 5000 of
             Inl x \<Rightarrow> Inl (DagEvents x)
           | Inr stored \<Rightarrow>
               (case dag_replay [] stored of
                  Inl x \<Rightarrow> Inl x
                | Inr m \<Rightarrow> Inr \<lparr>dag_ws = ws, dag_task = task, dag_nodes = m\<rparr>)))"

section \<open>The cycle search is exact\<close>

definition dag_rel :: "dag_nodes \<Rightarrow> (string \<times> string) set" where
  "dag_rel m = {(i, b). b \<in> set (blockers_of m i)}"

text \<open>A finished set is closed under blockers and lies on no cycle.\<close>

definition dfs_inv :: "dag_nodes \<Rightarrow> string list \<Rightarrow> string list \<Rightarrow> bool" where
  "dfs_inv m visiting visited \<longleftrightarrow> set visiting \<inter> set visited = {} \<and>
     dag_rel m `` set visited \<subseteq> set visited \<and> (\<forall>v \<in> set visited. (v, v) \<notin> (dag_rel m)\<^sup>+)"

definition dfs_post ::
  "dag_nodes \<Rightarrow> string list \<Rightarrow> string list \<Rightarrow> string list \<Rightarrow> (bool \<times> dfs) option \<Rightarrow> bool" where
  "dfs_post m visiting visited ids res \<longleftrightarrow>
     (\<forall>ving ved. (res = Some (True, (ving, ved)) \<longrightarrow> (\<exists>x. (x, x) \<in> (dag_rel m)\<^sup>+)) \<and>
       (res = Some (False, (ving, ved)) \<longrightarrow>
          set ving = set visiting \<and> set visited \<subseteq> set ved \<and> set ids \<subseteq> set ved \<and> dfs_inv m ving ved))"

lemma closed_trancl: "(v, w) \<in> (dag_rel m)\<^sup>+ \<Longrightarrow> dag_rel m `` V \<subseteq> V \<Longrightarrow> v \<in> V \<Longrightarrow> w \<in> V"
  by (induction rule: trancl_induct) auto

lemma dfs_inv_finish:
  assumes "dfs_inv m ving ved" and "i \<in> set ving" and "set (blockers_of m i) \<subseteq> set ved"
  shows "dfs_inv m (removeAll i ving) (i # ved)"
proof -
  from assms have i: "i \<notin> set ved" and cl: "dag_rel m `` set ved \<subseteq> set ved"
    and nc: "\<forall>v \<in> set ved. (v, v) \<notin> (dag_rel m)\<^sup>+" by (auto simp: dfs_inv_def)
  have "(i, i) \<notin> (dag_rel m)\<^sup>+"
  proof
    assume "(i, i) \<in> (dag_rel m)\<^sup>+"
    then obtain b where b: "(i, b) \<in> dag_rel m" "(b, i) \<in> (dag_rel m)\<^sup>*"
      by (auto dest: tranclD)
    with assms(3) have "b \<in> set ved" by (auto simp: dag_rel_def)
    with b(2) cl i show False by (auto simp: rtrancl_eq_or_trancl dest: closed_trancl)
  qed
  with assms cl nc show ?thesis by (auto simp: dfs_inv_def dag_rel_def)
qed

lemma visit_correct:
  "dfs_inv m (fst st) (snd st) \<Longrightarrow> \<forall>p \<in> set (fst st). (p, i) \<in> (dag_rel m)\<^sup>+ \<Longrightarrow>
     dfs_post m (fst st) (snd st) [i] (visit f m i st)"
  "dfs_inv m (fst st) (snd st) \<Longrightarrow> \<forall>b \<in> set bs. \<forall>p \<in> set (fst st). (p, b) \<in> (dag_rel m)\<^sup>+ \<Longrightarrow>
     dfs_post m (fst st) (snd st) bs (visit_all f m bs st)"
proof (induction f m i st and f m bs st rule: visit_visit_all.induct)
  case (1 m i st)
  show ?case by (simp add: dfs_post_def)
next
  case (2 f m i visiting visited)
  show ?case
  proof (cases "i \<in> set visiting \<or> i \<in> set visited")
    case True
    with "2.prems" show ?thesis by (auto simp: dfs_post_def)
  next
    case False
    let ?r = "visit_all f m (blockers_of m i) (i # visiting, visited)"
    have "dfs_inv m (i # visiting) visited" using "2.prems"(1) False by (auto simp: dfs_inv_def)
    moreover have "\<forall>b \<in> set (blockers_of m i). \<forall>p \<in> set (i # visiting). (p, b) \<in> (dag_rel m)\<^sup>+"
    proof (intro ballI)
      fix b p assume b: "b \<in> set (blockers_of m i)" and p: "p \<in> set (i # visiting)"
      then have "(i, b) \<in> dag_rel m" by (simp add: dag_rel_def)
      with p "2.prems"(2) show "(p, b) \<in> (dag_rel m)\<^sup>+"
        by (auto intro: trancl_into_trancl)
    qed
    ultimately have post: "dfs_post m (i # visiting) visited (blockers_of m i) ?r"
      using "2.IH" False by simp
    show ?thesis
    proof (cases ?r)
      case None
      with False show ?thesis by (simp add: dfs_post_def)
    next
      case (Some r)
      then obtain b ving ved where r: "?r = Some (b, ving, ved)" by (cases r) auto
      show ?thesis
      proof (cases b)
        case True
        with r False post show ?thesis by (auto simp: dfs_post_def)
      next
        case fin: False
        with r post have "set ving = insert i (set visiting)" "set visited \<subseteq> set ved"
          "set (blockers_of m i) \<subseteq> set ved" "dfs_inv m ving ved"
          by (auto simp: dfs_post_def)
        moreover from this have "dfs_inv m (removeAll i ving) (i # ved)"
          by (intro dfs_inv_finish) auto
        ultimately show ?thesis using r fin False by (auto simp: dfs_post_def)
      qed
    qed
  qed
next
  case (3 f m st)
  then show ?case by (cases st) (auto simp: dfs_post_def)
next
  case (4 f m b bs st)
  have post: "dfs_post m (fst st) (snd st) [b] (visit f m b st)"
    using "4.IH"(1) "4.prems" by simp
  show ?case
  proof (cases "visit f m b st")
    case None
    then show ?thesis by (simp add: dfs_post_def)
  next
    case (Some r)
    then obtain c ving ved where r: "visit f m b st = Some (c, ving, ved)" by (cases r) auto
    show ?thesis
    proof (cases c)
      case True
      with r post show ?thesis by (auto simp: dfs_post_def)
    next
      case False
      with r post have h: "set ving = set (fst st)" "set (snd st) \<subseteq> set ved" "b \<in> set ved"
        "dfs_inv m ving ved" by (auto simp: dfs_post_def)
      have "dfs_post m ving ved bs (visit_all f m bs (ving, ved))"
        using "4.IH"(2) [of "(c, ving, ved)" c "(ving, ved)"] r False h "4.prems"(2) by auto
      with r False h show ?thesis by (fastforce simp: dfs_post_def)
    qed
  qed
qed

lemma visit_keeps_visiting:
  "visit f m i st = Some (False, st') \<Longrightarrow> set (fst st') = set (fst st)"
  "visit_all f m bs st = Some (False, st') \<Longrightarrow> set (fst st') = set (fst st)"
proof (induction f m i st and f m bs st arbitrary: st' and st' rule: visit_visit_all.induct)
  case (2 f m i visiting visited)
  show ?case
  proof (cases "i \<in> set visiting \<or> i \<in> set visited")
    case True
    with "2.prems" show ?thesis by (auto split: if_splits)
  next
    case False
    with "2.prems" obtain ving ved where
      r: "visit_all f m (blockers_of m i) (i # visiting, visited) = Some (False, ving, ved)"
      and st': "st' = (removeAll i ving, i # ved)"
      by (auto split: option.splits bool.splits)
    have "set ving = insert i (set visiting)"
      using "2.IH" [OF _ _ r] False by simp
    with False st' show ?thesis by auto
  qed
next
  case (4 f m b bs st)
  then obtain st1 where r: "visit f m b st = Some (False, st1)"
    and r2: "visit_all f m bs st1 = Some (False, st')"
    by (auto split: option.splits bool.splits)
  have "set (fst st1) = set (fst st)" using "4.IH"(1) [OF r] .
  moreover have "set (fst st') = set (fst st1)"
    using "4.IH"(2) [OF r _ _ r2] by blast
  ultimately show ?case by simp
qed simp_all

lemma visit_enough_fuel:
  "card (fst ` set m - set (fst st)) < f \<Longrightarrow> visit f m i st \<noteq> None"
  "bs = [] \<or> card (fst ` set m - set (fst st)) < f \<Longrightarrow> visit_all f m bs st \<noteq> None"
proof (induction f m i st and f m bs st rule: visit_visit_all.induct)
  case (2 f m i visiting visited)
  show ?case
  proof (cases "i \<in> set visiting \<or> i \<in> set visited")
    case True
    then show ?thesis by auto
  next
    case False
    have "blockers_of m i = [] \<or> card (fst ` set m - set (i # visiting)) < f"
    proof (cases "i \<in> fst ` set m")
      case True
      with False have "card (fst ` set m - set (i # visiting)) < card (fst ` set m - set visiting)"
        by (intro psubset_card_mono) auto
      with "2.prems" show ?thesis by simp
    next
      case notkey: False
      then have "map_of m i = None" by (simp add: map_of_eq_None_iff)
      then show ?thesis by (simp add: blockers_of_def)
    qed
    then have "visit_all f m (blockers_of m i) (i # visiting, visited) \<noteq> None"
      using "2.IH" False by simp
    with False show ?thesis by (auto split: bool.splits)
  qed
next
  case (4 f m b bs st)
  then have "visit f m b st \<noteq> None" by simp
  with "4" visit_keeps_visiting(1) [of f m b st] show ?case
    by (auto split: option.splits bool.splits prod.splits)
qed simp_all

lemma hasCycleLocked_iff: "hasCycleLocked m \<longleftrightarrow> \<not> acyclic (dag_rel m)"
proof -
  let ?r = "visit_all (Suc (length m)) m (map fst m) ([], [])"
  have "card (fst ` set m) \<le> length m"
    by (metis card_length length_map set_map)
  then have "?r \<noteq> None" using visit_enough_fuel(2) [of "map fst m" m "([], [])"] by simp
  then obtain b ving ved where r: "?r = Some (b, ving, ved)" by auto
  have post: "dfs_post m [] [] (map fst m) ?r"
    using visit_correct(2) [of m "([], [])" "map fst m"] by (simp add: dfs_inv_def)
  show ?thesis
  proof (cases b)
    case True
    with post r have "\<exists>x. (x, x) \<in> (dag_rel m)\<^sup>+" by (auto simp: dfs_post_def)
    with True r show ?thesis by (auto simp: hasCycleLocked_def acyclic_def)
  next
    case False
    with post r have ved: "fst ` set m \<subseteq> set ved" "dfs_inv m ving ved"
      by (auto simp: dfs_post_def)
    have "(x, x) \<notin> (dag_rel m)\<^sup>+" for x
    proof
      assume x: "(x, x) \<in> (dag_rel m)\<^sup>+"
      then obtain y where "(x, y) \<in> dag_rel m" by (auto dest: tranclD)
      then have "map_of m x \<noteq> None" by (cases "map_of m x") (auto simp: dag_rel_def blockers_of_def)
      then have "x \<in> set ved" using ved(1) by (auto simp: map_of_eq_None_iff)
      with ved(2) x show False by (auto simp: dfs_inv_def)
    qed
    with False r show ?thesis by (auto simp: hasCycleLocked_def acyclic_def)
  qed
qed

section \<open>The DAG invariant\<close>

text \<open>
  Keys are distinct, non-empty, trimmed and agree with the node they map to; every blocker is
  a node; the blocked-by relation has no cycle.
\<close>

definition nodes_ok :: "(string \<rightharpoonup> task_node) \<Rightarrow> bool" where
  "nodes_ok f \<longleftrightarrow> (\<forall>i n. f i = Some n \<longrightarrow>
     nid n = i \<and> i \<noteq> [] \<and> trimmed i \<and> set (nblocked n) \<subseteq> dom f)"

definition dag_inv :: "dag_nodes \<Rightarrow> bool" where
  "dag_inv m \<longleftrightarrow> distinct (map fst m) \<and> nodes_ok (map_of m) \<and> acyclic (dag_rel m)"

lemma nodes_okD:
  assumes "nodes_ok f" and "f i = Some n"
  shows "nid n = i" "i \<noteq> []" "trimmed i" "set (nblocked n) \<subseteq> dom f"
  using assms by (auto simp: nodes_ok_def)

lemma nodes_ok_upd:
  assumes "nodes_ok f" and "nid n = i" and "i \<noteq> []" and "trimmed i" and "set (nblocked n) \<subseteq> dom f"
  shows "nodes_ok (f(i \<mapsto> n))"
  unfolding nodes_ok_def
proof (intro allI impI)
  fix j x
  assume "(f(i \<mapsto> n)) j = Some x"
  with assms nodes_okD [OF assms(1), of j x]
  show "nid x = j \<and> j \<noteq> [] \<and> trimmed j \<and> set (nblocked x) \<subseteq> dom (f(i \<mapsto> n))"
    by (cases "j = i") auto
qed

lemma dag_inv_empty: "dag_inv []"
  by (simp add: dag_inv_def nodes_ok_def dag_rel_def blockers_of_def acyclic_def)

lemma dag_rel_iff:
  "(i, b) \<in> dag_rel m \<longleftrightarrow> (\<exists>n. map_of m i = Some n \<and> b \<in> set (nblocked n))"
  by (cases "map_of m i") (auto simp: dag_rel_def blockers_of_def)

lemma dag_rel_cong: "map_of m = map_of m' \<Longrightarrow> dag_rel m = dag_rel m'"
  by (simp add: dag_rel_def blockers_of_def)

lemma check_blockers_None:
  "check_blockers m i bs = None \<longleftrightarrow> i \<notin> set bs \<and> set bs \<subseteq> dom (map_of m)"
  by (induction bs) auto

lemma normalizeTaskNode_fields [simp]:
  "nid (normalizeTaskNode now n) = trim_space (nid n)"
  "nsubject (normalizeTaskNode now n) = trim_space (nsubject n)"
  "nblocked (normalizeTaskNode now n) = normalizeTaskStrings (nblocked n)"
  "nrev (normalizeTaskNode now n) = (if nrev n = 0 then 1 else nrev n)"
  "nstatus (normalizeTaskNode now n) = (if nstatus n = [] then TaskNodePending else nstatus n)"
  by (simp_all add: normalizeTaskNode_def Let_def)

lemma map_of_update_apply: "map_of (AList.update k v m) x = (if x = k then Some v else map_of m x)"
  by simp

lemma dag_rel_update:
  "dag_rel (AList.update k n m) = {(i, b) \<in> dag_rel m. i \<noteq> k} \<union> {(k, b) | b. b \<in> set (nblocked n)}"
  by (auto simp: dag_rel_iff split: if_splits)

text \<open>A new node that nothing refers to closes no cycle.\<close>

lemma acyclic_new_source:
  assumes "acyclic R" and "k \<notin> Range R" and "k \<notin> B"
  shows "acyclic (R \<union> {(k, b) | b. b \<in> B})"
proof -
  let ?S = "R \<union> {(k, b) | b. b \<in> B}"
  have nk: "k \<notin> Range ?S" using assms by auto
  have into: "y \<noteq> k" if "(x, y) \<in> ?S\<^sup>+" for x y
    using trancl_range [of ?S] that nk by blast
  have "(x, y) \<in> R\<^sup>+" if "(x, y) \<in> ?S\<^sup>+" "x \<noteq> k" for x y
    using that
  proof (induction rule: trancl_induct)
    case (base y)
    then show ?case by auto
  next
    case (step y z)
    have "y \<noteq> k" using into [OF step.hyps(1)] .
    then have "(y, z) \<in> R" using step.hyps(2) by blast
    with step.IH [OF step.prems] show ?case by (rule trancl_into_trancl)
  qed
  with into assms(1) show ?thesis unfolding acyclic_def by blast
qed

lemma dag_inv_add:
  assumes "dag_inv m" and "map_of m (nid n) = None" and "nid n \<noteq> []" and "trimmed (nid n)"
    and "check_blockers m (nid n) (nblocked n) = None"
  shows "dag_inv (AList.update (nid n) n m)"
proof -
  from assms(1) have ok: "nodes_ok (map_of m)" "distinct (map fst m)" "acyclic (dag_rel m)"
    by (simp_all add: dag_inv_def)
  from assms(5) have bl: "nid n \<notin> set (nblocked n)" "set (nblocked n) \<subseteq> dom (map_of m)"
    by (auto simp: check_blockers_None)
  have nr: "nid n \<notin> Range (dag_rel m)"
  proof
    assume "nid n \<in> Range (dag_rel m)"
    then obtain i c where "map_of m i = Some c" "nid n \<in> set (nblocked c)"
      by (auto simp: dag_rel_iff simp del: map_of_eq_Some_iff)
    with nodes_okD(4) [OF ok(1)] assms(2) show False by blast
  qed
  have "{(i, b) \<in> dag_rel m. i \<noteq> nid n} = dag_rel m"
    using assms(2) by (auto simp: dag_rel_iff)
  then have "acyclic (dag_rel (AList.update (nid n) n m))"
    using acyclic_new_source [OF ok(3) nr bl(1)] by (simp add: dag_rel_update)
  moreover have "nodes_ok (map_of (AList.update (nid n) n m))"
    using nodes_ok_upd [OF ok(1) refl assms(3,4) bl(2)] by simp
  ultimately show ?thesis using ok(2) by (simp add: dag_inv_def distinct_update)
qed

text \<open>Replacing a node by one with the same id and a checked blocker list.\<close>

lemma dag_inv_replace:
  assumes "dag_inv m" and "map_of m i = Some c" and "nid n = i"
    and "set (nblocked n) \<subseteq> dom (map_of m)" and "acyclic (dag_rel (AList.update i n m))"
  shows "dag_inv (AList.update i n m)"
proof -
  from assms(1) have ok: "nodes_ok (map_of m)" "distinct (map fst m)" by (simp_all add: dag_inv_def)
  have "nodes_ok (map_of (AList.update i n m))"
    using nodes_ok_upd [OF ok(1) assms(3) nodes_okD(2,3) [OF ok(1) assms(2)] assms(4)] by simp
  with ok(2) assms(5) show ?thesis by (simp add: dag_inv_def distinct_update)
qed

lemma dag_rel_same_blockers:
  assumes "map_of m i = Some c" and "nblocked n = nblocked c"
  shows "dag_rel (AList.update i n m) = dag_rel m"
proof -
  have "(a, b) \<in> dag_rel (AList.update i n m) \<longleftrightarrow> (a, b) \<in> dag_rel m" for a b
    using assms by (simp add: dag_rel_iff del: map_of_eq_Some_iff)
  then show ?thesis by auto
qed

section \<open>What the operations do\<close>

lemma dag_appendLocked_nil [simp]: "dag_appendLocked G t io (d, None) ty n k = (None, None)"
  by (simp add: dag_appendLocked_def append_opt_def)

lemma dag_update_Inr:
  assumes "dag_update G now t io s id0 expected f = (s', Inr u)"
  obtains c m1 u0 es' where "map_of (dag_nodes (fst s)) (trim_space id0) = Some c"
    "expected \<noteq> 0" "nrev c = expected" "f (dag_nodes (fst s)) c = (m1, Inr u0)"
    "u = u0\<lparr>nrev := nrev u0 + 1, nupdated := now\<rparr>"
    "s' = ((fst s)\<lparr>dag_nodes := AList.update (trim_space id0) u m1\<rparr>, es')"
    "dag_appendLocked G t io ((fst s)\<lparr>dag_nodes := m1\<rparr>, snd s) eventTaskNodeUpdated u (update_key u)
       = (es', None)"
  using assms
  by (auto simp: dag_update_def Let_def split: option.splits if_splits sum.splits prod.splits)

lemma dag_update_nodes_cases:
  assumes "dag_update G now t io s id0 expected f = (s', r)"
  obtains (unchanged) "dag_nodes (fst s') = dag_nodes (fst s)"
  | (failed) c m1 where "map_of (dag_nodes (fst s)) (trim_space id0) = Some c"
      "fst (f (dag_nodes (fst s)) c) = m1" "dag_nodes (fst s') = m1" "\<exists>x. r = Inl x"
  | (stored) c m1 u0 u where "map_of (dag_nodes (fst s)) (trim_space id0) = Some c"
      "f (dag_nodes (fst s)) c = (m1, Inr u0)" "u = u0\<lparr>nrev := nrev u0 + 1, nupdated := now\<rparr>"
      "dag_nodes (fst s') = AList.update (trim_space id0) u m1" "r = Inr u"
  using assms
  by (auto simp: dag_update_def Let_def split: option.splits if_splits sum.splits prod.splits)

text \<open>
  \<open>SetDependencies\<close> probes the map under the id as given, so it is meant for a trimmed id.
\<close>

fun op_ok :: "string \<Rightarrow> dag_op \<Rightarrow> bool" where
  "op_ok id0 (OpDeps bs) = trimmed id0"
| "op_ok id0 _ = True"

lemma op_mutation_map:
  assumes "op_mutation id0 op m c = (m1, r)" and "op_ok id0 op" and "map_of m (trim_space id0) = Some c'"
  shows "map_of m1 = map_of m"
proof (cases op)
  case (OpDeps bs)
  with assms show ?thesis
    by (auto simp: mutate_deps_def Let_def trim_space_of_trimmed split: option.splits)
qed (use assms in \<open>auto simp: mutate_status_def mutate_owner_def\<close>)

lemma op_mutation_nodes:
  assumes "op_mutation id0 op m c = (m1, r)" and "distinct (map fst m)"
  shows "distinct (map fst m1)"
proof (cases op)
  case (OpDeps bs)
  with assms show ?thesis
    by (auto simp: mutate_deps_def Let_def distinct_update split: option.splits)
qed (use assms in \<open>auto simp: mutate_status_def mutate_owner_def\<close>)

lemma op_mutation_Inr:
  assumes "op_mutation id0 op m c = (m1, Inr u)"
  shows "nid u = nid c" and "nrev u = nrev c"
    and "(\<forall>bs. op \<noteq> OpDeps bs) \<longrightarrow> nblocked u = nblocked c"
    and "\<forall>bs. op = OpDeps bs \<longrightarrow> set (nblocked u) \<subseteq> dom (map_of m)
           \<and> acyclic (dag_rel (AList.update id0 u m))"
  using assms
  by (cases op; auto simp: mutate_status_def mutate_owner_def mutate_deps_def Let_def
      check_blockers_None hasCycleLocked_iff split: option.splits if_splits)+

lemma dag_inv_cong:
  assumes "map_of m = map_of m'" and "dag_inv m" and "distinct (map fst m')"
  shows "dag_inv m'"
  using assms dag_rel_cong [OF assms(1)] by (simp add: dag_inv_def)

lemma dag_inv_op:
  assumes "dag_inv m" and "op_ok id0 op" and "map_of m (trim_space id0) = Some c"
    and "op_mutation id0 op m c = (m1, Inr u0)"
  shows "dag_inv (AList.update (trim_space id0) (u0\<lparr>nrev := r, nupdated := now\<rparr>) m1)"
proof -
  let ?u = "u0\<lparr>nrev := r, nupdated := now\<rparr>" and ?i = "trim_space id0"
  note h = op_mutation_Inr [OF assms(4)]
  have ok: "nodes_ok (map_of m)" using assms(1) by (simp add: dag_inv_def)
  have c: "nid c = ?i" "set (nblocked c) \<subseteq> dom (map_of m)" "distinct (map fst m)"
    "acyclic (dag_rel m)"
    using nodes_okD [OF ok assms(3)] assms(1) by (simp_all add: dag_inv_def)
  have dep: "set (nblocked u0) \<subseteq> dom (map_of m) \<and> acyclic (dag_rel (AList.update ?i u0 m))"
  proof (cases op)
    case (OpDeps bs)
    with assms(2) have "?i = id0" by (simp add: trimmed_def)
    with h(4) OpDeps show ?thesis by simp
  next
    case (OpStatus st)
    with h(3) have "nblocked u0 = nblocked c" by simp
    with c assms(3) show ?thesis by (simp add: dag_rel_same_blockers)
  next
    case (OpOwner w)
    with h(3) have "nblocked u0 = nblocked c" by simp
    with c assms(3) show ?thesis by (simp add: dag_rel_same_blockers)
  qed
  have "dag_rel (AList.update ?i ?u m) = dag_rel (AList.update ?i u0 m)"
    by (simp add: dag_rel_update)
  with dep have inv: "dag_inv (AList.update ?i ?u m)"
    using assms(1,3) c(1) h(1) by (intro dag_inv_replace) auto
  have "map_of m1 = map_of m" by (rule op_mutation_map [OF assms(4,2,3)])
  then have eq: "map_of (AList.update ?i ?u m) = map_of (AList.update ?i ?u m1)"
    by (simp only: map_of_update)
  have "distinct (map fst m1)" by (rule op_mutation_nodes [OF assms(4) c(3)])
  then show ?thesis by (intro dag_inv_cong [OF eq inv] distinct_update)
qed

lemma dag_inv_update:
  assumes "dag_update G now t io s id0 expected (op_mutation id0 op) = (s', r)"
    and "dag_inv (dag_nodes (fst s))" and "op_ok id0 op"
  shows "dag_inv (dag_nodes (fst s'))"
  using assms(1)
proof (cases rule: dag_update_nodes_cases)
  case unchanged
  with assms(2) show ?thesis by simp
next
  case (failed c m1)
  obtain r1 where m1: "op_mutation id0 op (dag_nodes (fst s)) c = (m1, r1)"
    using failed(2) by (metis prod.collapse)
  have "map_of m1 = map_of (dag_nodes (fst s))" by (rule op_mutation_map [OF m1 assms(3) failed(1)])
  moreover have "distinct (map fst m1)"
    using op_mutation_nodes [OF m1] assms(2) by (simp add: dag_inv_def)
  ultimately show ?thesis using dag_inv_cong [OF _ assms(2)] failed(3) by simp
next
  case (stored c m1 u0 u)
  then show ?thesis using dag_inv_op [OF assms(2,3) stored(1,2)] by simp
qed

lemma dag_Add_nodes_cases:
  assumes "dag_Add G now t io s n0 = (s', r)"
  obtains (unchanged) "dag_nodes (fst s') = dag_nodes (fst s)"
  | (added) n where "n = normalizeTaskNode now n0" "nid n \<noteq> []" "nsubject n \<noteq> []" "r = Inr n"
      "map_of (dag_nodes (fst s)) (nid n) = None"
      "check_blockers (dag_nodes (fst s)) (nid n) (nblocked n) = None"
      "dag_nodes (fst s') = AList.update (nid n) n (dag_nodes (fst s))"
  using assms
  by (auto simp: dag_Add_def Let_def simp del: map_of_eq_None_iff
      split: option.splits if_splits prod.splits)

lemma dag_inv_Add:
  assumes "dag_Add G now t io s n0 = (s', r)" and "dag_inv (dag_nodes (fst s))"
  shows "dag_inv (dag_nodes (fst s'))"
  using assms(1)
proof (cases rule: dag_Add_nodes_cases)
  case unchanged
  with assms(2) show ?thesis by simp
next
  case (added n)
  then have "trimmed (nid n)" by simp
  then show ?thesis
    using dag_inv_add [OF assms(2) added(5,2) _ added(6)] added(7) by simp
qed

section \<open>Runs of the DAG\<close>

inductive dag_step :: "('z) goenv_scheme \<Rightarrow> dag_state \<Rightarrow> dag_state \<Rightarrow> bool" for G where
  add: "dag_Add G now t io s n = (s', r) \<Longrightarrow> dag_step G s s'"
| status: "SetStatus G now t io s id0 expected st = (s', r) \<Longrightarrow> dag_step G s s'"
| owner: "AssignOwner G now t io s id0 expected w = (s', r) \<Longrightarrow> dag_step G s s'"
| deps: "SetDependencies G now t io s id0 expected bs = (s', r) \<Longrightarrow> trimmed id0 \<Longrightarrow> dag_step G s s'"

lemma dag_op_defs:
  "SetStatus G now t io s id0 expected st =
     dag_update G now t io s id0 expected (op_mutation id0 (OpStatus st))"
  "AssignOwner G now t io s id0 expected w =
     dag_update G now t io s id0 expected (op_mutation id0 (OpOwner w))"
  "SetDependencies G now t io s id0 expected bs =
     dag_update G now t io s id0 expected (op_mutation id0 (OpDeps bs))"
  by (simp_all add: SetStatus_def AssignOwner_def SetDependencies_def)

lemma dag_step_inv:
  assumes "dag_step G s s'" and "dag_inv (dag_nodes (fst s))"
  shows "dag_inv (dag_nodes (fst s'))"
  using assms
proof (induction rule: dag_step.induct)
  case (add now t io s n s' r)
  then show ?case by (rule dag_inv_Add)
next
  case (status now t io s id0 expected st s' r)
  then show ?case using dag_inv_update [of G now t io s id0 expected "OpStatus st"]
    by (simp add: dag_op_defs)
next
  case (owner now t io s id0 expected w s' r)
  then show ?case using dag_inv_update [of G now t io s id0 expected "OpOwner w"]
    by (simp add: dag_op_defs)
next
  case (deps now t io s id0 expected bs s' r)
  then show ?case using dag_inv_update [of G now t io s id0 expected "OpDeps bs"]
    by (simp add: dag_op_defs)
qed

end
