(* ===== verification/TaskDagProps.thy ===== *)
theory TaskDagProps
  imports TaskDag
begin

text \<open>
  What the task DAG of \<open>internal/orchestration/taskdag.go\<close> guarantees: safety of every reachable
  state, exactness of the cycle search, the status machine, scheduling (\<open>Runnable\<close>), revision
  fencing, and durability (a restart rebuilds the hot map).
\<close>

lemma dag_steps_inv: "(dag_step G)\<^sup>*\<^sup>* s s' \<Longrightarrow> dag_inv (dag_nodes (fst s)) \<Longrightarrow> dag_inv (dag_nodes (fst s'))"
  by (induction rule: rtranclp_induct) (auto intro: dag_step_inv)

interpretation dag_status: status_machine taskNodeTransitionAllowed
  "\<lambda>st. st = TaskNodeCompleted \<or> st = TaskNodeCancelled"
  by unfold_locales (auto simp: taskNodeTransitionAllowed_def split: if_splits)

section \<open>Properties of the DAG\<close>

text \<open>
  C3. Every state the DAG reaches from an empty one through \<open>Add\<close>, \<open>SetStatus\<close>, \<open>AssignOwner\<close>
  and \<open>SetDependencies\<close> (with a trimmed id), whatever arguments, clock readings and write
  failures occur on the way, satisfies the invariant: node keys are distinct and agree with the
  ids, every blocker is a node, and the blocked-by relation has no cycle.
\<close>

theorem dag_reachable_acyclic:
  assumes "(dag_step G)\<^sup>*\<^sup>* (d0, es0) (d, es)" and "dag_nodes d0 = []"
  shows "dag_inv (dag_nodes d)"
  using dag_steps_inv [OF assms(1)] assms(2) by (simp add: dag_inv_empty)

definition demo_node :: "string \<Rightarrow> string list \<Rightarrow> task_node" where
  "demo_node i bs = zero_node\<lparr>nid := i, nsubject := ''s'', nblocked := bs\<rparr>"

definition demo_dag0 :: dag_state where
  "demo_dag0 = (\<lparr>dag_ws = ''w'', dag_task = ''t'', dag_nodes = []\<rparr>, Some empty_evstore)"

lemma demo_dag0_nodes: "dag_nodes (fst demo_dag0) = []"
  by (simp add: demo_dag0_def)

definition demo_dag1 :: dag_state where
  "demo_dag1 = fst (dag_Add demo_env 5 5 WOk demo_dag0 (demo_node ''a'' []))"

definition demo_dag2 :: dag_state where
  "demo_dag2 = fst (dag_Add demo_env 6 6 WOk demo_dag1 (demo_node '' b'' [''a '']))"

lemma demo_dag2_reachable: "(dag_step demo_env)\<^sup>*\<^sup>* demo_dag0 demo_dag2"
proof -
  have "dag_step demo_env demo_dag0 demo_dag1" "dag_step demo_env demo_dag1 demo_dag2"
    unfolding demo_dag1_def demo_dag2_def by (metis dag_step.add prod.collapse)+
  then show ?thesis by (metis rtranclp.simps)
qed

lemma demo_dag2_inv: "dag_inv (dag_nodes (fst demo_dag2))"
  by (rule dag_steps_inv [OF demo_dag2_reachable]) (simp add: demo_dag0_nodes dag_inv_empty)

theorem dag_reachable_acyclic_witness:
  "map fst (dag_nodes (fst demo_dag2)) = [''a'', ''b''] \<and> dag_inv (dag_nodes (fst demo_dag2))"
proof
  show "map fst (dag_nodes (fst demo_dag2)) = [''a'', ''b'']" by code_simp
  show "dag_inv (dag_nodes (fst demo_dag2))"
    using dag_reachable_acyclic [of demo_env "fst demo_dag0" "snd demo_dag0" "fst demo_dag2" "snd demo_dag2"]
      demo_dag2_reachable demo_dag0_nodes by (simp only: prod.collapse)
qed

text \<open>
  C28. \<open>hasCycleLocked\<close> is exact: the depth-first search over the shared \<open>visiting\<close> and
  \<open>visited\<close> maps always ends, and it answers true if and only if the blocked-by relation of the
  node map has a cycle.
\<close>

theorem hasCycleLocked_exact:
  "visit_all (Suc (length m)) m (map fst m) ([], []) \<noteq> None \<and>
   (hasCycleLocked m \<longleftrightarrow> (\<exists>i. (i, i) \<in> (dag_rel m)\<^sup>+))"
proof
  have "card (fst ` set m) \<le> length m"
    by (metis card_length length_map set_map)
  then show "visit_all (Suc (length m)) m (map fst m) ([], []) \<noteq> None"
    using visit_enough_fuel(2) [of "map fst m" m "([], [])"] by simp
  show "hasCycleLocked m \<longleftrightarrow> (\<exists>i. (i, i) \<in> (dag_rel m)\<^sup>+)"
    by (simp add: hasCycleLocked_iff acyclic_def)
qed

text \<open>
  When \<open>SetStatus\<close> puts a node into a new state it obeys the machine: the move is in the
  transition table, the revision goes up by exactly one, only this node changes, and a node
  that becomes \<open>running\<close> has all its blockers \<open>completed\<close>.
\<close>

theorem SetStatus_sound:
  assumes "SetStatus G now t io s id0 expected st = (s', Inr u)" and "dag_inv (dag_nodes (fst s))"
  shows "\<exists>c. map_of (dag_nodes (fst s)) (trim_space id0) = Some c \<and> nrev c = expected \<and>
    taskNodeTransitionAllowed (nstatus c) st \<and> u = c\<lparr>nstatus := st, nrev := expected + 1, nupdated := now\<rparr> \<and>
    map_of (dag_nodes (fst s')) = (map_of (dag_nodes (fst s)))(trim_space id0 \<mapsto> u) \<and>
    (st = TaskNodeRunning \<longrightarrow> (\<forall>b \<in> set (nblocked c). \<exists>d.
        map_of (dag_nodes (fst s)) b = Some d \<and> nstatus d = TaskNodeCompleted))"
proof -
  let ?m = "dag_nodes (fst s)"
  obtain c m1 u0 es' where c: "map_of ?m (trim_space id0) = Some c" "nrev c = expected"
    "mutate_status st ?m c = (m1, Inr u0)" "u = u0\<lparr>nrev := nrev u0 + 1, nupdated := now\<rparr>"
    "s' = ((fst s)\<lparr>dag_nodes := AList.update (trim_space id0) u m1\<rparr>, es')"
    using assms(1) unfolding SetStatus_def by (rule dag_update_Inr) blast
  from c(3) have h: "m1 = ?m" "u0 = c\<lparr>nstatus := st\<rparr>" "taskNodeTransitionAllowed (nstatus c) st"
    "st = TaskNodeRunning \<longrightarrow> unblockedLocked ?m (nid c)"
    by (auto simp: mutate_status_def split: if_splits)
  have "nid c = trim_space id0"
    using nodes_okD(1) [of "map_of ?m" "trim_space id0" c] c(1) assms(2) by (simp add: dag_inv_def)
  then have "\<exists>d. map_of ?m b = Some d \<and> nstatus d = TaskNodeCompleted"
    if "st = TaskNodeRunning" "b \<in> set (nblocked c)" for b
    using h(4) that c(1)
    by (auto simp: unblockedLocked_def list_all_iff simp del: map_of_eq_Some_iff split: option.splits)
  then show ?thesis using c h by (intro exI [of _ c]) auto
qed

theorem SetStatus_sound_witness:
  "\<exists>c. map_of (dag_nodes (fst demo_dag2)) ''a'' = Some c \<and> taskNodeTransitionAllowed (nstatus c) ''running'' \<and>
     (\<exists>u. snd (SetStatus demo_env 9 9 WOk demo_dag2 '' a'' 1 ''running'') = Inr u \<and>
       map_of (dag_nodes (fst (fst (SetStatus demo_env 9 9 WOk demo_dag2 '' a'' 1 ''running''))))
         = (map_of (dag_nodes (fst demo_dag2)))(''a'' \<mapsto> u))"
proof -
  let ?r = "SetStatus demo_env 9 9 WOk demo_dag2 '' a'' 1 ''running''"
  have r: "case snd ?r of Inr u \<Rightarrow> True | Inl _ \<Rightarrow> False" by code_simp
  then obtain u where u: "snd ?r = Inr u" by (cases "snd ?r") simp_all
  then have eq: "?r = (fst ?r, Inr u)" by (simp add: prod_eq_iff)
  have i: "trim_space '' a'' = ''a''" by code_simp
  show ?thesis
    using SetStatus_sound [OF eq demo_dag2_inv, unfolded i] u by blast
qed

lemma ids_of_values:
  assumes "distinct (map fst m)" and "nodes_ok (map_of m)"
  shows "map nid (map snd m) = map fst m"
proof -
  have "nid (snd p) = fst p" if "p \<in> set m" for p
    using nodes_okD(1) [OF assms(2), of "fst p" "snd p"] assms(1) that by simp
  then show ?thesis by simp
qed

lemma dag_values:
  assumes "dag_inv m"
  shows "n \<in> set (map snd m) \<longleftrightarrow> map_of m (nid n) = Some n"
proof -
  have "n \<in> set (map snd m) \<longleftrightarrow> (\<exists>i. map_of m i = Some n)"
    using assms by (force simp: dag_inv_def)
  then show ?thesis
    using assms nodes_okD(1) [of "map_of m" _ n] unfolding dag_inv_def by auto
qed

lemma dag_values_distinct: "dag_inv m \<Longrightarrow> distinct (map nid (map snd m))"
  unfolding dag_inv_def by (metis ids_of_values)

lemma unblockedLocked_iff:
  "map_of m i = Some n \<Longrightarrow> unblockedLocked m i \<longleftrightarrow>
     (\<forall>b \<in> set (nblocked n). \<exists>c. map_of m b = Some c \<and> nstatus c = TaskNodeCompleted)"
  by (auto simp: unblockedLocked_def list_all_iff simp del: map_of_eq_Some_iff split: option.splits)

lemma unblockedLocked_cong: "map_of m = map_of m' \<Longrightarrow> unblockedLocked m = unblockedLocked m'"
  by (rule ext) (simp only: unblockedLocked_def)

lemma set_Runnable:
  assumes "dag_inv (dag_nodes d)"
  shows "set (Runnable d) = {n. map_of (dag_nodes d) (nid n) = Some n \<and> nstatus n = TaskNodePending \<and>
      (\<forall>b \<in> set (nblocked n). \<exists>c. map_of (dag_nodes d) b = Some c \<and> nstatus c = TaskNodeCompleted)}"
  using dag_values [OF assms] unblockedLocked_iff [of "dag_nodes d"]
  by (auto simp: Runnable_def simp del: map_of_eq_Some_iff set_map)

text \<open>
  \<open>Runnable\<close> returns exactly the pending nodes whose blockers are all completed, each once
  and in strictly ascending id order; the answer depends only on the contents of the node map
  and not on the order in which Go iterates it.
\<close>

theorem Runnable_spec:
  assumes "dag_inv (dag_nodes d)" and "dag_inv (dag_nodes d')"
    and "map_of (dag_nodes d') = map_of (dag_nodes d)"
  shows "set (Runnable d) = {n. map_of (dag_nodes d) (nid n) = Some n \<and> nstatus n = TaskNodePending \<and>
      (\<forall>b \<in> set (nblocked n). \<exists>c. map_of (dag_nodes d) b = Some c \<and> nstatus c = TaskNodeCompleted)} \<and>
    sorted (map nid (Runnable d)) \<and> distinct (map nid (Runnable d)) \<and> Runnable d' = Runnable d"
proof (intro conjI)
  let ?P = "\<lambda>n. nstatus n = TaskNodePending \<and> unblockedLocked (dag_nodes d) (nid n)"
  let ?xs = "filter ?P (map snd (dag_nodes d))" and ?ys = "filter ?P (map snd (dag_nodes d'))"
  have dx: "distinct (map nid ?xs)" "distinct (map nid ?ys)"
    using dag_values_distinct [OF assms(1)] dag_values_distinct [OF assms(2)]
    by (intro distinct_map_filter; simp)+
  show "distinct (map nid (Runnable d))"
    using dx(1) by (simp add: Runnable_def distinct_map)
  show "sorted (map nid (Runnable d))" by (simp add: Runnable_def)
  have "set ?ys = set ?xs"
    using dag_values [OF assms(1)] dag_values [OF assms(2)] assms(3) by (simp add: set_eq_iff)
  then have "sort_key nid ?ys = sort_key nid ?xs"
    using dx by (intro sort_key_set_eq) (simp_all add: distinct_map)
  then show "Runnable d' = Runnable d"
    using unblockedLocked_cong [OF assms(3)] by (simp add: Runnable_def)
qed (rule set_Runnable [OF assms(1)])

theorem Runnable_spec_witness:
  "map nid (Runnable (fst demo_dag2)) = [''a''] \<and>
   Runnable ((fst demo_dag2)\<lparr>dag_nodes := rev (dag_nodes (fst demo_dag2))\<rparr>) = Runnable (fst demo_dag2)"
proof
  show "map nid (Runnable (fst demo_dag2)) = [''a'']" by code_simp
  let ?d' = "(fst demo_dag2)\<lparr>dag_nodes := rev (dag_nodes (fst demo_dag2))\<rparr>"
  have dist: "distinct (map fst (dag_nodes (fst demo_dag2)))"
    using demo_dag2_inv by (simp add: dag_inv_def)
  then have "map_of (dag_nodes ?d') = map_of (dag_nodes (fst demo_dag2))"
    by (intro map_of_inject_set [THEN iffD2]) (simp_all add: rev_map [symmetric])
  moreover from this have "dag_inv (dag_nodes ?d')"
    using dag_inv_cong [OF _ demo_dag2_inv] dist by (simp add: rev_map [symmetric])
  ultimately show "Runnable ?d' = Runnable (fst demo_dag2)"
    using Runnable_spec [OF demo_dag2_inv, of ?d'] by blast
qed

text \<open>
  C40. The scheduler cannot deadlock on a DAG that satisfies \<open>dag_inv\<close> (keys agree with ids, every
  blocker is a node, the blocked-by relation is acyclic): as long as some node is pending and
  every node is pending or completed, \<open>Runnable\<close> is not empty. On a cycle, which \<open>SetDependencies\<close>
  with an untrimmed id can create, nothing is promised.
\<close>

theorem Runnable_progress:
  assumes "dag_inv (dag_nodes d)"
    and "\<forall>n \<in> set (map snd (dag_nodes d)). nstatus n = TaskNodePending \<or> nstatus n = TaskNodeCompleted"
    and "\<exists>n \<in> set (map snd (dag_nodes d)). nstatus n = TaskNodePending"
  shows "Runnable d \<noteq> []"
proof -
  let ?m = "dag_nodes d"
  define Q where "Q = {i. \<exists>n. map_of ?m i = Some n \<and> nstatus n = TaskNodePending}"
  have fin: "finite (dag_rel ?m)"
  proof (rule finite_subset)
    show "dag_rel ?m \<subseteq> (\<Union>n \<in> snd ` set ?m. fst ` set ?m \<times> set (nblocked n))"
      by (force simp: dag_rel_iff dest: map_of_SomeD)
  qed simp
  have ac: "acyclic (dag_rel ?m)" using assms(1) by (simp add: dag_inv_def)
  have "wf ((dag_rel ?m)\<inverse>)" by (rule finite_acyclic_wf_converse [OF fin ac])
  moreover obtain i0 where "i0 \<in> Q"
    using assms(3) dag_values [OF assms(1)] unfolding Q_def by blast
  ultimately obtain i where i: "i \<in> Q" "\<And>b. (b, i) \<in> (dag_rel ?m)\<inverse> \<Longrightarrow> b \<notin> Q"
    by (metis wfE_min)
  then obtain n where n: "map_of ?m i = Some n" "nstatus n = TaskNodePending"
    by (auto simp: Q_def simp del: map_of_eq_Some_iff)
  have "\<exists>c. map_of ?m b = Some c \<and> nstatus c = TaskNodeCompleted" if b: "b \<in> set (nblocked n)" for b
  proof -
    have ok: "nodes_ok (map_of ?m)" using assms(1) by (simp add: dag_inv_def)
    with n(1) b obtain c where c: "map_of ?m b = Some c"
      using nodes_okD(4) [of "map_of ?m" i n] by blast
    have "b \<notin> Q" using i(2) [of b] n(1) b dag_rel_iff [of i b ?m] by blast
    then have "nstatus c \<noteq> TaskNodePending" using c unfolding Q_def by blast
    moreover have "c \<in> set (map snd ?m)"
      using c nodes_okD(1) [OF ok c] dag_values [OF assms(1), of c] by simp
    ultimately show ?thesis using c assms(2) by blast
  qed
  moreover have "nid n = i"
    using assms(1) n(1) nodes_okD(1) [of "map_of ?m" i n] by (simp add: dag_inv_def)
  ultimately have "n \<in> set (Runnable d)" using n set_Runnable [OF assms(1)] by simp
  then show ?thesis by auto
qed

theorem Runnable_progress_witness: "Runnable (fst demo_dag2) \<noteq> []"
proof (rule Runnable_progress [OF demo_dag2_inv])
  show "\<forall>n \<in> set (map snd (dag_nodes (fst demo_dag2))).
      nstatus n = TaskNodePending \<or> nstatus n = TaskNodeCompleted" by code_simp
  show "\<exists>n \<in> set (map snd (dag_nodes (fst demo_dag2))). nstatus n = TaskNodePending" by code_simp
qed

section \<open>Runs: terminal states and revisions\<close>

lemma dag_update_status:
  assumes "dag_update G now t io s id0 expected (op_mutation id0 op) = (s', r)"
    and "op_ok id0 op" and "map_of (dag_nodes (fst s)) i = Some n"
  shows "\<exists>n'. map_of (dag_nodes (fst s')) i = Some n' \<and> taskNodeTransitionAllowed (nstatus n) (nstatus n')"
proof -
  have refl: "taskNodeTransitionAllowed x x" for x by (simp add: taskNodeTransitionAllowed_def)
  show ?thesis
    using assms(1)
  proof (cases rule: dag_update_nodes_cases)
    case unchanged
    with assms(3) refl show ?thesis by auto
  next
    case (failed c m1)
    obtain r1 where m1: "op_mutation id0 op (dag_nodes (fst s)) c = (m1, r1)"
      using failed(2) by (metis prod.collapse)
    have "map_of m1 = map_of (dag_nodes (fst s))" by (rule op_mutation_map [OF m1 assms(2) failed(1)])
    with failed(3) assms(3) refl show ?thesis by auto
  next
    case (stored c m1 u0 u)
    have m1: "map_of m1 = map_of (dag_nodes (fst s))"
      by (rule op_mutation_map [OF stored(2) assms(2) stored(1)])
    have "taskNodeTransitionAllowed (nstatus c) (nstatus u0)"
      using stored(2) refl
      by (cases op) (auto simp: mutate_status_def mutate_owner_def mutate_deps_def Let_def
          split: if_splits option.splits)
    with stored m1 assms(3) refl show ?thesis by (cases "i = trim_space id0") auto
  qed
qed

lemma dag_step_status:
  assumes "dag_step G s s'" and "map_of (dag_nodes (fst s)) i = Some n"
  shows "\<exists>n'. map_of (dag_nodes (fst s')) i = Some n' \<and> taskNodeTransitionAllowed (nstatus n) (nstatus n')"
  using assms
proof (induction rule: dag_step.induct)
  case (add now t io s n0 s' r)
  have refl: "taskNodeTransitionAllowed (nstatus n) (nstatus n)"
    by (simp add: taskNodeTransitionAllowed_def)
  from add(1) show ?case
  proof (cases rule: dag_Add_nodes_cases)
    case unchanged
    with add(2) refl show ?thesis by simp
  next
    case (added x)
    then have "i \<noteq> nid x" using add(2) by auto
    with added(7) add(2) refl show ?thesis by simp
  qed
qed (auto simp only: dag_op_defs op_ok.simps intro: dag_update_status)

text \<open>
  \<open>completed\<close> and \<open>cancelled\<close> are final: whatever operations follow, a node in one of these
  states stays a node of the DAG and keeps its state.
\<close>

theorem dag_terminal_forever:
  assumes "(dag_step G)\<^sup>*\<^sup>* s s'" and "map_of (dag_nodes (fst s)) i = Some n"
    and "nstatus n = TaskNodeCompleted \<or> nstatus n = TaskNodeCancelled"
  shows "\<exists>n'. map_of (dag_nodes (fst s')) i = Some n' \<and> nstatus n' = nstatus n"
proof -
  have "\<exists>n'. map_of (dag_nodes (fst s')) i = Some n' \<and>
      taskNodeTransitionAllowed\<^sup>*\<^sup>* (nstatus n) (nstatus n')"
    using assms(1,2)
  proof (induction rule: rtranclp_induct)
    case (step s1 s2)
    then obtain n1 where "map_of (dag_nodes (fst s1)) i = Some n1"
      "taskNodeTransitionAllowed\<^sup>*\<^sup>* (nstatus n) (nstatus n1)" by blast
    then show ?case
      using dag_step_status [OF step.hyps(2)] by (blast intro: rtranclp.rtrancl_into_rtrancl)
  qed blast
  then show ?thesis using dag_status.terminal_forever assms(3) by blast
qed

definition demo_dag3 :: dag_state where
  "demo_dag3 = fst (SetStatus demo_env 9 9 WOk
     (fst (SetStatus demo_env 8 8 WOk demo_dag2 ''a'' 1 ''running'')) ''a'' 2 ''completed'')"

lemma demo_dag3_cancel_step:
  "dag_step demo_env demo_dag3 (fst (SetStatus demo_env 9 9 WOk demo_dag3 ''a'' 3 ''pending''))"
  by (rule dag_step.status) (rule prod.collapse [symmetric])

theorem dag_terminal_forever_witness:
  "\<exists>n'. map_of (dag_nodes (fst (fst (SetStatus demo_env 9 9 WOk demo_dag3 ''a'' 3 ''pending'')))) ''a''
     = Some n' \<and> nstatus n' = ''completed''"
proof -
  have "map_option nstatus (map_of (dag_nodes (fst demo_dag3)) ''a'') = Some ''completed''" by code_simp
  then obtain n where n: "map_of (dag_nodes (fst demo_dag3)) ''a'' = Some n" "nstatus n = ''completed''"
    by blast
  then show ?thesis
    using dag_terminal_forever [OF r_into_rtranclp [of "dag_step demo_env", OF demo_dag3_cancel_step] n(1)]
    by simp
qed

text \<open>The revision fence of \<open>update\<close> as a compare-and-swap store.\<close>

record dag_call =
  dc_now :: gotime
  dc_clock :: gotime
  dc_io :: write_outcome
  dc_id :: string
  dc_expected :: u64
  dc_op :: dag_op

definition dag_cas :: "('z) goenv_scheme \<Rightarrow> dag_call \<Rightarrow> dag_state \<Rightarrow> dag_state \<times> bool" where
  "dag_cas G c s =
     (let (s', r) = dag_update G (dc_now c) (dc_clock c) (dc_io c) s (dc_id c) (dc_expected c)
                      (op_mutation (dc_id c) (dc_op c))
      in (s', \<not> isl r))"

definition dag_rev :: "dag_state \<Rightarrow> string \<Rightarrow> u64 option" where
  "dag_rev s i = map_option nrev (map_of (dag_nodes (fst s)) i)"

lemma dag_cas_won:
  assumes "dag_cas G c s = (s', True)" and "op_ok (dc_id c) (dc_op c)"
  shows "dag_rev s (trim_space (dc_id c)) = Some (dc_expected c)"
    and "dag_rev s' = (dag_rev s)(trim_space (dc_id c) \<mapsto> dc_expected c + 1)"
proof -
  obtain u where "dag_update G (dc_now c) (dc_clock c) (dc_io c) s (dc_id c) (dc_expected c)
      (op_mutation (dc_id c) (dc_op c)) = (s', Inr u)"
    using assms(1) by (auto simp: dag_cas_def split: prod.splits sum.splits) (metis isl_def sum.exhaust_sel)
  then obtain n m1 u0 es' where h: "map_of (dag_nodes (fst s)) (trim_space (dc_id c)) = Some n"
    "nrev n = dc_expected c" "op_mutation (dc_id c) (dc_op c) (dag_nodes (fst s)) n = (m1, Inr u0)"
    "u = u0\<lparr>nrev := nrev u0 + 1, nupdated := dc_now c\<rparr>"
    "s' = ((fst s)\<lparr>dag_nodes := AList.update (trim_space (dc_id c)) u m1\<rparr>, es')"
    by (rule dag_update_Inr) blast
  have "map_of m1 = map_of (dag_nodes (fst s))" by (rule op_mutation_map [OF h(3) assms(2) h(1)])
  with h op_mutation_Inr(2) [OF h(3)] show "dag_rev s (trim_space (dc_id c)) = Some (dc_expected c)"
    "dag_rev s' = (dag_rev s)(trim_space (dc_id c) \<mapsto> dc_expected c + 1)"
    by (auto simp: dag_rev_def fun_eq_iff)
qed

lemma dag_cas_lost:
  assumes "dag_cas G c s = (s', False)" and "op_ok (dc_id c) (dc_op c)"
  shows "dag_rev s' = dag_rev s"
proof -
  obtain x where "dag_update G (dc_now c) (dc_clock c) (dc_io c) s (dc_id c) (dc_expected c)
      (op_mutation (dc_id c) (dc_op c)) = (s', Inl x)"
    using assms(1) by (auto simp: dag_cas_def isl_def split: prod.splits)
  then show ?thesis
  proof (cases rule: dag_update_nodes_cases)
    case (failed n m1)
    obtain r1 where m1: "op_mutation (dc_id c) (dc_op c) (dag_nodes (fst s)) n = (m1, r1)"
      using failed(2) by (metis prod.collapse)
    have "map_of m1 = map_of (dag_nodes (fst s))" by (rule op_mutation_map [OF m1 assms(2) failed(1)])
    with failed(3) show ?thesis by (simp add: dag_rev_def fun_eq_iff)
  qed (simp_all add: dag_rev_def fun_eq_iff)
qed

interpretation dag_fence: cas_store dag_rev "dag_cas G" "\<lambda>c. trim_space (dc_id c)" dc_expected
  "\<lambda>c. op_ok (dc_id c) (dc_op c)" for G
  by unfold_locales (auto intro: dag_cas_won dag_cas_lost)

text \<open>
  No lost update: in any interleaving of \<open>SetStatus\<close>, \<open>AssignOwner\<close> and \<open>SetDependencies\<close>
  calls (at most \<open>2 ^ 64\<close> of them, so that the \<open>uint64\<close> revision cannot come round), of all the
  calls that name the same node and the same expected revision at most one succeeds.
\<close>

theorem dag_one_winner:
  assumes "list_all (\<lambda>c. op_ok (dc_id c) (dc_op c)) cs" and "length cs \<le> 2 ^ 64"
  shows "distinct (map (\<lambda>c. (trim_space (dc_id c), dc_expected c)) (snd (cas_run (dag_cas G) s cs)))"
  using dag_fence.one_winner [OF assms] .

definition demo_calls :: "dag_call list" where
  "demo_calls = map (\<lambda>w. \<lparr>dc_now = 8, dc_clock = 8, dc_io = WOk, dc_id = ''a'', dc_expected = 1,
     dc_op = OpOwner w\<rparr>) [''x'', ''y'', ''z'']"

theorem dag_one_winner_witness:
  "length (snd (cas_run (dag_cas demo_env) demo_dag2 demo_calls)) = 1 \<and>
   distinct (map (\<lambda>c. (trim_space (dc_id c), dc_expected c))
     (snd (cas_run (dag_cas demo_env) demo_dag2 demo_calls)))"
proof
  show "length (snd (cas_run (dag_cas demo_env) demo_dag2 demo_calls)) = 1" by code_simp
  show "distinct (map (\<lambda>c. (trim_space (dc_id c), dc_expected c))
     (snd (cas_run (dag_cas demo_env) demo_dag2 demo_calls)))"
    by (rule dag_one_winner) (simp_all add: demo_calls_def)
qed

text \<open>
  \<open>SetDependencies\<close> with an id that has outer white space passes the lookup (which trims)
  but makes its cycle probe under the untrimmed key: the cycle is stored, and a zero node is
  left in the map under the untrimmed id.
\<close>

theorem SetDependencies_untrimmed_cycle:
  "\<exists>s u. SetDependencies demo_env 9 9 WOk demo_dag2 '' a'' 1 [''b''] = (s, Inr u) \<and>
     hasCycleLocked (dag_nodes (fst s)) \<and> map_of (dag_nodes (fst s)) '' a'' = Some zero_node \<and>
     snd (SetDependencies demo_env 9 9 WOk demo_dag2 ''a'' 1 [''b'']) = Inl ErrTaskDAGCycle"
proof -
  let ?r = "SetDependencies demo_env 9 9 WOk demo_dag2 '' a'' 1 [''b'']"
  let ?q = "SetDependencies demo_env 9 9 WOk demo_dag2 ''a'' 1 [''b'']"
  have "\<not> isl (snd ?r)" "hasCycleLocked (dag_nodes (fst (fst ?r)))"
    "map_of (dag_nodes (fst (fst ?r))) '' a'' = Some zero_node" "snd ?q = Inl ErrTaskDAGCycle"
    by code_simp+
  then show ?thesis
    by (intro exI [of _ "fst ?r"] exI [of _ "projr (snd ?r)"]) (auto simp: prod_eq_iff)
qed

section \<open>Durability\<close>

text \<open>
  A node that survives the JSON trip: valid UTF-8 text and a revision a \<open>float64\<close> holds exactly.
\<close>

definition node_stable :: "task_node \<Rightarrow> bool" where
  "node_stable n \<longleftrightarrow> list_all valid_utf8 [nid n, nsubject n, ndesc n, nstatus n, nowner n] \<and>
     list_all (list_all valid_utf8) [nblocked n, nread n, nwrite n, nverif n] \<and>
     small_u64 (nrev n) \<and> nid n \<noteq> [] \<and> trimmed (nid n) \<and> nrev n \<noteq> 0"

lemma node_stableD:
  assumes "node_stable n"
  shows "valid_utf8 (nid n)" "valid_utf8 (nsubject n)" "valid_utf8 (ndesc n)" "valid_utf8 (nstatus n)"
    "valid_utf8 (nowner n)" "list_all valid_utf8 (nblocked n)" "list_all valid_utf8 (nread n)"
    "list_all valid_utf8 (nwrite n)" "list_all valid_utf8 (nverif n)" "small_u64 (nrev n)"
    "trimmed (nid n)" "nrev n \<noteq> 0"
  using assms by (simp_all add: node_stable_def)

lemma coerce_dagPayload: "node_stable n \<Longrightarrow> coerce_json (dagPayload G n) = dagPayload G n"
  unfolding dagPayload_def coerce_json_JObj
  by (simp add: node_stableD coerce_omit utf8_coerce_ascii is_ascii_def)

lemma dagDecode_dagPayload: "node_stable n \<Longrightarrow> dagDecode (dagPayload G n) = Some n"
  unfolding dagDecode_def dagPayload_def jfield_JObj
  by (simp add: node_stableD json_codec dec_omit del: map_of_append cong: if_cong split del: if_split)


definition dag_put :: "('z) goenv_scheme \<Rightarrow> string \<Rightarrow> bool \<Rightarrow> task_node \<Rightarrow> event" where
  "dag_put G task a n =
     (if a then dag_event G task eventTaskNodeAdded n (add_key n)
      else dag_event G task eventTaskNodeUpdated n (update_key n))"

lemma dag_event_fields [simp]:
  "ev_type (dag_event G task ty n k) = ty" "ev_idem (dag_event G task ty n k) = k"
  "ev_payload (dag_event G task ty n k) = [(''node'', dagPayload G n)]"
  "ev_task (dag_event G task ty n k) = task" "ev_schema (dag_event G task ty n k) = 0"
  by (simp_all add: dag_event_def zero_event_def)

lemma dag_keys:
  "add_key x = add_key y \<longleftrightarrow> nid x = nid y"
  "update_key x = update_key y \<longleftrightarrow> nid x = nid y \<and> nrev x = nrev y"
  "add_key x \<noteq> update_key y"
  using key_number_inject [of "nid x" "unat (nrev x)" "nid y" "unat (nrev y)"]
  by (simp_all add: add_key_def update_key_def word_unat_eq_iff)

lemma dag_key_text:
  assumes "node_stable x"
  shows "trimmed (add_key x)" "trimmed (update_key x)" "valid_utf8 (add_key x)" "valid_utf8 (update_key x)"
proof -
  have p: "plain_char (CHR ''t'')" "plain_char (CHR '':'')" by (simp_all add: plain_char_def)
  show "trimmed (add_key x)"
    using trimmed_key [OF p, of "nid x" "''ask-node:add''"] node_stableD(11) [OF assms]
    by (simp add: add_key_def)
  show "trimmed (update_key x)"
    using trimmed_number_key [OF p(1), of "''ask-node:update:'' @ nid x @ '':''" "unat (nrev x)"]
    by (simp add: update_key_def)
  show "valid_utf8 (add_key x)" "valid_utf8 (update_key x)"
    using node_stableD(1) [OF assms]
    by (simp_all add: add_key_def update_key_def valid_utf8_Cons valid_utf8_append valid_utf8_itoa)
qed

lemma dag_types_text:
  "trim_space eventTaskNodeAdded = eventTaskNodeAdded" "trim_space eventTaskNodeUpdated = eventTaskNodeUpdated"
  "utf8_coerce eventTaskNodeAdded = eventTaskNodeAdded" "utf8_coerce eventTaskNodeUpdated = eventTaskNodeUpdated"
  "utf8_coerce ''node'' = ''node''"
  by code_simp+

interpretation dag_log: entity_log task dag_decode_event nid "\<lambda>n. unat (nrev n)"
  "\<lambda>n. trim_space task \<noteq> [] \<and> node_stable n" "dag_put G task" for G task
proof unfold_locales
  fix a b x y
  show "ev_idem (dag_put G task a x) = ev_idem (dag_put G task b y) \<Longrightarrow>
      a = b \<and> nid x = nid y \<and> (\<not> a \<longrightarrow> unat (nrev x) = unat (nrev y))"
    using dag_keys [of x y] dag_keys(3) [of y x] by (cases a; cases b) (auto simp: dag_put_def)
next
  fix a x assume "trim_space task \<noteq> [] \<and> node_stable x"
  then show "ev_idem (dag_put G task a x) \<noteq> [] \<and> trimmed (ev_idem (dag_put G task a x)) \<and>
      valid_utf8 (ev_idem (dag_put G task a x))"
    using dag_key_text [of x] by (simp add: dag_put_def add_key_def update_key_def)
next
  fix now a x assume "trim_space task \<noteq> [] \<and> node_stable x"
  then show "\<exists>e1. normalizeEvent now (dag_put G task a x) task = Inr e1"
    by (simp add: dag_put_def normalizeEvent_def Let_def dag_types_text)
next
  fix a x and e :: event
  assume "trim_space task \<noteq> [] \<and> node_stable x"
    and "ev_type e = utf8_coerce (trim_space (ev_type (dag_put G task a x)))"
    and "ev_payload e = map (\<lambda>(k, v). (utf8_coerce k, coerce_json v)) (ev_payload (dag_put G task a x))"
  then show "dag_decode_event e = Some (Some x)"
    by (cases a) (simp_all add: dag_put_def dag_decode_event_def dag_types_text coerce_dagPayload
        dagDecode_dagPayload)
qed

lemma dag_replay_replay_with:
  "dag_replay m es = (case replay_with dag_decode_event nid m es of None \<Rightarrow> Inl ErrInvalidTaskDAG | Some m' \<Rightarrow> Inr m')"
  by (induction es arbitrary: m) (auto split: option.splits)

text \<open>The hot map and the log of the task agree.\<close>

definition dag_path :: "('z) goenv_scheme \<Rightarrow> task_dag \<Rightarrow> evpath" where
  "dag_path G d = eventPath G (dag_ws d) (dag_task d)"

definition dag_durable :: "('z) goenv_scheme \<Rightarrow> dag_state \<Rightarrow> bool" where
  "dag_durable G s \<longleftrightarrow> (\<exists>es. snd s = Some es \<and> log_inv (ev_files es (dag_path G (fst s))) \<and>
     in_sync dag_decode_event nid (\<lambda>n. unat (nrev n))
       (\<lambda>n. trim_space (dag_task (fst s)) \<noteq> [] \<and> node_stable n) (dag_put G (dag_task (fst s)))
       (log_events (ev_files es (dag_path G (fst s)))) (dag_nodes (fst s)))"

definition dag_loglen :: "('z) goenv_scheme \<Rightarrow> dag_state \<Rightarrow> nat" where
  "dag_loglen G s = (case snd s of None \<Rightarrow> 0 | Some es \<Rightarrow> length (ev_files es (dag_path G (fst s))))"

lemma dag_append_durable:
  assumes "dag_durable G s" and "io_clean io" and "dag_loglen G s < 2 ^ 64 - 1"
    and "validateScope (dag_ws (fst s)) (dag_task (fst s))" and "node_stable n"
    and "writable nid (\<lambda>n. unat (nrev n)) (dag_nodes (fst s)) a n"
    and "dag_appendLocked G t io s (if a then eventTaskNodeAdded else eventTaskNodeUpdated) n
           (if a then add_key n else update_key n) = (es', err)"
    and "err = None"
  shows "dag_durable G ((fst s)\<lparr>dag_nodes := AList.update (nid n) n (dag_nodes (fst s))\<rparr>, es')"
proof -
  let ?d = "fst s" and ?st = "\<lambda>n. trim_space (dag_task (fst s)) \<noteq> [] \<and> node_stable n"
  obtain es where es: "snd s = Some es" "log_inv (ev_files es (dag_path G ?d))"
    "in_sync dag_decode_event nid (\<lambda>n. unat (nrev n)) ?st (dag_put G (dag_task ?d))
       (log_events (ev_files es (dag_path G ?d))) (dag_nodes ?d)"
    using assms(1) by (auto simp: dag_durable_def)
  have put: "dag_event G (dag_task ?d) (if a then eventTaskNodeAdded else eventTaskNodeUpdated) n
      (if a then add_key n else update_key n) = dag_put G (dag_task ?d) a n"
    by (simp add: dag_put_def)
  have st: "?st n" using assms(4,5) by (simp add: validateScope_def)
  have len: "length (ev_files es (dag_path G ?d)) < 2 ^ 64 - 1"
    using assms(3) es(1) by (simp add: dag_loglen_def)
  obtain es1 where es1: "es' = Some es1"
    using assms(7) unfolding dag_appendLocked_def es(1) by (blast dest: append_opt_SomeD)
  show ?thesis
    using dag_log.append_opt_in_sync [OF _ assms(2) es(3) assms(6) st assms(4) dag_path_def es(2) len, of t es1]
      assms(7,8) es1
    by (simp add: dag_appendLocked_def es(1) put dag_durable_def) (simp add: dag_path_def)
qed

lemma dag_append_error:
  "dag_appendLocked G t io s ty n k = (es', Some x) \<Longrightarrow> io_clean io \<Longrightarrow> es' = snd s"
  by (cases "snd s") (auto simp: dag_appendLocked_def append_opt_def split: prod.splits sum.splits
      dest: ev_append_clean_error)

lemma dag_append_grows:
  "dag_appendLocked G t io s ty n k = (es', err) \<Longrightarrow>
     dag_loglen G s \<le> dag_loglen G ((fst s)\<lparr>dag_nodes := m\<rparr>, es')"
  by (cases "snd s") (auto simp: dag_appendLocked_def append_opt_def dag_loglen_def dag_path_def
      split: prod.splits dest: ev_append_grows)

text \<open>
  One step of a system without torn or unsynced writes: an operation of the DAG whose result
  is JSON-stable, or an append by another component to the same log under its own event types
  and keys.
\<close>

inductive dag_dstep :: "('z) goenv_scheme \<Rightarrow> dag_state \<Rightarrow> dag_state \<Rightarrow> bool" for G where
  add: "dag_Add G now t io s n = (s', r) \<Longrightarrow> io_clean io \<Longrightarrow> (\<And>u. r = Inr u \<Longrightarrow> node_stable u) \<Longrightarrow>
    dag_dstep G s s'"
| update: "dag_update G now t io s id0 expected (op_mutation id0 op) = (s', r) \<Longrightarrow> op_ok id0 op \<Longrightarrow>
    io_clean io \<Longrightarrow> (\<And>u. r = Inr u \<Longrightarrow> node_stable u) \<Longrightarrow> dag_dstep G s s'"
| foreign: "ev_append G t io es (dag_ws d) (dag_task d) e = (es', r) \<Longrightarrow> io_clean io \<Longrightarrow>
    \<not> prefix ''taskdag.'' (utf8_coerce (trim_space (ev_type e))) \<Longrightarrow>
    \<not> prefix ''task-node:'' (trim_space (ev_idem e)) \<Longrightarrow> valid_utf8 (trim_space (ev_idem e)) \<Longrightarrow>
    dag_dstep G (d, Some es) (d, Some es')"

lemma dag_durable_cong:
  assumes "dag_durable G s" and "map_of m = map_of (dag_nodes (fst s))"
  shows "dag_durable G ((fst s)\<lparr>dag_nodes := m\<rparr>, snd s)"
proof -
  have "\<exists>es. snd s = Some es \<and> log_inv (ev_files es (dag_path G (fst s))) \<and>
     in_sync dag_decode_event nid (\<lambda>n. unat (nrev n))
       (\<lambda>n. trim_space (dag_task (fst s)) \<noteq> [] \<and> node_stable n) (dag_put G (dag_task (fst s)))
       (log_events (ev_files es (dag_path G (fst s)))) m"
    using assms(1) dag_log.in_sync_cong [where m = "dag_nodes (fst s)" and n = m] assms(2)
    unfolding dag_durable_def by metis
  then show ?thesis by (simp add: dag_durable_def dag_path_def)
qed

lemma dag_Add_durable:
  assumes "dag_Add G now t io s n0 = (s', r)" and "io_clean io" and "\<And>u. r = Inr u \<Longrightarrow> node_stable u"
    and "dag_durable G s" and "dag_loglen G s < 2 ^ 64 - 1"
    and "validateScope (dag_ws (fst s)) (dag_task (fst s))"
  shows "dag_durable G s'"
proof -
  let ?n = "normalizeTaskNode now n0" and ?m = "dag_nodes (fst s)"
  obtain es' err where app: "dag_appendLocked G t io s eventTaskNodeAdded ?n (add_key ?n) = (es', err)"
    by fastforce
  consider "s' = s" | x where "err = Some x" "s' = (fst s, es')"
    | "err = None" "r = Inr ?n" "map_of ?m (nid ?n) = None"
      "s' = ((fst s)\<lparr>dag_nodes := AList.update (nid ?n) ?n ?m\<rparr>, es')"
    using assms(1) app
    by (auto simp: dag_Add_def Let_def simp del: map_of_eq_None_iff normalizeTaskNode_fields
        split: option.splits if_splits prod.splits)
  then show ?thesis
  proof cases
    case 2
    with app assms(2,4) show ?thesis using dag_append_error by (metis prod.collapse)
  next
    case 3
    then have "writable nid (\<lambda>n. unat (nrev n)) ?m True ?n" by (simp add: writable_def)
    with 3 app assms show ?thesis
      using dag_append_durable [of G s io ?n True t es' None] by simp
  qed (use assms(4) in simp)
qed

lemma dag_loglen_nodes: "dag_loglen G ((fst s)\<lparr>dag_nodes := m\<rparr>, snd s) = dag_loglen G s"
  by (cases "snd s") (simp_all add: dag_loglen_def dag_path_def)

lemma dag_update_durable:
  assumes "dag_update G now t io s id0 expected (op_mutation id0 op) = (s', r)" and "op_ok id0 op"
    and "io_clean io" and "\<And>u. r = Inr u \<Longrightarrow> node_stable u"
    and "dag_durable G s" and "dag_loglen G s < 2 ^ 64 - 1" and "dag_inv (dag_nodes (fst s))"
    and "validateScope (dag_ws (fst s)) (dag_task (fst s))"
  shows "dag_durable G s'"
proof (cases "\<exists>c. map_of (dag_nodes (fst s)) (trim_space id0) = Some c \<and> expected \<noteq> 0 \<and> nrev c = expected")
  case False
  then have "s' = s" using assms(1)
    by (auto simp: dag_update_def Let_def split: option.splits if_splits)
  with assms(5) show ?thesis by simp
next
  case True
  then obtain c where c: "map_of (dag_nodes (fst s)) (trim_space id0) = Some c" "expected \<noteq> 0"
    "nrev c = expected" by blast
  obtain m1 res where m1: "op_mutation id0 op (dag_nodes (fst s)) c = (m1, res)" by fastforce
  let ?s1 = "((fst s)\<lparr>dag_nodes := m1\<rparr>, snd s)"
  have eq: "map_of m1 = map_of (dag_nodes (fst s))" by (rule op_mutation_map [OF m1 assms(2) c(1)])
  have d1: "dag_durable G ?s1" by (rule dag_durable_cong [OF assms(5) eq])
  show ?thesis
  proof (cases res)
    case (Inl x)
    with assms(1) c m1 d1 show ?thesis by (simp add: dag_update_def Let_def)
  next
    case (Inr u0)
    define u where "u = u0\<lparr>nrev := nrev u0 + 1, nupdated := now\<rparr>"
    obtain es' err where app: "dag_appendLocked G t io ?s1 eventTaskNodeUpdated u (update_key u) = (es', err)"
      by fastforce
    have res: "(s', r) = (case err of Some x \<Rightarrow> ((fst ?s1, es'), Inl (DagEvents x))
        | None \<Rightarrow> (((fst ?s1)\<lparr>dag_nodes := AList.update (trim_space id0) u m1\<rparr>, es'), Inr u))"
      using assms(1) c m1 Inr app by (simp add: dag_update_def Let_def u_def [symmetric] split: option.splits)
    show ?thesis
    proof (cases err)
      case (Some x)
      then have "es' = snd s" using dag_append_error [of G t io ?s1 _ u _ es' x] app assms(3) by simp
      with Some res d1 show ?thesis by simp
    next
      case None
      with res have s': "s' = ((fst ?s1)\<lparr>dag_nodes := AList.update (trim_space id0) u m1\<rparr>, es')"
        and st: "node_stable u" using assms(4) by simp_all
      note h = op_mutation_Inr [OF m1 [unfolded Inr]]
      have "nid c = trim_space id0"
        using nodes_okD(1) [of "map_of (dag_nodes (fst s))" "trim_space id0" c] c(1) assms(7)
        by (simp add: dag_inv_def)
      then have nid: "nid u = trim_space id0" using h(1) by (simp add: u_def)
      have "nrev u = nrev c + 1" "nrev u \<noteq> 0" using h(2) node_stableD(12) [OF st] by (simp_all add: u_def)
      then have "unat (nrev c) < unat (nrev u)"
        using unatSuc [of "nrev c"] by (simp add: add.commute)
      then have "writable nid (\<lambda>n. unat (nrev n)) (dag_nodes (fst ?s1)) False u"
        using c(1) eq nid by (simp add: writable_def)
      then have "dag_durable G ((fst ?s1)\<lparr>dag_nodes := AList.update (nid u) u (dag_nodes (fst ?s1))\<rparr>, es')"
        using dag_append_durable [of G ?s1 io u False t es' err] d1 assms(3,6,8) st app None
        by (simp add: dag_loglen_nodes)
      with s' nid show ?thesis by simp
    qed
  qed
qed

lemma foreign_key:
  "\<not> prefix ''task-node:'' k \<Longrightarrow> k \<noteq> ev_idem (dag_put G task a x)"
  by (auto simp: dag_put_def add_key_def update_key_def)

lemma dag_foreign_durable:
  assumes "ev_append G t io es (dag_ws d) (dag_task d) e = (es', r)" and "io_clean io"
    and "\<not> prefix ''taskdag.'' (utf8_coerce (trim_space (ev_type e)))"
    and "\<not> prefix ''task-node:'' (trim_space (ev_idem e))" and "valid_utf8 (trim_space (ev_idem e))"
    and "dag_durable G (d, Some es)" and "dag_loglen G (d, Some es) < 2 ^ 64 - 1"
  shows "dag_durable G (d, Some es')"
proof -
  let ?p = "dag_path G d" and ?st = "\<lambda>n. trim_space (dag_task d) \<noteq> [] \<and> node_stable n"
  let ?sync = "in_sync dag_decode_event nid (\<lambda>n. unat (nrev n)) ?st (dag_put G (dag_task d))"
  have es: "log_inv (ev_files es ?p)" "?sync (log_events (ev_files es ?p)) (dag_nodes d)"
    using assms(6) by (auto simp: dag_durable_def)
  have "log_inv (ev_files es' ?p) \<and> ?sync (log_events (ev_files es' ?p)) (dag_nodes d)"
  proof (rule dag_log.foreign_in_sync [OF assms(1,2)])
    show "dag_decode_event e' = None" if "ev_type e' = utf8_coerce (trim_space (ev_type e))" for e'
      using that assms(3) by (auto simp: dag_decode_event_def)
  qed (use foreign_key [OF assms(4)] assms(5,7) es in \<open>simp_all add: dag_loglen_def dag_path_def\<close>)
  then show ?thesis by (simp add: dag_durable_def)
qed

definition dag_frame :: "('z) goenv_scheme \<Rightarrow> dag_state \<Rightarrow> dag_state \<Rightarrow> bool" where
  "dag_frame G s s' \<longleftrightarrow> dag_ws (fst s') = dag_ws (fst s) \<and> dag_task (fst s') = dag_task (fst s) \<and>
     dag_loglen G s \<le> dag_loglen G s'"

lemma dag_frame_refl [simp]: "dag_frame G s s"
  by (simp add: dag_frame_def)

lemma dag_frame_trans: "dag_frame G a b \<Longrightarrow> dag_frame G b c \<Longrightarrow> dag_frame G a c"
  by (simp add: dag_frame_def)

lemma dag_frame_nodes: "dag_frame G s ((fst s)\<lparr>dag_nodes := m\<rparr>, snd s)"
  by (cases "snd s") (simp_all add: dag_frame_def dag_loglen_def dag_path_def)

lemma dag_frame_append:
  assumes "dag_appendLocked G t io s ty n k = (es', err)"
  shows "dag_frame G s ((fst s)\<lparr>dag_nodes := m\<rparr>, es')" "dag_frame G s (fst s, es')"
  using dag_append_grows [OF assms, of m] dag_append_grows [OF assms, of "dag_nodes (fst s)"]
  by (simp_all add: dag_frame_def)

lemma dag_Add_frame:
  assumes "dag_Add G now t io s n = (s', r)"
  shows "dag_frame G s s'"
  using assms dag_frame_append [of G t io s]
  unfolding dag_Add_def Let_def by (auto simp del: map_of_eq_None_iff normalizeTaskNode_fields
      split: option.splits if_splits prod.splits)

lemma dag_update_frame:
  assumes "dag_update G now t io s id0 expected f = (s', r)"
  shows "dag_frame G s s'"
proof (cases "\<exists>c. map_of (dag_nodes (fst s)) (trim_space id0) = Some c \<and> expected \<noteq> 0 \<and> nrev c = expected")
  case False
  then have "s' = s" using assms
    by (auto simp: dag_update_def Let_def split: option.splits if_splits)
  then show ?thesis by simp
next
  case True
  then obtain c where c: "map_of (dag_nodes (fst s)) (trim_space id0) = Some c" "expected \<noteq> 0"
    "nrev c = expected" by blast
  obtain m1 res where m1: "f (dag_nodes (fst s)) c = (m1, res)" by fastforce
  let ?s1 = "((fst s)\<lparr>dag_nodes := m1\<rparr>, snd s)"
  have "dag_frame G ?s1 s'"
    using assms c m1 dag_frame_append [of G t io ?s1]
    by (fastforce simp: dag_update_def Let_def split: sum.splits option.splits prod.splits)
  then show ?thesis by (rule dag_frame_trans [OF dag_frame_nodes])
qed

lemma dag_dstep_frame: "dag_dstep G s s' \<Longrightarrow> dag_frame G s s'"
proof (induction rule: dag_dstep.induct)
  case (foreign t io es d e es' r)
  then show ?case using ev_append_grows [OF foreign(1)]
    by (simp add: dag_frame_def dag_loglen_def dag_path_def)
qed (auto intro: dag_Add_frame dag_update_frame)

lemma dag_dstep_inv: "dag_dstep G s s' \<Longrightarrow> dag_inv (dag_nodes (fst s)) \<Longrightarrow> dag_inv (dag_nodes (fst s'))"
  by (induction rule: dag_dstep.induct) (auto intro: dag_inv_Add dag_inv_update)

lemma dag_dstep_durable:
  assumes "dag_dstep G s s'" and "dag_durable G s" and "dag_loglen G s < 2 ^ 64 - 1"
    and "dag_inv (dag_nodes (fst s))" and "validateScope (dag_ws (fst s)) (dag_task (fst s))"
  shows "dag_durable G s'"
  using assms
proof (induction rule: dag_dstep.induct)
  case (add now t io s n s' r)
  then show ?case using dag_Add_durable [of G now t io s n s' r] by blast
next
  case (update now t io s id0 expected op s' r)
  then show ?case using dag_update_durable [of G now t io s id0 expected op s' r] by blast
next
  case (foreign t io es d e es' r)
  then show ?case using dag_foreign_durable by simp
qed

lemma dag_run_durable:
  assumes "(dag_dstep G)\<^sup>*\<^sup>* s s'" and "dag_durable G s" and "dag_inv (dag_nodes (fst s))"
    and "validateScope (dag_ws (fst s)) (dag_task (fst s))" and "dag_loglen G s' < 2 ^ 64 - 1"
  shows "dag_durable G s' \<and> dag_inv (dag_nodes (fst s')) \<and> dag_frame G s s'"
  using assms
proof (induction rule: rtranclp_induct)
  case (step s1 s2)
  have fr: "dag_frame G s1 s2" by (rule dag_dstep_frame [OF step.hyps(2)])
  then have len: "dag_loglen G s1 < 2 ^ 64 - 1" using step.prems(4) by (simp add: dag_frame_def)
  with step have IH: "dag_durable G s1" "dag_inv (dag_nodes (fst s1))" "dag_frame G s s1" by blast+
  have sc: "validateScope (dag_ws (fst s1)) (dag_task (fst s1))"
    using IH(3) step.prems(3) by (simp add: dag_frame_def)
  have "dag_durable G s2" by (rule dag_dstep_durable [OF step.hyps(2) IH(1) len IH(2) sc])
  moreover have "dag_frame G s s2" by (rule dag_frame_trans [OF IH(3) fr])
  ultimately show ?case using dag_dstep_inv [OF step.hyps(2) IH(2)] by blast
qed simp

text \<open>
  C18. Restart safety: after any run without torn or unsynced writes, whose stored nodes are
  JSON-stable and whose task log (shared with other components that use their own event types
  and keys) has at most 5000 lines, \<open>NewTaskDAG\<close> on the same store succeeds and rebuilds
  exactly the node map that was in memory.
\<close>

theorem NewTaskDAG_restores:
  assumes "(dag_dstep G)\<^sup>*\<^sup>* (d0, Some es0) (d, Some es)"
    and "dag_nodes d0 = []" and "ev_files es0 (eventPath G (dag_ws d0) (dag_task d0)) = []"
    and "trimmed (dag_ws d0)" and "dag_ws d0 \<noteq> []" and "trimmed (dag_task d0)" and "dag_task d0 \<noteq> []"
    and "length (ev_files es (eventPath G (dag_ws d0) (dag_task d0))) \<le> 5000"
  shows "\<exists>d'. NewTaskDAG G (Some es) (dag_ws d0) (dag_task d0) = Inr d' \<and>
    dag_ws d' = dag_ws d \<and> dag_task d' = dag_task d \<and> map_of (dag_nodes d') = map_of (dag_nodes d)"
proof -
  have fr: "dag_frame G (d0, Some es0) (d, Some es)"
    using assms(1)
  proof (induction rule: rtranclp_induct)
    case (step s1 s2)
    then show ?case using dag_frame_trans dag_dstep_frame by blast
  qed simp
  have sc: "validateScope (dag_ws d0) (dag_task d0)"
    using assms(4-7) by (simp add: validateScope_def trimmed_def)
  let ?p = "eventPath G (dag_ws d0) (dag_task d0)"
  have p: "dag_path G d = ?p" using fr by (simp add: dag_frame_def dag_path_def)
  have "dag_durable G (d0, Some es0)"
    using assms(2,3) dag_log.in_sync_empty by (simp add: dag_durable_def dag_path_def log_inv_def idem_keys_def)
  then have "dag_durable G (d, Some es)"
    using dag_run_durable [OF assms(1)] sc assms(2,8) p by (simp add: dag_inv_empty dag_loglen_def)
  then obtain m' where h: "log_inv (ev_files es ?p)" "map_of m' = map_of (dag_nodes d)"
    "replay_with dag_decode_event nid [] (log_events (ev_files es ?p)) = Some m'"
    by (auto simp: dag_durable_def in_sync_def p)
  have "ev_list G es (dag_ws d0) (dag_task d0) 0 5000 = Inr (log_events (ev_files es ?p))"
    using ev_list_wf [OF sc, of es G 0 5000] h(1) assms(8) length_log_events [of 0 "ev_files es ?p"]
    by (simp add: log_inv_def clamp_limit_def)
  with h assms(4-7) fr show ?thesis
    by (simp add: NewTaskDAG_def trimmed_def dag_replay_replay_with dag_frame_def)
qed

theorem NewTaskDAG_restores_witness:
  "\<exists>d'. NewTaskDAG demo_env (snd demo_dag2) ''w'' ''t'' = Inr d' \<and>
     map_of (dag_nodes d') = map_of (dag_nodes (fst demo_dag2))"
proof -
  have st: "node_stable (projr (snd (dag_Add demo_env 5 5 WOk demo_dag0 (demo_node ''a'' []))))"
    "node_stable (projr (snd (dag_Add demo_env 6 6 WOk demo_dag1 (demo_node '' b'' [''a '']))))"
    by code_simp+
  have "dag_dstep demo_env demo_dag0 demo_dag1" "dag_dstep demo_env demo_dag1 demo_dag2"
    unfolding demo_dag1_def demo_dag2_def
    using st by (auto intro!: dag_dstep.add [OF prod.collapse [symmetric]] simp: io_clean_def demo_dag1_def)
  then have run: "(dag_dstep demo_env)\<^sup>*\<^sup>* demo_dag0 demo_dag2" by (metis rtranclp.simps)
  have h: "snd demo_dag2 \<noteq> None"
    "length (ev_files (the (snd demo_dag2)) (eventPath demo_env ''w'' ''t'')) = 2"
    "trimmed ''w''" "trimmed ''t''"
    by code_simp+
  then have es: "demo_dag2 = (fst demo_dag2, Some (the (snd demo_dag2)))"
    by (simp add: prod_eq_iff)
  have "demo_dag0 = (fst demo_dag0, Some empty_evstore)" "dag_ws (fst demo_dag0) = ''w''"
    "dag_task (fst demo_dag0) = ''t''" by (simp_all add: demo_dag0_def)
  with run es h demo_dag0_nodes show ?thesis
    using NewTaskDAG_restores [of demo_env "fst demo_dag0" empty_evstore "fst demo_dag2" "the (snd demo_dag2)"]
    by fastforce
qed

text \<open>A log of \<open>n\<close> unrelated events.\<close>

definition filler :: "nat \<Rightarrow> evline list" where
  "filler n = map (\<lambda>i. Line (zero_event\<lparr>ev_schema := 1, ev_seq := of_nat (Suc i), ev_id := ''i'',
     ev_type := ''tick'', ev_task := ''t''\<rparr>)) [0..<n]"

lemma filler_log:
  assumes "n < 2 ^ 64 - 1"
  shows "log_inv (filler n) \<and> length (filler n) = n \<and> dag_replay [] (log_events (filler n)) = Inr []"
proof -
  have rep: "dag_replay m (log_events (filler n)) = Inr m" for m
    by (induction n) (simp_all add: filler_def dag_replay_replay_with replay_with_append
        dag_decode_event_def split: option.splits)
  have "idem_keys (filler n) = []"
    by (induction n) (simp_all add: filler_def idem_keys_def zero_event_def)
  moreover have "wf_from 0 (filler n)" using assms
  proof (induction n)
    case (Suc n)
    let ?e = "zero_event\<lparr>ev_schema := 1, ev_seq := of_nat (Suc n), ev_id := ''i'', ev_type := ''tick'',
      ev_task := ''t''\<rparr> :: event"
    have "wf_from 0 (filler n @ [Line ?e])"
      using Suc by (intro wf_from_snoc) (simp_all add: filler_def)
    moreover have "filler (Suc n) = filler n @ [Line ?e]" by (simp add: filler_def)
    ultimately show ?case by (simp only:)
  qed (simp add: filler_def)
  moreover have "length (filler n) = n" by (simp add: filler_def)
  ultimately show ?thesis using rep by (simp add: log_inv_def)
qed

text \<open>
  \<open>NewTaskDAG\<close> lists at most 5000 events and never asks for the rest: there is a
  well-formed log on which \<open>Add\<close> durably stores a node, yet the DAG rebuilt from that very log
  has no nodes.
\<close>

theorem NewTaskDAG_loses_tail:
  "\<exists>es s' d'. log_inv (ev_files es (eventPath demo_env ''w'' ''t'')) \<and>
     dag_Add demo_env 5 5 WOk (fst demo_dag0, Some es) (demo_node ''a'' []) =
       (s', Inr (normalizeTaskNode 5 (demo_node ''a'' []))) \<and>
     NewTaskDAG demo_env (snd s') ''w'' ''t'' = Inr d' \<and> dag_nodes d' = []"
proof -
  let ?p = "eventPath demo_env ''w'' ''t''" and ?n = "normalizeTaskNode 5 (demo_node ''a'' [])"
  define es where "es = empty_evstore\<lparr>ev_files := (ev_files empty_evstore)(?p := filler 5000)\<rparr>"
  have fl: "log_inv (filler 5000)" "length (filler 5000) = 5000" "dag_replay [] (log_events (filler 5000)) = Inr []"
    using filler_log [of 5000] by simp_all
  have files: "ev_files es ?p = filler 5000" by (simp add: es_def)
  let ?d = "fst demo_dag0"
  have d: "dag_ws ?d = ''w''" "dag_task ?d = ''t''" "dag_nodes ?d = []" "dag_path demo_env ?d = ?p"
    by (simp_all add: demo_dag0_def dag_path_def)
  have st: "node_stable ?n" "nid ?n \<noteq> []" "nsubject ?n \<noteq> []" "check_blockers [] (nid ?n) (nblocked ?n) = None"
    "validateScope ''w'' ''t''" "trim_space ''w'' = ''w''" "trim_space ''t'' = ''t''"
    by code_simp+
  have rp: "replay_with dag_decode_event nid [] (log_events (filler 5000)) = Some []"
    using fl(3) by (simp add: dag_replay_replay_with split: option.splits)
  have noidem: "ev_idem e = []" if "e \<in> set (log_events (filler n))" for e n
    using that by (induction n) (auto simp: filler_def zero_event_def)
  have sync: "in_sync dag_decode_event nid (\<lambda>n. unat (nrev n)) (\<lambda>n. trim_space ''t'' \<noteq> [] \<and> node_stable n)
      (dag_put demo_env ''t'') (log_events (ev_files es ?p)) []"
    using rp noidem by (auto simp: in_sync_def files dag_put_def add_key_def update_key_def)
  have w: "writable nid (\<lambda>n. unat (nrev n)) [] True ?n" by (simp add: writable_def)
  obtain es' e where app: "ev_append demo_env 5 WOk es ''w'' ''t'' (dag_put demo_env ''t'' True ?n) = (es', Inr (e, True))"
    "log_inv (ev_files es' ?p)" "length (ev_files es' ?p) = 5001"
    using dag_log.append_in_sync [OF sync w _ _ refl] st(1,5,7) fl(1,2) files by fastforce
  have pre: "take 5000 (log_events (ev_files es' ?p)) = log_events (filler 5000)"
    using ev_append_extends [OF app(1), of ?p] fl(2) length_log_events [of 0 "filler 5000"] fl(1)
    by (auto simp: files log_inv_def prefix_def)
  have "dag_Add demo_env 5 5 WOk (?d, Some es) (demo_node ''a'' []) =
      ((?d\<lparr>dag_nodes := [(nid ?n, ?n)]\<rparr>, Some es'), Inr ?n)"
    using app(1) st(2-4) d
    by (simp add: dag_Add_def dag_appendLocked_def append_opt_def dag_put_def Let_def del: normalizeTaskNode_fields)
  moreover have "NewTaskDAG demo_env (Some es') ''w'' ''t'' = Inr \<lparr>dag_ws = ''w'', dag_task = ''t'', dag_nodes = []\<rparr>"
    using ev_list_wf [OF st(5), of es' demo_env 0 5000] app(2,3) pre st(6,7) fl(3)
    by (simp add: NewTaskDAG_def log_inv_def clamp_limit_def)
  ultimately show ?thesis using fl(1) files
    by (intro exI [of _ es] exI) auto
qed

end
