(* ===== verification/Mailbox.thy ===== *)
theory Mailbox
  imports Interfaces
begin

text \<open>
  The durable agent mailbox of \<open>internal/orchestration/mailbox.go\<close>: messages are queued, moved
  to delivered (or expired) before they are handed to the recipient, and acknowledged. Every
  change is appended to the task's event log before the hot map changes.
\<close>

section \<open>Types\<close>

abbreviation "MailboxQueued \<equiv> ''queued''"
abbreviation "MailboxDelivered \<equiv> ''delivered''"
abbreviation "MailboxAcknowledged \<equiv> ''acknowledged''"
abbreviation "MailboxExpired \<equiv> ''expired''"
abbreviation "eventMailboxQueued \<equiv> ''mailbox.queued''"
abbreviation "eventMailboxUpdated \<equiv> ''mailbox.updated''"

datatype mail_error =
    ErrInvalidMailboxMessage | ErrMailboxMessageExists | ErrMailboxMessageMissing
  | ErrStaleMailboxMessage | MailEvents ev_error

record mail_msg =
  mid :: string
  mrev :: u64
  msender :: string
  mrecipient :: string
  mcontent :: string
  mmode :: string
  mstatus :: string
  mcreated :: gotime
  mupdated :: gotime
  mdelivered :: gotime
  macked :: gotime
  mexpires :: gotime

definition zero_msg :: mail_msg where
  "zero_msg = \<lparr>mid = [], mrev = 0, msender = [], mrecipient = [], mcontent = [], mmode = [],
     mstatus = [], mcreated = 0, mupdated = 0, mdelivered = 0, macked = 0, mexpires = 0\<rparr>"

type_synonym mail_map = "(string \<times> mail_msg) list"

record mailbox =
  mb_ws :: string
  mb_task :: string
  mb_msgs :: mail_map

type_synonym mail_state = "mailbox \<times> evstore option"

section \<open>Helpers\<close>

definition normalizeMailboxMessage :: "gotime \<Rightarrow> mail_msg \<Rightarrow> mail_msg" where
  "normalizeMailboxMessage now m =
     (let m1 = m\<lparr>mid := trim_space (mid m), msender := trim_space (msender m),
                 mrecipient := trim_space (mrecipient m), mcontent := trim_space (mcontent m),
                 mmode := trim_space (mmode m)\<rparr>;
          m2 = (if mstatus m1 = [] then m1\<lparr>mstatus := MailboxQueued\<rparr> else m1);
          m3 = (if mrev m2 = 0 then m2\<lparr>mrev := 1\<rparr> else m2);
          m4 = (if mcreated m3 = 0 then m3\<lparr>mcreated := now\<rparr> else m3)
      in (if mupdated m4 = 0 then m4\<lparr>mupdated := mcreated m4\<rparr> else m4))"

definition sameMailboxMessage :: "mail_msg \<Rightarrow> mail_msg \<Rightarrow> bool" where
  "sameMailboxMessage a b \<longleftrightarrow> mid a = mid b \<and> mrev a = mrev b \<and> msender a = msender b
     \<and> mrecipient a = mrecipient b \<and> mcontent a = mcontent b \<and> mmode a = mmode b
     \<and> mstatus a = mstatus b \<and> mexpires a = mexpires b"

text \<open>\<open>omitempty\<close> has no effect on a \<open>time.Time\<close>, so all times are written.\<close>

definition mailboxPayload :: "('z) goenv_scheme \<Rightarrow> mail_msg \<Rightarrow> json" where
  "mailboxPayload G m = JObj (
     [(''id'', enc_str (mid m)), (''revision'', enc_u64 G (mrev m)),
      (''senderAgentId'', enc_str (msender m)), (''recipientAgentId'', enc_str (mrecipient m)),
      (''content'', enc_str (mcontent m))] @ omit_str ''deliveryMode'' (mmode m) @
     [(''status'', enc_str (mstatus m)), (''createdAt'', JTime (mcreated m)),
      (''updatedAt'', JTime (mupdated m)), (''deliveredAt'', JTime (mdelivered m)),
      (''acknowledgedAt'', JTime (macked m)), (''expiresAt'', JTime (mexpires m))])"

definition mailboxDecode :: "json \<Rightarrow> mail_msg option" where
  "mailboxDecode j =
     Option.bind (Option.bind (jfield ''id'' j) dec_str) (\<lambda>i.
     Option.bind (Option.bind (jfield ''revision'' j) dec_u64) (\<lambda>r.
     Option.bind (Option.bind (jfield ''senderAgentId'' j) dec_str) (\<lambda>s.
     Option.bind (Option.bind (jfield ''recipientAgentId'' j) dec_str) (\<lambda>p.
     Option.bind (Option.bind (jfield ''content'' j) dec_str) (\<lambda>c.
     Option.bind (Option.bind (jfield ''deliveryMode'' j) dec_str) (\<lambda>d.
     Option.bind (Option.bind (jfield ''status'' j) dec_str) (\<lambda>st.
     Option.bind (Option.bind (jfield ''createdAt'' j) dec_time) (\<lambda>ct.
     Option.bind (Option.bind (jfield ''updatedAt'' j) dec_time) (\<lambda>ut.
     Option.bind (Option.bind (jfield ''deliveredAt'' j) dec_time) (\<lambda>dt.
     Option.bind (Option.bind (jfield ''acknowledgedAt'' j) dec_time) (\<lambda>at.
     Option.bind (Option.bind (jfield ''expiresAt'' j) dec_time) (\<lambda>et.
       Some \<lparr>mid = i, mrev = r, msender = s, mrecipient = p, mcontent = c, mmode = d, mstatus = st,
             mcreated = ct, mupdated = ut, mdelivered = dt, macked = at, mexpires = et\<rparr>))))))))))))"

definition mail_event :: "('z) goenv_scheme \<Rightarrow> string \<Rightarrow> string \<Rightarrow> mail_msg \<Rightarrow> string \<Rightarrow> event" where
  "mail_event G task ty m key =
     zero_event\<lparr>ev_type := ty, ev_task := task, ev_agent := mrecipient m, ev_idem := key,
       ev_payload := [(''message'', mailboxPayload G m)]\<rparr>"

definition mail_appendLocked ::
  "('z) goenv_scheme \<Rightarrow> gotime \<Rightarrow> write_outcome \<Rightarrow> mail_state \<Rightarrow> string \<Rightarrow> mail_msg \<Rightarrow> string
     \<Rightarrow> evstore option \<times> ev_error option" where
  "mail_appendLocked G t io s ty m key =
     append_opt G t io (snd s) (mb_ws (fst s)) (mb_task (fst s))
       (mail_event G (mb_task (fst s)) ty m key)"

definition queue_key :: "mail_msg \<Rightarrow> string" where
  "queue_key m = ''mailbox:queue:'' @ mid m"

definition mail_update_key :: "mail_msg \<Rightarrow> string" where
  "mail_update_key m = ''mailbox:update:'' @ mid m @ '':'' @ itoa (unat (mrev m))"

definition persistUpdateLocked ::
  "('z) goenv_scheme \<Rightarrow> gotime \<Rightarrow> write_outcome \<Rightarrow> mail_state \<Rightarrow> mail_msg
     \<Rightarrow> evstore option \<times> ev_error option" where
  "persistUpdateLocked G t io s m =
     mail_appendLocked G t io s eventMailboxUpdated m (mail_update_key m)"

section \<open>Operations\<close>

definition Queue ::
  "('z) goenv_scheme \<Rightarrow> gotime \<Rightarrow> gotime \<Rightarrow> write_outcome \<Rightarrow> mail_state \<Rightarrow> mail_msg
     \<Rightarrow> mail_state \<times> (mail_error + mail_msg)" where
  "Queue G now t io s m0 =
     (let m = normalizeMailboxMessage now m0; ms = mb_msgs (fst s) in
      if mid m = [] \<or> msender m = [] \<or> mrecipient m = [] \<or> mcontent m = []
      then (s, Inl ErrInvalidMailboxMessage)
      else case map_of ms (mid m) of
        Some old \<Rightarrow> (s, if sameMailboxMessage old m then Inr old else Inl ErrMailboxMessageExists)
      | None \<Rightarrow>
          let (es', err) = mail_appendLocked G t io s eventMailboxQueued m (queue_key m) in
          case err of
            Some x \<Rightarrow> ((fst s, es'), Inl (MailEvents x))
          | None \<Rightarrow> (((fst s)\<lparr>mb_msgs := AList.update (mid m) m ms\<rparr>, es'), Inr m))"

text \<open>
  The body of the loop of \<open>Deliver\<close>: the message as it is written, expired or delivered.
\<close>

definition deliver_msg :: "gotime \<Rightarrow> mail_msg \<Rightarrow> mail_msg" where
  "deliver_msg now m =
     (if mexpires m \<noteq> 0 \<and> \<not> now < mexpires m
      then m\<lparr>mstatus := MailboxExpired, mrev := mrev m + 1, mupdated := now\<rparr>
      else m\<lparr>mstatus := MailboxDelivered, mrev := mrev m + 1, mdelivered := now, mupdated := now\<rparr>)"

text \<open>
  The loop of \<open>Deliver\<close>. Each append reads the clock and may fail on its own, so the clock and
  the write outcome are functions of the message id.
\<close>

fun deliver_loop ::
  "('z) goenv_scheme \<Rightarrow> (string \<Rightarrow> gotime) \<Rightarrow> (string \<Rightarrow> write_outcome) \<Rightarrow> gotime \<Rightarrow> mail_state
     \<Rightarrow> string list \<Rightarrow> mail_msg list \<Rightarrow> mail_state \<times> mail_msg list \<times> mail_error option" where
  "deliver_loop G t io now s [] out = (s, out, None)"
| "deliver_loop G t io now s (i # is) out =
     (let ms = mb_msgs (fst s);
          m = (case map_of ms i of None \<Rightarrow> zero_msg | Some m \<Rightarrow> m);
          m' = deliver_msg now m;
          (es', err) = persistUpdateLocked G (t i) (io i) s m'
      in case err of
           Some x \<Rightarrow> ((fst s, es'), out, Some (MailEvents x))
         | None \<Rightarrow>
             deliver_loop G t io now ((fst s)\<lparr>mb_msgs := AList.update i m' ms\<rparr>, es') is
               (if mstatus m' = MailboxExpired then out else out @ [m']))"

definition deliver_ids :: "mail_map \<Rightarrow> string \<Rightarrow> string list" where
  "deliver_ids ms r =
     sort_key (\<lambda>i. case map_of ms i of None \<Rightarrow> (0, []) | Some m \<Rightarrow> (mcreated m, mid m))
       (map fst (filter (\<lambda>(i, m). mrecipient m = r \<and> mstatus m = MailboxQueued) ms))"

definition Deliver ::
  "('z) goenv_scheme \<Rightarrow> gotime \<Rightarrow> (string \<Rightarrow> gotime) \<Rightarrow> (string \<Rightarrow> write_outcome) \<Rightarrow> mail_state
     \<Rightarrow> string \<Rightarrow> gotime \<Rightarrow> mail_state \<times> mail_msg list \<times> mail_error option" where
  "Deliver G wall t io s r0 now0 =
     (let r = trim_space r0; now = at_or_now now0 wall in
      if r = [] then (s, [], Some ErrInvalidMailboxMessage)
      else deliver_loop G t io now s (deliver_ids (mb_msgs (fst s)) r) [])"

definition Acknowledge ::
  "('z) goenv_scheme \<Rightarrow> gotime \<Rightarrow> gotime \<Rightarrow> write_outcome \<Rightarrow> mail_state \<Rightarrow> string \<Rightarrow> u64 \<Rightarrow> gotime
     \<Rightarrow> mail_state \<times> (mail_error + mail_msg)" where
  "Acknowledge G wall t io s id0 expected now0 =
     (let i = trim_space id0; ms = mb_msgs (fst s) in
      case map_of ms i of
        None \<Rightarrow> (s, Inl ErrMailboxMessageMissing)
      | Some m \<Rightarrow>
          if mstatus m = MailboxAcknowledged then (s, Inr m)
          else if expected = 0 \<or> expected \<noteq> mrev m then (s, Inl ErrStaleMailboxMessage)
          else if mstatus m \<noteq> MailboxDelivered then (s, Inl ErrInvalidMailboxMessage)
          else
            let now = at_or_now now0 wall;
                m' = m\<lparr>mstatus := MailboxAcknowledged, mrev := mrev m + 1, macked := now, mupdated := now\<rparr>;
                (es', err) = persistUpdateLocked G t io s m'
            in case err of
                 Some x \<Rightarrow> ((fst s, es'), Inl (MailEvents x))
               | None \<Rightarrow> (((fst s)\<lparr>mb_msgs := AList.update i m' ms\<rparr>, es'), Inr m'))"

definition Outstanding :: "mailbox \<Rightarrow> string \<Rightarrow> mail_msg list" where
  "Outstanding b r0 =
     (let r = trim_space r0 in
      sort_key (\<lambda>m. (mcreated m, mid m))
        (filter (\<lambda>m. mrecipient m = r \<and> (mstatus m = MailboxQueued \<or> mstatus m = MailboxDelivered))
          (map snd (mb_msgs b))))"

definition mail_Message :: "mailbox \<Rightarrow> string \<Rightarrow> mail_msg option" where
  "mail_Message b id0 = map_of (mb_msgs b) (trim_space id0)"

definition mail_decode_event :: "event \<Rightarrow> mail_msg option option" where
  "mail_decode_event e =
     (if ev_type e \<noteq> eventMailboxQueued \<and> ev_type e \<noteq> eventMailboxUpdated then None
      else Some (mailboxDecode (case map_of (ev_payload e) ''message'' of None \<Rightarrow> JNull | Some j \<Rightarrow> j)))"

fun mail_replay :: "mail_map \<Rightarrow> event list \<Rightarrow> mail_error + mail_map" where
  "mail_replay m [] = Inr m"
| "mail_replay m (e # es) =
     (case mail_decode_event e of
        None \<Rightarrow> mail_replay m es
      | Some None \<Rightarrow> Inl ErrInvalidMailboxMessage
      | Some (Some x) \<Rightarrow> mail_replay (AList.update (mid x) x m) es)"

definition NewMailbox ::
  "('z) goenv_scheme \<Rightarrow> evstore option \<Rightarrow> string \<Rightarrow> string \<Rightarrow> mail_error + mailbox" where
  "NewMailbox G events ws0 task0 =
     (let ws = trim_space ws0; task = trim_space task0 in
      if ws = [] \<or> task = [] then Inl ErrInvalidMailboxMessage
      else case events of
        None \<Rightarrow> Inr \<lparr>mb_ws = ws, mb_task = task, mb_msgs = []\<rparr>
      | Some es \<Rightarrow>
          (case ev_list G es ws task 0 5000 of
             Inl x \<Rightarrow> Inl (MailEvents x)
           | Inr stored \<Rightarrow>
               (case mail_replay [] stored of
                  Inl x \<Rightarrow> Inl x
                | Inr m \<Rightarrow> Inr \<lparr>mb_ws = ws, mb_task = task, mb_msgs = m\<rparr>)))"

section \<open>Invariant and behaviour of the operations\<close>

definition mail_ok :: "(string \<rightharpoonup> mail_msg) \<Rightarrow> bool" where
  "mail_ok f \<longleftrightarrow> (\<forall>i m. f i = Some m \<longrightarrow> mid m = i)"

definition mail_inv :: "mail_map \<Rightarrow> bool" where
  "mail_inv ms \<longleftrightarrow> distinct (map fst ms) \<and> mail_ok (map_of ms)"

lemma mail_inv_update: "mail_inv ms \<Longrightarrow> mid m = i \<Longrightarrow> mail_inv (AList.update i m ms)"
  by (auto simp: mail_inv_def mail_ok_def distinct_update)

lemma mail_inv_mid: "mail_inv ms \<Longrightarrow> map_of ms i = Some m \<Longrightarrow> mid m = i"
  by (simp add: mail_inv_def mail_ok_def)

lemma deliver_msg_fields [simp]:
  "mid (deliver_msg now m) = mid m" "mrev (deliver_msg now m) = mrev m + 1"
  "mrecipient (deliver_msg now m) = mrecipient m" "mstatus (deliver_msg now m) \<noteq> MailboxQueued"
  "mcreated (deliver_msg now m) = mcreated m"
  by (simp_all add: deliver_msg_def)

text \<open>The node map after a prefix \<open>done\<close> of the ids has been processed.\<close>

definition delivered_map :: "gotime \<Rightarrow> string list \<Rightarrow> (string \<rightharpoonup> mail_msg) \<Rightarrow> string \<rightharpoonup> mail_msg" where
  "delivered_map now done f = (\<lambda>i. if i \<in> set done then map_option (deliver_msg now) (f i) else f i)"

definition handed_out :: "gotime \<Rightarrow> (string \<rightharpoonup> mail_msg) \<Rightarrow> string list \<Rightarrow> mail_msg list" where
  "handed_out now f done =
     filter (\<lambda>m. mstatus m \<noteq> MailboxExpired) (map (\<lambda>i. deliver_msg now (the (f i))) done)"

lemma deliver_loop_spec:
  assumes "deliver_loop G t io now s ids out = (s', out', err)"
    and "distinct ids" and "set ids \<subseteq> dom (map_of (mb_msgs (fst s)))" and "mail_inv (mb_msgs (fst s))"
  shows "\<exists>k. map_of (mb_msgs (fst s')) = delivered_map now (take k ids) (map_of (mb_msgs (fst s))) \<and>
     out' = out @ handed_out now (map_of (mb_msgs (fst s))) (take k ids) \<and>
     (err = None \<longrightarrow> k = length ids) \<and> mail_inv (mb_msgs (fst s'))"
  using assms
proof (induction G t io now s ids out arbitrary: s' rule: deliver_loop.induct)
  case (1 G t io now s out)
  then show ?case by (auto simp: delivered_map_def handed_out_def)
next
  case (2 G t io now s i "is" out)
  let ?ms = "mb_msgs (fst s)"
  obtain m where m: "map_of ?ms i = Some m" using "2.prems"(3) by auto
  obtain es' e where app: "persistUpdateLocked G (t i) (io i) s (deliver_msg now m) = (es', e)" by fastforce
  show ?case
  proof (cases e)
    case (Some x)
    then have "s' = (fst s, es')" "out' = out" "err \<noteq> None"
      using "2.prems"(1) m app by auto
    then show ?thesis using "2.prems"(4)
      by (intro exI [of _ 0]) (simp add: delivered_map_def handed_out_def)
  next
    case None
    let ?s1 = "((fst s)\<lparr>mb_msgs := AList.update i (deliver_msg now m) ?ms\<rparr>, es')"
    let ?out1 = "if mstatus (deliver_msg now m) = MailboxExpired then out else out @ [deliver_msg now m]"
    have loop: "deliver_loop G t io now ?s1 is ?out1 = (s', out', err)"
      using "2.prems"(1) m app None by (simp add: Let_def cong: if_cong)
    have inv: "mail_inv (mb_msgs (fst ?s1))"
      using "2.prems"(4) mail_inv_mid [OF "2.prems"(4) m] by (simp add: mail_inv_update)
    obtain k where k: "map_of (mb_msgs (fst s')) = delivered_map now (take k is) (map_of (mb_msgs (fst ?s1)))"
      "out' = ?out1 @ handed_out now (map_of (mb_msgs (fst ?s1))) (take k is)"
      "err = None \<longrightarrow> k = length is" "mail_inv (mb_msgs (fst s'))"
      using "2.IH" [OF refl _ refl _ _ None loop] m app inv "2.prems"(2,3) by fastforce
    have ni: "i \<notin> set (take k is)" using "2.prems"(2) by (meson distinct.simps(2) in_set_takeD)
    have "handed_out now (map_of (mb_msgs (fst ?s1))) (take k is) = handed_out now (map_of ?ms) (take k is)"
      using ni unfolding handed_out_def by (intro arg_cong [where f = "filter _"] map_cong) auto
    moreover have "delivered_map now (take k is) (map_of (mb_msgs (fst ?s1))) =
        delivered_map now (take (Suc k) (i # is)) (map_of ?ms)"
      using ni m by (auto simp: delivered_map_def fun_eq_iff)
    ultimately show ?thesis using k m
      by (intro exI [of _ "Suc k"]) (simp add: handed_out_def)
  qed
qed

lemma deliver_ids_props:
  assumes "mail_inv ms"
  shows "distinct (deliver_ids ms r)"
    and "i \<in> set (deliver_ids ms r) \<longleftrightarrow>
      (\<exists>m. map_of ms i = Some m \<and> mrecipient m = r \<and> mstatus m = MailboxQueued)"
proof -
  have d: "distinct (map fst ms)" using assms by (simp add: mail_inv_def)
  have "distinct (map fst (filter (\<lambda>(i, m). mrecipient m = r \<and> mstatus m = MailboxQueued) ms))"
    using d by (rule distinct_map_filter)
  then show "distinct (deliver_ids ms r)" by (simp add: deliver_ids_def)
  show "i \<in> set (deliver_ids ms r) \<longleftrightarrow>
      (\<exists>m. map_of ms i = Some m \<and> mrecipient m = r \<and> mstatus m = MailboxQueued)"
    using d by (force simp: deliver_ids_def)
qed

section \<open>Properties\<close>

text \<open>
  \<open>Deliver\<close> in full: it walks the queued messages of the recipient in the order of creation
  time and id, and stops at the first message whose event cannot be written. Exactly the
  messages before that point are changed (to \<open>expired\<close> when their deadline has passed, to
  \<open>delivered\<close> otherwise, each with its revision raised by one), exactly those not expired among
  them are returned in that order, and without an error the whole queue was processed.
\<close>

theorem Deliver_spec:
  assumes "Deliver G wall t io s r now0 = (s', out, err)" and "mail_inv (mb_msgs (fst s))"
    and "trim_space r \<noteq> []"
  shows "\<exists>k. let ids = take k (deliver_ids (mb_msgs (fst s)) (trim_space r)); now = at_or_now now0 wall in
    map_of (mb_msgs (fst s')) = delivered_map now ids (map_of (mb_msgs (fst s))) \<and>
    out = handed_out now (map_of (mb_msgs (fst s))) ids \<and>
    (err = None \<longrightarrow> k = length (deliver_ids (mb_msgs (fst s)) (trim_space r))) \<and>
    set (deliver_ids (mb_msgs (fst s)) (trim_space r)) = {i. \<exists>m. map_of (mb_msgs (fst s)) i = Some m \<and>
      mrecipient m = trim_space r \<and> mstatus m = MailboxQueued} \<and> mail_inv (mb_msgs (fst s'))"
proof -
  let ?ids = "deliver_ids (mb_msgs (fst s)) (trim_space r)"
  have loop: "deliver_loop G t io (at_or_now now0 wall) s ?ids [] = (s', out, err)"
    using assms(1,3) by (simp add: Deliver_def Let_def)
  have sub: "set ?ids \<subseteq> dom (map_of (mb_msgs (fst s)))"
    using deliver_ids_props(2) [OF assms(2)] by blast
  obtain k where k: "map_of (mb_msgs (fst s')) =
      delivered_map (at_or_now now0 wall) (take k ?ids) (map_of (mb_msgs (fst s)))"
    "out = handed_out (at_or_now now0 wall) (map_of (mb_msgs (fst s))) (take k ?ids)"
    "err = None \<longrightarrow> k = length ?ids" "mail_inv (mb_msgs (fst s'))"
    using deliver_loop_spec [OF loop deliver_ids_props(1) [OF assms(2)] sub assms(2)]
    unfolding append_Nil by blast
  have "set ?ids = {i. \<exists>m. map_of (mb_msgs (fst s)) i = Some m \<and>
      mrecipient m = trim_space r \<and> mstatus m = MailboxQueued}"
    using deliver_ids_props(2) [OF assms(2)] by blast
  with k show ?thesis unfolding Let_def by blast
qed

definition demo_msg :: "string \<Rightarrow> mail_msg" where
  "demo_msg i = zero_msg\<lparr>mid := i, msender := ''lead'', mrecipient := ''bob'', mcontent := ''hi''\<rparr>"

definition demo_mail0 :: mail_state where
  "demo_mail0 = (\<lparr>mb_ws = ''w'', mb_task = ''t'', mb_msgs = []\<rparr>, Some empty_evstore)"

definition demo_mail1 :: mail_state where
  "demo_mail1 = fst (Queue demo_env 5 5 WOk demo_mail0 (demo_msg ''m1''))"

lemma demo_mail1_msgs:
  "mb_msgs (fst demo_mail1) = [(''m1'', (demo_msg ''m1'')\<lparr>mrev := 1, mstatus := ''queued'', mcreated := 5, mupdated := 5\<rparr>)]"
  by code_simp

lemma demo_mail1_inv: "mail_inv (mb_msgs (fst demo_mail1))"
  by (simp add: demo_mail1_msgs mail_inv_def mail_ok_def demo_msg_def)

theorem Deliver_spec_witness:
  "\<exists>k. map_of (mb_msgs (fst (fst (Deliver demo_env 7 (\<lambda>_. 7) (\<lambda>_. WOk) demo_mail1 ''bob'' 6)))) =
     delivered_map 6 (take k [''m1'']) (map_of (mb_msgs (fst demo_mail1)))"
proof -
  let ?r = "Deliver demo_env 7 (\<lambda>_. 7) (\<lambda>_. WOk) demo_mail1 ''bob'' 6"
  have c: "deliver_ids (mb_msgs (fst demo_mail1)) (trim_space ''bob'') = [''m1'']"
    "trim_space ''bob'' \<noteq> []" "at_or_now 6 7 = 6" by code_simp+
  have eq: "?r = (fst ?r, fst (snd ?r), snd (snd ?r))" by (simp only: prod.collapse)
  show ?thesis
    using Deliver_spec [OF eq demo_mail1_inv c(2)] unfolding c(1,3) Let_def by blast
qed

section \<open>Runs of the mailbox\<close>

datatype mail_op =
    MQueue gotime gotime write_outcome mail_msg
  | MDeliver gotime "string \<Rightarrow> gotime" "string \<Rightarrow> write_outcome" string gotime
  | MAck gotime gotime write_outcome string u64 gotime

text \<open>One operation and the messages it hands to a recipient.\<close>

fun mail_step :: "('z) goenv_scheme \<Rightarrow> mail_op \<Rightarrow> mail_state \<Rightarrow> mail_state \<times> mail_msg list" where
  "mail_step G (MQueue now t io m) s = (fst (Queue G now t io s m), [])"
| "mail_step G (MDeliver wall t io r now) s =
     (let (s', out, _) = Deliver G wall t io s r now in (s', out))"
| "mail_step G (MAck wall t io i expected now) s = (fst (Acknowledge G wall t io s i expected now), [])"

fun mail_run :: "('z) goenv_scheme \<Rightarrow> mail_op list \<Rightarrow> mail_state \<Rightarrow> mail_state \<times> mail_msg list" where
  "mail_run G [] s = (s, [])"
| "mail_run G (op # ops) s =
     (let (s1, out) = mail_step G op s; (s2, rest) = mail_run G ops s1 in (s2, out @ rest))"

abbreviation waiting :: "mail_map \<Rightarrow> string \<Rightarrow> bool" where
  "waiting ms i \<equiv> \<exists>m. map_of ms i = Some m \<and> mstatus m = MailboxQueued"

abbreviation gone :: "mail_map \<Rightarrow> string \<Rightarrow> bool" where
  "gone ms i \<equiv> \<exists>m. map_of ms i = Some m \<and> mstatus m \<noteq> MailboxQueued"

definition mail_progress :: "mail_map \<Rightarrow> mail_map \<Rightarrow> mail_msg list \<Rightarrow> bool" where
  "mail_progress ms ms' out \<longleftrightarrow> mail_inv ms' \<and> (\<forall>i. gone ms i \<longrightarrow> gone ms' i) \<and>
     distinct (map mid out) \<and> (\<forall>x \<in> set out. waiting ms (mid x) \<and> gone ms' (mid x))"

lemma mail_progress_refl: "mail_inv ms \<Longrightarrow> mail_progress ms ms []"
  by (simp add: mail_progress_def)

lemma Queue_progress:
  assumes "mail_inv (mb_msgs (fst s))"
  shows "mail_progress (mb_msgs (fst s)) (mb_msgs (fst (fst (Queue G now t io s m0)))) []"
proof -
  let ?m = "normalizeMailboxMessage now m0" and ?ms = "mb_msgs (fst s)"
  have "mail_progress ?ms (AList.update (mid ?m) ?m ?ms) []" if "map_of ?ms (mid ?m) = None"
    using assms that by (auto simp: mail_progress_def mail_inv_update)
  then show ?thesis
    using mail_progress_refl [OF assms]
    by (auto simp: Queue_def Let_def simp del: map_of_eq_None_iff split: option.split prod.split)
qed

lemma Acknowledge_progress:
  assumes "mail_inv (mb_msgs (fst s))"
  shows "mail_progress (mb_msgs (fst s)) (mb_msgs (fst (fst (Acknowledge G wall t io s i e now)))) []"
proof -
  let ?ms = "mb_msgs (fst s)"
  have "mail_progress ?ms (AList.update (trim_space i) (m\<lparr>mstatus := MailboxAcknowledged, mrev := r,
      macked := a, mupdated := u\<rparr>) ?ms) []" if "map_of ?ms (trim_space i) = Some m" for m r a u
    using assms that mail_inv_mid [OF assms that]
    by (simp add: mail_progress_def mail_inv_update)
  then show ?thesis
    using mail_progress_refl [OF assms]
    by (auto simp: Acknowledge_def Let_def simp del: map_of_eq_Some_iff split: option.split prod.split)
qed

lemma handed_out_mem:
  "x \<in> set (handed_out now f is) \<Longrightarrow> \<exists>i \<in> set is. x = deliver_msg now (the (f i))"
  by (auto simp: handed_out_def)

lemma distinct_handed_out:
  assumes "distinct is" and "\<forall>i \<in> set is. \<exists>m. f i = Some m \<and> mid m = i"
  shows "distinct (map mid (handed_out now f is))"
proof -
  have "map mid (map (\<lambda>i. deliver_msg now (the (f i))) is) = is"
    using assms(2) by (induction "is") auto
  then have "distinct (map mid (map (\<lambda>i. deliver_msg now (the (f i))) is))" using assms(1) by metis
  then show ?thesis unfolding handed_out_def by (rule distinct_map_filter)
qed

lemma deliver_loop_progress:
  assumes "deliver_loop G t io now s ids [] = (s', out, err)" and "mail_inv (mb_msgs (fst s))"
    and "distinct ids" and "\<forall>i \<in> set ids. waiting (mb_msgs (fst s)) i"
  shows "mail_progress (mb_msgs (fst s)) (mb_msgs (fst s')) out"
proof -
  let ?f = "map_of (mb_msgs (fst s))"
  have sub: "set ids \<subseteq> dom ?f" using assms(4) by blast
  obtain k where k: "map_of (mb_msgs (fst s')) = delivered_map now (take k ids) ?f"
    "out = handed_out now ?f (take k ids)" "mail_inv (mb_msgs (fst s'))"
    using deliver_loop_spec [OF assms(1,3) sub assms(2)] unfolding append_Nil by blast
  have sk: "\<forall>i \<in> set (take k ids). \<exists>m. ?f i = Some m \<and> mid m = i \<and> mstatus m = MailboxQueued"
    using assms(4) mail_inv_mid [OF assms(2)] by (meson in_set_takeD)
  have "distinct (map mid out)" unfolding k(2) using assms(3) sk by (intro distinct_handed_out) auto
  moreover have "waiting (mb_msgs (fst s)) (mid x) \<and> gone (mb_msgs (fst s')) (mid x)" if "x \<in> set out" for x
  proof -
    obtain i where i: "i \<in> set (take k ids)" "x = deliver_msg now (the (?f i))"
      using \<open>x \<in> set out\<close> handed_out_mem unfolding k(2) by meson
    moreover obtain m where "?f i = Some m" "mid m = i" "mstatus m = MailboxQueued" using sk i(1) by blast
    ultimately show ?thesis unfolding k(1) by (simp add: delivered_map_def)
  qed
  moreover have "gone (mb_msgs (fst s')) i" if "gone (mb_msgs (fst s)) i" for i
    using that unfolding k(1) delivered_map_def by (auto simp del: map_of_eq_Some_iff)
  ultimately show ?thesis using k(3) by (simp add: mail_progress_def)
qed

lemma Deliver_progress:
  assumes "Deliver G wall t io s r now0 = (s', out, err)" and "mail_inv (mb_msgs (fst s))"
  shows "mail_progress (mb_msgs (fst s)) (mb_msgs (fst s')) out"
proof (cases "trim_space r = []")
  case True
  with assms mail_progress_refl show ?thesis by (auto simp: Deliver_def)
next
  case False
  with assms(1) have loop: "deliver_loop G t io (at_or_now now0 wall) s
      (deliver_ids (mb_msgs (fst s)) (trim_space r)) [] = (s', out, err)" by (simp add: Deliver_def Let_def)
  have "\<forall>i \<in> set (deliver_ids (mb_msgs (fst s)) (trim_space r)). waiting (mb_msgs (fst s)) i"
    using deliver_ids_props(2) [OF assms(2)] by blast
  then show ?thesis by (rule deliver_loop_progress [OF loop assms(2) deliver_ids_props(1) [OF assms(2)]])
qed

lemma mail_step_progress:
  assumes "mail_step G op s = (s', out)" and "mail_inv (mb_msgs (fst s))"
  shows "mail_progress (mb_msgs (fst s)) (mb_msgs (fst s')) out"
proof (cases op)
  case (MQueue now t io m)
  with assms(1) Queue_progress [OF assms(2)] show ?thesis by auto
next
  case (MDeliver wall t io r now)
  obtain s1 o1 e1 where d: "Deliver G wall t io s r now = (s1, o1, e1)" by (metis prod_cases3)
  with MDeliver assms Deliver_progress [OF d assms(2)] show ?thesis by simp
next
  case (MAck wall t io i e now)
  with assms(1) Acknowledge_progress [OF assms(2)] show ?thesis by auto
qed

lemma mail_run_fresh:
  assumes "mail_run G ops s = (s', out)" and "mail_inv (mb_msgs (fst s))"
  shows "distinct (map mid out) \<and> (\<forall>x \<in> set out. \<not> gone (mb_msgs (fst s)) (mid x))"
  using assms
proof (induction G ops s arbitrary: out s' rule: mail_run.induct)
  case (2 G op ops s)
  obtain s1 o1 where st: "mail_step G op s = (s1, o1)" by fastforce
  obtain s2 o2 where rn: "mail_run G ops s1 = (s2, o2)" by fastforce
  have out: "out = o1 @ o2" using "2.prems"(1) st rn by simp
  have pr: "mail_progress (mb_msgs (fst s)) (mb_msgs (fst s1)) o1"
    by (rule mail_step_progress [OF st "2.prems"(2)])
  then have IH: "distinct (map mid o2)" "\<forall>x \<in> set o2. \<not> gone (mb_msgs (fst s1)) (mid x)"
    using "2.IH" [OF st [symmetric] refl rn] by (simp_all add: mail_progress_def)
  have a: "distinct (map mid o1)" "\<forall>x \<in> set o1. waiting (mb_msgs (fst s)) (mid x) \<and> gone (mb_msgs (fst s1)) (mid x)"
    "\<forall>i. gone (mb_msgs (fst s)) i \<longrightarrow> gone (mb_msgs (fst s1)) i"
    using pr unfolding mail_progress_def by blast+
  have "mid ` set o1 \<inter> mid ` set o2 = {}"
    using a(2) IH(2) by fastforce
  moreover have "\<forall>x \<in> set o1. \<not> gone (mb_msgs (fst s)) (mid x)" using a(2) by fastforce
  moreover have "\<forall>x \<in> set o2. \<not> gone (mb_msgs (fst s)) (mid x)" using IH(2) a(3) by blast
  ultimately show ?case using a(1) IH(1) unfolding out by (simp add: Ball_def)
qed simp

text \<open>
  C10. At-most-once delivery: in any sequence of \<open>Queue\<close>, \<open>Deliver\<close> and \<open>Acknowledge\<close> calls, with
  any arguments and any write failures, no message is handed to a recipient twice.
\<close>

theorem mail_deliver_at_most_once:
  assumes "mail_inv (mb_msgs (fst s))"
  shows "distinct (map mid (snd (mail_run G ops s)))"
  using mail_run_fresh [of G ops s "fst (mail_run G ops s)" "snd (mail_run G ops s)"] assms by simp

theorem mail_deliver_at_most_once_witness:
  "map mid (snd (mail_run demo_env (replicate 2 (MDeliver 7 (\<lambda>_. 7) (\<lambda>_. WOk) ''bob'' 6)) demo_mail1)) = [''m1''] \<and>
   distinct (map mid (snd (mail_run demo_env (replicate 2 (MDeliver 7 (\<lambda>_. 7) (\<lambda>_. WOk) ''bob'' 6)) demo_mail1)))"
proof
  show "distinct (map mid (snd (mail_run demo_env (replicate 2 (MDeliver 7 (\<lambda>_. 7) (\<lambda>_. WOk) ''bob'' 6)) demo_mail1)))"
    by (rule mail_deliver_at_most_once [OF demo_mail1_inv])
qed code_simp

section \<open>Durability\<close>

definition msg_stable :: "mail_msg \<Rightarrow> bool" where
  "msg_stable m \<longleftrightarrow> list_all valid_utf8 [mid m, msender m, mrecipient m, mcontent m, mmode m, mstatus m] \<and>
     small_u64 (mrev m) \<and> mid m \<noteq> [] \<and> trimmed (mid m) \<and> mrev m \<noteq> 0"

lemma msg_stableD:
  assumes "msg_stable m"
  shows "valid_utf8 (mid m)" "valid_utf8 (msender m)" "valid_utf8 (mrecipient m)" "valid_utf8 (mcontent m)"
    "valid_utf8 (mmode m)" "valid_utf8 (mstatus m)" "small_u64 (mrev m)" "trimmed (mid m)" "mrev m \<noteq> 0"
  using assms by (simp_all add: msg_stable_def)

lemma coerce_mailboxPayload: "msg_stable m \<Longrightarrow> coerce_json (mailboxPayload G m) = mailboxPayload G m"
  unfolding mailboxPayload_def coerce_json_JObj
  by (simp add: msg_stableD coerce_omit utf8_coerce_ascii is_ascii_def)

lemma mailboxDecode_mailboxPayload: "msg_stable m \<Longrightarrow> mailboxDecode (mailboxPayload G m) = Some m"
  unfolding mailboxDecode_def mailboxPayload_def jfield_JObj
  by (simp add: msg_stableD json_codec dec_omit del: map_of_append cong: if_cong split del: if_split)

definition mail_put :: "('z) goenv_scheme \<Rightarrow> string \<Rightarrow> bool \<Rightarrow> mail_msg \<Rightarrow> event" where
  "mail_put G task a m =
     (if a then mail_event G task eventMailboxQueued m (queue_key m)
      else mail_event G task eventMailboxUpdated m (mail_update_key m))"

lemma mail_event_fields [simp]:
  "ev_type (mail_event G task ty m k) = ty" "ev_idem (mail_event G task ty m k) = k"
  "ev_payload (mail_event G task ty m k) = [(''message'', mailboxPayload G m)]"
  "ev_task (mail_event G task ty m k) = task" "ev_schema (mail_event G task ty m k) = 0"
  by (simp_all add: mail_event_def zero_event_def)

lemma mail_keys:
  "queue_key x = queue_key y \<longleftrightarrow> mid x = mid y"
  "mail_update_key x = mail_update_key y \<longleftrightarrow> mid x = mid y \<and> mrev x = mrev y"
  "queue_key x \<noteq> mail_update_key y"
  using key_number_inject [of "mid x" "unat (mrev x)" "mid y" "unat (mrev y)"]
  by (simp_all add: queue_key_def mail_update_key_def word_unat_eq_iff)

lemma mail_key_text:
  assumes "msg_stable x"
  shows "trimmed (queue_key x)" "trimmed (mail_update_key x)"
    "valid_utf8 (queue_key x)" "valid_utf8 (mail_update_key x)"
proof -
  have p: "plain_char (CHR ''m'')" "plain_char (CHR '':'')" by (simp_all add: plain_char_def)
  show "trimmed (queue_key x)"
    using trimmed_key [OF p, of "mid x" "''ailbox:queue''"] msg_stableD(8) [OF assms]
    by (simp add: queue_key_def)
  show "trimmed (mail_update_key x)"
    using trimmed_number_key [OF p(1), of "''ailbox:update:'' @ mid x @ '':''" "unat (mrev x)"]
    by (simp add: mail_update_key_def)
  show "valid_utf8 (queue_key x)" "valid_utf8 (mail_update_key x)"
    using msg_stableD(1) [OF assms]
    by (simp_all add: queue_key_def mail_update_key_def valid_utf8_Cons valid_utf8_append valid_utf8_itoa)
qed

lemma mail_types_text:
  "trim_space eventMailboxQueued = eventMailboxQueued" "trim_space eventMailboxUpdated = eventMailboxUpdated"
  "utf8_coerce eventMailboxQueued = eventMailboxQueued" "utf8_coerce eventMailboxUpdated = eventMailboxUpdated"
  "utf8_coerce ''message'' = ''message''"
  by code_simp+

interpretation mail_log: entity_log task mail_decode_event mid "\<lambda>m. unat (mrev m)"
  "\<lambda>m. trim_space task \<noteq> [] \<and> msg_stable m" "mail_put G task" for G task
proof unfold_locales
  fix a b x y
  show "ev_idem (mail_put G task a x) = ev_idem (mail_put G task b y) \<Longrightarrow>
      a = b \<and> mid x = mid y \<and> (\<not> a \<longrightarrow> unat (mrev x) = unat (mrev y))"
    using mail_keys [of x y] mail_keys(3) [of y x] by (cases a; cases b) (auto simp: mail_put_def)
next
  fix a x assume "trim_space task \<noteq> [] \<and> msg_stable x"
  then show "ev_idem (mail_put G task a x) \<noteq> [] \<and> trimmed (ev_idem (mail_put G task a x)) \<and>
      valid_utf8 (ev_idem (mail_put G task a x))"
    using mail_key_text [of x] by (simp add: mail_put_def queue_key_def mail_update_key_def)
next
  fix now a x assume "trim_space task \<noteq> [] \<and> msg_stable x"
  then show "\<exists>e1. normalizeEvent now (mail_put G task a x) task = Inr e1"
    by (simp add: mail_put_def normalizeEvent_def Let_def mail_types_text)
next
  fix a x and e :: event
  assume "trim_space task \<noteq> [] \<and> msg_stable x"
    and "ev_type e = utf8_coerce (trim_space (ev_type (mail_put G task a x)))"
    and "ev_payload e = map (\<lambda>(k, v). (utf8_coerce k, coerce_json v)) (ev_payload (mail_put G task a x))"
  then show "mail_decode_event e = Some (Some x)"
    by (cases a) (simp_all add: mail_put_def mail_decode_event_def mail_types_text coerce_mailboxPayload
        mailboxDecode_mailboxPayload)
qed

lemma mail_replay_replay_with:
  "mail_replay m es = (case replay_with mail_decode_event mid m es of
     None \<Rightarrow> Inl ErrInvalidMailboxMessage | Some m' \<Rightarrow> Inr m')"
  by (induction es arbitrary: m) (auto split: option.splits)

text \<open>The hot map and the log of the task agree; the log has room.\<close>

definition mail_durable :: "('z) goenv_scheme \<Rightarrow> mail_state \<Rightarrow> bool" where
  "mail_durable G s \<longleftrightarrow> validateScope (mb_ws (fst s)) (mb_task (fst s)) \<and> (\<exists>es. snd s = Some es \<and>
     log_inv (ev_files es (eventPath G (mb_ws (fst s)) (mb_task (fst s)))) \<and>
     in_sync mail_decode_event mid (\<lambda>m. unat (mrev m))
       (\<lambda>m. trim_space (mb_task (fst s)) \<noteq> [] \<and> msg_stable m) (mail_put G (mb_task (fst s)))
       (log_events (ev_files es (eventPath G (mb_ws (fst s)) (mb_task (fst s))))) (mb_msgs (fst s)))"

definition mail_room :: "('z) goenv_scheme \<Rightarrow> mail_state \<Rightarrow> bool" where
  "mail_room G s \<longleftrightarrow> (\<forall>es. snd s = Some es \<longrightarrow>
     length (ev_files es (eventPath G (mb_ws (fst s)) (mb_task (fst s)))) < 2 ^ 64 - 1)"

lemma mail_append_durable:
  assumes "mail_appendLocked G t io s (if a then eventMailboxQueued else eventMailboxUpdated) m
      (if a then queue_key m else mail_update_key m) = (es', None)"
    and "mail_durable G s" and "io_clean io" and "mail_room G s" and "msg_stable m"
    and "writable mid (\<lambda>m. unat (mrev m)) (mb_msgs (fst s)) a m"
  shows "mail_durable G ((fst s)\<lparr>mb_msgs := AList.update (mid m) m (mb_msgs (fst s))\<rparr>, es')"
proof -
  let ?b = "fst s" and ?p = "eventPath G (mb_ws (fst s)) (mb_task (fst s))"
  let ?st = "\<lambda>m. trim_space (mb_task ?b) \<noteq> [] \<and> msg_stable m"
  have sc: "validateScope (mb_ws ?b) (mb_task ?b)" using assms(2) by (simp add: mail_durable_def)
  obtain es where es: "snd s = Some es" "log_inv (ev_files es ?p)"
    "in_sync mail_decode_event mid (\<lambda>m. unat (mrev m)) ?st (mail_put G (mb_task ?b))
       (log_events (ev_files es ?p)) (mb_msgs ?b)"
    using assms(2) by (auto simp: mail_durable_def)
  have put: "mail_event G (mb_task ?b) (if a then eventMailboxQueued else eventMailboxUpdated) m
      (if a then queue_key m else mail_update_key m) = mail_put G (mb_task ?b) a m"
    by (simp add: mail_put_def)
  have st: "?st m" using assms(5) sc by (simp add: validateScope_def)
  have len: "length (ev_files es ?p) < 2 ^ 64 - 1" using assms(4) es(1) by (simp add: mail_room_def)
  obtain es1 where es1: "es' = Some es1"
    using assms(1) unfolding mail_appendLocked_def es(1) by (blast dest: append_opt_SomeD)
  show ?thesis
    using mail_log.append_opt_in_sync [OF _ assms(3) es(3) assms(6) st sc refl es(2) len, of t es1] assms(1) es1 sc
    by (simp add: mail_appendLocked_def es(1) put mail_durable_def)
qed

lemma mail_append_error:
  "mail_appendLocked G t io s ty m k = (es', Some x) \<Longrightarrow> io_clean io \<Longrightarrow> es' = snd s"
  by (simp add: mail_appendLocked_def append_opt_error)

lemma Suc_rev_less: "(r :: u64) + 1 \<noteq> 0 \<Longrightarrow> unat r < unat (r + 1)"
  using unatSuc [of r] by (simp add: add.commute)

lemma persist_durable:
  assumes "persistUpdateLocked G t io s m' = (es', None)" and "mail_durable G s" and "io_clean io"
    and "mail_room G s" and "msg_stable m'" and "map_of (mb_msgs (fst s)) (mid m') = Some m"
    and "mrev m' = mrev m + 1"
  shows "mail_durable G ((fst s)\<lparr>mb_msgs := AList.update (mid m') m' (mb_msgs (fst s))\<rparr>, es')"
proof -
  have "writable mid (\<lambda>m. unat (mrev m)) (mb_msgs (fst s)) False m'"
    using assms(6,7) msg_stableD(9) [OF assms(5)] Suc_rev_less [of "mrev m"] by (simp add: writable_def)
  then show ?thesis
    using mail_append_durable [of G t io s False m' es'] assms(1-5) by (simp add: persistUpdateLocked_def)
qed

definition all_stable :: "mail_state \<Rightarrow> bool" where
  "all_stable s \<longleftrightarrow> (\<forall>i m. map_of (mb_msgs (fst s)) i = Some m \<longrightarrow> msg_stable m)"

text \<open>What no operation changes, and that the log only grows.\<close>

definition mail_frame :: "mail_state \<Rightarrow> mail_state \<Rightarrow> bool" where
  "mail_frame s s' \<longleftrightarrow> mb_ws (fst s') = mb_ws (fst s) \<and> mb_task (fst s') = mb_task (fst s) \<and>
     (\<forall>es. snd s = Some es \<longrightarrow> (\<exists>es'. snd s' = Some es' \<and>
        (\<forall>p. length (ev_files es p) \<le> length (ev_files es' p))))"

lemma mail_frame_refl [simp]: "mail_frame s s"
  by (simp add: mail_frame_def)

lemma mail_frame_trans:
  assumes "mail_frame a b" and "mail_frame b c"
  shows "mail_frame a c"
proof -
  have "\<exists>es3. snd c = Some es3 \<and> (\<forall>p. length (ev_files es p) \<le> length (ev_files es3 p))"
    if h: "snd a = Some es" for es
  proof -
    obtain es2 where es2: "snd b = Some es2" "\<forall>p. length (ev_files es p) \<le> length (ev_files es2 p)"
      using assms(1) h unfolding mail_frame_def by blast
    then obtain es3 where "snd c = Some es3" "\<forall>p. length (ev_files es2 p) \<le> length (ev_files es3 p)"
      using assms(2) unfolding mail_frame_def by blast
    with es2(2) show ?thesis by (meson order_trans)
  qed
  with assms show ?thesis by (simp add: mail_frame_def)
qed

lemma mail_room_back:
  assumes "mail_frame s s'" and "mail_room G s'"
  shows "mail_room G s"
  unfolding mail_room_def
proof (intro allI impI)
  fix es assume "snd s = Some es"
  then obtain es2 where "snd s' = Some es2" "\<forall>p. length (ev_files es p) \<le> length (ev_files es2 p)"
    using assms(1) unfolding mail_frame_def by blast
  moreover have "mb_ws (fst s') = mb_ws (fst s)" "mb_task (fst s') = mb_task (fst s)"
    using assms(1) by (simp_all add: mail_frame_def)
  ultimately show "length (ev_files es (eventPath G (mb_ws (fst s)) (mb_task (fst s)))) < 2 ^ 64 - 1"
    using assms(2) unfolding mail_room_def by (metis order.strict_trans1)
qed

lemma all_stableD: "all_stable s \<Longrightarrow> map_of (mb_msgs (fst s)) i = Some m \<Longrightarrow> msg_stable m"
  by (simp add: all_stable_def del: map_of_eq_Some_iff)

lemma mail_frame_append:
  assumes "mail_appendLocked G t io s ty m k = (es', err)"
  shows "mail_frame s ((fst s)\<lparr>mb_msgs := ms\<rparr>, es')" "mail_frame s (fst s, es')"
proof -
  have "\<exists>es2. es' = Some es2 \<and> (\<forall>p. length (ev_files es p) \<le> length (ev_files es2 p))" if "snd s = Some es" for es
    using assms that unfolding mail_appendLocked_def
    by (metis append_opt_SomeD append_opt_grows)
  then show "mail_frame s ((fst s)\<lparr>mb_msgs := ms\<rparr>, es')" "mail_frame s (fst s, es')"
    by (auto simp: mail_frame_def)
qed

lemma Queue_durable:
  assumes "Queue G now t io s m0 = (s', r)" and "io_clean io" and "all_stable s'"
    and "mail_durable G s" and "mail_room G s'"
  shows "mail_durable G s' \<and> mail_frame s s'"
proof -
  let ?m = "normalizeMailboxMessage now m0" and ?ms = "mb_msgs (fst s)"
  obtain es' err where app: "mail_appendLocked G t io s eventMailboxQueued ?m (queue_key ?m) = (es', err)"
    by fastforce
  consider "s' = s" | x where "err = Some x" "s' = (fst s, es')"
    | "err = None" "map_of ?ms (mid ?m) = None" "s' = ((fst s)\<lparr>mb_msgs := AList.update (mid ?m) ?m ?ms\<rparr>, es')"
    using assms(1) app
    by (auto simp: Queue_def Let_def simp del: map_of_eq_None_iff split: option.splits if_splits)
  then show ?thesis
  proof cases
    case 1
    with assms(4) show ?thesis by simp
  next
    case (2 x)
    with app assms(2) have "s' = s" using mail_append_error by (metis prod.collapse)
    with assms(4) show ?thesis by simp
  next
    case 3
    have fr: "mail_frame s s'" using 3 mail_frame_append(1) [OF app] by simp
    have "msg_stable ?m" by (rule all_stableD [OF assms(3), of "mid ?m"]) (simp add: 3(3))
    with 3 fr show ?thesis
      using mail_append_durable [of G t io s True ?m es'] app assms(2,4) mail_room_back [OF fr assms(5)]
      by (simp add: writable_def)
  qed
qed

lemma Acknowledge_durable:
  assumes "Acknowledge G wall t io s i e now = (s', r)" and "io_clean io" and "all_stable s'"
    and "mail_durable G s" and "mail_room G s'" and "mail_inv (mb_msgs (fst s))"
  shows "mail_durable G s' \<and> mail_frame s s'"
proof (cases "s' = s")
  case True
  with assms(4) show ?thesis by simp
next
  case False
  let ?ms = "mb_msgs (fst s)" and ?i = "trim_space i"
  obtain m where m: "map_of ?ms ?i = Some m"
    using False assms(1) by (auto simp: Acknowledge_def Let_def simp del: map_of_eq_Some_iff split: option.splits)
  define m' where "m' = m\<lparr>mstatus := MailboxAcknowledged, mrev := mrev m + 1,
    macked := at_or_now now wall, mupdated := at_or_now now wall\<rparr>"
  obtain es' err where app: "persistUpdateLocked G t io s m' = (es', err)" by fastforce
  have mid: "mid m' = ?i" using mail_inv_mid [OF assms(6) m] by (simp add: m'_def)
  have res: "s' = (case err of Some x \<Rightarrow> (fst s, es') | None \<Rightarrow> ((fst s)\<lparr>mb_msgs := AList.update ?i m' ?ms\<rparr>, es'))"
    using False assms(1) m app
    by (auto simp: Acknowledge_def Let_def m'_def [symmetric] split: option.splits if_splits)
  have "err = None"
  proof (rule ccontr)
    assume "err \<noteq> None"
    then obtain x where x: "err = Some x" by blast
    then have "es' = snd s" using app mail_append_error [OF _ assms(2)] by (simp add: persistUpdateLocked_def)
    with x res False show False by simp
  qed
  with res have s': "s' = ((fst s)\<lparr>mb_msgs := AList.update (mid m') m' ?ms\<rparr>, es')" and "err = None"
    using mid by simp_all
  have fr: "mail_frame s s'"
    unfolding s' using app unfolding persistUpdateLocked_def by (rule mail_frame_append(1))
  have "msg_stable m'" by (rule all_stableD [OF assms(3), of "mid m'"]) (simp add: s')
  then show ?thesis
    using persist_durable [of G t io s m' es' m] app \<open>err = None\<close> assms(2,4) mail_room_back [OF fr assms(5)] m mid fr s'
    by (simp add: m'_def)
qed

lemma deliver_loop_Cons:
  assumes "persistUpdateLocked G (t i) (io i) s m' = (es', e)"
    and "m' = deliver_msg now (case map_of (mb_msgs (fst s)) i of None \<Rightarrow> zero_msg | Some m \<Rightarrow> m)"
  shows "deliver_loop G t io now s (i # is) out =
    (case e of Some x \<Rightarrow> ((fst s, es'), out, Some (MailEvents x))
     | None \<Rightarrow> deliver_loop G t io now ((fst s)\<lparr>mb_msgs := AList.update i m' (mb_msgs (fst s))\<rparr>, es') is
         (if mstatus m' = MailboxExpired then out else out @ [m']))"
  using assms(1) by (simp add: assms(2) [symmetric] Let_def cong: if_cong)

declare deliver_loop.simps(2) [simp del]

lemma deliver_loop_frame:
  "deliver_loop G t io now s ids out = (s', out', err) \<Longrightarrow> mail_frame s s'"
proof (induction ids arbitrary: s out)
  case (Cons i "is")
  define m' where "m' = deliver_msg now (case map_of (mb_msgs (fst s)) i of None \<Rightarrow> zero_msg | Some m \<Rightarrow> m)"
  obtain es' e where app: "persistUpdateLocked G (t i) (io i) s m' = (es', e)" by fastforce
  note fr = mail_frame_append [OF app [unfolded persistUpdateLocked_def]]
  note eq = Cons.prems [unfolded deliver_loop_Cons [of G t i io s m' es' e now, OF app m'_def]]
  show ?case
  proof (cases e)
    case None
    with eq have "mail_frame ((fst s)\<lparr>mb_msgs := AList.update i m' (mb_msgs (fst s))\<rparr>, es') s'"
      by (intro Cons.IH) simp
    then show ?thesis by (rule mail_frame_trans [OF fr(1)])
  qed (use eq fr(2) in auto)
qed simp

lemma deliver_loop_durable:
  assumes "deliver_loop G t io now s ids out = (s', out', err)" and "\<And>i. io_clean (io i)"
    and "all_stable s'" and "mail_durable G s" and "mail_room G s'" and "mail_inv (mb_msgs (fst s))"
    and "distinct ids" and "set ids \<subseteq> dom (map_of (mb_msgs (fst s)))"
  shows "mail_durable G s'"
  using assms
proof (induction ids arbitrary: s out)
  case (Cons i "is")
  let ?ms = "mb_msgs (fst s)"
  obtain m where m: "map_of ?ms i = Some m" using Cons.prems(8) by auto
  define m' where "m' = deliver_msg now m"
  have mid: "mid m' = i" using mail_inv_mid [OF Cons.prems(6) m] by (simp add: m'_def)
  obtain es' e where app: "persistUpdateLocked G (t i) (io i) s m' = (es', e)" by fastforce
  have m'_alt: "m' = deliver_msg now (case map_of ?ms i of None \<Rightarrow> zero_msg | Some m \<Rightarrow> m)"
    by (simp add: m m'_def)
  note eq = Cons.prems(1) [unfolded deliver_loop_Cons [of G t i io s m' es' e now, OF app m'_alt]]
  show ?case
  proof (cases e)
    case (Some x)
    then have "es' = snd s"
      using mail_append_error [OF _ Cons.prems(2)] app by (simp add: persistUpdateLocked_def)
    with Some eq have "s' = s" by simp
    with Cons.prems(4) show ?thesis by simp
  next
    case None
    let ?s1 = "((fst s)\<lparr>mb_msgs := AList.update i m' ?ms\<rparr>, es')"
    let ?out1 = "if mstatus m' = MailboxExpired then out else out @ [m']"
    have loop: "deliver_loop G t io now ?s1 is ?out1 = (s', out', err)"
      using eq None by simp
    have inv: "mail_inv (mb_msgs (fst ?s1))" using Cons.prems(6) mid by (simp add: mail_inv_update)
    have ids: "distinct is" "set is \<subseteq> dom (map_of (mb_msgs (fst ?s1)))" "i \<notin> set is"
      using Cons.prems(7,8) by auto
    obtain k where "map_of (mb_msgs (fst s')) = delivered_map now (take k is) (map_of (mb_msgs (fst ?s1)))"
      using deliver_loop_spec [OF loop ids(1,2) inv] by blast
    moreover have "i \<notin> set (take k is)" using ids(3) by (meson in_set_takeD)
    ultimately have "map_of (mb_msgs (fst s')) i = Some m'" by (simp add: delivered_map_def)
    then have st: "msg_stable m'" by (rule all_stableD [OF Cons.prems(3)])
    have fr: "mail_frame s s'" by (rule deliver_loop_frame [OF Cons.prems(1)])
    have d1: "mail_durable G ?s1"
      using persist_durable [of G "t i" "io i" s m' es' m] app None Cons.prems(2,4) m mid st
        mail_room_back [OF fr Cons.prems(5)] by (simp add: m'_def)
    show ?thesis
      by (rule Cons.IH [OF loop Cons.prems(2,3) d1 Cons.prems(5) inv ids(1,2)])
  qed
qed simp

lemma Deliver_durable:
  assumes "Deliver G wall t io s r now0 = (s', out, err)" and "\<And>i. io_clean (io i)"
    and "all_stable s'" and "mail_durable G s" and "mail_room G s'" and "mail_inv (mb_msgs (fst s))"
  shows "mail_durable G s' \<and> mail_frame s s'"
proof (cases "trim_space r = []")
  case True
  with assms(1,4) show ?thesis by (simp add: Deliver_def)
next
  case False
  with assms(1) have loop: "deliver_loop G t io (at_or_now now0 wall) s
      (deliver_ids (mb_msgs (fst s)) (trim_space r)) [] = (s', out, err)" by (simp add: Deliver_def Let_def)
  have "set (deliver_ids (mb_msgs (fst s)) (trim_space r)) \<subseteq> dom (map_of (mb_msgs (fst s)))"
    using deliver_ids_props(2) [OF assms(6)] by blast
  then show ?thesis
    using deliver_loop_durable [OF loop assms(2-6) deliver_ids_props(1) [OF assms(6)]]
      deliver_loop_frame [OF loop] by simp
qed

text \<open>
  One step of a system without torn or unsynced writes, as for the task DAG: an operation after
  which all messages are JSON-stable, or an append by another component.
\<close>

inductive mail_dstep :: "('z) goenv_scheme \<Rightarrow> mail_state \<Rightarrow> mail_state \<Rightarrow> bool" for G where
  queue: "Queue G now t io s m = (s', r) \<Longrightarrow> io_clean io \<Longrightarrow> all_stable s' \<Longrightarrow> mail_dstep G s s'"
| deliver: "Deliver G wall tf iof s rc now = (s', out, err) \<Longrightarrow> (\<And>i. io_clean (iof i)) \<Longrightarrow> all_stable s' \<Longrightarrow>
    mail_dstep G s s'"
| ack: "Acknowledge G wall t io s i e now = (s', r) \<Longrightarrow> io_clean io \<Longrightarrow> all_stable s' \<Longrightarrow> mail_dstep G s s'"
| foreign: "ev_append G t io es (mb_ws b) (mb_task b) ev = (es', rr) \<Longrightarrow> io_clean io \<Longrightarrow>
    \<not> prefix ''mailbox.'' (utf8_coerce (trim_space (ev_type ev))) \<Longrightarrow>
    \<not> prefix ''mailbox:'' (trim_space (ev_idem ev)) \<Longrightarrow> valid_utf8 (trim_space (ev_idem ev)) \<Longrightarrow>
    mail_dstep G (b, Some es) (b, Some es')"

lemma mail_foreign_durable:
  assumes "ev_append G t io es (mb_ws b) (mb_task b) ev = (es', rr)" and "io_clean io"
    and "\<not> prefix ''mailbox.'' (utf8_coerce (trim_space (ev_type ev)))"
    and "\<not> prefix ''mailbox:'' (trim_space (ev_idem ev))" and "valid_utf8 (trim_space (ev_idem ev))"
    and "mail_durable G (b, Some es)" and "mail_room G (b, Some es)"
  shows "mail_durable G (b, Some es')"
proof -
  let ?p = "eventPath G (mb_ws b) (mb_task b)" and ?st = "\<lambda>m. trim_space (mb_task b) \<noteq> [] \<and> msg_stable m"
  let ?sync = "in_sync mail_decode_event mid (\<lambda>m. unat (mrev m)) ?st (mail_put G (mb_task b))"
  have es: "log_inv (ev_files es ?p)" "?sync (log_events (ev_files es ?p)) (mb_msgs b)"
    using assms(6) by (simp_all add: mail_durable_def)
  have key: "trim_space (ev_idem ev) \<noteq> ev_idem (mail_put G (mb_task b) a x)" for a x
    using assms(4) by (auto simp: mail_put_def queue_key_def mail_update_key_def)
  have "log_inv (ev_files es' ?p) \<and> ?sync (log_events (ev_files es' ?p)) (mb_msgs b)"
  proof (rule mail_log.foreign_in_sync [OF assms(1,2)])
    show "mail_decode_event e' = None" if "ev_type e' = utf8_coerce (trim_space (ev_type ev))" for e'
      using that assms(3) by (auto simp: mail_decode_event_def)
  qed (use key assms(5,7) es in \<open>simp_all add: mail_room_def\<close>)
  then show ?thesis using assms(6) by (simp add: mail_durable_def)
qed

lemma mail_op_frames:
  "Queue G now t io s m = (s', r) \<Longrightarrow> mail_frame s s'"
  "Acknowledge G wall t io s i e now = (s', r) \<Longrightarrow> mail_frame s s'"
  "Deliver G wall tf iof s rc now = (s', out, err) \<Longrightarrow> mail_frame s s'"
  using mail_frame_append [of G t io s]
  by (auto simp: Queue_def Acknowledge_def Deliver_def persistUpdateLocked_def Let_def
      intro: deliver_loop_frame simp del: map_of_eq_None_iff map_of_eq_Some_iff split: option.splits if_splits prod.splits)

lemma mail_dstep_frame:
  assumes "mail_dstep G s s'"
  shows "mail_frame s s'"
  using assms
proof cases
  case (foreign t io es b ev es' rr)
  then show ?thesis using ev_append_grows [OF foreign(3)] by (simp add: mail_frame_def)
qed (auto intro: mail_op_frames)

lemma mail_dstep_inv:
  assumes "mail_dstep G s s'" and "mail_inv (mb_msgs (fst s))"
  shows "mail_inv (mb_msgs (fst s'))"
  using assms(1)
proof cases
  case (queue now t io m r)
  then show ?thesis using Queue_progress [OF assms(2), of G now t io m] by (simp add: mail_progress_def)
next
  case (deliver wall tf iof rc now out err)
  then show ?thesis
    using Deliver_progress [OF deliver(1) assms(2)] by (simp add: mail_progress_def)
next
  case (ack wall t io i e now r)
  then show ?thesis using Acknowledge_progress [OF assms(2), of G wall t io i e now] by (simp add: mail_progress_def)
next
  case (foreign t io es b ev es' rr)
  with assms(2) show ?thesis by simp
qed

lemma mail_dstep_durable:
  assumes "mail_dstep G s s'" and "mail_inv (mb_msgs (fst s))" and "mail_durable G s" and "mail_room G s'"
  shows "mail_durable G s'"
  using assms(1)
proof cases
  case (queue now t io m r)
  then show ?thesis using Queue_durable assms(3,4) by blast
next
  case (deliver wall tf iof rc now out err)
  then show ?thesis using Deliver_durable assms(2-4) by blast
next
  case (ack wall t io i e now r)
  then show ?thesis using Acknowledge_durable assms(2-4) by blast
next
  case (foreign t io es b ev es' rr)
  then show ?thesis
    using mail_foreign_durable [OF foreign(3-7)] assms(3) mail_room_back [OF mail_dstep_frame [OF assms(1)] assms(4)]
    by simp
qed

lemma mail_run_durable:
  assumes "(mail_dstep G)\<^sup>*\<^sup>* s s'" and "mail_inv (mb_msgs (fst s))" and "mail_durable G s" and "mail_room G s'"
  shows "mail_durable G s' \<and> mail_inv (mb_msgs (fst s')) \<and> mail_frame s s'"
  using assms
proof (induction rule: rtranclp_induct)
  case (step s1 s2)
  have fr: "mail_frame s1 s2" by (rule mail_dstep_frame [OF step.hyps(2)])
  have "mail_room G s1" by (rule mail_room_back [OF fr step.prems(3)])
  with step have IH: "mail_durable G s1" "mail_inv (mb_msgs (fst s1))" "mail_frame s s1" by blast+
  show ?case
    using mail_dstep_durable [OF step.hyps(2) IH(2,1) step.prems(3)] mail_dstep_inv [OF step.hyps(2) IH(2)]
      mail_frame_trans [OF IH(3) fr] by blast
qed simp

text \<open>
  Restart safety of the mailbox: after any run without torn or unsynced writes, whose
  messages are JSON-stable and whose task log (shared with other components) has at most 5000
  lines, \<open>NewMailbox\<close> on the same store rebuilds exactly the messages that were in memory. So
  a message delivered before a crash is still delivered, not queued, after it.
\<close>

theorem NewMailbox_restores:
  assumes "(mail_dstep G)\<^sup>*\<^sup>* (b0, Some es0) (b, Some es)"
    and "mb_msgs b0 = []" and "ev_files es0 (eventPath G (mb_ws b0) (mb_task b0)) = []"
    and "trimmed (mb_ws b0)" and "mb_ws b0 \<noteq> []" and "trimmed (mb_task b0)" and "mb_task b0 \<noteq> []"
    and "length (ev_files es (eventPath G (mb_ws b0) (mb_task b0))) \<le> 5000"
  shows "\<exists>b'. NewMailbox G (Some es) (mb_ws b0) (mb_task b0) = Inr b' \<and>
    mb_ws b' = mb_ws b \<and> mb_task b' = mb_task b \<and> map_of (mb_msgs b') = map_of (mb_msgs b)"
proof -
  let ?p = "eventPath G (mb_ws b0) (mb_task b0)"
  have sc: "validateScope (mb_ws b0) (mb_task b0)"
    using assms(4-7) by (simp add: validateScope_def trimmed_def)
  have fr: "mail_frame (b0, Some es0) (b, Some es)"
    using assms(1)
  proof (induction rule: rtranclp_induct)
    case (step s1 s2)
    then show ?case using mail_frame_trans mail_dstep_frame by blast
  qed simp
  then have wt: "mb_ws b = mb_ws b0" "mb_task b = mb_task b0" by (simp_all add: mail_frame_def)
  have "mail_durable G (b0, Some es0)"
    using assms(2,3) sc mail_log.in_sync_empty by (simp add: mail_durable_def log_inv_def idem_keys_def)
  moreover have "mail_room G (b, Some es)" using assms(8) wt by (simp add: mail_room_def)
  moreover have "mail_inv (mb_msgs (fst (b0, Some es0)))" using assms(2) by (simp add: mail_inv_def mail_ok_def)
  ultimately have "mail_durable G (b, Some es)" using mail_run_durable [OF assms(1)] by simp
  then obtain m' where h: "log_inv (ev_files es ?p)" "map_of m' = map_of (mb_msgs b)"
    "replay_with mail_decode_event mid [] (log_events (ev_files es ?p)) = Some m'"
    by (auto simp: mail_durable_def in_sync_def wt)
  have "ev_list G es (mb_ws b0) (mb_task b0) 0 5000 = Inr (log_events (ev_files es ?p))"
    using ev_list_wf [OF sc, of es G 0 5000] h(1) assms(8) length_log_events [of 0 "ev_files es ?p"]
    by (simp add: log_inv_def clamp_limit_def)
  with h assms(4-7) wt show ?thesis
    by (simp add: NewMailbox_def trimmed_def mail_replay_replay_with)
qed

definition demo_mail2 :: mail_state where
  "demo_mail2 = fst (Deliver demo_env 7 (\<lambda>_. 7) (\<lambda>_. WOk) demo_mail1 ''bob'' 6)"

lemma demo_mail2_msgs:
  "mb_msgs (fst demo_mail2) = [(''m1'', (demo_msg ''m1'')\<lparr>mrev := 2, mstatus := ''delivered'', mcreated := 5,
     mupdated := 6, mdelivered := 6\<rparr>)]"
  by code_simp

theorem NewMailbox_restores_witness:
  "\<exists>b'. NewMailbox demo_env (snd demo_mail2) ''w'' ''t'' = Inr b' \<and>
     map_of (mb_msgs b') = map_of (mb_msgs (fst demo_mail2)) \<and>
     map_option mstatus (map_of (mb_msgs (fst demo_mail2)) ''m1'') = Some ''delivered''"
proof -
  have st: "msg_stable (snd (hd (mb_msgs (fst demo_mail1))))" "msg_stable (snd (hd (mb_msgs (fst demo_mail2))))"
    by code_simp+
  have "mail_dstep demo_env demo_mail0 demo_mail1"
    unfolding demo_mail1_def
    by (rule mail_dstep.queue [OF prod.collapse [symmetric]])
      (use st(1) in \<open>simp_all add: io_clean_def all_stable_def demo_mail1_msgs flip: demo_mail1_def\<close>)
  moreover have "mail_dstep demo_env demo_mail1 demo_mail2"
  proof -
    let ?r = "Deliver demo_env 7 (\<lambda>_. 7) (\<lambda>_. WOk) demo_mail1 ''bob'' 6"
    have "?r = (demo_mail2, fst (snd ?r), snd (snd ?r))" by (simp add: demo_mail2_def)
    then show ?thesis
      by (rule mail_dstep.deliver) (use st(2) in \<open>simp_all add: io_clean_def all_stable_def demo_mail2_msgs\<close>)
  qed
  ultimately have run: "(mail_dstep demo_env)\<^sup>*\<^sup>* demo_mail0 demo_mail2" by (metis rtranclp.simps)
  have h: "snd demo_mail2 \<noteq> None"
    "length (ev_files (the (snd demo_mail2)) (eventPath demo_env ''w'' ''t'')) = 2"
    "trimmed ''w''" "trimmed ''t''"
    by code_simp+
  then have es: "demo_mail2 = (fst demo_mail2, Some (the (snd demo_mail2)))" by (simp add: prod_eq_iff)
  have "demo_mail0 = (fst demo_mail0, Some empty_evstore)" "mb_ws (fst demo_mail0) = ''w''"
    "mb_task (fst demo_mail0) = ''t''" "mb_msgs (fst demo_mail0) = []" by (simp_all add: demo_mail0_def)
  with run es h show ?thesis
    using NewMailbox_restores [of demo_env "fst demo_mail0" empty_evstore "fst demo_mail2" "the (snd demo_mail2)"]
      demo_mail2_msgs by fastforce
qed

end
