(* ===== verification/AgentGraph.thy ===== *)
theory AgentGraph
  imports Interfaces
begin

text \<open>
  Agent identities and the agent topology of a task, \<open>internal/agentruntime\<close>: \<open>identity.go\<close>
  (normalisation, the status machines of agents and activations), \<open>graph.go\<close>, \<open>graph_cas.go\<close>
  and \<open>graph_projection.go\<close> (the durable graph of agents and edges).
\<close>

section \<open>Types\<close>

abbreviation "RoleImplementer \<equiv> ''implementer''"
abbreviation "AgentCreated \<equiv> ''created''"
abbreviation "AgentIdle \<equiv> ''idle''"
abbreviation "AgentActive \<equiv> ''active''"
abbreviation "AgentWaiting \<equiv> ''waiting''"
abbreviation "AgentCompleted \<equiv> ''completed''"
abbreviation "AgentFailed \<equiv> ''failed''"
abbreviation "AgentCancelled \<equiv> ''cancelled''"

abbreviation "ActivationStarting \<equiv> ''starting''"
abbreviation "ActivationRunning \<equiv> ''running''"
abbreviation "ActivationWaiting \<equiv> ''waiting''"
abbreviation "ActivationCheckpointed \<equiv> ''checkpointed''"
abbreviation "ActivationStopped \<equiv> ''stopped''"
abbreviation "ActivationCompleted \<equiv> ''completed''"
abbreviation "ActivationFailed \<equiv> ''failed''"
abbreviation "ActivationCancelled \<equiv> ''cancelled''"
abbreviation "ActivationLost \<equiv> ''lost''"

datatype agent_error =
    ErrInvalidAgentIdentity | ErrInvalidActivation | ErrInvalidAgentTransition
  | ErrInvalidActivationTransition | ErrInvalidAgentGraph | ErrAgentExists | ErrAgentNotFound
  | ErrAgentCycle | ErrAgentEdgeExists | ErrAgentEdgeNotFound | ErrStaleAgentEdge
  | ErrStaleAgentRevision | ErrInvalidActivationManager | ErrActivationNotFound
  | ErrActivationBusy | ErrStaleActivationRevision | ErrActivationAgentTerminal
  | AgentEvents ev_error

record agent_identity =
  aid :: string
  atask :: string
  aparent :: string
  arole :: string
  aengine :: string
  amodel :: string
  astatus :: string
  arev :: u64
  acreated :: gotime
  aupdated :: gotime

record agent_activation =
  vid :: string
  vagent :: string
  vattempt :: int
  vprovider :: string
  vsession :: string
  vprocess :: string
  vstatus :: string
  vrev :: u64
  vstarted :: gotime
  vupdated :: gotime
  vended :: gotime

section \<open>Status machines (\<open>identity.go\<close>)\<close>

definition validAgentStatus :: "string \<Rightarrow> bool" where
  "validAgentStatus st \<longleftrightarrow> st \<in> set [AgentCreated, AgentIdle, AgentActive, AgentWaiting, AgentCompleted,
     AgentFailed, AgentCancelled]"

definition validActivationStatus :: "string \<Rightarrow> bool" where
  "validActivationStatus st \<longleftrightarrow> st \<in> set [ActivationStarting, ActivationRunning, ActivationWaiting,
     ActivationCheckpointed, ActivationStopped, ActivationCompleted, ActivationFailed,
     ActivationCancelled, ActivationLost]"

definition agentTransitionAllowed :: "string \<Rightarrow> string \<Rightarrow> bool" where
  "agentTransitionAllowed from to =
     (if from = to then True
      else if from = AgentCreated then to \<in> set [AgentActive, AgentIdle, AgentCancelled, AgentFailed]
      else if from = AgentIdle then to \<in> set [AgentActive, AgentCancelled, AgentCompleted, AgentFailed]
      else if from = AgentActive then
        to \<in> set [AgentWaiting, AgentIdle, AgentCompleted, AgentFailed, AgentCancelled]
      else if from = AgentWaiting then to \<in> set [AgentActive, AgentIdle, AgentCancelled, AgentFailed]
      else False)"

definition agentTerminal :: "string \<Rightarrow> bool" where
  "agentTerminal st \<longleftrightarrow> st = AgentCompleted \<or> st = AgentFailed \<or> st = AgentCancelled"

definition activationTerminal :: "string \<Rightarrow> bool" where
  "activationTerminal st \<longleftrightarrow> st \<in> set [ActivationCheckpointed, ActivationStopped, ActivationCompleted,
     ActivationFailed, ActivationCancelled, ActivationLost]"

definition activationTransitionAllowed :: "string \<Rightarrow> string \<Rightarrow> bool" where
  "activationTransitionAllowed from to =
     (if from = to then True
      else if from = ActivationStarting then
        to \<in> set [ActivationRunning, ActivationCheckpointed, ActivationStopped, ActivationFailed,
          ActivationCancelled, ActivationLost]
      else if from = ActivationRunning then
        to \<in> set [ActivationWaiting, ActivationCheckpointed, ActivationStopped, ActivationCompleted,
          ActivationFailed, ActivationCancelled, ActivationLost]
      else if from = ActivationWaiting then
        to \<in> set [ActivationRunning, ActivationCheckpointed, ActivationStopped, ActivationCompleted,
          ActivationFailed, ActivationCancelled, ActivationLost]
      else False)"

interpretation agent_status: status_machine agentTransitionAllowed agentTerminal
  by unfold_locales (auto simp: agentTransitionAllowed_def agentTerminal_def split: if_splits)

interpretation activation_status: status_machine activationTransitionAllowed activationTerminal
  by unfold_locales (auto simp: activationTransitionAllowed_def activationTerminal_def split: if_splits)

section \<open>Normalisation and transitions (\<open>identity.go\<close>)\<close>

definition NormalizeIdentity ::
  "('z) goenv_scheme \<Rightarrow> gotime \<Rightarrow> agent_identity \<Rightarrow> agent_error + agent_identity" where
  "NormalizeIdentity G now a =
     (let a1 = a\<lparr>aid := trim_space (aid a), atask := trim_space (atask a),
                 aparent := trim_space (aparent a), aengine := to_lower G (trim_space (aengine a)),
                 amodel := trim_space (amodel a)\<rparr>;
          a2 = (if arole a1 = [] then a1\<lparr>arole := RoleImplementer\<rparr> else a1);
          a3 = (if astatus a2 = [] then a2\<lparr>astatus := AgentCreated\<rparr> else a2)
      in if aid a3 = [] \<or> atask a3 = [] \<or> aengine a3 = [] \<or> \<not> validAgentStatus (astatus a3)
         then Inl ErrInvalidAgentIdentity
         else
           let a4 = (if acreated a3 = 0 then a3\<lparr>acreated := now\<rparr> else a3);
               a5 = (if aupdated a4 = 0 then a4\<lparr>aupdated := acreated a4\<rparr> else a4)
           in Inr (if arev a5 = 0 then a5\<lparr>arev := 1\<rparr> else a5))"

definition TransitionIdentity ::
  "('z) goenv_scheme \<Rightarrow> gotime \<Rightarrow> agent_identity \<Rightarrow> string \<Rightarrow> gotime \<Rightarrow> agent_error + agent_identity" where
  "TransitionIdentity G now a next at =
     (case NormalizeIdentity G now a of
        Inl x \<Rightarrow> Inl x
      | Inr b \<Rightarrow>
          if \<not> agentTransitionAllowed (astatus b) next then Inl ErrInvalidAgentTransition
          else Inr (b\<lparr>astatus := next, arev := arev b + 1, aupdated := at_or_now at now\<rparr>))"

definition NormalizeActivation :: "gotime \<Rightarrow> agent_activation \<Rightarrow> agent_error + agent_activation" where
  "NormalizeActivation now v =
     (let v1 = v\<lparr>vid := trim_space (vid v), vagent := trim_space (vagent v),
                 vprovider := trim_space (vprovider v), vsession := trim_space (vsession v),
                 vprocess := trim_space (vprocess v)\<rparr>;
          v2 = (if vstatus v1 = [] then v1\<lparr>vstatus := ActivationStarting\<rparr> else v1);
          v3 = (if vattempt v2 \<le> 0 then v2\<lparr>vattempt := 1\<rparr> else v2)
      in if vid v3 = [] \<or> vagent v3 = [] \<or> \<not> validActivationStatus (vstatus v3)
         then Inl ErrInvalidActivation
         else
           let v4 = (if vstarted v3 = 0 then v3\<lparr>vstarted := now\<rparr> else v3);
               v5 = (if vupdated v4 = 0 then v4\<lparr>vupdated := vstarted v4\<rparr> else v4);
               v6 = (if vrev v5 = 0 then v5\<lparr>vrev := 1\<rparr> else v5)
           in Inr (if activationTerminal (vstatus v6) \<and> vended v6 = 0
                   then v6\<lparr>vended := vupdated v6\<rparr> else v6))"

definition TransitionActivation ::
  "gotime \<Rightarrow> agent_activation \<Rightarrow> string \<Rightarrow> gotime \<Rightarrow> agent_error + agent_activation" where
  "TransitionActivation now v next at =
     (case NormalizeActivation now v of
        Inl x \<Rightarrow> Inl x
      | Inr w \<Rightarrow>
          if \<not> activationTransitionAllowed (vstatus w) next then Inl ErrInvalidActivationTransition
          else
            let t = at_or_now at now;
                w1 = w\<lparr>vstatus := next, vrev := vrev w + 1, vupdated := t\<rparr>
            in Inr (if activationTerminal next then w1\<lparr>vended := t\<rparr> else w1))"

section \<open>The graph (\<open>graph.go\<close>)\<close>

abbreviation "EdgeSpawn \<equiv> ''spawn''"
abbreviation "EdgeDependency \<equiv> ''dependency''"
abbreviation "EdgeOpen \<equiv> ''open''"
abbreviation "EdgeClosed \<equiv> ''closed''"
abbreviation "eventAgentRegistered \<equiv> ''agentgraph.agent_registered''"
abbreviation "eventAgentSpawned \<equiv> ''agentgraph.agent_spawned''"
abbreviation "eventAgentLinked \<equiv> ''agentgraph.agent_linked''"
abbreviation "eventAgentTransitioned \<equiv> ''agentgraph.agent_transitioned''"
abbreviation "eventAgentEdgeClosed \<equiv> ''agentgraph.edge_closed''"
abbreviation "eventAgentSubtreeCanceled \<equiv> ''agentgraph.subtree_cancelled''"

record agent_edge =
  eid :: string
  eparent :: string
  echild :: string
  ekind :: string
  estatus :: string
  erev :: u64
  ecreated :: gotime
  eupdated :: gotime

type_synonym agent_map = "(string \<times> agent_identity) list"
type_synonym edge_map = "(string \<times> agent_edge) list"

record agent_graph =
  gr_ws :: string
  gr_task :: string
  gr_agents :: agent_map
  gr_edges :: edge_map

type_synonym graph_state = "agent_graph \<times> evstore option"

definition sameAgentIdentity :: "agent_identity \<Rightarrow> agent_identity \<Rightarrow> bool" where
  "sameAgentIdentity a b \<longleftrightarrow> aid a = aid b \<and> atask a = atask b \<and> aparent a = aparent b
     \<and> arole a = arole b \<and> aengine a = aengine b \<and> amodel a = amodel b \<and> astatus a = astatus b
     \<and> arev a = arev b"

definition newAgentEdge :: "string \<Rightarrow> string \<Rightarrow> string \<Rightarrow> gotime \<Rightarrow> agent_edge" where
  "newAgentEdge p c k now =
     \<lparr>eid = k @ '':'' @ p @ ''->'' @ c, eparent = p, echild = c, ekind = k, estatus = EdgeOpen,
      erev = 1, ecreated = now, eupdated = now\<rparr>"

definition identityPayload :: "('z) goenv_scheme \<Rightarrow> agent_identity \<Rightarrow> json" where
  "identityPayload G a = JObj (
     [(''id'', enc_str (aid a)), (''taskId'', enc_str (atask a))] @ omit_str ''parentAgentId'' (aparent a) @
     [(''role'', enc_str (arole a)), (''engineId'', enc_str (aengine a))] @ omit_str ''modelId'' (amodel a) @
     [(''status'', enc_str (astatus a)), (''revision'', enc_u64 G (arev a)),
      (''createdAt'', JTime (acreated a)), (''updatedAt'', JTime (aupdated a))])"

definition edgePayload :: "('z) goenv_scheme \<Rightarrow> agent_edge \<Rightarrow> json" where
  "edgePayload G e = JObj
     [(''id'', enc_str (eid e)), (''parentAgentId'', enc_str (eparent e)),
      (''childAgentId'', enc_str (echild e)), (''kind'', enc_str (ekind e)),
      (''status'', enc_str (estatus e)), (''revision'', enc_u64 G (erev e)),
      (''createdAt'', JTime (ecreated e)), (''updatedAt'', JTime (eupdated e))]"

definition identityDecode :: "json \<Rightarrow> agent_identity option" where
  "identityDecode j =
     Option.bind (Option.bind (jfield ''id'' j) dec_str) (\<lambda>i.
     Option.bind (Option.bind (jfield ''taskId'' j) dec_str) (\<lambda>tk.
     Option.bind (Option.bind (jfield ''parentAgentId'' j) dec_str) (\<lambda>p.
     Option.bind (Option.bind (jfield ''role'' j) dec_str) (\<lambda>r.
     Option.bind (Option.bind (jfield ''engineId'' j) dec_str) (\<lambda>e.
     Option.bind (Option.bind (jfield ''modelId'' j) dec_str) (\<lambda>m.
     Option.bind (Option.bind (jfield ''status'' j) dec_str) (\<lambda>st.
     Option.bind (Option.bind (jfield ''revision'' j) dec_u64) (\<lambda>rv.
     Option.bind (Option.bind (jfield ''createdAt'' j) dec_time) (\<lambda>ct.
     Option.bind (Option.bind (jfield ''updatedAt'' j) dec_time) (\<lambda>ut.
       Some \<lparr>aid = i, atask = tk, aparent = p, arole = r, aengine = e, amodel = m, astatus = st,
             arev = rv, acreated = ct, aupdated = ut\<rparr>))))))))))"

definition edgeDecode :: "json \<Rightarrow> agent_edge option" where
  "edgeDecode j =
     Option.bind (Option.bind (jfield ''id'' j) dec_str) (\<lambda>i.
     Option.bind (Option.bind (jfield ''parentAgentId'' j) dec_str) (\<lambda>p.
     Option.bind (Option.bind (jfield ''childAgentId'' j) dec_str) (\<lambda>c.
     Option.bind (Option.bind (jfield ''kind'' j) dec_str) (\<lambda>k.
     Option.bind (Option.bind (jfield ''status'' j) dec_str) (\<lambda>st.
     Option.bind (Option.bind (jfield ''revision'' j) dec_u64) (\<lambda>rv.
     Option.bind (Option.bind (jfield ''createdAt'' j) dec_time) (\<lambda>ct.
     Option.bind (Option.bind (jfield ''updatedAt'' j) dec_time) (\<lambda>ut.
       Some \<lparr>eid = i, eparent = p, echild = c, ekind = k, estatus = st, erev = rv, ecreated = ct,
             eupdated = ut\<rparr>))))))))"

definition gr_appendLocked ::
  "('z) goenv_scheme \<Rightarrow> gotime \<Rightarrow> write_outcome \<Rightarrow> graph_state \<Rightarrow> string \<Rightarrow> string \<Rightarrow> string
     \<Rightarrow> (string \<times> json) list \<Rightarrow> evstore option \<times> ev_error option" where
  "gr_appendLocked G t io s ty agent key payload =
     append_opt G t io (snd s) (gr_ws (fst s)) (gr_task (fst s))
       (zero_event\<lparr>ev_type := ty, ev_task := gr_task (fst s), ev_agent := agent, ev_idem := key,
          ev_payload := payload\<rparr>)"

text \<open>
  The traversals. \<open>childIDsLocked\<close> collects the children into a set and sorts them, so its
  result does not depend on the iteration order of the edge map.
\<close>

definition childIDsLocked :: "edge_map \<Rightarrow> string \<Rightarrow> string list" where
  "childIDsLocked es p = sort (remdups (map echild (filter (\<lambda>e. eparent e = p) (map snd es))))"

text \<open>
  The queue loops. A vertex is expanded at most once, so the loop ends: the measure is the
  number of vertices not yet seen and then the length of the queue.
\<close>

function bfs :: "edge_map \<Rightarrow> string list \<Rightarrow> string list \<Rightarrow> string list \<Rightarrow> string list" where
  "bfs es [] seen out = out"
| "bfs es (i # queue) seen out =
     (if i \<in> set seen then bfs es queue seen out
      else bfs es (queue @ childIDsLocked es i) (i # seen) (out @ [i]))"
  by pat_completeness auto

lemma childIDs_set: "set (childIDsLocked es p) = {c. \<exists>e \<in> snd ` set es. eparent e = p \<and> echild e = c}"
  by (auto simp: childIDsLocked_def)

lemma childIDs_none: "i \<notin> eparent ` snd ` set es \<Longrightarrow> childIDsLocked es i = []"
proof -
  assume "i \<notin> eparent ` snd ` set es"
  then have "set (childIDsLocked es i) = {}" unfolding childIDs_set by blast
  then show ?thesis by simp
qed

text \<open>Expanding a vertex decreases the measure.\<close>

definition search_size :: "edge_map \<Rightarrow> string list \<Rightarrow> string list \<Rightarrow> nat \<times> nat" where
  "search_size es queue seen = (card (eparent ` snd ` set es - set seen), length queue)"

lemma search_size_expand:
  assumes "i \<notin> set seen"
  shows "(search_size es (q @ childIDsLocked es i) (i # seen), search_size es (i # q) seen)
    \<in> less_than <*lex*> less_than"
proof (cases "i \<in> eparent ` snd ` set es")
  case True
  with assms have "card (eparent ` snd ` set es - set (i # seen)) < card (eparent ` snd ` set es - set seen)"
    by (intro psubset_card_mono) auto
  then show ?thesis by (simp add: search_size_def)
next
  case False
  then have "eparent ` snd ` set es - set (i # seen) = eparent ` snd ` set es - set seen"
    "childIDsLocked es i = []" by (auto simp: childIDs_none)
  then show ?thesis by (simp add: search_size_def)
qed

lemma search_size_skip: "(search_size es q seen, search_size es (i # q) seen) \<in> less_than <*lex*> less_than"
  by (simp add: search_size_def)

termination bfs
  by (relation "inv_image (less_than <*lex*> less_than) (\<lambda>(es, q, seen, out). search_size es q seen)")
    (simp_all only: wf_inv_image wf_lex_prod wf_less_than in_inv_image prod.case search_size_expand
      search_size_skip not_False_eq_True)

definition descendantIDsLocked :: "edge_map \<Rightarrow> string \<Rightarrow> string list" where
  "descendantIDsLocked es p = bfs es (childIDsLocked es p) [] []"

function path_loop :: "edge_map \<Rightarrow> string \<Rightarrow> string list \<Rightarrow> string list \<Rightarrow> bool" where
  "path_loop es target [] seen = False"
| "path_loop es target (i # queue) seen =
     (if i \<in> set seen then path_loop es target queue seen
      else if target \<in> set (childIDsLocked es i) then True
      else path_loop es target (queue @ childIDsLocked es i) (i # seen))"
  by pat_completeness auto
termination path_loop
  by (relation "inv_image (less_than <*lex*> less_than) (\<lambda>(es, tg, q, seen). search_size es q seen)")
    (simp_all only: wf_inv_image wf_lex_prod wf_less_than in_inv_image prod.case search_size_expand
      search_size_skip not_False_eq_True)

definition pathExistsLocked :: "edge_map \<Rightarrow> string \<Rightarrow> string \<Rightarrow> bool" where
  "pathExistsLocked es start target = (if start = target then True else path_loop es target [start] [])"

section \<open>Operations of the graph\<close>

definition Register ::
  "('z) goenv_scheme \<Rightarrow> gotime \<Rightarrow> gotime \<Rightarrow> write_outcome \<Rightarrow> graph_state \<Rightarrow> agent_identity
     \<Rightarrow> graph_state \<times> (agent_error + agent_identity)" where
  "Register G now t io s a0 =
     (case NormalizeIdentity G now a0 of
        Inl _ \<Rightarrow> (s, Inl ErrInvalidAgentGraph)
      | Inr a \<Rightarrow>
          if atask a \<noteq> gr_task (fst s) then (s, Inl ErrInvalidAgentGraph)
          else case map_of (gr_agents (fst s)) (aid a) of
            Some old \<Rightarrow> (s, if sameAgentIdentity old a then Inr old else Inl ErrAgentExists)
          | None \<Rightarrow>
              let (es', err) = gr_appendLocked G t io s eventAgentRegistered (aid a) (''register:'' @ aid a)
                    [(''identity'', identityPayload G a)]
              in case err of
                   Some x \<Rightarrow> ((fst s, es'), Inl (AgentEvents x))
                 | None \<Rightarrow> (((fst s)\<lparr>gr_agents := AList.update (aid a) a (gr_agents (fst s))\<rparr>, es'), Inr a))"

definition Spawn ::
  "('z) goenv_scheme \<Rightarrow> gotime \<Rightarrow> gotime \<Rightarrow> write_outcome \<Rightarrow> graph_state \<Rightarrow> string \<Rightarrow> agent_identity \<Rightarrow> string
     \<Rightarrow> graph_state \<times> (agent_error + agent_identity \<times> agent_edge)" where
  "Spawn G now t io s p0 c0 k0 =
     (let p = trim_space p0 in
      case NormalizeIdentity G now (c0\<lparr>aparent := p\<rparr>) of
        Inl _ \<Rightarrow> (s, Inl ErrInvalidAgentGraph)
      | Inr c \<Rightarrow>
          if atask c \<noteq> gr_task (fst s) \<or> p = [] then (s, Inl ErrInvalidAgentGraph)
          else
            let k = (if k0 = [] then EdgeSpawn else k0) in
            if map_of (gr_agents (fst s)) p = None then (s, Inl ErrAgentNotFound)
            else if map_of (gr_agents (fst s)) (aid c) \<noteq> None then (s, Inl ErrAgentExists)
            else
              let e = newAgentEdge p (aid c) k now;
                  (es', err) = gr_appendLocked G t io s eventAgentSpawned (aid c) (''spawn:'' @ eid e)
                    [(''identity'', identityPayload G c), (''edge'', edgePayload G e)]
              in case err of
                   Some x \<Rightarrow> ((fst s, es'), Inl (AgentEvents x))
                 | None \<Rightarrow> (((fst s)\<lparr>gr_agents := AList.update (aid c) c (gr_agents (fst s)),
                               gr_edges := AList.update (eid e) e (gr_edges (fst s))\<rparr>, es'), Inr (c, e)))"

definition Link ::
  "('z) goenv_scheme \<Rightarrow> gotime \<Rightarrow> gotime \<Rightarrow> write_outcome \<Rightarrow> graph_state \<Rightarrow> string \<Rightarrow> string \<Rightarrow> string
     \<Rightarrow> graph_state \<times> (agent_error + agent_edge)" where
  "Link G now t io s p0 c0 k0 =
     (let p = trim_space p0; c = trim_space c0 in
      if p = [] \<or> c = [] \<or> p = c then (s, Inl ErrAgentCycle)
      else
        let k = (if k0 = [] then EdgeDependency else k0) in
        if map_of (gr_agents (fst s)) p = None then (s, Inl ErrAgentNotFound)
        else if map_of (gr_agents (fst s)) c = None then (s, Inl ErrAgentNotFound)
        else if pathExistsLocked (gr_edges (fst s)) c p then (s, Inl ErrAgentCycle)
        else
          let e = newAgentEdge p c k now in
          if map_of (gr_edges (fst s)) (eid e) \<noteq> None then (s, Inl ErrAgentEdgeExists)
          else
            let (es', err) = gr_appendLocked G t io s eventAgentLinked c (''link:'' @ eid e)
                  [(''edge'', edgePayload G e)]
            in case err of
                 Some x \<Rightarrow> ((fst s, es'), Inl (AgentEvents x))
               | None \<Rightarrow> (((fst s)\<lparr>gr_edges := AList.update (eid e) e (gr_edges (fst s))\<rparr>, es'), Inr e))"

text \<open>The common tail of \<open>Transition\<close> and \<open>TransitionCAS\<close>.\<close>

definition transition_to ::
  "('z) goenv_scheme \<Rightarrow> gotime \<Rightarrow> gotime \<Rightarrow> write_outcome \<Rightarrow> graph_state \<Rightarrow> string \<Rightarrow> agent_identity \<Rightarrow> string
     \<Rightarrow> gotime \<Rightarrow> graph_state \<times> (agent_error + agent_identity)" where
  "transition_to G now t io s i current next at =
     (case TransitionIdentity G now current next at of
        Inl x \<Rightarrow> (s, Inl x)
      | Inr u \<Rightarrow>
          let key = ''agent-status:'' @ i @ '':'' @ next @ '':'' @ itoa (unat (arev u));
              (es', err) = gr_appendLocked G t io s eventAgentTransitioned i key
                 [(''identity'', identityPayload G u)]
          in case err of
               Some x \<Rightarrow> ((fst s, es'), Inl (AgentEvents x))
             | None \<Rightarrow> (((fst s)\<lparr>gr_agents := AList.update i u (gr_agents (fst s))\<rparr>, es'), Inr u))"

definition gr_Transition ::
  "('z) goenv_scheme \<Rightarrow> gotime \<Rightarrow> gotime \<Rightarrow> write_outcome \<Rightarrow> graph_state \<Rightarrow> string \<Rightarrow> string \<Rightarrow> gotime
     \<Rightarrow> graph_state \<times> (agent_error + agent_identity)" where
  "gr_Transition G now t io s i0 next at =
     (let i = trim_space i0 in
      case map_of (gr_agents (fst s)) i of
        None \<Rightarrow> (s, Inl ErrAgentNotFound)
      | Some current \<Rightarrow> transition_to G now t io s i current next at)"

definition gr_TransitionCAS ::
  "('z) goenv_scheme \<Rightarrow> gotime \<Rightarrow> gotime \<Rightarrow> write_outcome \<Rightarrow> graph_state \<Rightarrow> string \<Rightarrow> u64 \<Rightarrow> string \<Rightarrow> gotime
     \<Rightarrow> graph_state \<times> (agent_error + agent_identity)" where
  "gr_TransitionCAS G now t io s i0 expected next at =
     (let i = trim_space i0 in
      case map_of (gr_agents (fst s)) i of
        None \<Rightarrow> (s, Inl ErrAgentNotFound)
      | Some current \<Rightarrow>
          if expected \<noteq> 0 \<and> arev current \<noteq> expected then (s, Inl ErrStaleAgentRevision)
          else transition_to G now t io s i current next at)"

definition CloseEdge ::
  "('z) goenv_scheme \<Rightarrow> gotime \<Rightarrow> gotime \<Rightarrow> write_outcome \<Rightarrow> graph_state \<Rightarrow> string \<Rightarrow> u64 \<Rightarrow> gotime
     \<Rightarrow> graph_state \<times> (agent_error + agent_edge)" where
  "CloseEdge G now t io s i0 expected at =
     (let i = trim_space i0 in
      case map_of (gr_edges (fst s)) i of
        None \<Rightarrow> (s, Inl ErrAgentEdgeNotFound)
      | Some e \<Rightarrow>
          if expected \<noteq> 0 \<and> erev e \<noteq> expected then (s, Inl ErrStaleAgentEdge)
          else if estatus e = EdgeClosed then (s, Inr e)
          else
            let e' = e\<lparr>estatus := EdgeClosed, erev := erev e + 1, eupdated := at_or_now at now\<rparr>;
                (es', err) = gr_appendLocked G t io s eventAgentEdgeClosed (echild e')
                  (''close-edge:'' @ eid e' @ '':'' @ itoa (unat (erev e'))) [(''edge'', edgePayload G e')]
            in case err of
                 Some x \<Rightarrow> ((fst s, es'), Inl (AgentEvents x))
               | None \<Rightarrow> (((fst s)\<lparr>gr_edges := AList.update (eid e') e' (gr_edges (fst s))\<rparr>, es'), Inr e'))"

definition zero_identity :: agent_identity where
  "zero_identity = \<lparr>aid = [], atask = [], aparent = [], arole = [], aengine = [], amodel = [],
     astatus = [], arev = 0, acreated = 0, aupdated = 0\<rparr>"

text \<open>The first loop of \<open>CancelSubtree\<close>: the cancelled versions of the live agents.\<close>

fun cancel_all ::
  "('z) goenv_scheme \<Rightarrow> gotime \<Rightarrow> agent_map \<Rightarrow> gotime \<Rightarrow> string list \<Rightarrow> agent_error + agent_identity list" where
  "cancel_all G now as at [] = Inr []"
| "cancel_all G now as at (i # is) =
     (let a = (case map_of as i of None \<Rightarrow> zero_identity | Some a \<Rightarrow> a) in
      if agentTerminal (astatus a) then cancel_all G now as at is
      else case TransitionIdentity G now a AgentCancelled at of
             Inl x \<Rightarrow> Inl x
           | Inr u \<Rightarrow> (case cancel_all G now as at is of Inl x \<Rightarrow> Inl x | Inr us \<Rightarrow> Inr (u # us)))"

definition put_agents :: "agent_identity list \<Rightarrow> agent_map \<Rightarrow> agent_map" where
  "put_agents us as = fold (\<lambda>a. AList.update (aid a) a) us as"

definition CancelSubtree ::
  "('z) goenv_scheme \<Rightarrow> gotime \<Rightarrow> gotime \<Rightarrow> write_outcome \<Rightarrow> graph_state \<Rightarrow> string \<Rightarrow> gotime
     \<Rightarrow> graph_state \<times> (agent_error + agent_identity list)" where
  "CancelSubtree G now t io s r0 at0 =
     (let r = trim_space r0; as = gr_agents (fst s) in
      if map_of as r = None then (s, Inl ErrAgentNotFound)
      else
        let at = at_or_now at0 now in
        case cancel_all G now as at (r # descendantIDsLocked (gr_edges (fst s)) r) of
          Inl x \<Rightarrow> (s, Inl x)
        | Inr us \<Rightarrow>
            if us = [] then (s, Inr [])
            else
              let (es', err) = gr_appendLocked G t io s eventAgentSubtreeCanceled r
                    (''cancel-subtree:'' @ r @ '':'' @ fmt_time G at)
                    [(''identities'', JArr (map (identityPayload G) us))]
              in case err of
                   Some x \<Rightarrow> ((fst s, es'), Inl (AgentEvents x))
                 | None \<Rightarrow> (((fst s)\<lparr>gr_agents := put_agents us as\<rparr>, es'), Inr us))"

definition gr_Agent :: "agent_graph \<Rightarrow> string \<Rightarrow> agent_identity option" where
  "gr_Agent g i = map_of (gr_agents g) (trim_space i)"

definition Children :: "agent_graph \<Rightarrow> string \<Rightarrow> agent_identity list" where
  "Children g p = List.map_filter (map_of (gr_agents g)) (childIDsLocked (gr_edges g) (trim_space p))"

definition Descendants :: "agent_graph \<Rightarrow> string \<Rightarrow> agent_identity list" where
  "Descendants g p =
     map (\<lambda>i. case map_of (gr_agents g) i of None \<Rightarrow> zero_identity | Some a \<Rightarrow> a)
       (descendantIDsLocked (gr_edges g) (trim_space p))"

definition JoinReady :: "agent_graph \<Rightarrow> string \<Rightarrow> bool" where
  "JoinReady g p = list_all (\<lambda>a. agentTerminal (astatus a)) (Children g p)"

section \<open>Replay (\<open>graph_projection.go\<close>)\<close>

definition payload_field :: "event \<Rightarrow> string \<Rightarrow> json" where
  "payload_field e k = (case map_of (ev_payload e) k of None \<Rightarrow> JNull | Some j \<Rightarrow> j)"

fun decode_all :: "json list \<Rightarrow> agent_identity list option" where
  "decode_all [] = Some []"
| "decode_all (j # js) =
     (case identityDecode j of None \<Rightarrow> None | Some a \<Rightarrow> map_option ((#) a) (decode_all js))"

definition identitiesDecode :: "json \<Rightarrow> agent_identity list option" where
  "identitiesDecode j = (case j of JArr js \<Rightarrow> decode_all js | JNull \<Rightarrow> Some [] | _ \<Rightarrow> None)"

definition applyEvent :: "agent_graph \<Rightarrow> event \<Rightarrow> agent_graph option" where
  "applyEvent g e =
     (if ev_type e = eventAgentRegistered \<or> ev_type e = eventAgentTransitioned then
        map_option (\<lambda>a. g\<lparr>gr_agents := AList.update (aid a) a (gr_agents g)\<rparr>)
          (identityDecode (payload_field e ''identity''))
      else if ev_type e = eventAgentSpawned then
        Option.bind (identityDecode (payload_field e ''identity'')) (\<lambda>a.
          map_option (\<lambda>d. g\<lparr>gr_agents := AList.update (aid a) a (gr_agents g),
                             gr_edges := AList.update (eid d) d (gr_edges g)\<rparr>)
            (edgeDecode (payload_field e ''edge'')))
      else if ev_type e = eventAgentLinked \<or> ev_type e = eventAgentEdgeClosed then
        map_option (\<lambda>d. g\<lparr>gr_edges := AList.update (eid d) d (gr_edges g)\<rparr>)
          (edgeDecode (payload_field e ''edge''))
      else if ev_type e = eventAgentSubtreeCanceled then
        map_option (\<lambda>us. g\<lparr>gr_agents := put_agents us (gr_agents g)\<rparr>)
          (identitiesDecode (payload_field e ''identities''))
      else Some g)"

fun apply_events :: "agent_graph \<Rightarrow> event list \<Rightarrow> agent_error + agent_graph" where
  "apply_events g [] = Inr g"
| "apply_events g (e # es) =
     (case applyEvent g e of None \<Rightarrow> Inl ErrInvalidAgentGraph | Some g' \<Rightarrow> apply_events g' es)"

definition NewAgentGraph ::
  "('z) goenv_scheme \<Rightarrow> evstore option \<Rightarrow> string \<Rightarrow> string \<Rightarrow> agent_error + agent_graph" where
  "NewAgentGraph G events ws0 task0 =
     (let ws = trim_space ws0; task = trim_space task0;
          g = \<lparr>gr_ws = ws, gr_task = task, gr_agents = [], gr_edges = []\<rparr> in
      if ws = [] \<or> task = [] then Inl ErrInvalidAgentGraph
      else case events of
        None \<Rightarrow> Inr g
      | Some es \<Rightarrow>
          (case ev_list G es ws task 0 5000 of
             Inl x \<Rightarrow> Inl (AgentEvents x)
           | Inr stored \<Rightarrow> apply_events g stored))"

end
