(* ===== verification/AgentGraphProps.thy ===== *)
theory AgentGraphProps
  imports AgentGraph
begin

text \<open>
  What the agent graph of \<open>internal/agentruntime/graph.go\<close> guarantees: the traversals compute
  reachability, every reachable graph is acyclic and closed, terminal agents stay terminal,
  \<open>CancelSubtree\<close> reaches every descendant, and \<open>TransitionCAS\<close> admits one winner per revision.
\<close>

section \<open>Traversals\<close>

text \<open>The edges of the graph as pairs, open or closed: closing an edge changes its status and leaves it in the map.\<close>

definition graph_rel :: "edge_map \<Rightarrow> (string \<times> string) set" where
  "graph_rel es = (\<lambda>e. (eparent e, echild e)) ` snd ` set es"

lemma graph_rel_children: "graph_rel es = {(p, c). c \<in> set (childIDsLocked es p)}"
  by (force simp: graph_rel_def childIDs_set)

text \<open>Every child of a seen vertex is seen or waits in the queue.\<close>

definition search_closed :: "edge_map \<Rightarrow> string list \<Rightarrow> string list \<Rightarrow> bool" where
  "search_closed es queue seen \<longleftrightarrow> (\<forall>x \<in> set seen. set (childIDsLocked es x) \<subseteq> set seen \<union> set queue)"

lemma closed_reach:
  assumes "search_closed es q seen" and "(x, y) \<in> (graph_rel es)\<^sup>*" and "x \<in> set seen"
  shows "y \<in> set seen \<union> (graph_rel es)\<^sup>* `` set q"
  using assms(2,3)
proof (induction rule: rtrancl_induct)
  case (step y z)
  show ?case
  proof (cases "y \<in> set seen")
    case True
    with step.hyps(2) assms(1) show ?thesis by (auto simp: search_closed_def graph_rel_children)
  next
    case False
    with step have "y \<in> (graph_rel es)\<^sup>* `` set q" by blast
    with step.hyps(2) show ?thesis by (auto intro: rtrancl_into_rtrancl)
  qed
qed simp

lemma reach_unfold:
  "(graph_rel es)\<^sup>* `` {i} = insert i ((graph_rel es)\<^sup>* `` set (childIDsLocked es i))"
proof -
  have "(graph_rel es) `` {i} = set (childIDsLocked es i)" by (auto simp: graph_rel_children)
  then have "set (childIDsLocked es i) = graph_rel es `` {i}" ..
  moreover have "(graph_rel es)\<^sup>* `` {i} = insert i ((graph_rel es)\<^sup>* `` (graph_rel es `` {i}))"
    by (auto elim: converse_rtranclE intro: converse_rtrancl_into_rtrancl)
  ultimately show ?thesis by simp
qed

lemma bfs_correct:
  assumes "search_closed es q seen" and "set out = set seen" and "distinct out"
  shows "set (bfs es q seen out) = set seen \<union> (graph_rel es)\<^sup>* `` set q \<and> distinct (bfs es q seen out)"
  using assms
proof (induction es q seen out rule: bfs.induct)
  case (2 es i queue seen out)
  show ?case
  proof (cases "i \<in> set seen")
    case True
    then have cl: "search_closed es queue seen" using "2.prems"(1) by (auto simp: search_closed_def)
    then have "(graph_rel es)\<^sup>* `` {i} \<subseteq> set seen \<union> (graph_rel es)\<^sup>* `` set queue"
      using closed_reach [OF cl] True by blast
    then show ?thesis using "2.IH"(1) [OF True cl "2.prems"(2,3)] True by auto
  next
    case False
    have cl: "search_closed es (queue @ childIDsLocked es i) (i # seen)"
      using "2.prems"(1) by (auto simp: search_closed_def)
    have "set (bfs es (queue @ childIDsLocked es i) (i # seen) (out @ [i])) =
        set (i # seen) \<union> (graph_rel es)\<^sup>* `` set (queue @ childIDsLocked es i) \<and>
        distinct (bfs es (queue @ childIDsLocked es i) (i # seen) (out @ [i]))"
      using "2.IH"(2) [OF False cl] "2.prems"(2,3) False by simp
    moreover have "(graph_rel es)\<^sup>* `` set (i # queue) =
        (graph_rel es)\<^sup>* `` {i} \<union> (graph_rel es)\<^sup>* `` set queue" by auto
    ultimately show ?thesis using False reach_unfold [of es i] by (simp add: Image_Un) blast
  qed
qed simp

lemma path_loop_correct:
  assumes "search_closed es q seen" and "\<forall>x \<in> set seen. target \<notin> set (childIDsLocked es x)"
  shows "path_loop es target q seen \<longleftrightarrow> (\<exists>i \<in> set q. (i, target) \<in> (graph_rel es)\<^sup>+)"
  using assms
proof (induction es target q seen rule: path_loop.induct)
  case (2 es target i queue seen)
  show ?case
  proof (cases "i \<in> set seen")
    case True
    then have cl: "search_closed es queue seen" using "2.prems"(1) by (auto simp: search_closed_def)
    have "\<exists>j \<in> set queue. (j, target) \<in> (graph_rel es)\<^sup>+" if "(x, target) \<in> (graph_rel es)\<^sup>+" "x \<in> set seen" for x
      using that
    proof (induction rule: converse_trancl_induct)
      case (base x)
      with "2.prems"(2) show ?case by (auto simp: graph_rel_children)
    next
      case (step x y)
      then have "y \<in> set seen \<union> set queue" using cl by (auto simp: search_closed_def graph_rel_children)
      with step show ?case by blast
    qed
    with True "2.IH"(1) [OF True cl "2.prems"(2)] show ?thesis by auto
  next
    case False
    show ?thesis
    proof (cases "target \<in> set (childIDsLocked es i)")
      case True
      then have "(i, target) \<in> (graph_rel es)\<^sup>+" by (auto simp: graph_rel_children)
      with True False show ?thesis by auto
    next
      case nt: False
      have cl: "search_closed es (queue @ childIDsLocked es i) (i # seen)"
        using "2.prems"(1) by (auto simp: search_closed_def)
      have "(i, target) \<in> (graph_rel es)\<^sup>+ \<longleftrightarrow> (\<exists>c \<in> set (childIDsLocked es i). (c, target) \<in> (graph_rel es)\<^sup>+)"
      proof
        assume "(i, target) \<in> (graph_rel es)\<^sup>+"
        then obtain c where "(i, c) \<in> graph_rel es" "(c, target) \<in> (graph_rel es)\<^sup>*" by (meson tranclD)
        with nt show "\<exists>c \<in> set (childIDsLocked es i). (c, target) \<in> (graph_rel es)\<^sup>+"
          by (auto simp: graph_rel_children rtrancl_eq_or_trancl)
      qed (auto simp: graph_rel_children intro: trancl_into_trancl2)
      with "2.IH"(2) [OF False nt cl] "2.prems"(2) nt False show ?thesis by auto
    qed
  qed
qed simp

lemma pathExists_iff: "pathExistsLocked es a b \<longleftrightarrow> (a, b) \<in> (graph_rel es)\<^sup>*"
  using path_loop_correct [of es "[a]" "[]" b]
  by (auto simp: pathExistsLocked_def search_closed_def rtrancl_eq_or_trancl)

lemma descendants_iff:
  "set (descendantIDsLocked es p) = {d. (p, d) \<in> (graph_rel es)\<^sup>+} \<and> distinct (descendantIDsLocked es p)"
proof -
  have "(graph_rel es)\<^sup>* `` set (childIDsLocked es p) = {d. (p, d) \<in> (graph_rel es)\<^sup>+}"
    by (auto simp: graph_rel_children trancl_unfold_left)
  then show ?thesis
    using bfs_correct [of es "childIDsLocked es p" "[]" "[]"]
    by (simp add: descendantIDsLocked_def search_closed_def)
qed

text \<open>
  C29. The two breadth-first loops terminate (they are total functions) and are exact:
  \<open>pathExistsLocked\<close> decides reachability along the edges in the map, open or closed, and
  \<open>descendantIDsLocked\<close> lists every agent reachable along them from the root in at least one step,
  each exactly once. The status of an edge plays no role in either.
\<close>

theorem graph_search_exact:
  "(pathExistsLocked es a b \<longleftrightarrow> (a, b) \<in> (graph_rel es)\<^sup>*) \<and>
   set (descendantIDsLocked es p) = {d. (p, d) \<in> (graph_rel es)\<^sup>+} \<and> distinct (descendantIDsLocked es p)"
  using pathExists_iff descendants_iff by blast

section \<open>The graph invariant\<close>

definition agents_ok :: "(string \<rightharpoonup> agent_identity) \<Rightarrow> bool" where
  "agents_ok f \<longleftrightarrow> (\<forall>i a. f i = Some a \<longrightarrow> aid a = i \<and> trimmed i \<and> validAgentStatus (astatus a))"

definition edges_ok :: "(string \<rightharpoonup> agent_edge) \<Rightarrow> string set \<Rightarrow> bool" where
  "edges_ok f A \<longleftrightarrow> (\<forall>i e. f i = Some e \<longrightarrow> eid e = i \<and> eparent e \<in> A \<and> echild e \<in> A)"

definition graph_inv :: "agent_graph \<Rightarrow> bool" where
  "graph_inv g \<longleftrightarrow> distinct (map fst (gr_agents g)) \<and> distinct (map fst (gr_edges g)) \<and>
     agents_ok (map_of (gr_agents g)) \<and> edges_ok (map_of (gr_edges g)) (dom (map_of (gr_agents g))) \<and>
     acyclic (graph_rel (gr_edges g))"

lemma graph_invD:
  assumes "graph_inv g"
  shows "distinct (map fst (gr_agents g))" "distinct (map fst (gr_edges g))"
    "map_of (gr_agents g) i = Some a \<Longrightarrow> aid a = i" "map_of (gr_agents g) i = Some a \<Longrightarrow> trimmed i"
    "map_of (gr_agents g) i = Some a \<Longrightarrow> validAgentStatus (astatus a)"
    "map_of (gr_edges g) k = Some e \<Longrightarrow> eid e = k"
    "map_of (gr_edges g) k = Some e \<Longrightarrow> eparent e \<in> dom (map_of (gr_agents g))"
    "map_of (gr_edges g) k = Some e \<Longrightarrow> echild e \<in> dom (map_of (gr_agents g))"
    "acyclic (graph_rel (gr_edges g))"
  using assms unfolding graph_inv_def agents_ok_def edges_ok_def by blast+

lemma graph_rel_iff: "(p, c) \<in> graph_rel es \<longleftrightarrow> (\<exists>e \<in> snd ` set es. eparent e = p \<and> echild e = c)"
  by (simp add: graph_rel_children childIDs_set)

lemma graph_rel_update:
  assumes "distinct (map fst es)"
  shows "graph_rel (AList.update k e es) \<subseteq> insert (eparent e, echild e) (graph_rel es)"
proof
  fix x assume "x \<in> graph_rel (AList.update k e es)"
  then obtain p c d where x: "x = (p, c)" "d \<in> snd ` set (AList.update k e es)" "eparent d = p" "echild d = c"
    by (cases x) (auto simp: graph_rel_iff)
  then have "d = e \<or> d \<in> snd ` set es" using set_alist_update [OF assms, of k e] by auto
  then show "x \<in> insert (eparent e, echild e) (graph_rel es)"
    using x(1,3,4) unfolding x(1) insert_iff graph_rel_iff by blast
qed

lemma graph_rel_agents:
  assumes "graph_inv g"
  shows "graph_rel (gr_edges g) \<subseteq> dom (map_of (gr_agents g)) \<times> dom (map_of (gr_agents g))"
proof -
  have in_agents: "eparent e \<in> dom (map_of (gr_agents g)) \<and> echild e \<in> dom (map_of (gr_agents g))"
    if "(k, e) \<in> set (gr_edges g)" for k e
  proof -
    have "map_of (gr_edges g) k = Some e" using that graph_invD(2) [OF assms] by simp
    then show ?thesis using graph_invD(7,8) [OF assms] by blast
  qed
  show ?thesis
  proof (intro subrelI SigmaI)
    fix p c assume "(p, c) \<in> graph_rel (gr_edges g)"
    then obtain k e where "(k, e) \<in> set (gr_edges g)" "eparent e = p" "echild e = c"
      by (auto simp: graph_rel_iff)
    with in_agents show "p \<in> dom (map_of (gr_agents g))" "c \<in> dom (map_of (gr_agents g))" by blast+
  qed
qed

lemma validAgentStatus_nonempty: "validAgentStatus st \<Longrightarrow> st \<noteq> []"
  by (auto simp: validAgentStatus_def)

lemma NormalizeIdentity_Inr:
  assumes "NormalizeIdentity G now a = Inr b"
  shows "aid b = trim_space (aid a)" "aid b \<noteq> []" "validAgentStatus (astatus b)"
    "astatus a \<noteq> [] \<Longrightarrow> astatus b = astatus a" "arev a \<noteq> 0 \<Longrightarrow> arev b = arev a"
proof -
  define a3 where "a3 = a\<lparr>aid := trim_space (aid a), atask := trim_space (atask a),
     aparent := trim_space (aparent a), aengine := to_lower G (trim_space (aengine a)),
     amodel := trim_space (amodel a), arole := (if arole a = [] then RoleImplementer else arole a),
     astatus := (if astatus a = [] then AgentCreated else astatus a)\<rparr>"
  have "NormalizeIdentity G now a =
     (if aid a3 = [] \<or> atask a3 = [] \<or> aengine a3 = [] \<or> \<not> validAgentStatus (astatus a3)
      then Inl ErrInvalidAgentIdentity
      else Inr (a3\<lparr>acreated := (if acreated a = 0 then now else acreated a),
        aupdated := (if aupdated a = 0 then (if acreated a = 0 then now else acreated a) else aupdated a),
        arev := (if arev a = 0 then 1 else arev a)\<rparr>))"
    by (cases "arole a = []"; cases "astatus a = []"; cases "acreated a = 0"; cases "aupdated a = 0")
      (simp_all add: NormalizeIdentity_def Let_def a3_def)
  with assms have ok: "aid a3 \<noteq> []" "validAgentStatus (astatus a3)"
    and b: "b = a3\<lparr>acreated := (if acreated a = 0 then now else acreated a),
        aupdated := (if aupdated a = 0 then (if acreated a = 0 then now else acreated a) else aupdated a),
        arev := (if arev a = 0 then 1 else arev a)\<rparr>"
    by (simp_all split: if_splits)
  show "aid b = trim_space (aid a)" "aid b \<noteq> []" "validAgentStatus (astatus b)"
    "astatus a \<noteq> [] \<Longrightarrow> astatus b = astatus a" "arev a \<noteq> 0 \<Longrightarrow> arev b = arev a"
    using ok unfolding b a3_def by simp_all
qed

lemma TransitionIdentity_Inr:
  assumes "TransitionIdentity G now a next at = Inr u" and "validAgentStatus (astatus a)"
  shows "aid u = trim_space (aid a)" "astatus u = next" "agentTransitionAllowed (astatus a) next"
    "arev a \<noteq> 0 \<Longrightarrow> arev u = arev a + 1" "validAgentStatus (astatus u)"
proof -
  obtain b where b: "NormalizeIdentity G now a = Inr b" "agentTransitionAllowed (astatus b) next"
    "u = b\<lparr>astatus := next, arev := arev b + 1, aupdated := at_or_now at now\<rparr>"
    using assms(1) by (auto simp: TransitionIdentity_def split: sum.splits if_splits)
  note n = NormalizeIdentity_Inr [OF b(1)]
  have st: "astatus b = astatus a" using n(4) validAgentStatus_nonempty [OF assms(2)] by blast
  show "aid u = trim_space (aid a)" "astatus u = next" "agentTransitionAllowed (astatus a) next"
    "arev a \<noteq> 0 \<Longrightarrow> arev u = arev a + 1"
    using b n st by simp_all
  have "agentTransitionAllowed x y \<Longrightarrow> validAgentStatus x \<Longrightarrow> validAgentStatus y" for x y
    by (auto simp: agentTransitionAllowed_def validAgentStatus_def split: if_splits)
  then show "validAgentStatus (astatus u)" using b(2,3) n(3) by simp
qed

text \<open>Replacing or adding an agent.\<close>

lemma graph_inv_agent:
  assumes "graph_inv g" and "aid a = i" and "trimmed i" and "validAgentStatus (astatus a)"
  shows "graph_inv (g\<lparr>gr_agents := AList.update i a (gr_agents g)\<rparr>)"
  using assms unfolding graph_inv_def agents_ok_def edges_ok_def
  by (auto simp: distinct_update)

text \<open>Adding or replacing an edge that closes no cycle.\<close>

lemma graph_inv_edge:
  assumes "graph_inv g" and "eid e = k" and "eparent e \<in> dom (map_of (gr_agents g))"
    and "echild e \<in> dom (map_of (gr_agents g))"
    and "acyclic (insert (eparent e, echild e) (graph_rel (gr_edges g)))"
  shows "graph_inv (g\<lparr>gr_edges := AList.update k e (gr_edges g)\<rparr>)"
proof -
  have "acyclic (graph_rel (AList.update k e (gr_edges g)))"
    using assms(5) graph_rel_update [OF graph_invD(2) [OF assms(1)]] by (rule acyclic_subset)
  with assms show ?thesis unfolding graph_inv_def agents_ok_def edges_ok_def
    by (auto simp: distinct_update)
qed

lemma fresh_unreachable:
  assumes "graph_inv g" and "c \<notin> dom (map_of (gr_agents g))" and "p \<in> dom (map_of (gr_agents g))"
  shows "(c, p) \<notin> (graph_rel (gr_edges g))\<^sup>*"
proof
  assume "(c, p) \<in> (graph_rel (gr_edges g))\<^sup>*"
  then show False
  proof (cases rule: converse_rtranclE)
    case (step y)
    with graph_rel_agents [OF assms(1)] assms(2) show ?thesis by auto
  qed (use assms in auto)
qed

section \<open>Runs of the graph\<close>

inductive graph_step :: "('z) goenv_scheme \<Rightarrow> graph_state \<Rightarrow> graph_state \<Rightarrow> bool" for G where
  register: "Register G now t io s a = (s', r) \<Longrightarrow> graph_step G s s'"
| spawn: "Spawn G now t io s p c k = (s', r2) \<Longrightarrow> graph_step G s s'"
| link: "Link G now t io s p c' k = (s', r3) \<Longrightarrow> graph_step G s s'"
| transition: "gr_Transition G now t io s i next at = (s', r) \<Longrightarrow> graph_step G s s'"
| transition_cas: "gr_TransitionCAS G now t io s i expected next at = (s', r) \<Longrightarrow> graph_step G s s'"
| close_edge: "CloseEdge G now t io s i expected at = (s', r3) \<Longrightarrow> graph_step G s s'"
| cancel: "CancelSubtree G now t io s i at = (s', r4) \<Longrightarrow> graph_step G s s'"

text \<open>The shapes of a state change.\<close>

lemma Register_cases:
  assumes "Register G now t io s a0 = (s', r)"
  obtains (same) "fst s' = fst s" | (new) a where "NormalizeIdentity G now a0 = Inr a" "map_of (gr_agents (fst s)) (aid a) = None"
    "fst s' = (fst s)\<lparr>gr_agents := AList.update (aid a) a (gr_agents (fst s))\<rparr>"
proof (cases "NormalizeIdentity G now a0")
  case (Inl x)
  with assms same show ?thesis by (simp add: Register_def)
next
  case (Inr a)
  obtain es' err where app: "gr_appendLocked G t io s eventAgentRegistered (aid a) (''register:'' @ aid a)
    [(''identity'', identityPayload G a)] = (es', err)" by fastforce
  show ?thesis
  proof (cases "atask a \<noteq> gr_task (fst s) \<or> map_of (gr_agents (fst s)) (aid a) \<noteq> None \<or> err \<noteq> None")
    case True
    with assms Inr app have "fst s' = fst s"
      by (auto simp: Register_def simp del: map_of_eq_None_iff split: if_splits option.splits)
    then show ?thesis by (rule same)
  next
    case False
    with assms Inr app have "fst s' = (fst s)\<lparr>gr_agents := AList.update (aid a) a (gr_agents (fst s))\<rparr>"
      by (auto simp: Register_def simp del: map_of_eq_None_iff)
    with False Inr show ?thesis by (intro new) simp_all
  qed
qed

lemma Spawn_cases:
  assumes "Spawn G now t io s p0 c0 k0 = (s', r)"
  obtains (same) "fst s' = fst s"
  | (new) c k where "NormalizeIdentity G now (c0\<lparr>aparent := trim_space p0\<rparr>) = Inr c"
    "map_of (gr_agents (fst s)) (trim_space p0) \<noteq> None" "map_of (gr_agents (fst s)) (aid c) = None"
    "fst s' = (fst s)\<lparr>gr_agents := AList.update (aid c) c (gr_agents (fst s)),
       gr_edges := AList.update (eid (newAgentEdge (trim_space p0) (aid c) k now))
         (newAgentEdge (trim_space p0) (aid c) k now) (gr_edges (fst s))\<rparr>"
proof (cases "NormalizeIdentity G now (c0\<lparr>aparent := trim_space p0\<rparr>)")
  case (Inl x)
  with assms same show ?thesis by (simp add: Spawn_def)
next
  case (Inr c)
  define k where "k = (if k0 = [] then EdgeSpawn else k0)"
  define e where "e = newAgentEdge (trim_space p0) (aid c) k now"
  obtain es' err where app: "gr_appendLocked G t io s eventAgentSpawned (aid c) (''spawn:'' @ eid e)
    [(''identity'', identityPayload G c), (''edge'', edgePayload G e)] = (es', err)" by fastforce
  show ?thesis
  proof (cases "(atask c \<noteq> gr_task (fst s) \<or> trim_space p0 = []) \<or> map_of (gr_agents (fst s)) (trim_space p0) = None
      \<or> map_of (gr_agents (fst s)) (aid c) \<noteq> None \<or> err \<noteq> None")
    case True
    with assms Inr app have "fst s' = fst s"
      by (auto simp: Spawn_def Let_def e_def [symmetric] k_def [symmetric] simp del: map_of_eq_None_iff
          split: if_splits option.splits)
    then show ?thesis by (rule same)
  next
    case False
    with assms Inr app have "fst s' = (fst s)\<lparr>gr_agents := AList.update (aid c) c (gr_agents (fst s)),
       gr_edges := AList.update (eid e) e (gr_edges (fst s))\<rparr>"
      by (auto simp: Spawn_def Let_def e_def [symmetric] k_def [symmetric] simp del: map_of_eq_None_iff)
    with False Inr show ?thesis unfolding e_def by (intro new) simp_all
  qed
qed

lemma Link_cases:
  assumes "Link G now t io s p0 c0 k0 = (s', r)"
  obtains (same) "fst s' = fst s"
  | (new) k where "map_of (gr_agents (fst s)) (trim_space p0) \<noteq> None" "map_of (gr_agents (fst s)) (trim_space c0) \<noteq> None"
    "\<not> pathExistsLocked (gr_edges (fst s)) (trim_space c0) (trim_space p0)"
    "fst s' = (fst s)\<lparr>gr_edges := AList.update (eid (newAgentEdge (trim_space p0) (trim_space c0) k now))
         (newAgentEdge (trim_space p0) (trim_space c0) k now) (gr_edges (fst s))\<rparr>"
proof -
  define k where "k = (if k0 = [] then EdgeDependency else k0)"
  define e where "e = newAgentEdge (trim_space p0) (trim_space c0) k now"
  obtain es' err where app: "gr_appendLocked G t io s eventAgentLinked (trim_space c0) (''link:'' @ eid e)
    [(''edge'', edgePayload G e)] = (es', err)" by fastforce
  show ?thesis
  proof (cases "(trim_space p0 = [] \<or> trim_space c0 = [] \<or> trim_space p0 = trim_space c0)
      \<or> map_of (gr_agents (fst s)) (trim_space p0) = None \<or> map_of (gr_agents (fst s)) (trim_space c0) = None
      \<or> pathExistsLocked (gr_edges (fst s)) (trim_space c0) (trim_space p0)
      \<or> map_of (gr_edges (fst s)) (eid e) \<noteq> None \<or> err \<noteq> None")
    case True
    with assms app have "fst s' = fst s"
      by (auto simp: Link_def Let_def e_def [symmetric] k_def [symmetric] simp del: map_of_eq_None_iff
          split: if_splits option.splits)
    then show ?thesis by (rule same)
  next
    case False
    with assms app have "fst s' = (fst s)\<lparr>gr_edges := AList.update (eid e) e (gr_edges (fst s))\<rparr>"
      by (auto simp: Link_def Let_def e_def [symmetric] k_def [symmetric] simp del: map_of_eq_None_iff)
    with False show ?thesis unfolding e_def by (intro new) simp_all
  qed
qed

lemma transition_to_cases:
  assumes "transition_to G now t io s i current next at = (s', r)"
  obtains (same) "fst s' = fst s" "isl r"
  | (new) u where "TransitionIdentity G now current next at = Inr u" "r = Inr u"
    "fst s' = (fst s)\<lparr>gr_agents := AList.update i u (gr_agents (fst s))\<rparr>"
proof (cases "TransitionIdentity G now current next at")
  case (Inl x)
  with assms have "s' = s" "r = Inl x" by (simp_all add: transition_to_def)
  with same show ?thesis by simp
next
  case (Inr u)
  obtain es' err where app: "gr_appendLocked G t io s eventAgentTransitioned i
      (''agent-status:'' @ i @ '':'' @ next @ '':'' @ itoa (unat (arev u))) [(''identity'', identityPayload G u)]
    = (es', err)" by fastforce
  with assms Inr same new show ?thesis by (cases err) (auto simp: transition_to_def Let_def)
qed

lemma CloseEdge_cases:
  assumes "CloseEdge G now t io s i0 expected at = (s', r)"
  obtains (same) "fst s' = fst s"
  | (new) e e' where "map_of (gr_edges (fst s)) (trim_space i0) = Some e"
    "e' = e\<lparr>estatus := EdgeClosed, erev := erev e + 1, eupdated := at_or_now at now\<rparr>"
    "fst s' = (fst s)\<lparr>gr_edges := AList.update (eid e') e' (gr_edges (fst s))\<rparr>"
proof (cases "map_of (gr_edges (fst s)) (trim_space i0)")
  case None
  with assms same show ?thesis by (simp add: CloseEdge_def del: map_of_eq_None_iff)
next
  case (Some e)
  define e' where "e' = e\<lparr>estatus := EdgeClosed, erev := erev e + 1, eupdated := at_or_now at now\<rparr>"
  obtain es' err where app: "gr_appendLocked G t io s eventAgentEdgeClosed (echild e')
      (''close-edge:'' @ eid e' @ '':'' @ itoa (unat (erev e'))) [(''edge'', edgePayload G e')] = (es', err)" by fastforce
  show ?thesis
  proof (cases "(expected \<noteq> 0 \<and> erev e \<noteq> expected) \<or> estatus e = EdgeClosed \<or> err \<noteq> None")
    case True
    with assms Some app have "fst s' = fst s"
      by (auto simp: CloseEdge_def Let_def e'_def [symmetric] split: if_splits option.splits)
    then show ?thesis by (rule same)
  next
    case False
    with assms Some app have "fst s' = (fst s)\<lparr>gr_edges := AList.update (eid e') e' (gr_edges (fst s))\<rparr>"
      by (auto simp: CloseEdge_def Let_def e'_def [symmetric])
    then show ?thesis using new [OF Some e'_def] by blast
  qed
qed

lemma CancelSubtree_cases:
  assumes "CancelSubtree G now t io s r0 at0 = (s', r)"
  obtains (same) "fst s' = fst s" "isl r"
  | (new) us where "cancel_all G now (gr_agents (fst s)) (at_or_now at0 now)
      (trim_space r0 # descendantIDsLocked (gr_edges (fst s)) (trim_space r0)) = Inr us" "r = Inr us"
    "map_of (gr_agents (fst s)) (trim_space r0) \<noteq> None"
    "fst s' = (fst s)\<lparr>gr_agents := put_agents us (gr_agents (fst s))\<rparr>"
proof (cases "map_of (gr_agents (fst s)) (trim_space r0)")
  case None
  with assms same show ?thesis by (auto simp: CancelSubtree_def simp del: map_of_eq_None_iff)
next
  case (Some a)
  show ?thesis
  proof (cases "cancel_all G now (gr_agents (fst s)) (at_or_now at0 now)
      (trim_space r0 # descendantIDsLocked (gr_edges (fst s)) (trim_space r0))")
    case (Inl x)
    with assms Some have "s' = s" "r = Inl x"
      by (simp_all add: CancelSubtree_def Let_def del: map_of_eq_None_iff cancel_all.simps)
    with same show ?thesis by simp
  next
    case (Inr us)
    obtain es' err where app: "gr_appendLocked G t io s eventAgentSubtreeCanceled (trim_space r0)
        (''cancel-subtree:'' @ trim_space r0 @ '':'' @ fmt_time G (at_or_now at0 now))
        [(''identities'', JArr (map (identityPayload G) us))] = (es', err)" by fastforce
    show ?thesis
    proof (cases "us = [] \<or> err = None")
      case True
      with assms Some Inr app have "fst s' = (fst s)\<lparr>gr_agents := put_agents us (gr_agents (fst s))\<rparr>" "r = Inr us"
        by (auto simp: CancelSubtree_def Let_def put_agents_def simp del: map_of_eq_None_iff cancel_all.simps
            split: if_splits)
      with Some Inr show ?thesis by (intro new) simp_all
    next
      case False
      with assms Some Inr app same show ?thesis
        by (auto simp: CancelSubtree_def Let_def simp del: map_of_eq_None_iff cancel_all.simps)
    qed
  qed
qed

lemma graph_inv_spawn:
  assumes "graph_inv g" and "p \<in> dom (map_of (gr_agents g))" and "map_of (gr_agents g) (aid c) = None"
    and "trimmed (aid c)" and "validAgentStatus (astatus c)"
    and "eid e = k" and "eparent e = p" and "echild e = aid c"
  shows "graph_inv (g\<lparr>gr_agents := AList.update (aid c) c (gr_agents g), gr_edges := AList.update k e (gr_edges g)\<rparr>)"
proof -
  let ?g = "g\<lparr>gr_agents := AList.update (aid c) c (gr_agents g)\<rparr>"
  have g: "graph_inv ?g" by (rule graph_inv_agent [OF assms(1) refl assms(4,5)])
  have "aid c \<notin> dom (map_of (gr_agents g))" using assms(3) by (simp add: domIff)
  then have "(aid c, p) \<notin> (graph_rel (gr_edges g))\<^sup>*" by (rule fresh_unreachable [OF assms(1) _ assms(2)])
  then have "acyclic (insert (eparent e, echild e) (graph_rel (gr_edges ?g)))"
    using graph_invD(9) [OF assms(1)] assms(7,8) by (simp add: acyclic_insert)
  then have "graph_inv (?g\<lparr>gr_edges := AList.update k e (gr_edges ?g)\<rparr>)"
    using assms(2,6-8) by (intro graph_inv_edge [OF g]) auto
  then show ?thesis by simp
qed

lemma newAgentEdge_fields [simp]:
  "eparent (newAgentEdge p c k now) = p" "echild (newAgentEdge p c k now) = c"
  by (simp_all add: newAgentEdge_def)

text \<open>The agents \<open>CancelSubtree\<close> replaces.\<close>

lemma put_agents_map:
  "distinct (map aid us) \<Longrightarrow> map_of (put_agents us as) i =
     (case find (\<lambda>u. aid u = i) us of Some u \<Rightarrow> Some u | None \<Rightarrow> map_of as i)"
proof (induction us arbitrary: as)
  case (Cons u us)
  have "find (\<lambda>v. aid v = aid u) us = None" using Cons.prems by (simp add: find_None_iff image_iff) metis
  with Cons show ?case by (auto simp: put_agents_def split: option.splits)
qed (simp add: put_agents_def)

lemma put_agents_distinct: "distinct (map fst as) \<Longrightarrow> distinct (map fst (put_agents us as))"
  unfolding put_agents_def by (induction us arbitrary: as) (simp_all add: distinct_update)

lemma cancel_all_spec:
  assumes "cancel_all G now as at ids = Inr us" and "agents_ok (map_of as)" and "set ids \<subseteq> dom (map_of as)"
  shows "map aid us = filter (\<lambda>i. \<not> agentTerminal (astatus (the (map_of as i)))) ids \<and>
    (\<forall>u \<in> set us. astatus u = AgentCancelled \<and>
      agentTransitionAllowed (astatus (the (map_of as (aid u)))) AgentCancelled)"
  using assms
proof (induction ids arbitrary: us)
  case (Cons i ids)
  obtain a where a: "map_of as i = Some a" using Cons.prems(3) by auto
  then have ok: "aid a = i" "trimmed i" "validAgentStatus (astatus a)"
    using Cons.prems(2) by (simp_all add: agents_ok_def del: map_of_eq_Some_iff)
  show ?case
  proof (cases "agentTerminal (astatus a)")
    case True
    with Cons a show ?thesis by simp
  next
    case False
    then obtain u vs where u: "TransitionIdentity G now a AgentCancelled at = Inr u"
      "cancel_all G now as at ids = Inr vs" "us = u # vs"
      using Cons.prems(1) a by (auto split: sum.splits)
    note t = TransitionIdentity_Inr [OF u(1) ok(3)]
    have "aid u = i" using t(1) ok(1,2) by (simp add: trimmed_def)
    with Cons u t a False show ?thesis by simp
  qed
qed simp

text \<open>The descendants of an agent of the graph are agents of the graph.\<close>

lemma subtree_agents:
  assumes "graph_inv g" and "map_of (gr_agents g) r \<noteq> None"
  shows "set (r # descendantIDsLocked (gr_edges g) r) \<subseteq> dom (map_of (gr_agents g))"
    and "distinct (r # descendantIDsLocked (gr_edges g) r)"
proof -
  have "(graph_rel (gr_edges g))\<^sup>+ \<subseteq> dom (map_of (gr_agents g)) \<times> dom (map_of (gr_agents g))"
    by (rule trancl_subset_Sigma [OF graph_rel_agents [OF assms(1)]])
  then show "set (r # descendantIDsLocked (gr_edges g) r) \<subseteq> dom (map_of (gr_agents g))"
    using descendants_iff [of "gr_edges g" r] assms(2) by auto
  show "distinct (r # descendantIDsLocked (gr_edges g) r)"
    using descendants_iff [of "gr_edges g" r] graph_invD(9) [OF assms(1)] by (simp add: acyclic_def)
qed

lemma cancel_agents_cases:
  assumes "graph_inv g" and "map_of (gr_agents g) r \<noteq> None"
    and "cancel_all G now (gr_agents g) at (r # descendantIDsLocked (gr_edges g) r) = Inr us"
  shows "map_of (put_agents us (gr_agents g)) i =
    (if i \<in> set (r # descendantIDsLocked (gr_edges g) r) \<and> \<not> agentTerminal (astatus (the (map_of (gr_agents g) i)))
     then find (\<lambda>u. aid u = i) us else map_of (gr_agents g) i)"
    and "find (\<lambda>u. aid u = i) us = Some u \<Longrightarrow> aid u = i \<and> astatus u = AgentCancelled \<and>
      agentTransitionAllowed (astatus (the (map_of (gr_agents g) i))) AgentCancelled"
    and "i \<in> set (r # descendantIDsLocked (gr_edges g) r) \<Longrightarrow>
      \<not> agentTerminal (astatus (the (map_of (gr_agents g) i))) \<Longrightarrow> \<exists>u. find (\<lambda>u. aid u = i) us = Some u"
proof -
  let ?ids = "r # descendantIDsLocked (gr_edges g) r"
  have ok: "agents_ok (map_of (gr_agents g))" using assms(1) by (simp add: graph_inv_def)
  note sp = cancel_all_spec [OF assms(3) ok subtree_agents(1) [OF assms(1,2)]]
  have ids: "distinct (map aid us)" "aid ` set us =
      {i \<in> set ?ids. \<not> agentTerminal (astatus (the (map_of (gr_agents g) i)))}"
    using sp subtree_agents(2) [OF assms(1,2)] by (metis distinct_filter, metis set_filter set_map)
  have mem: "i \<in> aid ` set us \<longleftrightarrow> find (\<lambda>u. aid u = i) us \<noteq> None" for i
    by (auto simp: find_None_iff)
  show "map_of (put_agents us (gr_agents g)) i =
    (if i \<in> set ?ids \<and> \<not> agentTerminal (astatus (the (map_of (gr_agents g) i)))
     then find (\<lambda>u. aid u = i) us else map_of (gr_agents g) i)"
    using put_agents_map [OF ids(1), of "gr_agents g" i] mem [of i] ids(2) by (cases "find (\<lambda>u. aid u = i) us") auto
  show "aid u = i \<and> astatus u = AgentCancelled \<and>
      agentTransitionAllowed (astatus (the (map_of (gr_agents g) i))) AgentCancelled"
    if "find (\<lambda>u. aid u = i) us = Some u"
    using that sp by (auto simp: find_Some_iff)
  show "\<exists>u. find (\<lambda>u. aid u = i) us = Some u"
    if "i \<in> set ?ids" "\<not> agentTerminal (astatus (the (map_of (gr_agents g) i)))"
    using that mem [of i] ids(2) by auto
qed

lemma graph_inv_cancel:
  assumes "graph_inv g" and "map_of (gr_agents g) r \<noteq> None"
    and "cancel_all G now (gr_agents g) at (r # descendantIDsLocked (gr_edges g) r) = Inr us"
  shows "graph_inv (g\<lparr>gr_agents := put_agents us (gr_agents g)\<rparr>)"
proof -
  note cs = cancel_agents_cases [OF assms]
  have sub: "set (r # descendantIDsLocked (gr_edges g) r) \<subseteq> dom (map_of (gr_agents g))"
    by (rule subtree_agents(1) [OF assms(1,2)])
  have "aid a = i \<and> trimmed i \<and> validAgentStatus (astatus a)"
    if h: "map_of (put_agents us (gr_agents g)) i = Some a" for i a
  proof (cases "i \<in> set (r # descendantIDsLocked (gr_edges g) r) \<and>
      \<not> agentTerminal (astatus (the (map_of (gr_agents g) i)))")
    case True
    then obtain b where "map_of (gr_agents g) i = Some b" using sub by blast
    moreover have "find (\<lambda>u. aid u = i) us = Some a" using h cs(1) [of i] True by simp
    moreover have "validAgentStatus AgentCancelled" by (simp add: validAgentStatus_def)
    ultimately show ?thesis using cs(2) [of i a] graph_invD(4) [OF assms(1)] by metis
  next
    case False
    have "map_of (gr_agents g) i = Some a" using h unfolding cs(1) [of i] if_not_P [OF False] .
    then show ?thesis using graph_invD(3-5) [OF assms(1)] by blast
  qed
  then have "agents_ok (map_of (put_agents us (gr_agents g)))" by (simp add: agents_ok_def del: map_of_eq_Some_iff)
  moreover have "dom (map_of (put_agents us (gr_agents g))) = dom (map_of (gr_agents g))"
  proof -
    have "map_of (put_agents us (gr_agents g)) i = None \<longleftrightarrow> map_of (gr_agents g) i = None" for i
    proof (cases "i \<in> set (r # descendantIDsLocked (gr_edges g) r) \<and>
        \<not> agentTerminal (astatus (the (map_of (gr_agents g) i)))")
      case True
      then obtain b u where "map_of (gr_agents g) i = Some b" "find (\<lambda>u. aid u = i) us = Some u"
        using sub cs(3) [of i] by blast
      with cs(1) [of i] True show ?thesis by (simp del: map_of_eq_None_iff)
    next
      case False
      with cs(1) [of i] show ?thesis by (simp only: if_False)
    qed
    then show ?thesis by (simp only: dom_def)
  qed
  ultimately show ?thesis
    using assms(1) put_agents_distinct unfolding graph_inv_def by simp
qed

lemma transition_to_inv:
  assumes "transition_to G now t io s i current next at = (s', r)" and "graph_inv (fst s)"
    and "map_of (gr_agents (fst s)) i = Some current"
  shows "graph_inv (fst s')"
  using assms(1)
proof (cases rule: transition_to_cases)
  case same
  with assms(2) show ?thesis by simp
next
  case (new u)
  note a = graph_invD(3-5) [OF assms(2) assms(3)]
  note t = TransitionIdentity_Inr [OF new(1) a(3)]
  have "aid u = i" using t(1) a(1,2) by (simp add: trimmed_def)
  with new(3) t(5) a(2) show ?thesis using graph_inv_agent [OF assms(2), of u i] by simp
qed

lemma graph_step_inv:
  assumes "graph_step G s s'" and "graph_inv (fst s)"
  shows "graph_inv (fst s')"
  using assms(1)
proof cases
  case (register now t io a r)
  then show ?thesis
  proof (cases rule: Register_cases)
    case (new b)
    note n = NormalizeIdentity_Inr [OF new(1)]
    have "trimmed (aid b)" using n(1) by simp
    then show ?thesis using graph_inv_agent [OF assms(2) refl _ n(3)] new(3) by simp
  qed (use assms(2) in simp)
next
  case (spawn now t io p c k r)
  then show ?thesis
  proof (cases rule: Spawn_cases)
    case (new b k')
    note n = NormalizeIdentity_Inr [OF new(1)]
    have "trimmed (aid b)" using n(1) by simp
    moreover have "trim_space p \<in> dom (map_of (gr_agents (fst s)))" using new(2) by blast
    ultimately show ?thesis
      using graph_inv_spawn [OF assms(2) _ new(3) _ n(3)] new(4) by simp
  qed (use assms(2) in simp)
next
  case (link now t io p c k r)
  then show ?thesis
  proof (cases rule: Link_cases)
    case (new k')
    have "acyclic (insert (trim_space p, trim_space c) (graph_rel (gr_edges (fst s))))"
      using new(3) graph_invD(9) [OF assms(2)] by (simp add: acyclic_insert pathExists_iff)
    then show ?thesis
      using graph_inv_edge [OF assms(2) refl, of "newAgentEdge (trim_space p) (trim_space c) k' now"] new(1,2,4)
      by (simp add: domIff del: map_of_eq_None_iff)
  qed (use assms(2) in simp)
next
  case (transition now t io i nx at r)
  show ?thesis
  proof (cases "map_of (gr_agents (fst s)) (trim_space i)")
    case (Some a)
    with transition have "transition_to G now t io s (trim_space i) a nx at = (s', r)"
      by (simp add: gr_Transition_def)
    then show ?thesis using assms(2) Some by (rule transition_to_inv)
  qed (use transition assms(2) in \<open>simp add: gr_Transition_def\<close>)
next
  case (transition_cas now t io i expected nx at r)
  show ?thesis
  proof (cases "map_of (gr_agents (fst s)) (trim_space i)")
    case (Some a)
    with transition_cas have "s' = s \<or> transition_to G now t io s (trim_space i) a nx at = (s', r)"
      by (auto simp: gr_TransitionCAS_def split: if_splits)
    then show ?thesis using assms(2) transition_to_inv [OF _ assms(2) Some] by metis
  qed (use transition_cas assms(2) in \<open>simp add: gr_TransitionCAS_def\<close>)
next
  case (close_edge now t io i expected at r)
  then show ?thesis
  proof (cases rule: CloseEdge_cases)
    case (new e e')
    have "(eparent e, echild e) \<in> graph_rel (gr_edges (fst s))"
      using new(1) by (force simp: graph_rel_iff dest: map_of_SomeD)
    then have "acyclic (insert (eparent e', echild e') (graph_rel (gr_edges (fst s))))"
      using graph_invD(9) [OF assms(2)] new(2) by (simp add: insert_absorb)
    then show ?thesis
      using graph_inv_edge [OF assms(2) refl, of e'] graph_invD(7,8) [OF assms(2) new(1)] new(2,3) by simp
  qed (use assms(2) in simp)
next
  case (cancel now t io i at r)
  then show ?thesis
  proof (cases rule: CancelSubtree_cases)
    case (new us)
    then show ?thesis using graph_inv_cancel [OF assms(2) new(3,1)] by simp
  qed (use assms(2) in simp)
qed

lemma graph_steps_inv: "(graph_step G)\<^sup>*\<^sup>* s s' \<Longrightarrow> graph_inv (fst s) \<Longrightarrow> graph_inv (fst s')"
  by (induction rule: rtranclp_induct) (auto intro: graph_step_inv)

lemma graph_inv_empty: "gr_agents g = [] \<Longrightarrow> gr_edges g = [] \<Longrightarrow> graph_inv g"
  by (simp add: graph_inv_def agents_ok_def edges_ok_def graph_rel_children childIDsLocked_def acyclic_def)

text \<open>
  C14. Every graph reached from an empty one through \<open>Register\<close>, \<open>Spawn\<close>, \<open>Link\<close>,
  \<open>Transition\<close>, \<open>TransitionCAS\<close>, \<open>CloseEdge\<close> and \<open>CancelSubtree\<close>, whatever arguments and write
  failures, is well formed: keys agree with ids, statuses are valid, both ends of every edge are
  agents of the graph, and no agent is its own ancestor.
\<close>

theorem graph_reachable_acyclic:
  assumes "(graph_step G)\<^sup>*\<^sup>* (g0, es0) (g, es)" and "gr_agents g0 = []" and "gr_edges g0 = []"
  shows "graph_inv g \<and> (\<forall>a. (a, a) \<notin> (graph_rel (gr_edges g))\<^sup>+)"
  using graph_steps_inv [OF assms(1)] graph_inv_empty [OF assms(2,3)] graph_invD(9) [of g]
  by (simp add: acyclic_def)

definition demo_agent :: "string \<Rightarrow> agent_identity" where
  "demo_agent i = zero_identity\<lparr>aid := i, atask := ''t'', aengine := ''claude''\<rparr>"

definition demo_gr0 :: graph_state where
  "demo_gr0 = (\<lparr>gr_ws = ''w'', gr_task = ''t'', gr_agents = [], gr_edges = []\<rparr>, None)"

definition demo_gr1 :: graph_state where
  "demo_gr1 = fst (Register demo_env 5 5 WOk demo_gr0 (demo_agent ''lead''))"

definition demo_gr2 :: graph_state where
  "demo_gr2 = fst (Spawn demo_env 6 6 WOk demo_gr1 '' lead'' (demo_agent ''bob'') [])"

lemma demo_gr2_reachable: "(graph_step demo_env)\<^sup>*\<^sup>* demo_gr0 demo_gr2"
proof -
  have "graph_step demo_env demo_gr0 demo_gr1"
    unfolding demo_gr1_def by (rule graph_step.register [OF prod.collapse [symmetric]])
  moreover have "graph_step demo_env demo_gr1 demo_gr2"
    unfolding demo_gr2_def by (rule graph_step.spawn [OF prod.collapse [symmetric]])
  ultimately show ?thesis by (metis rtranclp.simps)
qed

lemma demo_gr0_empty: "gr_agents (fst demo_gr0) = []" "gr_edges (fst demo_gr0) = []"
  by (simp_all add: demo_gr0_def)

lemma demo_gr2_inv: "graph_inv (fst demo_gr2)"
  by (rule graph_steps_inv [OF demo_gr2_reachable graph_inv_empty [OF demo_gr0_empty]])

theorem graph_reachable_acyclic_witness:
  "map fst (gr_edges (fst demo_gr2)) = [''spawn:lead->bob''] \<and> graph_inv (fst demo_gr2)"
proof
  show "map fst (gr_edges (fst demo_gr2)) = [''spawn:lead->bob'']" by code_simp
  show "graph_inv (fst demo_gr2)"
    using graph_reachable_acyclic [of demo_env "fst demo_gr0" "snd demo_gr0" "fst demo_gr2" "snd demo_gr2"]
      demo_gr2_reachable demo_gr0_empty by (simp only: prod.collapse)
qed

section \<open>Cancelling a subtree\<close>

text \<open>
  When \<open>CancelSubtree\<close> succeeds, the root and every agent below it, at any depth and through
  edges of every kind, is terminal; those that were live are now \<open>cancelled\<close>, and no other agent
  and no edge changed.
\<close>

theorem CancelSubtree_complete:
  assumes "CancelSubtree G now t io s r at = (s', Inr us)" and "graph_inv (fst s)"
  shows "(\<forall>i. (trim_space r, i) \<in> (graph_rel (gr_edges (fst s)))\<^sup>* \<longrightarrow>
      (\<exists>a a'. map_of (gr_agents (fst s)) i = Some a \<and> map_of (gr_agents (fst s')) i = Some a' \<and>
         (if agentTerminal (astatus a) then a' = a else astatus a' = AgentCancelled))) \<and>
    (\<forall>i. (trim_space r, i) \<notin> (graph_rel (gr_edges (fst s)))\<^sup>* \<longrightarrow>
      map_of (gr_agents (fst s')) i = map_of (gr_agents (fst s)) i) \<and> gr_edges (fst s') = gr_edges (fst s)"
  using assms(1)
proof (cases rule: CancelSubtree_cases)
  case (new us')
  let ?g = "fst s" and ?r = "trim_space r"
  have us: "us' = us" using new(2) by simp
  note cs = cancel_agents_cases [OF assms(2) new(3) new(1) [unfolded us]]
  have sub: "set (?r # descendantIDsLocked (gr_edges ?g) ?r) \<subseteq> dom (map_of (gr_agents ?g))"
    by (rule subtree_agents(1) [OF assms(2) new(3)])
  have reach: "(?r, i) \<in> (graph_rel (gr_edges ?g))\<^sup>* \<longleftrightarrow> i \<in> set (?r # descendantIDsLocked (gr_edges ?g) ?r)" for i
    using descendants_iff [of "gr_edges ?g" ?r] by (auto simp: rtrancl_eq_or_trancl)
  have ag: "gr_agents (fst s') = put_agents us (gr_agents ?g)" using new(4) us by simp
  have "\<exists>a a'. map_of (gr_agents ?g) i = Some a \<and> map_of (gr_agents (fst s')) i = Some a' \<and>
       (if agentTerminal (astatus a) then a' = a else astatus a' = AgentCancelled)"
    if h: "i \<in> set (?r # descendantIDsLocked (gr_edges ?g) ?r)" for i
  proof -
    obtain a where a: "map_of (gr_agents ?g) i = Some a" using h sub by blast
    show ?thesis
    proof (cases "agentTerminal (astatus a)")
      case True
      then show ?thesis using a cs(1) [of i] unfolding ag by simp
    next
      case False
      then obtain u where "find (\<lambda>u. aid u = i) us = Some u" using cs(3) [of i] h a by auto
      then show ?thesis using False a h cs(1) [of i] cs(2) [of i u] unfolding ag by simp
    qed
  qed
  moreover have "map_of (gr_agents (fst s')) i = map_of (gr_agents ?g) i"
    if "i \<notin> set (?r # descendantIDsLocked (gr_edges ?g) ?r)" for i
    using that cs(1) [of i] unfolding ag by (simp only: simp_thms if_False)
  moreover have "gr_edges (fst s') = gr_edges ?g" using new(4) by simp
  ultimately show ?thesis unfolding reach by blast
qed simp

theorem CancelSubtree_complete_witness:
  "\<exists>us. snd (CancelSubtree demo_env 8 8 WOk demo_gr2 ''lead'' 0) = Inr us \<and>
     gr_edges (fst (fst (CancelSubtree demo_env 8 8 WOk demo_gr2 ''lead'' 0))) = gr_edges (fst demo_gr2) \<and>
     map aid us = [''lead'', ''bob'']"
proof -
  let ?r = "CancelSubtree demo_env 8 8 WOk demo_gr2 ''lead'' 0"
  have c: "case snd ?r of Inr us \<Rightarrow> map aid us = [''lead'', ''bob''] | Inl _ \<Rightarrow> False" by code_simp
  then obtain us where us: "snd ?r = Inr us" "map aid us = [''lead'', ''bob'']"
    by (cases "snd ?r") simp_all
  then have eq: "?r = (fst ?r, Inr us)" by (simp add: prod_eq_iff)
  note edges = CancelSubtree_complete [OF eq demo_gr2_inv, THEN conjunct2, THEN conjunct2]
  show ?thesis by (intro exI [of _ us] conjI us edges)
qed

section \<open>Terminal agents and revisions\<close>

lemma transition_to_status:
  assumes "transition_to G now t io s j current nx at = (s', r)" and "graph_inv (fst s)"
    and "map_of (gr_agents (fst s)) j = Some current" and "map_of (gr_agents (fst s)) i = Some a"
  shows "\<exists>a'. map_of (gr_agents (fst s')) i = Some a' \<and> agentTransitionAllowed (astatus a) (astatus a')"
proof -
  have refl: "agentTransitionAllowed (astatus a) (astatus a)" by (simp add: agentTransitionAllowed_def)
  show ?thesis
    using assms(1)
  proof (cases rule: transition_to_cases)
    case same
    with assms(4) refl show ?thesis by simp
  next
    case (new u)
    note t = TransitionIdentity_Inr [OF new(1) graph_invD(5) [OF assms(2,3)]]
    show ?thesis
    proof (cases "i = j")
      case True
      with assms(3,4) have "current = a" by simp
      with True new(3) t(2,3) show ?thesis by simp
    next
      case False
      with new(3) assms(4) refl show ?thesis by simp
    qed
  qed
qed

lemma graph_step_status:
  assumes "graph_step G s s'" and "graph_inv (fst s)" and "map_of (gr_agents (fst s)) i = Some a"
  shows "\<exists>a'. map_of (gr_agents (fst s')) i = Some a' \<and> agentTransitionAllowed (astatus a) (astatus a')"
proof -
  have refl: "agentTransitionAllowed (astatus a) (astatus a)" by (simp add: agentTransitionAllowed_def)
  have keep: ?thesis if "map_of (gr_agents (fst s')) i = Some a" using that refl by blast
  show ?thesis
    using assms(1)
  proof cases
    case (register now t io b r)
    then show ?thesis
    proof (cases rule: Register_cases)
      case (new c)
      then have "i \<noteq> aid c" using assms(3) by auto
      with new(3) assms(3) show ?thesis by (intro keep) simp
    qed (use assms(3) refl in simp)
  next
    case (spawn now t io p c k r)
    then show ?thesis
    proof (cases rule: Spawn_cases)
      case (new b k')
      then have "i \<noteq> aid b" using assms(3) by auto
      with new(4) assms(3) show ?thesis by (intro keep) simp
    qed (use assms(3) refl in simp)
  next
    case (link now t io p c k r)
    then have "gr_agents (fst s') = gr_agents (fst s)" by (cases rule: Link_cases) simp_all
    with assms(3) show ?thesis by (intro keep) simp
  next
    case (transition now t io j nx at r)
    show ?thesis
    proof (cases "map_of (gr_agents (fst s)) (trim_space j)")
      case (Some c)
      with transition have "transition_to G now t io s (trim_space j) c nx at = (s', r)"
        by (simp add: gr_Transition_def)
      then show ?thesis using assms(2) Some assms(3) by (rule transition_to_status)
    qed (use transition assms(3) refl in \<open>simp add: gr_Transition_def\<close>)
  next
    case (transition_cas now t io j expected nx at r)
    show ?thesis
    proof (cases "map_of (gr_agents (fst s)) (trim_space j)")
      case (Some c)
      with transition_cas have "s' = s \<or> transition_to G now t io s (trim_space j) c nx at = (s', r)"
        by (auto simp: gr_TransitionCAS_def split: if_splits)
      then show ?thesis using assms(3) keep transition_to_status [OF _ assms(2) Some assms(3)] by metis
    qed (use transition_cas assms(3) refl in \<open>simp add: gr_TransitionCAS_def\<close>)
  next
    case (close_edge now t io j expected at r)
    then have "gr_agents (fst s') = gr_agents (fst s)" by (cases rule: CloseEdge_cases) simp_all
    with assms(3) show ?thesis by (intro keep) simp
  next
    case (cancel now t io j at r)
    then show ?thesis
    proof (cases rule: CancelSubtree_cases)
      case (new us)
      note cs = cancel_agents_cases [OF assms(2) new(3,1)]
      show ?thesis
      proof (cases "i \<in> set (trim_space j # descendantIDsLocked (gr_edges (fst s)) (trim_space j)) \<and>
          \<not> agentTerminal (astatus (the (map_of (gr_agents (fst s)) i)))")
        case True
        then obtain u where "find (\<lambda>u. aid u = i) us = Some u" using cs(3) by blast
        with True cs(1) [of i] cs(2) [of i u] new(4) assms(3) show ?thesis by simp
      next
        case False
        have "map_of (put_agents us (gr_agents (fst s))) i = Some a"
          unfolding cs(1) [of i] if_not_P [OF False] by (rule assms(3))
        then show ?thesis using new(4) by (intro keep) simp
      qed
    qed (use assms(3) refl in simp)
  qed
qed

text \<open>
  A terminal agent (completed, failed or cancelled) is terminal for good: no sequence of
  graph operations removes it or changes its status, so it can never be given work again.
\<close>

theorem agent_terminal_forever:
  assumes "(graph_step G)\<^sup>*\<^sup>* s s'" and "graph_inv (fst s)"
    and "map_of (gr_agents (fst s)) i = Some a" and "agentTerminal (astatus a)"
  shows "\<exists>a'. map_of (gr_agents (fst s')) i = Some a' \<and> astatus a' = astatus a"
proof -
  have "\<exists>a'. map_of (gr_agents (fst s')) i = Some a' \<and> agentTransitionAllowed\<^sup>*\<^sup>* (astatus a) (astatus a')"
    using assms(1)
  proof (induction rule: rtranclp_induct)
    case base
    then show ?case using assms(3) by blast
  next
    case (step s1 s2)
    then obtain b where b: "map_of (gr_agents (fst s1)) i = Some b"
      "agentTransitionAllowed\<^sup>*\<^sup>* (astatus a) (astatus b)" by blast
    obtain c where "map_of (gr_agents (fst s2)) i = Some c" "agentTransitionAllowed (astatus b) (astatus c)"
      using graph_step_status [OF step.hyps(2) graph_steps_inv [OF step.hyps(1) assms(2)] b(1)] by blast
    with b(2) show ?case by (meson rtranclp.rtrancl_into_rtrancl)
  qed
  then show ?thesis using agent_status.terminal_forever assms(4) by metis
qed

definition demo_gr3 :: graph_state where
  "demo_gr3 = fst (gr_Transition demo_env 8 8 WOk demo_gr2 ''bob'' ''cancelled'' 8)"

theorem agent_terminal_forever_witness:
  "\<exists>a'. map_of (gr_agents (fst (fst (gr_Transition demo_env 9 9 WOk demo_gr3 ''bob'' ''active'' 9)))) ''bob'' = Some a'
     \<and> astatus a' = ''cancelled''"
proof -
  have "map_option astatus (map_of (gr_agents (fst demo_gr3)) ''bob'') = Some ''cancelled''" by code_simp
  then obtain a where a: "map_of (gr_agents (fst demo_gr3)) ''bob'' = Some a" "astatus a = ''cancelled''" by blast
  have inv: "graph_inv (fst demo_gr3)"
    unfolding demo_gr3_def
    by (rule graph_step_inv [OF graph_step.transition [OF prod.collapse [symmetric]] demo_gr2_inv])
  have "graph_step demo_env demo_gr3 (fst (gr_Transition demo_env 9 9 WOk demo_gr3 ''bob'' ''active'' 9))"
    by (rule graph_step.transition [OF prod.collapse [symmetric]])
  from agent_terminal_forever [OF r_into_rtranclp [of "graph_step demo_env", OF this] inv a(1)] a(2)
  show ?thesis by (simp add: agentTerminal_def)
qed

lemma TransitionIdentity_rev:
  "TransitionIdentity G now a nx at = Inr u \<Longrightarrow> arev a \<noteq> 0 \<Longrightarrow> arev u = arev a + 1"
  using NormalizeIdentity_Inr(5)
  by (fastforce simp: TransitionIdentity_def split: sum.splits if_splits)

record agent_call =
  ac_now :: gotime
  ac_clock :: gotime
  ac_io :: write_outcome
  ac_id :: string
  ac_expected :: u64
  ac_next :: string
  ac_at :: gotime

definition agent_cas :: "('z) goenv_scheme \<Rightarrow> agent_call \<Rightarrow> graph_state \<Rightarrow> graph_state \<times> bool" where
  "agent_cas G c s =
     (let (s', r) = gr_TransitionCAS G (ac_now c) (ac_clock c) (ac_io c) s (ac_id c) (ac_expected c)
                      (ac_next c) (ac_at c)
      in (s', \<not> isl r))"

definition agent_rev :: "graph_state \<Rightarrow> string \<Rightarrow> u64 option" where
  "agent_rev s i = map_option arev (map_of (gr_agents (fst s)) i)"

lemma gr_TransitionCAS_effect:
  assumes "gr_TransitionCAS G now t io s i0 expected nx at = (s', r)" and "expected \<noteq> 0"
  shows "if isl r then agent_rev s' = agent_rev s
    else agent_rev s (trim_space i0) = Some expected \<and>
      agent_rev s' = (agent_rev s)(trim_space i0 \<mapsto> expected + 1)"
proof (cases "map_of (gr_agents (fst s)) (trim_space i0)")
  case None
  with assms(1) show ?thesis by (auto simp: gr_TransitionCAS_def)
next
  case (Some a)
  show ?thesis
  proof (cases "arev a = expected")
    case False
    with assms Some show ?thesis by (auto simp: gr_TransitionCAS_def)
  next
    case True
    with assms Some have "transition_to G now t io s (trim_space i0) a nx at = (s', r)"
      by (simp add: gr_TransitionCAS_def)
    then show ?thesis
    proof (cases rule: transition_to_cases)
      case same
      then show ?thesis by (simp add: agent_rev_def fun_eq_iff)
    next
      case (new u)
      have "arev u = expected + 1" using TransitionIdentity_rev [OF new(1)] True assms(2) by simp
      with new Some True show ?thesis by (simp add: agent_rev_def fun_eq_iff)
    qed
  qed
qed

interpretation agent_fence: cas_store agent_rev "agent_cas G" "\<lambda>c. trim_space (ac_id c)" ac_expected
  "\<lambda>c. ac_expected c \<noteq> 0" for G
proof unfold_locales
  fix c :: agent_call and s s' :: graph_state
  assume "ac_expected c \<noteq> 0"
  note eff = gr_TransitionCAS_effect [OF _ this, of G "ac_now c" "ac_clock c" "ac_io c" s "ac_id c" "ac_next c" "ac_at c"]
  show "agent_cas G c s = (s', True) \<Longrightarrow> agent_rev s (trim_space (ac_id c)) = Some (ac_expected c)"
    "agent_cas G c s = (s', True) \<Longrightarrow>
       agent_rev s' = (agent_rev s)(trim_space (ac_id c) \<mapsto> ac_expected c + 1)"
    "agent_cas G c s = (s', False) \<Longrightarrow> agent_rev s' = agent_rev s"
    using eff by (auto simp: agent_cas_def split: prod.splits)
qed

text \<open>
  Fencing of agents: of all \<open>TransitionCAS\<close> calls, in any interleaving, that name the same
  agent and the same non-zero expected revision at most one succeeds, so a stale activation
  cannot finalise a newer agent state.
\<close>

theorem agent_one_winner:
  assumes "list_all (\<lambda>c. ac_expected c \<noteq> 0) cs" and "length cs \<le> 2 ^ 64"
  shows "distinct (map (\<lambda>c. (trim_space (ac_id c), ac_expected c)) (snd (cas_run (agent_cas G) s cs)))"
  using agent_fence.one_winner [OF assms] .

definition demo_agent_calls :: "agent_call list" where
  "demo_agent_calls = map (\<lambda>st. \<lparr>ac_now = 8, ac_clock = 8, ac_io = WOk, ac_id = ''bob'', ac_expected = 1,
     ac_next = st, ac_at = 8\<rparr>) [''active'', ''failed'']"

theorem agent_one_winner_witness:
  "length (snd (cas_run (agent_cas demo_env) demo_gr2 demo_agent_calls)) = 1 \<and>
   distinct (map (\<lambda>c. (trim_space (ac_id c), ac_expected c))
     (snd (cas_run (agent_cas demo_env) demo_gr2 demo_agent_calls)))"
proof
  show "length (snd (cas_run (agent_cas demo_env) demo_gr2 demo_agent_calls)) = 1" by code_simp
  show "distinct (map (\<lambda>c. (trim_space (ac_id c), ac_expected c))
     (snd (cas_run (agent_cas demo_env) demo_gr2 demo_agent_calls)))"
    by (rule agent_one_winner) (simp_all add: demo_agent_calls_def)
qed

end
