(* ===== verification/Activation.thy ===== *)
theory Activation
  imports AgentGraphProps
begin

text \<open>
  The activation manager of \<open>internal/agentruntime/activation_manager.go\<close>: live incarnations of
  the agents of a graph, their attempts and their durable replay. The manager only reads the
  graph (through \<open>AgentGraph.Agent\<close>), so the graph is an argument.
\<close>

section \<open>Types\<close>

abbreviation "eventActivationStarted \<equiv> ''activation.started''"
abbreviation "eventActivationTransitioned \<equiv> ''activation.transitioned''"

record activation_start =
  st_id :: string
  st_agent :: string
  st_provider :: string
  st_session :: string
  st_process :: string

record activation_manager =
  am_ws :: string
  am_task :: string
  am_acts :: "(string \<times> agent_activation) list"
  am_latest :: "(string \<times> string) list"
  am_attempts :: "(string \<times> int) list"

type_synonym am_state = "activation_manager \<times> evstore option"

definition zero_activation :: agent_activation where
  "zero_activation = \<lparr>vid = [], vagent = [], vattempt = 0, vprovider = [], vsession = [], vprocess = [],
     vstatus = [], vrev = 0, vstarted = 0, vupdated = 0, vended = 0\<rparr>"

text \<open>Reading a Go map yields the zero value of a missing key.\<close>

definition go_get :: "('k \<times> 'v) list \<Rightarrow> 'v \<Rightarrow> 'k \<Rightarrow> 'v" where
  "go_get m z k = (case map_of m k of None \<Rightarrow> z | Some v \<Rightarrow> v)"

section \<open>Payloads\<close>

definition activationPayload :: "('z) goenv_scheme \<Rightarrow> agent_activation \<Rightarrow> json" where
  "activationPayload G v = JObj (
     [(''id'', enc_str (vid v)), (''agentId'', enc_str (vagent v)), (''attempt'', enc_int G (vattempt v))] @
     omit_str ''runtimeProvider'' (vprovider v) @ omit_str ''providerSessionId'' (vsession v) @
     omit_str ''processId'' (vprocess v) @
     [(''status'', enc_str (vstatus v)), (''revision'', enc_u64 G (vrev v)),
      (''startedAt'', JTime (vstarted v)), (''updatedAt'', JTime (vupdated v)), (''endedAt'', JTime (vended v))])"

definition activationDecode :: "json \<Rightarrow> agent_activation option" where
  "activationDecode j =
     Option.bind (Option.bind (jfield ''id'' j) dec_str) (\<lambda>i.
     Option.bind (Option.bind (jfield ''agentId'' j) dec_str) (\<lambda>a.
     Option.bind (Option.bind (jfield ''attempt'' j) dec_int) (\<lambda>n.
     Option.bind (Option.bind (jfield ''runtimeProvider'' j) dec_str) (\<lambda>p.
     Option.bind (Option.bind (jfield ''providerSessionId'' j) dec_str) (\<lambda>s.
     Option.bind (Option.bind (jfield ''processId'' j) dec_str) (\<lambda>pr.
     Option.bind (Option.bind (jfield ''status'' j) dec_str) (\<lambda>st.
     Option.bind (Option.bind (jfield ''revision'' j) dec_u64) (\<lambda>r.
     Option.bind (Option.bind (jfield ''startedAt'' j) dec_time) (\<lambda>t1.
     Option.bind (Option.bind (jfield ''updatedAt'' j) dec_time) (\<lambda>t2.
     Option.bind (Option.bind (jfield ''endedAt'' j) dec_time) (\<lambda>t3.
       Some \<lparr>vid = i, vagent = a, vattempt = n, vprovider = p, vsession = s, vprocess = pr, vstatus = st,
             vrev = r, vstarted = t1, vupdated = t2, vended = t3\<rparr>)))))))))))"

definition am_appendLocked ::
  "('z) goenv_scheme \<Rightarrow> gotime \<Rightarrow> write_outcome \<Rightarrow> am_state \<Rightarrow> string \<Rightarrow> agent_activation \<Rightarrow> string
     \<Rightarrow> evstore option \<times> ev_error option" where
  "am_appendLocked G t io s ty v key =
     append_opt G t io (snd s) (am_ws (fst s)) (am_task (fst s))
       (zero_event\<lparr>ev_type := ty, ev_task := am_task (fst s), ev_agent := vagent v, ev_activation := vid v,
          ev_idem := key, ev_payload := [(''activation'', activationPayload G v)]\<rparr>)"

section \<open>Operations\<close>

definition am_put :: "agent_activation \<Rightarrow> activation_manager \<Rightarrow> activation_manager" where
  "am_put v m = m\<lparr>am_acts := AList.update (vid v) v (am_acts m),
     am_latest := AList.update (vagent v) (vid v) (am_latest m)\<rparr>"

definition am_Start ::
  "('z) goenv_scheme \<Rightarrow> agent_graph \<Rightarrow> gotime \<Rightarrow> gotime \<Rightarrow> write_outcome \<Rightarrow> am_state \<Rightarrow> activation_start
     \<Rightarrow> am_state \<times> (agent_error + agent_activation)" where
  "am_Start G g now t io s in0 =
     (let agent = trim_space (st_agent in0); i0 = trim_space (st_id in0);
          provider = trim_space (st_provider in0); m = fst s in
      if agent = [] \<or> provider = [] then (s, Inl ErrInvalidActivation)
      else case gr_Agent g agent of
        None \<Rightarrow> (s, Inl ErrAgentNotFound)
      | Some a \<Rightarrow>
          if agentTerminal (astatus a) then (s, Inl ErrActivationAgentTerminal)
          else
            let lid = go_get (am_latest m) [] agent in
            if lid \<noteq> [] \<and> \<not> activationTerminal (vstatus (go_get (am_acts m) zero_activation lid))
            then (s, Inl ErrActivationBusy)
            else
              let attempt = go_get (am_attempts m) 0 agent + 1;
                  i = (if i0 = [] then ''activation:'' @ agent @ '':'' @ itoa (nat attempt) else i0)
              in if map_of (am_acts m) i \<noteq> None then (s, Inl ErrActivationBusy)
                 else case NormalizeActivation now (zero_activation\<lparr>vid := i, vagent := agent,
                          vattempt := attempt, vprovider := provider,
                          vsession := trim_space (st_session in0), vprocess := trim_space (st_process in0),
                          vstatus := ActivationStarting\<rparr>) of
                   Inl x \<Rightarrow> (s, Inl x)
                 | Inr v \<Rightarrow>
                     let (es', err) = am_appendLocked G t io s eventActivationStarted v
                           (''activation:start:'' @ vid v)
                     in case err of
                          Some x \<Rightarrow> ((m, es'), Inl (AgentEvents x))
                        | None \<Rightarrow> (((am_put v m)\<lparr>am_attempts := AList.update (vagent v) (vattempt v) (am_attempts m)\<rparr>,
                                      es'), Inr v))"

definition am_TransitionCAS ::
  "('z) goenv_scheme \<Rightarrow> gotime \<Rightarrow> gotime \<Rightarrow> write_outcome \<Rightarrow> am_state \<Rightarrow> string \<Rightarrow> u64 \<Rightarrow> string \<Rightarrow> gotime
     \<Rightarrow> am_state \<times> (agent_error + agent_activation)" where
  "am_TransitionCAS G now t io s i0 expected next at =
     (let i = trim_space i0; m = fst s in
      case map_of (am_acts m) i of
        None \<Rightarrow> (s, Inl ErrActivationNotFound)
      | Some current \<Rightarrow>
          if expected = 0 \<or> expected \<noteq> vrev current then (s, Inl ErrStaleActivationRevision)
          else case TransitionActivation now current next at of
            Inl x \<Rightarrow> (s, Inl x)
          | Inr u \<Rightarrow>
              let (es', err) = am_appendLocked G t io s eventActivationTransitioned u
                    (''activation:transition:'' @ i @ '':'' @ itoa (unat (vrev u)))
              in case err of
                   Some x \<Rightarrow> ((m, es'), Inl (AgentEvents x))
                 | None \<Rightarrow> ((m\<lparr>am_acts := AList.update i u (am_acts m),
                               am_latest := AList.update (vagent u) (vid u) (am_latest m)\<rparr>, es'), Inr u))"

definition MarkLost where
  "MarkLost G now t io s i expected at = am_TransitionCAS G now t io s i expected ActivationLost at"

definition am_Activation :: "activation_manager \<Rightarrow> string \<Rightarrow> agent_activation option" where
  "am_Activation m i = map_of (am_acts m) (trim_space i)"

definition am_Latest :: "activation_manager \<Rightarrow> string \<Rightarrow> agent_activation option" where
  "am_Latest m agent =
     (let i = go_get (am_latest m) [] (trim_space agent) in if i = [] then None else map_of (am_acts m) i)"

definition ForAgent :: "activation_manager \<Rightarrow> string \<Rightarrow> agent_activation list" where
  "ForAgent m agent = sort_key (\<lambda>v. (vattempt v, vid v))
     (filter (\<lambda>v. vagent v = trim_space agent) (map snd (am_acts m)))"

definition HasLive :: "activation_manager \<Rightarrow> string \<Rightarrow> bool" where
  "HasLive m agent = (case am_Latest m agent of None \<Rightarrow> False | Some v \<Rightarrow> \<not> activationTerminal (vstatus v))"

section \<open>Replay\<close>

definition validPersistedActivation :: "agent_activation \<Rightarrow> bool" where
  "validPersistedActivation v \<longleftrightarrow>
     \<not> (trim_space (vid v) = [] \<or> trim_space (vagent v) = [] \<or> trim_space (vprovider v) = []) \<and>
     \<not> (vattempt v \<le> 0 \<or> vrev v = 0 \<or> vstarted v = 0 \<or> vupdated v = 0 \<or> \<not> validActivationStatus (vstatus v)) \<and>
     \<not> (activationTerminal (vstatus v) \<and> vended v = 0)"

definition applyReplayLocked ::
  "agent_graph \<Rightarrow> activation_manager \<Rightarrow> string \<Rightarrow> agent_activation \<Rightarrow> activation_manager option" where
  "applyReplayLocked g m ty v =
     (case gr_Agent g (vagent v) of
        None \<Rightarrow> None
      | Some a \<Rightarrow>
          if atask a \<noteq> am_task m then None
          else
            let current = go_get (am_acts m) zero_activation (vid v);
                exists = map_of (am_acts m) (vid v) \<noteq> None;
                lid = go_get (am_latest m) [] (vagent v);
                ok =
                  (if ty = eventActivationStarted then
                     \<not> (exists \<or> vrev v \<noteq> 1) \<and>
                     (if lid \<noteq> [] then
                        (let l = go_get (am_acts m) zero_activation lid in
                         \<not> (\<not> activationTerminal (vstatus l) \<or> vattempt v \<noteq> vattempt l + 1))
                      else vattempt v = 1)
                   else if ty = eventActivationTransitioned then
                     \<not> (\<not> exists \<or> vagent v \<noteq> vagent current \<or> vattempt v \<noteq> vattempt current \<or>
                        vrev v \<noteq> vrev current + 1) \<and>
                     activationTransitionAllowed (vstatus current) (vstatus v)
                   else True)
            in if \<not> ok then None
               else if ty \<noteq> eventActivationStarted \<and> ty \<noteq> eventActivationTransitioned then Some m
               else Some ((am_put v m)\<lparr>am_attempts :=
                    (if vattempt v > go_get (am_attempts m) 0 (vagent v)
                     then AList.update (vagent v) (vattempt v) (am_attempts m) else am_attempts m)\<rparr>))"

fun am_replay :: "agent_graph \<Rightarrow> activation_manager \<Rightarrow> event list \<Rightarrow> agent_error + activation_manager" where
  "am_replay g m [] = Inr m"
| "am_replay g m (e # es) =
     (if ev_type e \<noteq> eventActivationStarted \<and> ev_type e \<noteq> eventActivationTransitioned then am_replay g m es
      else case activationDecode (payload_field e ''activation'') of
             None \<Rightarrow> Inl ErrInvalidActivationManager
           | Some v \<Rightarrow>
               if \<not> validPersistedActivation v then Inl ErrInvalidActivationManager
               else case applyReplayLocked g m (ev_type e) v of
                      None \<Rightarrow> Inl ErrInvalidActivationManager
                    | Some m' \<Rightarrow> am_replay g m' es)"

definition NewActivationManager ::
  "('z) goenv_scheme \<Rightarrow> evstore option \<Rightarrow> string \<Rightarrow> string \<Rightarrow> agent_graph option
     \<Rightarrow> agent_error + activation_manager" where
  "NewActivationManager G events ws0 task0 og =
     (let ws = trim_space ws0; task = trim_space task0;
          m = \<lparr>am_ws = ws, am_task = task, am_acts = [], am_latest = [], am_attempts = []\<rparr> in
      case og of
        None \<Rightarrow> Inl ErrInvalidActivationManager
      | Some g \<Rightarrow>
          if ws = [] \<or> task = [] \<or> gr_task g \<noteq> task then Inl ErrInvalidActivationManager
          else case events of
            None \<Rightarrow> Inr m
          | Some es \<Rightarrow>
              (case ev_list G es ws task 0 5000 of
                 Inl x \<Rightarrow> Inl (AgentEvents x)
               | Inr stored \<Rightarrow> am_replay g m stored))"

section \<open>What the operations do\<close>

lemma NormalizeActivation_Inr:
  assumes "NormalizeActivation now v = Inr w"
  shows "vid w = trim_space (vid v)" "vid w \<noteq> []" "vagent w = trim_space (vagent v)"
    "vattempt v > 0 \<Longrightarrow> vattempt w = vattempt v" "validActivationStatus (vstatus w)"
    "vstatus v \<noteq> [] \<Longrightarrow> vstatus w = vstatus v" "vrev v \<noteq> 0 \<Longrightarrow> vrev w = vrev v"
proof -
  define v1 where "v1 = v\<lparr>vid := trim_space (vid v), vagent := trim_space (vagent v),
    vprovider := trim_space (vprovider v), vsession := trim_space (vsession v), vprocess := trim_space (vprocess v)\<rparr>"
  define v2 where "v2 = (if vstatus v1 = [] then v1\<lparr>vstatus := ActivationStarting\<rparr> else v1)"
  define v3 where "v3 = (if vattempt v2 \<le> 0 then v2\<lparr>vattempt := 1\<rparr> else v2)"
  define v4 where "v4 = (if vstarted v3 = 0 then v3\<lparr>vstarted := now\<rparr> else v3)"
  define v5 where "v5 = (if vupdated v4 = 0 then v4\<lparr>vupdated := vstarted v4\<rparr> else v4)"
  define v6 where "v6 = (if vrev v5 = 0 then v5\<lparr>vrev := 1\<rparr> else v5)"
  have eq: "NormalizeActivation now v =
     (if vid v3 = [] \<or> vagent v3 = [] \<or> \<not> validActivationStatus (vstatus v3) then Inl ErrInvalidActivation
      else Inr (if activationTerminal (vstatus v6) \<and> vended v6 = 0 then v6\<lparr>vended := vupdated v6\<rparr> else v6))"
    unfolding NormalizeActivation_def Let_def v6_def v5_def v4_def v3_def v2_def v1_def by (rule refl)
  have ok: "vid v3 \<noteq> []" "validActivationStatus (vstatus v3)"
    and w: "w = (if activationTerminal (vstatus v6) \<and> vended v6 = 0 then v6\<lparr>vended := vupdated v6\<rparr> else v6)"
    using assms unfolding eq by (simp_all only: split: if_splits) auto
  have f3: "vid v3 = trim_space (vid v)" "vagent v3 = trim_space (vagent v)"
    "vattempt v > 0 \<Longrightarrow> vattempt v3 = vattempt v" "vstatus v \<noteq> [] \<Longrightarrow> vstatus v3 = vstatus v" "vrev v3 = vrev v"
    by (simp_all add: v3_def v2_def v1_def)
  have f6: "vid v6 = vid v3" "vagent v6 = vagent v3" "vattempt v6 = vattempt v3" "vstatus v6 = vstatus v3"
    "vrev v3 \<noteq> 0 \<Longrightarrow> vrev v6 = vrev v3"
    by (simp_all add: v6_def v5_def v4_def)
  have "vid w = vid v6" "vagent w = vagent v6" "vattempt w = vattempt v6" "vstatus w = vstatus v6" "vrev w = vrev v6"
    by (simp_all add: w)
  with f3 f6 ok show "vid w = trim_space (vid v)" "vid w \<noteq> []" "vagent w = trim_space (vagent v)"
    "vattempt v > 0 \<Longrightarrow> vattempt w = vattempt v" "validActivationStatus (vstatus w)"
    "vstatus v \<noteq> [] \<Longrightarrow> vstatus w = vstatus v" "vrev v \<noteq> 0 \<Longrightarrow> vrev w = vrev v"
    by simp_all
qed

lemma TransitionActivation_Inr:
  assumes "TransitionActivation now v nx at = Inr u" and "validActivationStatus (vstatus v)"
  shows "vid u = trim_space (vid v)" "vagent u = trim_space (vagent v)" "vstatus u = nx"
    "activationTransitionAllowed (vstatus v) nx" "vattempt v > 0 \<Longrightarrow> vattempt u = vattempt v"
    "vrev v \<noteq> 0 \<Longrightarrow> vrev u = vrev v + 1" "validActivationStatus nx"
proof -
  obtain w where w: "NormalizeActivation now v = Inr w" "activationTransitionAllowed (vstatus w) nx"
    using assms(1) by (auto simp: TransitionActivation_def split: sum.splits if_splits)
  then have u: "u = w\<lparr>vstatus := nx, vrev := vrev w + 1, vupdated := at_or_now at now,
      vended := (if activationTerminal nx then at_or_now at now else vended w)\<rparr>"
    using assms(1) by (auto simp: TransitionActivation_def Let_def split: if_splits)
  note n = NormalizeActivation_Inr [OF w(1)]
  have "vstatus v \<noteq> []" using assms(2) by (auto simp: validActivationStatus_def)
  then have st: "vstatus w = vstatus v" by (rule n(6))
  show "vid u = trim_space (vid v)" "vagent u = trim_space (vagent v)" "vstatus u = nx"
    "activationTransitionAllowed (vstatus v) nx" "vattempt v > 0 \<Longrightarrow> vattempt u = vattempt v"
    "vrev v \<noteq> 0 \<Longrightarrow> vrev u = vrev v + 1"
    using u n w(2) st by simp_all
  show "validActivationStatus nx"
    using w(2) n(5) by (auto simp: activationTransitionAllowed_def validActivationStatus_def split: if_splits)
qed

lemma am_Start_cases:
  assumes "am_Start G g now t io s in0 = (s', r)"
  obtains (same) "fst s' = fst s" "isl r"
  | (new) v where "r = Inr v" "vagent v = trim_space (st_agent in0)" "vid v \<noteq> []" "trimmed (vid v)"
    "map_of (am_acts (fst s)) (vid v) = None"
    "go_get (am_latest (fst s)) [] (vagent v) \<noteq> [] \<Longrightarrow>
       activationTerminal (vstatus (go_get (am_acts (fst s)) zero_activation (go_get (am_latest (fst s)) [] (vagent v))))"
    "vstatus v = ActivationStarting"
    "0 \<le> go_get (am_attempts (fst s)) 0 (vagent v) \<Longrightarrow> vattempt v = go_get (am_attempts (fst s)) 0 (vagent v) + 1"
    "fst s' = (am_put v (fst s))\<lparr>am_attempts := AList.update (vagent v) (vattempt v) (am_attempts (fst s))\<rparr>"
proof -
  let ?m = "fst s" and ?agent = "trim_space (st_agent in0)"
  let ?lid = "go_get (am_latest ?m) [] ?agent" and ?att = "go_get (am_attempts ?m) 0 ?agent + 1"
  define i where "i = (if trim_space (st_id in0) = [] then ''activation:'' @ ?agent @ '':'' @ itoa (nat ?att)
    else trim_space (st_id in0))"
  define v0 where "v0 = zero_activation\<lparr>vid := i, vagent := ?agent, vattempt := ?att,
    vprovider := trim_space (st_provider in0), vsession := trim_space (st_session in0),
    vprocess := trim_space (st_process in0), vstatus := ActivationStarting\<rparr>"
  have start: "am_Start G g now t io s in0 =
     (if ?agent = [] \<or> trim_space (st_provider in0) = [] then (s, Inl ErrInvalidActivation)
      else case gr_Agent g ?agent of
        None \<Rightarrow> (s, Inl ErrAgentNotFound)
      | Some a \<Rightarrow>
          if agentTerminal (astatus a) then (s, Inl ErrActivationAgentTerminal)
          else if ?lid \<noteq> [] \<and> \<not> activationTerminal (vstatus (go_get (am_acts ?m) zero_activation ?lid))
            then (s, Inl ErrActivationBusy)
          else if map_of (am_acts ?m) i \<noteq> None then (s, Inl ErrActivationBusy)
          else case NormalizeActivation now v0 of
                 Inl x \<Rightarrow> (s, Inl x)
               | Inr v \<Rightarrow>
                   (case am_appendLocked G t io s eventActivationStarted v (''activation:start:'' @ vid v) of
                      (es', Some x) \<Rightarrow> ((?m, es'), Inl (AgentEvents x))
                    | (es', None) \<Rightarrow> (((am_put v ?m)\<lparr>am_attempts := AList.update (vagent v) (vattempt v) (am_attempts ?m)\<rparr>,
                         es'), Inr v)))"
    unfolding am_Start_def Let_def i_def v0_def by (simp cong: if_cong option.case_cong sum.case_cong split: prod.split option.split)
  show ?thesis
  proof (cases "NormalizeActivation now v0")
    case (Inl x)
    then have "fst (fst (am_Start G g now t io s in0)) = fst s \<and> isl (snd (am_Start G g now t io s in0))"
      unfolding start by (simp split: option.split)
    then show ?thesis using same assms by simp
  next
    case (Inr v)
    obtain es' err where app: "am_appendLocked G t io s eventActivationStarted v (''activation:start:'' @ vid v) = (es', err)"
      by fastforce
    show ?thesis
    proof (cases "\<not> (?agent = [] \<or> trim_space (st_provider in0) = []) \<and>
        (\<exists>a. gr_Agent g ?agent = Some a \<and> \<not> agentTerminal (astatus a)) \<and>
        \<not> (?lid \<noteq> [] \<and> \<not> activationTerminal (vstatus (go_get (am_acts ?m) zero_activation ?lid))) \<and>
        map_of (am_acts ?m) i = None \<and> err = None")
      case False
      then have "fst (fst (am_Start G g now t io s in0)) = fst s \<and> isl (snd (am_Start G g now t io s in0))"
        unfolding start using Inr app
        by (auto simp del: map_of_eq_None_iff split: option.split if_split)
      then show ?thesis using same assms by simp
    next
      case True
      then obtain a where a: "gr_Agent g ?agent = Some a" "\<not> agentTerminal (astatus a)" by blast
      have "am_Start G g now t io s in0 = (((am_put v ?m)\<lparr>am_attempts :=
          AList.update (vagent v) (vattempt v) (am_attempts ?m)\<rparr>, es'), Inr v)"
        unfolding start using True a Inr app by (simp del: map_of_eq_None_iff)
      with assms have h0: "r = Inr v"
        "fst s' = (am_put v ?m)\<lparr>am_attempts := AList.update (vagent v) (vattempt v) (am_attempts ?m)\<rparr>" by auto
      have h: "map_of (am_acts ?m) i = None" "r = Inr v"
        "?lid \<noteq> [] \<Longrightarrow> activationTerminal (vstatus (go_get (am_acts ?m) zero_activation ?lid))"
        "fst s' = (am_put v ?m)\<lparr>am_attempts := AList.update (vagent v) (vattempt v) (am_attempts ?m)\<rparr>"
        using True h0 by blast+
      note n = NormalizeActivation_Inr [OF Inr]
      have ag: "vagent v = ?agent" using n(3) by (simp add: v0_def)
      have tr: "trimmed i"
        using trimmed_number_key [of "CHR ''a''" "''ctivation:'' @ ?agent @ '':''" "nat ?att"]
        by (simp add: i_def plain_char_def)
      have vid: "vid v = i" using n(1) tr by (simp add: v0_def trimmed_def)
      have st: "vstatus v = ActivationStarting" using n(6) by (simp add: v0_def)
      have att: "0 \<le> go_get (am_attempts ?m) 0 ?agent \<Longrightarrow> vattempt v = ?att" using n(4) by (simp add: v0_def)
      show ?thesis
        by (rule new [OF h(2) ag n(2)]) (use h ag vid tr st att in simp_all)
    qed
  qed
qed

lemma am_TransitionCAS_cases:
  assumes "am_TransitionCAS G now t io s i0 expected nx at = (s', r)"
  obtains (same) "fst s' = fst s" "isl r"
  | (new) c u where "map_of (am_acts (fst s)) (trim_space i0) = Some c" "expected \<noteq> 0" "vrev c = expected"
    "TransitionActivation now c nx at = Inr u" "r = Inr u"
    "fst s' = (fst s)\<lparr>am_acts := AList.update (trim_space i0) u (am_acts (fst s)),
       am_latest := AList.update (vagent u) (vid u) (am_latest (fst s))\<rparr>"
proof (cases "map_of (am_acts (fst s)) (trim_space i0)")
  case None
  with assms same show ?thesis by (auto simp: am_TransitionCAS_def)
next
  case (Some c)
  show ?thesis
  proof (cases "TransitionActivation now c nx at")
    case (Inl x)
    with Some have "fst (fst (am_TransitionCAS G now t io s i0 expected nx at)) = fst s \<and>
        isl (snd (am_TransitionCAS G now t io s i0 expected nx at))"
      by (simp add: am_TransitionCAS_def Let_def)
    then show ?thesis using same assms by simp
  next
    case (Inr u)
    obtain es' err where app: "am_appendLocked G t io s eventActivationTransitioned u
      (''activation:transition:'' @ trim_space i0 @ '':'' @ itoa (unat (vrev u))) = (es', err)" by fastforce
    show ?thesis
    proof (cases "expected = 0 \<or> expected \<noteq> vrev c \<or> err \<noteq> None")
      case True
      with assms Some Inr app have "fst s' = fst s \<and> isl r"
        by (auto simp: am_TransitionCAS_def Let_def split: if_splits)
      then show ?thesis using same by blast
    next
      case False
      with assms Some Inr app have "r = Inr u" "fst s' = (fst s)\<lparr>am_acts := AList.update (trim_space i0) u (am_acts (fst s)),
         am_latest := AList.update (vagent u) (vid u) (am_latest (fst s))\<rparr>"
        by (auto simp: am_TransitionCAS_def Let_def)
      with False show ?thesis using new [OF Some _ _ Inr] by blast
    qed
  qed
qed

section \<open>Invariants\<close>

text \<open>
  Keys agree with ids, statuses are valid, attempts are positive and bounded by the counter of
  the agent, and no two activations of an agent share an attempt number.
\<close>

definition act_ok :: "activation_manager \<Rightarrow> string \<Rightarrow> agent_activation \<Rightarrow> bool" where
  "act_ok m i v \<longleftrightarrow> vid v = i \<and> i \<noteq> [] \<and> trimmed i \<and> trimmed (vagent v) \<and> validActivationStatus (vstatus v) \<and>
     0 < vattempt v \<and> vattempt v \<le> go_get (am_attempts m) 0 (vagent v)"

definition am_inv :: "activation_manager \<Rightarrow> bool" where
  "am_inv m \<longleftrightarrow> (\<forall>a. 0 \<le> go_get (am_attempts m) 0 a) \<and>
     (\<forall>i v. map_of (am_acts m) i = Some v \<longrightarrow> act_ok m i v) \<and>
     (\<forall>i j v w. map_of (am_acts m) i = Some v \<longrightarrow> map_of (am_acts m) j = Some w \<longrightarrow>
        vagent v = vagent w \<longrightarrow> vattempt v = vattempt w \<longrightarrow> i = j)"

text \<open>A live activation is the latest one of its agent.\<close>

definition live_latest :: "activation_manager \<Rightarrow> bool" where
  "live_latest m \<longleftrightarrow> (\<forall>i v. map_of (am_acts m) i = Some v \<longrightarrow> \<not> activationTerminal (vstatus v) \<longrightarrow>
     map_of (am_latest m) (vagent v) = Some i)"

inductive am_step :: "('z) goenv_scheme \<Rightarrow> am_state \<Rightarrow> am_state \<Rightarrow> bool" for G where
  start: "am_Start G g now t io s input = (s', r) \<Longrightarrow> am_step G s s'"
| transition: "am_TransitionCAS G now t io s i expected nx at = (s', r) \<Longrightarrow> am_step G s s'"

lemma go_get_update: "go_get (AList.update k v m) z x = (if x = k then v else go_get m z x)"
  by (simp add: go_get_def)

lemma am_start_inv:
  assumes "am_Start G g now t io s input = (s', r)" and "am_inv (fst s)"
  shows "am_inv (fst s')"
  using assms(1)
proof (cases rule: am_Start_cases)
  case same
  with assms(2) show ?thesis by simp
next
  case (new v)
  let ?m = "fst s" and ?m' = "fst s'"
  have I: "\<And>a. 0 \<le> go_get (am_attempts ?m) 0 a" "\<And>i w. map_of (am_acts ?m) i = Some w \<Longrightarrow> act_ok ?m i w"
    "\<And>i j w x. map_of (am_acts ?m) i = Some w \<Longrightarrow> map_of (am_acts ?m) j = Some x \<Longrightarrow>
        vagent w = vagent x \<Longrightarrow> vattempt w = vattempt x \<Longrightarrow> i = j"
    using assms(2) unfolding am_inv_def by blast+
  have att: "vattempt v = go_get (am_attempts ?m) 0 (vagent v) + 1" using new(8) I(1) by blast
  have acts: "map_of (am_acts ?m') = (map_of (am_acts ?m))(vid v \<mapsto> v)"
    and atts: "go_get (am_attempts ?m') 0 a = (if a = vagent v then vattempt v else go_get (am_attempts ?m) 0 a)" for a
    using new(9) by (simp_all add: am_put_def go_get_update)
  have okv: "act_ok ?m' (vid v) v"
    using new(2-4,7) att I(1) [of "vagent v"] by (simp add: act_ok_def atts validActivationStatus_def)
  have ok: "act_ok ?m' i w" if "map_of (am_acts ?m) i = Some w" for i w
    using I(2) [OF that] att by (auto simp: act_ok_def atts)
  have less: "vattempt w < vattempt v" if "map_of (am_acts ?m) i = Some w" "vagent w = vagent v" for i w
    using I(2) [OF that(1)] that(2) att by (simp add: act_ok_def)
  show ?thesis unfolding am_inv_def
  proof (intro conjI allI impI)
    show "0 \<le> go_get (am_attempts ?m') 0 a" for a using I(1) att by (simp add: atts)
    show "act_ok ?m' i w" if "map_of (am_acts ?m') i = Some w" for i w
      using that ok okv unfolding acts by (auto split: if_splits)
    show "i = j" if "map_of (am_acts ?m') i = Some w" "map_of (am_acts ?m') j = Some x"
      "vagent w = vagent x" "vattempt w = vattempt x" for i j w x
      using that I(3) less unfolding acts by (auto split: if_splits) (metis less_irrefl)+
  qed
qed

lemma am_transition_facts:
  assumes "am_TransitionCAS G now t io s i0 expected nx at = (s', Inr u)" and "am_inv (fst s)"
  shows "\<exists>c. map_of (am_acts (fst s)) (trim_space i0) = Some c \<and> vrev c = expected \<and> expected \<noteq> 0 \<and>
    activationTransitionAllowed (vstatus c) nx \<and> vid u = trim_space i0 \<and> vagent u = vagent c \<and>
    vattempt u = vattempt c \<and> vstatus u = nx \<and> vrev u = expected + 1 \<and> validActivationStatus nx \<and>
    fst s' = (fst s)\<lparr>am_acts := AList.update (trim_space i0) u (am_acts (fst s)),
       am_latest := AList.update (vagent c) (trim_space i0) (am_latest (fst s))\<rparr>"
  using assms(1)
proof (cases rule: am_TransitionCAS_cases)
  case (new c w)
  have wu: "w = u" using new(5) by simp
  have ok: "act_ok (fst s) (trim_space i0) c" using assms(2) new(1) unfolding am_inv_def by blast
  then have v: "validActivationStatus (vstatus c)" by (simp add: act_ok_def)
  note t = TransitionActivation_Inr [OF new(4) [unfolded wu] v]
  have ids: "vid u = trim_space i0" "vagent u = vagent c" "vattempt u = vattempt c"
    using t(1,2,5) ok by (simp_all add: act_ok_def trimmed_def)
  have rv: "vrev u = expected + 1" using t(6) new(2,3) by simp
  have eq: "fst s' = (fst s)\<lparr>am_acts := AList.update (trim_space i0) u (am_acts (fst s)),
       am_latest := AList.update (vagent c) (trim_space i0) (am_latest (fst s))\<rparr>"
    using new(6) unfolding wu ids(1,2) .
  show ?thesis by (intro exI [of _ c] conjI new(1,2,3) t(3,4,7) ids rv eq)
qed simp

lemma am_transition_inv:
  assumes "am_TransitionCAS G now t io s i0 expected nx at = (s', r)" and "am_inv (fst s)"
  shows "am_inv (fst s')"
proof (cases r)
  case (Inl x)
  from assms(1) show ?thesis
    by (cases rule: am_TransitionCAS_cases) (use Inl assms(2) in simp_all)
next
  case (Inr u)
  let ?m = "fst s" and ?m' = "fst s'" and ?i = "trim_space i0"
  obtain c where c: "map_of (am_acts ?m) ?i = Some c" "vid u = ?i" "vagent u = vagent c" "vattempt u = vattempt c"
    "vstatus u = nx" "validActivationStatus nx"
    "?m' = ?m\<lparr>am_acts := AList.update ?i u (am_acts ?m), am_latest := AList.update (vagent c) ?i (am_latest ?m)\<rparr>"
    using am_transition_facts [OF assms(1) [unfolded Inr] assms(2)] by blast
  have I: "\<And>a. 0 \<le> go_get (am_attempts ?m) 0 a" "\<And>i w. map_of (am_acts ?m) i = Some w \<Longrightarrow> act_ok ?m i w"
    "\<And>i j w x. map_of (am_acts ?m) i = Some w \<Longrightarrow> map_of (am_acts ?m) j = Some x \<Longrightarrow>
        vagent w = vagent x \<Longrightarrow> vattempt w = vattempt x \<Longrightarrow> i = j"
    using assms(2) unfolding am_inv_def by blast+
  have okc: "act_ok ?m' ?i u" using I(2) [OF c(1)] c by (simp add: act_ok_def)
  have ok: "act_ok ?m' i w" if "map_of (am_acts ?m) i = Some w" for i w
    using I(2) [OF that] c(7) by (simp add: act_ok_def)
  show ?thesis unfolding am_inv_def
  proof (intro conjI allI impI)
    show "0 \<le> go_get (am_attempts ?m') 0 a" for a using I(1) c(7) by simp
    show "act_ok ?m' i w" if "map_of (am_acts ?m') i = Some w" for i w
      using that ok okc unfolding c(7) by (auto split: if_splits)
    show "i = j" if h: "map_of (am_acts ?m') i = Some w" "map_of (am_acts ?m') j = Some x"
      "vagent w = vagent x" "vattempt w = vattempt x" for i j w x
    proof -
      define old where "old k y = (if k = ?i then c else y)" for k y
      have o: "map_of (am_acts ?m) i = Some (old i w)" "map_of (am_acts ?m) j = Some (old j x)"
        "vagent (old i w) = vagent w" "vattempt (old i w) = vattempt w"
        "vagent (old j x) = vagent x" "vattempt (old j x) = vattempt x"
        using h(1,2) c unfolding old_def by (auto split: if_splits)
      show ?thesis using I(3) [OF o(1,2)] o(3-6) h(3,4) by simp
    qed
  qed
qed

lemma am_step_inv: "am_step G s s' \<Longrightarrow> am_inv (fst s) \<Longrightarrow> am_inv (fst s')"
  by (induction rule: am_step.induct) (auto intro: am_start_inv am_transition_inv)

lemma am_steps_inv: "(am_step G)\<^sup>*\<^sup>* s s' \<Longrightarrow> am_inv (fst s) \<Longrightarrow> am_inv (fst s')"
  by (induction rule: rtranclp_induct) (auto intro: am_step_inv)

lemma am_inv_empty: "am_acts m = [] \<Longrightarrow> am_attempts m = [] \<Longrightarrow> am_inv m"
  by (simp add: am_inv_def go_get_def)

section \<open>Properties\<close>

text \<open>
  Attempt numbers identify the incarnations of an agent: in every state reached by \<open>Start\<close>,
  \<open>TransitionCAS\<close> and \<open>MarkLost\<close> calls, two different activations of the same agent have different
  positive attempt numbers, none above the counter from which the next start takes its number.
\<close>

theorem activation_attempts_unique:
  assumes "(am_step G)\<^sup>*\<^sup>* (m0, es0) (m, es)" and "am_acts m0 = []" and "am_attempts m0 = []"
    and "map_of (am_acts m) i = Some v" and "map_of (am_acts m) j = Some w" and "i \<noteq> j" and "vagent v = vagent w"
  shows "vattempt v \<noteq> vattempt w \<and> 0 < vattempt v \<and> vattempt v \<le> go_get (am_attempts m) 0 (vagent v)"
proof -
  have inv: "am_inv m" using am_steps_inv [OF assms(1)] am_inv_empty [OF assms(2,3)] by simp
  then show ?thesis using assms(4-7) unfolding am_inv_def act_ok_def by metis
qed

definition demo_am0 :: am_state where
  "demo_am0 = (\<lparr>am_ws = ''w'', am_task = ''t'', am_acts = [], am_latest = [], am_attempts = []\<rparr>, Some empty_evstore)"

definition demo_input :: activation_start where
  "demo_input = \<lparr>st_id = [], st_agent = ''bob'', st_provider = ''local'', st_session = [], st_process = []\<rparr>"

definition demo_start :: "am_state \<Rightarrow> am_state" where
  "demo_start s = fst (am_Start demo_env (fst demo_gr2) 7 7 WOk s demo_input)"

definition demo_lost :: "u64 \<Rightarrow> am_state \<Rightarrow> am_state" where
  "demo_lost r s = fst (MarkLost demo_env 8 8 WOk s ''activation:bob:1'' r 8)"

definition demo_am3 :: am_state where
  "demo_am3 = demo_start (demo_lost 1 (demo_start demo_am0))"

lemma demo_am3_acts:
  "map (\<lambda>(i, v). (i, vagent v, vattempt v, vstatus v, vrev v)) (am_acts (fst demo_am3)) =
     [(''activation:bob:1'', ''bob'', 1, ''lost'', 2), (''activation:bob:2'', ''bob'', 2, ''starting'', 1)]"
  by code_simp

lemma demo_step: "am_step demo_env s (demo_start s)" "am_step demo_env s (demo_lost r s)"
  unfolding demo_start_def demo_lost_def MarkLost_def
  by (rule am_step.start [OF prod.collapse [symmetric]], rule am_step.transition [OF prod.collapse [symmetric]])

lemma demo_am3_reachable: "(am_step demo_env)\<^sup>*\<^sup>* demo_am0 demo_am3"
proof -
  have a: "(am_step demo_env)\<^sup>*\<^sup>* s (demo_start s)" for s by (rule r_into_rtranclp, rule demo_step)
  have b: "(am_step demo_env)\<^sup>*\<^sup>* s (demo_lost r s)" for s r by (rule r_into_rtranclp, rule demo_step)
  show ?thesis unfolding demo_am3_def by (rule rtranclp_trans [OF rtranclp_trans [OF a b] a])
qed

lemma demo_am0_empty: "am_acts (fst demo_am0) = []" "am_attempts (fst demo_am0) = []"
  by (simp_all add: demo_am0_def)

theorem activation_attempts_unique_witness:
  "\<exists>v w. map_of (am_acts (fst demo_am3)) ''activation:bob:1'' = Some v \<and>
     map_of (am_acts (fst demo_am3)) ''activation:bob:2'' = Some w \<and> vattempt v \<noteq> vattempt w"
proof -
  obtain v w where "am_acts (fst demo_am3) = [(''activation:bob:1'', v), (''activation:bob:2'', w)]"
      "vagent v = ''bob''" "vagent w = ''bob''"
    using demo_am3_acts by (auto simp: map_eq_Cons_conv)
  then have vw: "map_of (am_acts (fst demo_am3)) ''activation:bob:1'' = Some v" "vagent v = ''bob''"
    "map_of (am_acts (fst demo_am3)) ''activation:bob:2'' = Some w" "vagent w = ''bob''" by simp_all
  have run: "(am_step demo_env)\<^sup>*\<^sup>* (fst demo_am0, snd demo_am0) (fst demo_am3, snd demo_am3)"
    using demo_am3_reachable by (simp only: prod.collapse)
  have "vattempt v \<noteq> vattempt w"
    using activation_attempts_unique [OF run demo_am0_empty vw(1,3)] vw(2,4) by simp
  with vw show ?thesis by blast
qed

text \<open>Runs in which no finished activation is transitioned again.\<close>

inductive am_live_step :: "('z) goenv_scheme \<Rightarrow> am_state \<Rightarrow> am_state \<Rightarrow> bool" for G where
  live_start: "am_Start G g now t io s input = (s', r) \<Longrightarrow> am_live_step G s s'"
| live_transition: "am_TransitionCAS G now t io s i expected nx at = (s', r) \<Longrightarrow>
    (\<And>c. map_of (am_acts (fst s)) (trim_space i) = Some c \<Longrightarrow> \<not> activationTerminal (vstatus c)) \<Longrightarrow>
    am_live_step G s s'"

lemma live_start_latest:
  assumes "am_Start G g now t io s input = (s', r)" and "am_inv (fst s)" and "live_latest (fst s)"
  shows "live_latest (fst s')"
  using assms(1)
proof (cases rule: am_Start_cases)
  case same
  with assms(3) show ?thesis by simp
next
  case (new v)
  have acts: "map_of (am_acts (fst s')) = (map_of (am_acts (fst s)))(vid v \<mapsto> v)"
    and lat: "map_of (am_latest (fst s')) = (map_of (am_latest (fst s)))(vagent v \<mapsto> vid v)"
    using new(9) by (simp_all add: am_put_def)
  have other: "vagent w \<noteq> vagent v" if w: "map_of (am_acts (fst s)) i = Some w" "\<not> activationTerminal (vstatus w)" for i w
  proof
    assume eq: "vagent w = vagent v"
    have "map_of (am_latest (fst s)) (vagent w) = Some i" using assms(3) w unfolding live_latest_def by blast
    moreover have "i \<noteq> []" using assms(2) w(1) unfolding am_inv_def act_ok_def by blast
    ultimately show False using new(6) w eq by (simp add: go_get_def)
  qed
  show ?thesis unfolding live_latest_def
  proof (intro allI impI)
    fix i w assume h: "map_of (am_acts (fst s')) i = Some w" "\<not> activationTerminal (vstatus w)"
    show "map_of (am_latest (fst s')) (vagent w) = Some i"
    proof (cases "i = vid v")
      case True
      with h(1) show ?thesis unfolding acts lat by simp
    next
      case False
      then have w: "map_of (am_acts (fst s)) i = Some w" using h(1) unfolding acts by simp
      with other [OF w h(2)] assms(3) h(2) show ?thesis unfolding lat live_latest_def by simp
    qed
  qed
qed

lemma live_transition_latest:
  assumes "am_TransitionCAS G now t io s i0 expected nx at = (s', r)" and "am_inv (fst s)" and "live_latest (fst s)"
    and "\<And>c. map_of (am_acts (fst s)) (trim_space i0) = Some c \<Longrightarrow> \<not> activationTerminal (vstatus c)"
  shows "live_latest (fst s')"
proof (cases r)
  case (Inl x)
  from assms(1) show ?thesis
    by (cases rule: am_TransitionCAS_cases) (use Inl assms(3) in simp_all)
next
  case (Inr u)
  let ?i = "trim_space i0"
  obtain c where c: "map_of (am_acts (fst s)) ?i = Some c" "vagent u = vagent c"
    "fst s' = (fst s)\<lparr>am_acts := AList.update ?i u (am_acts (fst s)), am_latest := AList.update (vagent c) ?i (am_latest (fst s))\<rparr>"
    using am_transition_facts [OF assms(1) [unfolded Inr] assms(2)] by blast
  have lc: "map_of (am_latest (fst s)) (vagent c) = Some ?i"
    using assms(3) c(1) assms(4) [OF c(1)] unfolding live_latest_def by blast
  show ?thesis unfolding live_latest_def
  proof (intro allI impI)
    fix j w assume h: "map_of (am_acts (fst s')) j = Some w" "\<not> activationTerminal (vstatus w)"
    show "map_of (am_latest (fst s')) (vagent w) = Some j"
    proof (cases "j = ?i")
      case True
      with h(1) c(2) show ?thesis unfolding c(3) by simp
    next
      case False
      then have w: "map_of (am_acts (fst s)) j = Some w" using h(1) unfolding c(3) by simp
      then have "map_of (am_latest (fst s)) (vagent w) = Some j" using assms(3) h(2) unfolding live_latest_def by blast
      with lc False show ?thesis unfolding c(3) by (cases "vagent w = vagent c") auto
    qed
  qed
qed

lemma am_live_steps:
  assumes "(am_live_step G)\<^sup>*\<^sup>* s s'" and "am_inv (fst s)" and "live_latest (fst s)"
  shows "am_inv (fst s') \<and> live_latest (fst s')"
  using assms
proof (induction rule: rtranclp_induct)
  case (step s1 s2)
  then have I: "am_inv (fst s1)" "live_latest (fst s1)" by blast+
  from step.hyps(2) show ?case
  proof cases
    case (live_start g now t io input r)
    then show ?thesis using am_start_inv live_start_latest I by metis
  next
    case (live_transition now t io i expected nx at r)
    then show ?thesis using am_transition_inv [OF live_transition(1) I(1)] live_transition_latest [OF live_transition(1) I] by blast
  qed
qed simp

text \<open>
  C36. One live incarnation per agent: as long as no finished activation is transitioned again,
  an agent never has two live activations, and its live activation is the latest one, which
  \<open>HasLive\<close> reports.
\<close>

theorem activation_single_live:
  assumes "(am_live_step G)\<^sup>*\<^sup>* (m0, es0) (m, es)" and "am_acts m0 = []" and "am_attempts m0 = []"
    and "map_of (am_acts m) i = Some v" and "\<not> activationTerminal (vstatus v)"
  shows "HasLive m (vagent v) \<and> am_Latest m (vagent v) = Some v \<and>
    (\<forall>j w. map_of (am_acts m) j = Some w \<and> vagent w = vagent v \<and> \<not> activationTerminal (vstatus w) \<longrightarrow> j = i)"
proof -
  have "live_latest m0" using assms(2) by (simp add: live_latest_def)
  then have inv: "am_inv m" "live_latest m"
    using am_live_steps [OF assms(1)] am_inv_empty [OF assms(2,3)] by simp_all
  have l: "map_of (am_latest m) (vagent v) = Some i" using inv(2) assms(4,5) unfolding live_latest_def by blast
  have ok: "i \<noteq> []" "trim_space (vagent v) = vagent v"
    using inv(1) assms(4) unfolding am_inv_def act_ok_def trimmed_def by blast+
  have "am_Latest m (vagent v) = Some v" using l ok assms(4) by (simp add: am_Latest_def go_get_def)
  moreover have "j = i" if "map_of (am_acts m) j = Some w" "vagent w = vagent v" "\<not> activationTerminal (vstatus w)" for j w
  proof -
    have "map_of (am_latest m) (vagent w) = Some j" using inv(2) that(1,3) unfolding live_latest_def by blast
    with l that(2) show ?thesis by simp
  qed
  ultimately show ?thesis using assms(5) by (auto simp: HasLive_def)
qed

theorem activation_single_live_witness:
  "\<exists>v. map_of (am_acts (fst (demo_start demo_am0))) ''activation:bob:1'' = Some v \<and>
     HasLive (fst (demo_start demo_am0)) ''bob'' \<and> am_Latest (fst (demo_start demo_am0)) ''bob'' = Some v"
proof -
  let ?s = "demo_start demo_am0"
  have "map_option (\<lambda>v. (vagent v, activationTerminal (vstatus v))) (map_of (am_acts (fst ?s)) ''activation:bob:1'') =
    Some (''bob'', False)" by code_simp
  then obtain v where v: "map_of (am_acts (fst ?s)) ''activation:bob:1'' = Some v" "vagent v = ''bob''"
    "\<not> activationTerminal (vstatus v)" by blast
  have "am_live_step demo_env demo_am0 ?s"
    unfolding demo_start_def by (rule am_live_step.live_start [OF prod.collapse [symmetric]])
  then have "(am_live_step demo_env)\<^sup>*\<^sup>* (fst demo_am0, snd demo_am0) (fst ?s, snd ?s)"
    by (simp only: prod.collapse r_into_rtranclp)
  from activation_single_live [OF this demo_am0_empty v(1,3)] v show ?thesis by simp
qed

definition demo_am5 :: am_state where
  "demo_am5 = demo_start (demo_lost 2 demo_am3)"

text \<open>
  The condition of the single-live property is needed. \<open>activationTransitionAllowed\<close> accepts
  a transition from a status to itself, for a finished activation too, and \<open>TransitionCAS\<close> makes
  the activation it moved the latest one. Marking an old lost activation lost a second time hides the
  live one, so that the next \<open>Start\<close> gives the agent two live activations, and the log it leaves
  behind is refused by \<open>NewActivationManager\<close>.
\<close>

theorem activation_two_live:
  "map (\<lambda>(i, v). (i, vstatus v)) (am_acts (fst demo_am5)) =
     [(''activation:bob:1'', ActivationLost), (''activation:bob:2'', ActivationStarting),
      (''activation:bob:3'', ActivationStarting)] \<and>
   NewActivationManager demo_env (snd demo_am5) ''w'' ''t'' (Some (fst demo_gr2)) = Inl ErrInvalidActivationManager"
proof -
  let ?p = "eventPath demo_env ''w'' ''t''"
  let ?m = "\<lparr>am_ws = ''w'', am_task = ''t'', am_acts = [], am_latest = [], am_attempts = []\<rparr> :: activation_manager"
  have "case demo_am5 of (m, None) \<Rightarrow> False | (m, Some es) \<Rightarrow>
    map (\<lambda>(i, v). (i, vstatus v)) (am_acts m) =
      [(''activation:bob:1'', ActivationLost), (''activation:bob:2'', ActivationStarting),
       (''activation:bob:3'', ActivationStarting)] \<and>
    wf_from 0 (ev_files es ?p) \<and> length (ev_files es ?p) = 5 \<and> length (log_events (ev_files es ?p)) = 5 \<and>
    am_replay (fst demo_gr2) ?m (log_events (ev_files es ?p)) = Inl ErrInvalidActivationManager"
    by code_simp
  then obtain m es where es: "demo_am5 = (m, Some es)"
    "map (\<lambda>(i, v). (i, vstatus v)) (am_acts m) =
      [(''activation:bob:1'', ActivationLost), (''activation:bob:2'', ActivationStarting),
       (''activation:bob:3'', ActivationStarting)]"
    "wf_from 0 (ev_files es ?p)" "length (ev_files es ?p) = 5" "length (log_events (ev_files es ?p)) = 5"
    "am_replay (fst demo_gr2) ?m (log_events (ev_files es ?p)) = Inl ErrInvalidActivationManager"
    by (simp split: prod.splits option.splits)
  have w: "validateScope ''w'' ''t''" "trim_space ''w'' = ''w''" "trim_space ''t'' = ''t''"
    "gr_task (fst demo_gr2) = ''t''" by code_simp+
  have "ev_list demo_env es ''w'' ''t'' 0 5000 = Inr (log_events (ev_files es ?p))"
    using ev_list_wf [OF w(1) es(3)] es(4,5) by (simp add: clamp_limit_def)
  with es(2-6) w show ?thesis unfolding es(1) by (simp add: NewActivationManager_def Let_def)
qed

end
