(* ===== verification/GoText.thy ===== *)
theory GoText
  imports Prelude
begin

text \<open>
  The text-processing part of the Go standard library that the security policy uses: the
  functions of \<open>strings\<close> on bytes, the regular expressions of \<open>regexp\<close> (leftmost-first matching,
  as a list of successes in order of preference), and the lexical functions of \<open>path/filepath\<close>
  on Unix. The special characters are all ASCII, so working on the bytes of a string gives what
  the library gives on its runes; where the code rebuilds a string rune by rune, an invalid byte
  becomes U+FFFD, which is \<open>utf8_coerce\<close>.
\<close>

section \<open>Package strings\<close>

definition has_prefix :: "string \<Rightarrow> string \<Rightarrow> bool" where
  "has_prefix s p \<longleftrightarrow> take (length p) s = p"

definition has_suffix :: "string \<Rightarrow> string \<Rightarrow> bool" where
  "has_suffix s p \<longleftrightarrow> has_prefix (rev s) (rev p)"

fun str_contains :: "string \<Rightarrow> string \<Rightarrow> bool" where
  "str_contains [] p = (p = [])"
| "str_contains (c # cs) p = (has_prefix (c # cs) p \<or> str_contains cs p)"

definition contains_any :: "string \<Rightarrow> string \<Rightarrow> bool" where
  "contains_any s chars = list_ex (\<lambda>c. c \<in> set chars) s"

definition trim_prefix :: "string \<Rightarrow> string \<Rightarrow> string" where
  "trim_prefix s p = (if has_prefix s p then drop (length p) s else s)"

text \<open>\<open>strings.ReplaceAll\<close> of one byte by another.\<close>

definition replace_char :: "char \<Rightarrow> char \<Rightarrow> string \<Rightarrow> string" where
  "replace_char a b s = map (\<lambda>c. if c = a then b else c) s"

definition trim_char :: "char \<Rightarrow> string \<Rightarrow> string" where
  "trim_char c s = rev (dropWhile (\<lambda>d. d = c) (rev (dropWhile (\<lambda>d. d = c) s)))"

fun split_on :: "char \<Rightarrow> string \<Rightarrow> string list" where
  "split_on d [] = [[]]"
| "split_on d (c # cs) =
     (if c = d then [] # split_on d cs
      else case split_on d cs of [] \<Rightarrow> [[c]] | w # ws \<Rightarrow> (c # w) # ws)"

fun str_join :: "string \<Rightarrow> string list \<Rightarrow> string" where
  "str_join sep [] = []"
| "str_join sep [w] = w"
| "str_join sep (w # ws) = w @ sep @ str_join sep ws"

text \<open>\<open>strings.Cut\<close> at the first occurrence of a byte.\<close>

definition str_cut :: "char \<Rightarrow> string \<Rightarrow> (string \<times> string) option" where
  "str_cut d s = (if d \<in> set s then Some (takeWhile (\<lambda>c. c \<noteq> d) s, tl (dropWhile (\<lambda>c. c \<noteq> d) s)) else None)"

text \<open>\<open>strings.Fields\<close>: the maximal runs without white space.\<close>

definition flush_word :: "string \<Rightarrow> string list \<Rightarrow> string list" where
  "flush_word cur ws = (if cur = [] then ws else cur # ws)"

function str_fields :: "string \<Rightarrow> string \<Rightarrow> string list" where
  "str_fields cur s =
     (case s of
        [] \<Rightarrow> flush_word cur []
      | c # cs \<Rightarrow>
          (let n = lead_space space_codes s in
           if n = 0 then str_fields (cur @ [c]) cs else flush_word cur (str_fields [] (drop n s))))"
  by pat_completeness auto
termination
  by (relation "measure (\<lambda>(cur, s). length s)") auto

declare str_fields.simps [simp del]

definition collapse_space :: "string \<Rightarrow> string" where
  "collapse_space s = str_join '' '' (str_fields [] s)"

text \<open>Removal of repeated values, the first occurrence kept.\<close>

fun uniq_from :: "string list \<Rightarrow> string list \<Rightarrow> string list" where
  "uniq_from seen [] = []"
| "uniq_from seen (v # vs) = (if v \<in> set seen then uniq_from seen vs else v # uniq_from (v # seen) vs)"

lemma set_uniq_from: "set (uniq_from seen vs) = set vs - set seen"
  by (induction seen vs rule: uniq_from.induct) auto

lemma distinct_uniq_from: "distinct (uniq_from seen vs)"
  by (induction seen vs rule: uniq_from.induct) (auto simp: set_uniq_from)

section \<open>Package regexp\<close>

text \<open>
  A position in the text is the character before it and the text that follows.  \<open>rmatch r\<close> lists
  the positions after a match, the preferred one first: alternatives from left to right,
  repetitions greedily.
\<close>

datatype re = RC "char \<Rightarrow> bool" | REmpty | RSeq re re | RAlt re re | RStar re | RBegin | REnd | RWordB

type_synonym repos = "char option \<times> string"

fun rstar :: "(repos \<Rightarrow> repos list) \<Rightarrow> nat \<Rightarrow> repos \<Rightarrow> repos list" where
  "rstar f 0 p = [p]"
| "rstar f (Suc n) p =
     concat (map (\<lambda>q. if length (snd q) < length (snd p) then rstar f n q else []) (f p)) @ [p]"

definition word_char :: "char \<Rightarrow> bool" where
  "word_char c \<longleftrightarrow> (let n = of_char c :: int in
     (48 \<le> n \<and> n \<le> 57) \<or> (65 \<le> n \<and> n \<le> 90) \<or> n = 95 \<or> (97 \<le> n \<and> n \<le> 122))"

definition word_at :: "string \<Rightarrow> bool" where
  "word_at s = (case s of [] \<Rightarrow> False | c # _ \<Rightarrow> word_char c)"

primrec rmatch :: "re \<Rightarrow> repos \<Rightarrow> repos list" where
  "rmatch (RC P) p = (case snd p of [] \<Rightarrow> [] | c # cs \<Rightarrow> if P c then [(Some c, cs)] else [])"
| "rmatch REmpty p = [p]"
| "rmatch (RSeq a b) p = concat (map (rmatch b) (rmatch a p))"
| "rmatch (RAlt a b) p = rmatch a p @ rmatch b p"
| "rmatch (RStar a) p = rstar (rmatch a) (length (snd p)) p"
| "rmatch RBegin p = (if fst p = None then [p] else [])"
| "rmatch REnd p = (if snd p = [] then [p] else [])"
| "rmatch RWordB p =
     (if (case fst p of None \<Rightarrow> False | Some c \<Rightarrow> word_char c) \<noteq> word_at (snd p) then [p] else [])"

definition rseq :: "re list \<Rightarrow> re" where "rseq rs = foldr RSeq rs REmpty"
definition ropt :: "re \<Rightarrow> re" where "ropt r = RAlt r REmpty"
definition rplus :: "re \<Rightarrow> re" where "rplus r = RSeq r (RStar r)"

fun ralt :: "re list \<Rightarrow> re" where
  "ralt [] = RC (\<lambda>_. False)"
| "ralt [r] = r"
| "ralt (r # rs) = RAlt r (ralt rs)"

definition rlit :: "string \<Rightarrow> re" where "rlit s = rseq (map (\<lambda>c. RC (\<lambda>d. d = c)) s)"

text \<open>
  A letter under \<open>(?i)\<close>: both cases, and the two non-ASCII characters that fold to an ASCII
  letter, U+212A (Kelvin sign) to \<open>k\<close> and U+017F (long s) to \<open>s\<close>.
\<close>

definition rchar_i :: "char \<Rightarrow> re" where
  "rchar_i c =
     (let l = ascii_lower c; base = RC (\<lambda>d. ascii_lower d = l) in
      if l = CHR ''k'' then RAlt base (rlit [CHR 0xE2, CHR 0x84, CHR 0xAA])
      else if l = CHR ''s'' then RAlt base (rlit [CHR 0xC5, CHR 0xBF])
      else base)"

definition rlit_i :: "string \<Rightarrow> re" where "rlit_i s = rseq (map rchar_i s)"

text \<open>The class \<open>\s\<close> of the library: tab, newline, form feed, carriage return, space.\<close>

definition is_s :: "char \<Rightarrow> bool" where
  "is_s c \<longleftrightarrow> (let n = of_char c :: int in n = 9 \<or> n = 10 \<or> n = 12 \<or> n = 13 \<or> n = 32)"

fun re_search :: "re \<Rightarrow> char option \<Rightarrow> string \<Rightarrow> bool" where
  "re_search r p [] = (rmatch r (p, []) \<noteq> [])"
| "re_search r p (c # cs) = (rmatch r (p, c # cs) \<noteq> [] \<or> re_search r (Some c) cs)"

definition match_string :: "re \<Rightarrow> string \<Rightarrow> bool" where
  "match_string r s = re_search r None s"

text \<open>
  The preferred match, at one position, of an expression made of a part before the first group,
  the group and a part after it: the positions where the group starts and ends and where the
  match ends.
\<close>

definition group_match :: "re \<Rightarrow> re \<Rightarrow> re \<Rightarrow> repos \<Rightarrow> (repos \<times> repos \<times> repos) option" where
  "group_match a g b p =
     (case concat (map (\<lambda>p1. concat (map (\<lambda>p2. map (\<lambda>p3. (p1, p2, p3)) (rmatch b p2)) (rmatch g p1))) (rmatch a p)) of
        [] \<Rightarrow> None | m # _ \<Rightarrow> Some m)"

definition between :: "string \<Rightarrow> string \<Rightarrow> string" where
  "between s t = take (length s - length t) s"

text \<open>
  \<open>ReplaceAllString\<close> with the template made of the first group and a literal text, for an
  expression that starts with the group and never matches the empty string.
\<close>

function re_replace :: "re \<Rightarrow> re \<Rightarrow> string \<Rightarrow> char option \<Rightarrow> string \<Rightarrow> string" where
  "re_replace g b ins p s =
     (case s of
        [] \<Rightarrow> []
      | c # cs \<Rightarrow>
          (case group_match REmpty g b (p, s) of
             None \<Rightarrow> c # re_replace g b ins (Some c) cs
           | Some (p1, p2, p3) \<Rightarrow>
               if length (snd p3) < length s
               then between s (snd p2) @ ins @ re_replace g b ins (fst p3) (snd p3)
               else c # re_replace g b ins (Some c) cs))"
  by pat_completeness auto
termination
  by (relation "measure (\<lambda>(g, b, ins, p, s). length s)") auto

declare re_replace.simps [simp del]

text \<open>\<open>FindAllStringSubmatch\<close>, the text of the first group of every match.\<close>

function re_groups :: "re \<Rightarrow> re \<Rightarrow> re \<Rightarrow> char option \<Rightarrow> string \<Rightarrow> string list" where
  "re_groups a g b p s =
     (case s of
        [] \<Rightarrow> []
      | c # cs \<Rightarrow>
          (case group_match a g b (p, s) of
             None \<Rightarrow> re_groups a g b (Some c) cs
           | Some (p1, p2, p3) \<Rightarrow>
               if length (snd p3) < length s
               then between (snd p1) (snd p2) # re_groups a g b (fst p3) (snd p3)
               else re_groups a g b (Some c) cs))"
  by pat_completeness auto
termination
  by (relation "measure (\<lambda>(a, g, b, p, s). length s)") auto

declare re_groups.simps [simp del]

section \<open>Package path/filepath on Unix\<close>

abbreviation slash :: char where "slash \<equiv> CHR 0x2F"
abbreviation backslash :: char where "backslash \<equiv> CHR 0x5C"

definition is_abs :: "string \<Rightarrow> bool" where "is_abs p = has_prefix p [slash]"

definition path_base :: "string \<Rightarrow> string" where
  "path_base p =
     (if p = [] then ''.''
      else let q = rev (dropWhile (\<lambda>c. c = slash) (rev p)) in
           if q = [] then [slash] else last (split_on slash q))"

text \<open>The components of a cleaned path, innermost first while they are collected.\<close>

fun clean_comps :: "bool \<Rightarrow> string list \<Rightarrow> string list \<Rightarrow> string list" where
  "clean_comps rooted out [] = rev out"
| "clean_comps rooted out (w # ws) =
     (if w = [] \<or> w = ''.'' then clean_comps rooted out ws
      else if w = ''..'' then
        (case out of
           [] \<Rightarrow> if rooted then clean_comps rooted [] ws else clean_comps rooted [''..''] ws
         | o1 # os \<Rightarrow> if o1 = ''..'' then clean_comps rooted (''..'' # out) ws else clean_comps rooted os ws)
      else clean_comps rooted (w # out) ws)"

definition path_comps :: "string \<Rightarrow> string list" where
  "path_comps p = clean_comps (is_abs p) [] (split_on slash p)"

definition path_clean :: "string \<Rightarrow> string" where
  "path_clean p =
     (if is_abs p then slash # str_join [slash] (path_comps p)
      else if path_comps p = [] then ''.'' else str_join [slash] (path_comps p))"

definition path_join :: "string \<Rightarrow> string \<Rightarrow> string" where
  "path_join a b =
     (case filter (\<lambda>w. w \<noteq> []) [a, b] of [] \<Rightarrow> [] | ws \<Rightarrow> path_clean (str_join [slash] ws))"

text \<open>\<open>filepath.Abs\<close>; \<open>wd\<close> is what \<open>os.Getwd\<close> returns, \<open>None\<close> an error.\<close>

definition path_abs :: "string option \<Rightarrow> string \<Rightarrow> string option" where
  "path_abs wd p = (if is_abs p then Some (path_clean p)
                    else case wd of None \<Rightarrow> None | Some d \<Rightarrow> Some (path_join d p))"

fun strip_common :: "string list \<Rightarrow> string list \<Rightarrow> string list \<times> string list" where
  "strip_common (x # xs) (y # ys) = (if x = y then strip_common xs ys else (x # xs, y # ys))"
| "strip_common xs ys = (xs, ys)"

definition path_rel :: "string \<Rightarrow> string \<Rightarrow> string option" where
  "path_rel base targ =
     (if path_clean base = path_clean targ then Some ''.''
      else if is_abs base \<noteq> is_abs targ then None
      else case strip_common (path_comps base) (path_comps targ) of (bs, ts) \<Rightarrow>
        if ts \<noteq> [] \<and> bs \<noteq> [] \<and> hd bs = ''..'' then None
        else Some (str_join [slash] (replicate (length bs) ''..'' @ ts)))"

section \<open>Facts\<close>

lemma str_contains_iff: "str_contains s p \<longleftrightarrow> (\<exists>a b. s = a @ p @ b)"
proof (induction s)
  case IH: (Cons c cs)
  show ?case
  proof
    assume "str_contains (c # cs) p"
    then consider "has_prefix (c # cs) p" | "str_contains cs p" by auto
    then show "\<exists>a b. c # cs = a @ p @ b"
    proof cases
      case 1
      then have "c # cs = [] @ p @ drop (length p) (c # cs)"
        unfolding has_prefix_def by (metis append_Nil append_take_drop_id)
      then show ?thesis by blast
    next
      case 2
      then obtain a b where "cs = a @ p @ b" using IH.IH by blast
      then have "c # cs = (c # a) @ p @ b" by simp
      then show ?thesis by blast
    qed
  next
    assume "\<exists>a b. c # cs = a @ p @ b"
    then obtain a b where ab: "c # cs = a @ p @ b" by blast
    show "str_contains (c # cs) p"
    proof (cases a)
      case Nil
      with ab have "has_prefix (c # cs) p" by (simp add: has_prefix_def)
      then show ?thesis by simp
    next
      case (Cons x xs)
      with ab have "cs = xs @ p @ b" by simp
      then have "str_contains cs p" using IH.IH by blast
      then show ?thesis by simp
    qed
  qed
qed simp

end
