(* ===== verification/Policy.thy ===== *)
theory Policy
  imports GoText
begin

text \<open>
  The command classifier of \<open>src/internal/security/policy.go\<close>: shell word splitting, \<open>&&\<close> chains,
  redaction of secrets, workspace-escape detection, and \<open>Classify\<close> with the approval keys a
  decision may be remembered under. The risk levels and policies are strings, as in the code,
  because the code compares and stores them as strings.
\<close>

section \<open>Types\<close>

text \<open>
  What the classifier reads from its environment: the upper-case tables beyond ASCII, the home
  directory (\<open>os.UserHomeDir\<close>, empty on error), the working directory (\<open>os.Getwd\<close>) and the host
  \<open>net/url\<close> finds in a text (\<open>None\<close> when the text is no URL).
\<close>

record secenv = goenv +
  upper_unicode :: "string \<Rightarrow> string"
  home_dir :: string
  work_dir :: "string option"
  url_hostname :: "string \<Rightarrow> string option"

abbreviation "RiskSafe \<equiv> ''SAFE''"
abbreviation "RiskReview \<equiv> ''REVIEW''"
abbreviation "RiskHigh \<equiv> ''HIGH''"
abbreviation "RiskCritical \<equiv> ''CRITICAL''"
abbreviation "RiskBlocked \<equiv> ''BLOCKED''"
abbreviation "NetworkDeny \<equiv> ''deny''"
abbreviation "NetworkApproval \<equiv> ''approval''"
abbreviation "NetworkAllow \<equiv> ''allow''"
abbreviation "ApprovalNone \<equiv> ''none''"
abbreviation "ApprovalRememberable \<equiv> ''rememberable''"
abbreviation "ApprovalAlways \<equiv> ''always''"
abbreviation "ApprovalBlocked \<equiv> ''blocked''"

record sec_context =
  WorkspaceRoot :: string
  CWD :: string

record sec_decision =
  d_risk :: string
  d_rules :: "string list"
  d_requires :: bool
  d_blocked :: bool
  d_redacted :: string
  d_reason :: string
  d_policy :: string
  d_key :: string
  d_label :: string

definition empty_context :: sec_context where
  "empty_context = \<lparr>WorkspaceRoot = [], CWD = []\<rparr>"

section \<open>Secrets\<close>

abbreviation ws_star :: re where "ws_star \<equiv> RStar (RC is_s)"
abbreviation ws_plus :: re where "ws_plus \<equiv> rplus (RC is_s)"

definition not_space_quote :: "char \<Rightarrow> bool" where
  "not_space_quote c \<longleftrightarrow> \<not> is_s c \<and> c \<noteq> CHR 0x22 \<and> c \<noteq> CHR 0x27"

definition reBearer :: re where
  "reBearer = rseq [rlit_i ''authorization'', ws_star, rlit '':'', ws_star, rlit_i ''bearer'', ws_plus]"

definition reInlineSecret :: re where
  "reInlineSecret = rseq
     [ralt [rseq [rlit_i ''api'', ropt (RC (\<lambda>c. c \<in> set ''_-'')), rlit_i ''key''],
            rseq [rlit_i ''access'', ropt (RC (\<lambda>c. c \<in> set ''_-'')), rlit_i ''token''],
            rseq [rlit_i ''auth'', ropt (RC (\<lambda>c. c \<in> set ''_-'')), rlit_i ''token''],
            rlit_i ''password'', rlit_i ''secret'', rlit_i ''cookie''],
      ws_star, RC (\<lambda>c. c \<in> set ''=:''), ws_star]"

definition reFlagSecret :: re where
  "reFlagSecret = rseq
     [rlit ''--'', ralt (map rlit_i [''token'', ''password'', ''secret'', ''api-key'', ''apikey'']), ws_plus]"

definition reEnvSecret :: re where
  "reEnvSecret = rseq
     [ralt (map rlit_i [''OPENAI_API_KEY'', ''CODEX_API_KEY'', ''AWS_SECRET_ACCESS_KEY'', ''AWS_SESSION_TOKEN'',
        ''GITHUB_TOKEN'', ''GH_TOKEN'', ''NPM_TOKEN'']), rlit ''='']"

definition reURLSecret :: re where
  "reURLSecret = rseq
     [rlit_i ''http'', ropt (rlit_i ''s''), rlit ''://'',
      rplus (RC (\<lambda>c. \<not> is_s c \<and> c \<noteq> CHR '':'' \<and> c \<noteq> CHR ''@'')), rlit '':'']"

definition reSensitiveEnv :: re where
  "reSensitiveEnv = rseq
     [RAlt RBegin (rlit ''_''),
      ralt [rseq [rlit_i ''API'', ropt (rlit ''_''), rlit_i ''KEY''], rlit_i ''TOKEN'', rlit_i ''SECRET'',
        rlit_i ''PASSWORD'', rlit_i ''PASSWD'', rseq [rlit_i ''PRIVATE'', ropt (rlit ''_''), rlit_i ''KEY''],
        rseq [rlit_i ''ACCESS'', ropt (rlit ''_''), rlit_i ''KEY''],
        rseq [rlit_i ''SESSION'', ropt (rlit ''_''), rlit_i ''TOKEN''], rlit_i ''COOKIE''],
      RAlt REnd (rlit ''_'')]"

definition hashKey :: "('z) goenv_scheme \<Rightarrow> string \<Rightarrow> string" where
  "hashKey G value = take 24 (sha256hex G value)"

definition IsSensitiveEnvName :: "string \<Rightarrow> bool" where
  "IsSensitiveEnvName name = match_string reSensitiveEnv (trim_space name)"

definition SanitizeEnvironment :: "string list \<Rightarrow> string list" where
  "SanitizeEnvironment environ =
     filter (\<lambda>entry. case str_cut (CHR ''='') entry of
        None \<Rightarrow> False
      | Some (key, _) \<Rightarrow> key \<noteq> [] \<and> \<not> IsSensitiveEnvName key) environ"

definition RedactCommand :: "string \<Rightarrow> string" where
  "RedactCommand command =
     (let v1 = re_replace reBearer (rplus (RC not_space_quote)) ''[REDACTED]'' None command;
          v2 = re_replace reInlineSecret (rplus (RC not_space_quote)) ''[REDACTED]'' None v1;
          v3 = re_replace reFlagSecret (rplus (RC (\<lambda>c. \<not> is_s c))) ''[REDACTED]'' None v2;
          v4 = re_replace reEnvSecret (rplus (RC (\<lambda>c. \<not> is_s c))) ''[REDACTED]'' None v3
      in re_replace reURLSecret (rseq [rplus (RC (\<lambda>c. \<not> is_s c \<and> c \<noteq> CHR ''@'')), rlit ''@''])
           ''[REDACTED]@'' None v4)"

definition credentialNames :: re where
  "credentialNames = rseq
     [RBegin,
      ralt [rseq [rlit_i ''credential'', ropt (rlit_i ''s'')],
            rseq [rlit_i ''service'', ropt (RC (\<lambda>c. c \<in> set ''-_'')), rlit_i ''account''],
            rseq [rlit_i ''private'', ropt (RC (\<lambda>c. c \<in> set ''-_'')), rlit_i ''key''],
            rseq [rlit_i ''secret'', ropt (rlit_i ''s'')]],
      rlit ''.'',
      ralt [rlit_i ''json'', rseq [rlit_i ''y'', ropt (rlit_i ''a''), rlit_i ''ml''], rlit_i ''toml'', rlit_i ''ini''],
      REnd]"

definition IsSensitivePath :: "('z) goenv_scheme \<Rightarrow> string \<Rightarrow> bool" where
  "IsSensitivePath G relativePath =
     (let p = trim_prefix (replace_char backslash slash relativePath) ''./'';
          base = to_lower G (last (split_on slash p))
      in if base \<in> {''.env.example'', ''.env.sample'', ''.env.template''} then False
         else
           let lower = [slash] @ to_lower G (trim_char slash p) @ [slash] in
           list_ex (str_contains lower) [''/.git/'', ''/.ssh/'', ''/.aws/'', ''/.gnupg/'', ''/.gcloud/'', ''/.azure/''] \<or>
           base = ''.env'' \<or> has_prefix base ''.env.'' \<or>
           list_ex (has_suffix base) [''.pem'', ''.p12'', ''.pfx'', ''.key'', ''.kdbx''] \<or>
           match_string credentialNames base)"

section \<open>Shell words and chains\<close>

definition HasComplexShellComposition :: "string \<Rightarrow> bool" where
  "HasComplexShellComposition command \<longleftrightarrow>
     contains_any command ('';|<>'' @ [CHR 0x60, CHR 0x0D, CHR 0x0A]) \<or> str_contains command ''$(''"

definition HasShellComposition :: "string \<Rightarrow> bool" where
  "HasShellComposition command \<longleftrightarrow>
     contains_any command ('';&|<>'' @ [CHR 0x60, CHR 0x0D, CHR 0x0A]) \<or> str_contains command ''$(''"

text \<open>The loop of \<open>splitAndChain\<close>, over the bytes the runes are written back as.\<close>

fun chain_scan :: "string \<Rightarrow> string list \<Rightarrow> string \<Rightarrow> char option \<Rightarrow> bool \<Rightarrow> string list option" where
  "chain_scan [] parts cur quote escaped =
     (if quote \<noteq> None \<or> escaped then None
      else let l = trim_space cur in
           if l = [] then None
           else if length (parts @ [l]) \<le> 1 then None else Some (parts @ [l]))"
| "chain_scan (c # cs) parts cur quote escaped =
     (if escaped then chain_scan cs parts (cur @ [c]) quote False
      else if c = backslash \<and> quote \<noteq> Some (CHR 0x27) then chain_scan cs parts (cur @ [c]) quote True
      else case quote of
        Some q \<Rightarrow> chain_scan cs parts (cur @ [c]) (if c = q then None else quote) False
      | None \<Rightarrow>
          if c = CHR 0x27 \<or> c = CHR 0x22 then chain_scan cs parts (cur @ [c]) (Some c) False
          else if c = CHR ''&'' then
            (case cs of
               [] \<Rightarrow> None
             | d # ds \<Rightarrow>
                 if d = CHR ''&'' then
                   (if trim_space cur = [] then None else chain_scan ds (parts @ [trim_space cur]) [] None False)
                 else None)
          else chain_scan cs parts (cur @ [c]) None False)"

definition splitAndChain :: "string \<Rightarrow> string list option" where
  "splitAndChain command =
     (if HasComplexShellComposition command then None else chain_scan (utf8_coerce command) [] [] None False)"

definition word_sep :: "char \<Rightarrow> bool" where
  "word_sep c \<longleftrightarrow> c = CHR 0x20 \<or> c = CHR 0x09 \<or> c = CHR 0x0D \<or> c = CHR 0x0A"

fun words_scan :: "string \<Rightarrow> string list \<Rightarrow> string \<Rightarrow> char option \<Rightarrow> bool \<Rightarrow> string list option" where
  "words_scan [] words cur quote escaped =
     (if escaped \<or> quote \<noteq> None then None else Some (words @ flush_word cur []))"
| "words_scan (c # cs) words cur quote escaped =
     (if escaped then words_scan cs words (cur @ [c]) quote False
      else if c = backslash \<and> quote \<noteq> Some (CHR 0x27) then words_scan cs words cur quote True
      else case quote of
        Some q \<Rightarrow> words_scan cs words (if c = q then cur else cur @ [c]) (if c = q then None else quote) False
      | None \<Rightarrow>
          if c = CHR 0x27 \<or> c = CHR 0x22 then words_scan cs words cur (Some c) False
          else if word_sep c then words_scan cs (words @ flush_word cur []) [] None False
          else words_scan cs words (cur @ [c]) None False)"

definition shellWords :: "string \<Rightarrow> string list option" where
  "shellWords command = words_scan (utf8_coerce command) [] [] None False"

record commandParts =
  Words :: "string list"
  CommandIndex :: nat
  Executable :: string
  Args :: "string list"

definition ident_start :: "char \<Rightarrow> bool" where
  "ident_start c \<longleftrightarrow> word_char c \<and> \<not> (48 \<le> (of_char c :: int) \<and> (of_char c :: int) \<le> 57)"

definition envAssignment :: re where
  "envAssignment = rseq [RBegin, RC ident_start, RStar (RC word_char), rlit ''='']"

definition parseCommand :: "('z) goenv_scheme \<Rightarrow> string \<Rightarrow> commandParts option" where
  "parseCommand G command =
     (case shellWords command of
        None \<Rightarrow> None
      | Some words \<Rightarrow>
          let assign = match_string envAssignment;
              index = length (takeWhile assign words);
              is_env = index < length words \<and> map ascii_lower (path_base (words ! index)) = ''env'';
              index' = (if is_env
                then index + 1 + length (takeWhile (\<lambda>w. assign w \<or> has_prefix w ''-'') (drop (index + 1) words))
                else index)
          in if is_env \<and> index' \<ge> length words
             then Some \<lparr>Words = words, CommandIndex = index, Executable = ''env'', Args = drop (index + 1) words\<rparr>
             else if index' \<ge> length words
             then Some \<lparr>Words = words, CommandIndex = index', Executable = [], Args = []\<rparr>
             else Some \<lparr>Words = words, CommandIndex = index', Executable = to_lower G (path_base (words ! index')),
                        Args = drop (index' + 1) words\<rparr>)"

section \<open>Workspace escapes\<close>

definition inside :: "('z) secenv_scheme \<Rightarrow> string \<Rightarrow> string \<Rightarrow> bool" where
  "inside E root candidate =
     (case path_abs (work_dir E) root of
        None \<Rightarrow> False
      | Some rootAbs \<Rightarrow>
          (case path_abs (work_dir E) candidate of
             None \<Rightarrow> False
           | Some value \<Rightarrow>
               if value = rootAbs then True
               else case path_rel rootAbs value of
                      None \<Rightarrow> False
                    | Some rel \<Rightarrow> rel \<noteq> ''..'' \<and> \<not> has_prefix rel ''../'' \<and> \<not> is_abs rel))"

definition crossPlatformAbsolute :: "string \<Rightarrow> bool" where
  "crossPlatformAbsolute value =
     (let n = replace_char backslash slash (trim_space value) in
      has_prefix n [slash] \<or> (length n \<ge> 3 \<and> n ! 1 = CHR '':'' \<and> n ! 2 = slash))"

definition pathCandidate :: "('z) goenv_scheme \<Rightarrow> string \<Rightarrow> string" where
  "pathCandidate G token =
     (let raw = (case str_cut (CHR ''='') token of
                   Some (key, v) \<Rightarrow> if key \<noteq> [] \<and> has_prefix token ''-'' then v else token
                 | None \<Rightarrow> token)
      in if list_ex (has_prefix (to_lower G raw)) [''http://'', ''https://'', ''ws://'', ''wss://'', ''ssh://''] then []
         else if raw = ''/dev/null'' \<or> raw = ''NUL'' then []
         else if raw = ''~'' \<or> has_prefix raw ''~/'' \<or> crossPlatformAbsolute raw \<or> raw = ''..'' \<or>
                 has_prefix raw ''../'' \<or> str_contains raw ''/../'' then raw
         else [])"

definition token_escapes :: "('z) secenv_scheme \<Rightarrow> sec_context \<Rightarrow> string \<Rightarrow> string \<Rightarrow> bool" where
  "token_escapes E ctx cwd candidate =
     (if crossPlatformAbsolute candidate \<and> \<not> is_abs candidate then True
      else let expanded =
             (if candidate = ''~'' then home_dir E
              else if has_prefix candidate ''~/'' then path_join (home_dir E) (drop 2 candidate)
              else if \<not> is_abs candidate then path_join cwd candidate
              else candidate)
           in \<not> inside E (WorkspaceRoot ctx) expanded)"

definition explicitPathEscapeParsed :: "('z) secenv_scheme \<Rightarrow> string \<Rightarrow> sec_context \<Rightarrow> string" where
  "explicitPathEscapeParsed E command ctx =
     (if WorkspaceRoot ctx = [] then []
      else case parseCommand E command of
        None \<Rightarrow> []
      | Some parsed \<Rightarrow>
          if CommandIndex parsed \<ge> length (Words parsed) then []
          else
            let cwd = (if CWD ctx = [] then WorkspaceRoot ctx else CWD ctx);
                tokens = (Words parsed ! CommandIndex parsed) # Args parsed
            in case find (\<lambda>c. c \<noteq> [] \<and> token_escapes E ctx cwd c) (map (pathCandidate E) tokens) of
                 None \<Rightarrow> [] | Some c \<Rightarrow> c)"

definition explicitPathEscape :: "('z) secenv_scheme \<Rightarrow> string \<Rightarrow> sec_context \<Rightarrow> string" where
  "explicitPathEscape E command ctx =
     (let candidate = explicitPathEscapeParsed E command ctx in
      if candidate \<noteq> [] then candidate
      else if backslash \<in> set command then explicitPathEscapeParsed E (replace_char backslash slash command) ctx
      else [])"

section \<open>Command families\<close>

definition contains_str :: "string list \<Rightarrow> string \<Rightarrow> bool" where
  "contains_str values value = list_ex (\<lambda>item. item = value) values"

definition dependencyCommand :: "('z) goenv_scheme \<Rightarrow> string \<Rightarrow> string list \<Rightarrow> bool" where
  "dependencyCommand G exec args =
     (case args of
        [] \<Rightarrow> False
      | a0 # rest \<Rightarrow>
          let first = to_lower G a0 in
          (contains_str [''npm'', ''pnpm'', ''yarn'', ''bun'', ''pip'', ''pipx'', ''poetry'', ''uv'', ''cargo'', ''go''] exec \<and>
           contains_str [''install'', ''add'', ''remove'', ''uninstall'', ''update'', ''upgrade'', ''get''] first) \<or>
          ((exec = ''flutter'' \<or> exec = ''dart'') \<and> a0 = ''pub'' \<and>
           (case rest of [] \<Rightarrow> False
            | a1 # _ \<Rightarrow> contains_str [''add'', ''remove'', ''upgrade'', ''downgrade'', ''get''] (to_lower G a1))) \<or>
          (exec = ''pod'' \<and> (first = ''install'' \<or> first = ''update'')))"

definition isInterpreter :: "string \<Rightarrow> bool" where
  "isInterpreter exec = contains_str
     [''node'', ''python'', ''python3'', ''ruby'', ''perl'', ''php'', ''deno'', ''tsx'', ''ts-node'', ''jest'', ''vitest'',
      ''pytest'', ''mocha'', ''ava'', ''bash'', ''sh'', ''zsh'', ''fish'', ''pwsh'', ''powershell'', ''java'', ''swift'',
      ''swiftc'', ''dotnet'', ''xcodebuild''] exec"

definition workspacePackageCommand :: "('z) goenv_scheme \<Rightarrow> string \<Rightarrow> string list \<Rightarrow> bool" where
  "workspacePackageCommand G exec args =
     (exec = ''npx'' \<or> contains_str [''make'', ''just'', ''task'', ''gradle'', ''gradlew'', ''mvn'', ''mvnw''] exec \<or>
      (case args of
         [] \<Rightarrow> False
       | a0 # _ \<Rightarrow>
           let first = to_lower G a0 in
           (contains_str [''npm'', ''pnpm'', ''yarn'', ''bun''] exec \<and>
            contains_str [''run'', ''test'', ''start'', ''exec'', ''x''] first) \<or>
           (exec = ''cargo'' \<and> contains_str [''run'', ''test'', ''build'', ''bench''] first) \<or>
           (exec = ''go'' \<and> contains_str [''run'', ''test'', ''build'', ''generate''] first) \<or>
           ((exec = ''flutter'' \<or> exec = ''dart'') \<and> contains_str [''run'', ''test'', ''build'', ''compile''] first) \<or>
           (exec = ''dotnet'' \<and> contains_str [''run'', ''test'', ''build'', ''publish''] first)))"

section \<open>Classification\<close>

text \<open>\<open>rank\<close> of the code is a Go map: a missing key has rank 0.\<close>

definition risk_rank_map :: "string \<Rightarrow> int" where
  "risk_rank_map r = (if r = RiskReview then 1 else if r = RiskHigh then 2 else if r = RiskCritical then 3
     else if r = RiskBlocked then 4 else 0)"

definition risk_max :: "string \<Rightarrow> string \<Rightarrow> string" where
  "risk_max risk level = (if risk_rank_map level > risk_rank_map risk then level else risk)"

text \<open>One call of the closure \<open>hit\<close>: match, reason, level, block, approve.\<close>

type_synonym hit = "bool \<times> string \<times> string \<times> bool \<times> bool"

record hit_state =
  h_rules :: "string list"
  h_risk :: string
  h_blocked :: bool
  h_approval :: bool

fun apply_hit :: "hit_state \<Rightarrow> hit \<Rightarrow> hit_state" where
  "apply_hit h (matched, reason, level, block, approve) =
     (if \<not> matched then h
      else h\<lparr>h_rules := h_rules h @ [reason], h_risk := risk_max (h_risk h) level,
             h_blocked := (h_blocked h \<or> block), h_approval := (h_approval h \<or> approve)\<rparr>)"

definition reCredentialDir :: re where
  "reCredentialDir = rseq
     [RAlt RBegin (RC is_s),
      ropt (RAlt (rseq [rlit ''~'', ropt (rlit [slash])]) (rseq [rlit [slash], RStar (RC (\<lambda>c. \<not> is_s c))])),
      rlit ''.'', ralt (map rlit_i [''ssh'', ''aws'', ''gnupg'', ''gcloud'', ''azure'']),
      ralt [rlit [slash], RC is_s, REnd]]"

definition reCredentialGet :: re where
  "reCredentialGet = rseq
     [RWordB,
      ralt [rseq [rlit_i ''security'', ws_plus, ralt (map rlit_i [''find'', ''dump'', ''unlock'', ''set''])],
            rseq [rlit_i ''gh'', ws_plus, rlit_i ''auth'', ws_plus, rlit_i ''token''],
            rseq [rlit_i ''git'', ws_plus, rlit_i ''credential'']]]"

definition env_refs :: "string \<Rightarrow> string list" where
  "env_refs s = re_groups (rseq [rlit ''$'', ropt (rlit [CHR 0x7B])])
     (rseq [RC ident_start, RStar (RC word_char)]) (ropt (rlit [CHR 0x7D])) None s"

definition git_hits :: "('z) goenv_scheme \<Rightarrow> string list \<Rightarrow> hit list" where
  "git_hits G args =
     (case args of
        [] \<Rightarrow> []
      | a0 # others \<Rightarrow>
          let sub = to_lower G a0; rest = to_lower G (str_join '' '' others); has = str_contains rest;
              destructive =
                (sub = ''commit'' \<and> has ''--amend'') \<or> (sub = ''reset'' \<and> has ''--hard'') \<or> (sub = ''clean'' \<and> has ''-f'') \<or>
                (sub = ''push'' \<and> (has ''--force'' \<or> has '' -f'' \<or> has ''--delete'' \<or> has ''--mirror'' \<or> has ''--all'' \<or>
                   has ''--tags'' \<or> has ''--prune'')) \<or>
                (sub = ''restore'' \<and> \<not> has ''--staged'')
          in [(destructive, ''destructive Git action'', RiskCritical, False, True),
              (sub = ''remote'' \<and> (case others of [] \<Rightarrow> False
                 | a1 # _ \<Rightarrow> contains_str [''add'', ''remove'', ''rename'', ''set-url''] (to_lower G a1)),
               ''Git remote configuration change'', RiskCritical, False, True),
              (sub = ''config'' \<and> \<not> (has ''--get'' \<or> has ''--list'' \<or> has '' -l''),
               ''Git configuration change'', RiskCritical, False, True),
              (contains_str [''commit'', ''push'', ''tag'', ''merge'', ''rebase'', ''pull'', ''fetch''] sub,
               ''Git write action'', RiskReview, False, True)])"

definition block_hits ::
  "('z) secenv_scheme \<Rightarrow> string \<Rightarrow> sec_context \<Rightarrow> string \<Rightarrow> string \<Rightarrow> string list \<Rightarrow> hit list" where
  "block_hits E command ctx normalized exec args =
     (let lower = to_lower E normalized; escaped = explicitPathEscape E command ctx in
      [(exec = ''sudo'', ''privilege escalation'', RiskBlocked, True, False),
       (contains_str [''shutdown'', ''reboot'', ''halt'', ''diskutil'', ''mkfs'', ''fdisk'', ''gpt'', ''mount'', ''umount''] exec,
        ''system or disk administration'', RiskBlocked, True, False),
       (str_contains lower ''dd '' \<and> str_contains lower ''of=/dev/'', ''raw device write'', RiskBlocked, True, False),
       (match_string reCredentialDir normalized, ''credential directory access'', RiskBlocked, True, False),
       (match_string reCredentialGet normalized, ''credential retrieval'', RiskBlocked, True, False),
       ((exec = ''env'' \<or> exec = ''printenv'' \<or> exec = ''set'') \<and> args = [],
        ''environment secret enumeration'', RiskBlocked, True, False),
       (exec = ''printenv'' \<and> (case args of [] \<Rightarrow> False | a0 # _ \<Rightarrow> match_string reSensitiveEnv a0),
        ''sensitive environment variable access'', RiskBlocked, True, False),
       (list_ex (match_string reSensitiveEnv) (env_refs normalized),
        ''sensitive environment variable expansion'', RiskBlocked, True, False),
       (escaped \<noteq> [], ''explicit path escapes authorized workspace: '' @ RedactCommand escaped, RiskBlocked, True, False),
       (escaped = [] \<and> WorkspaceRoot ctx = [] \<and> (has_prefix normalized ''../'' \<or> str_contains normalized '' ../''),
        ''parent-directory traversal'', RiskBlocked, True, False)])"

definition review_hits ::
  "('z) secenv_scheme \<Rightarrow> string \<Rightarrow> string \<Rightarrow> commandParts option \<Rightarrow> string \<Rightarrow> string list \<Rightarrow> hit list" where
  "review_hits E lower network parsed exec args =
     (let first = (case args of [] \<Rightarrow> None | a0 # _ \<Rightarrow> Some (to_lower E a0));
          first_in = (\<lambda>xs. case first of None \<Rightarrow> False | Some f \<Rightarrow> contains_str xs f);
          networkExec = contains_str [''curl'', ''wget'', ''ssh'', ''scp'', ''sftp'', ''ftp'', ''nc'', ''ncat'', ''telnet''] exec
      in (if exec = ''git'' then git_hits E args else []) @
      [(exec = ''rm'' \<and> list_ex (\<lambda>a. has_prefix a ''-'' \<and> str_contains a ''r'') args,
        ''recursive delete'', RiskCritical, False, True),
       (contains_str [''prisma'', ''typeorm'', ''sequelize'', ''knex'', ''alembic'', ''rails''] exec \<and> str_contains lower ''migrat'',
        ''database migration'', RiskCritical, False, True),
       (contains_str [''npm'', ''pnpm'', ''yarn'', ''bun''] exec \<and> first_in [''publish'', ''login'', ''logout''],
        ''package registry or account action'', RiskCritical, False, True),
       (contains_str [''chmod'', ''chown'', ''launchctl'', ''systemctl'', ''service''] exec,
        ''permission or service modification'', RiskCritical, False, True),
       (isInterpreter exec \<and> first_in [''-e'', ''-c'', ''-command'', ''/c''],
        ''inline interpreter can bypass workspace path analysis'', RiskCritical, False, True),
       (workspacePackageCommand E exec args \<or>
          (case parsed of None \<Rightarrow> False
           | Some p \<Rightarrow> CommandIndex p < length (Words p) \<and> contains_any (Words p ! CommandIndex p) [slash, backslash]),
        ''workspace code execution'', RiskReview, False, True),
       (dependencyCommand E exec args, ''dependency or toolchain change'', RiskReview, False, True),
       (networkExec \<and> network = NetworkDeny, ''network access denied by policy'', RiskBlocked, True, False),
       (networkExec \<and> network = NetworkApproval, ''network or remote command'', RiskCritical, False, True)])"

definition reason_of :: "string list \<Rightarrow> string" where
  "reason_of unique = (if unique \<noteq> [] then str_join ''; '' unique else ''no risky policy rule matched'')"

text \<open>The state after all hits of a command that is no \<open>&&\<close> chain.\<close>

definition collect_hits :: "('z) secenv_scheme \<Rightarrow> string \<Rightarrow> string \<Rightarrow> sec_context \<Rightarrow> hit_state" where
  "collect_hits E command network ctx =
     (let normalized = collapse_space command;
          parsed = parseCommand E command;
          exec = (case parsed of None \<Rightarrow> [] | Some p \<Rightarrow> Executable p);
          args = (case parsed of None \<Rightarrow> [] | Some p \<Rightarrow> Args p);
          h = foldl apply_hit \<lparr>h_rules = [], h_risk = RiskSafe, h_blocked = False, h_approval = False\<rparr>
                (block_hits E command ctx normalized exec args @
                 review_hits E (to_lower E normalized) network parsed exec args);
          h' = apply_hit h (\<not> h_blocked h \<and> HasShellComposition command,
                 ''composed shell command requires one-time review'', RiskCritical, False, True)
      in if h_blocked h' then h'\<lparr>h_risk := RiskBlocked\<rparr> else h')"

definition classify_single ::
  "('z) secenv_scheme \<Rightarrow> string \<Rightarrow> string \<Rightarrow> sec_context \<Rightarrow> (string \<times> string) option \<Rightarrow> sec_decision" where
  "classify_single E command network ctx structured =
     (let h = collect_hits E command network ctx;
          unique = uniq_from [] (h_rules h);
          (policy, key, label) =
            (if h_blocked h then (ApprovalBlocked, [], [])
             else if h_approval h then
               (if h_risk h = RiskReview then
                  (case structured of Some (k, l) \<Rightarrow> (ApprovalRememberable, k, l) | None \<Rightarrow> (ApprovalAlways, [], []))
                else (ApprovalAlways, [], []))
             else (ApprovalNone, [], []))
      in \<lparr>d_risk = h_risk h, d_rules = unique, d_requires = (\<not> h_blocked h \<and> h_approval h), d_blocked = h_blocked h,
          d_redacted = RedactCommand (collapse_space command), d_reason = reason_of unique,
          d_policy = policy, d_key = key, d_label = label\<rparr>)"

text \<open>\<open>classifyAndChain\<close>, given the decisions on the subcommands.\<close>

definition classifyAndChain :: "('z) secenv_scheme \<Rightarrow> string \<Rightarrow> sec_decision list \<Rightarrow> sec_decision" where
  "classifyAndChain E command ds =
     (let redacted = RedactCommand (collapse_space command);
          highest = foldl (\<lambda>r d. risk_max r (d_risk d)) RiskSafe ds;
          blocked = list_ex d_blocked ds;
          approval = list_ex d_requires ds;
          allRememberable = list_all (\<lambda>d. d_requires d \<longrightarrow> d_policy d = ApprovalRememberable) ds;
          unique = uniq_from [] (concat (map d_rules ds));
          (policy, key, label) =
            (if blocked then (ApprovalBlocked, [], [])
             else if approval then
               (if highest = RiskReview \<and> allRememberable
                then (ApprovalRememberable, ''workspace-exec:'' @ hashKey E redacted, redacted)
                else (ApprovalAlways, [], []))
             else (ApprovalNone, [], []))
      in \<lparr>d_risk = (if blocked then RiskBlocked else highest), d_rules = unique, d_requires = (\<not> blocked \<and> approval),
          d_blocked = blocked, d_redacted = redacted, d_reason = reason_of unique,
          d_policy = policy, d_key = key, d_label = label\<rparr>)"

definition push_approval :: "('z) goenv_scheme \<Rightarrow> string list \<Rightarrow> (string \<times> string) option" where
  "push_approval G rest =
     (if list_ex (\<lambda>arg. let lower = to_lower G arg in
           lower = ''-f'' \<or> has_prefix lower ''--force'' \<or> lower = ''--delete'' \<or> lower = ''--mirror'' \<or>
           lower = ''--all'' \<or> lower = ''--tags'' \<or> lower = ''--prune'') rest then None
      else let positional = filter (\<lambda>arg. \<not> has_prefix arg ''-'') rest in
        if list_ex (\<lambda>arg. has_prefix arg '':'') positional then None
        else case positional of
          p0 # p1 # _ \<Rightarrow> Some (''git.push:'' @ p0 @ '':'' @ p1, ''Git push '' @ p0 @ '' '' @ p1)
        | _ \<Rightarrow> None)"

text \<open>\<open>structuredApproval\<close> on a command that is no chain.\<close>

definition structured_single :: "('z) secenv_scheme \<Rightarrow> string \<Rightarrow> (string \<times> string) option" where
  "structured_single E command =
     (if CHR ''&'' \<in> set command then None
      else case parseCommand E command of
        None \<Rightarrow> None
      | Some parsed \<Rightarrow>
          if Executable parsed = [] then None
          else
            let redacted = RedactCommand (collapse_space command);
                exec = Executable parsed;
                other =
                  (if dependencyCommand E exec (Args parsed)
                   then Some (''dependency:'' @ exec @ '':'' @ hashKey E redacted, redacted)
                   else
                     let raw = (if CommandIndex parsed < length (Words parsed) then Words parsed ! CommandIndex parsed else []) in
                     if contains_any raw [slash, backslash] \<or> isInterpreter exec \<or> workspacePackageCommand E exec (Args parsed)
                     then Some (''workspace-exec:'' @ hashKey E redacted, redacted) else None)
            in if exec = ''git'' then
                 (case Args parsed of
                    [] \<Rightarrow> other
                  | a0 # rest \<Rightarrow>
                      let sub = to_lower E a0 in
                      if sub = ''commit'' then Some (''git.commit'', ''Git commit in this workspace'')
                      else if sub = ''push'' then push_approval E rest
                      else if contains_str [''tag'', ''merge'', ''rebase'', ''pull'', ''fetch''] sub
                      then Some (''git.'' @ sub @ '':'' @ hashKey E redacted, redacted)
                      else other)
               else other)"

section \<open>Chains get shorter\<close>

text \<open>A part of a chain has fewer ampersands than the chain, which bounds the recursion of \<open>Classify\<close>.\<close>

definition amps :: "string \<Rightarrow> nat" where
  "amps s = count_list s (CHR ''&'')"

lemma amps_simps [simp]: "amps [] = 0" "amps (c # s) = (if c = CHR ''&'' then Suc (amps s) else amps s)"
  "amps (s @ t) = amps s + amps t"
  by (simp_all add: amps_def)

lemma amps_drop: "amps (drop n s) \<le> amps s"
  by (metis amps_simps(3) append_take_drop_id le_add2)

lemma amps_rev: "amps (rev s) = amps s"
  by (simp add: amps_def)

lemma amps_trim_by: "amps (trim_by ws s) \<le> amps s"
proof -
  obtain z where "s = z @ trim_by ws s" using trim_by_suffix [of ws s] by (auto simp: suffix_def)
  then have "amps s = amps z + amps (trim_by ws s)" by (metis amps_simps(3))
  then show ?thesis by simp
qed

lemma amps_trim: "amps (trim_space s) \<le> amps s"
  unfolding trim_space_def amps_rev
  using amps_trim_by [of "map rev space_codes" "rev (trim_by space_codes s)"] amps_trim_by [of space_codes s]
  by (simp add: amps_rev)

lemma amps_coerce: "amps (utf8_coerce s) = amps s"
proof (induction s rule: utf8_coerce.induct)
  case (1 s)
  show ?case
  proof (cases s)
    case (Cons c cs)
    let ?n = "utf8_size (bytes_of s)"
    show ?thesis
    proof (cases "?n = 0")
      case True
      then have "c \<noteq> CHR ''&''" using Cons by (auto simp: bytes_of_def)
      then show ?thesis using 1(1) [OF Cons refl True] Cons True by (subst utf8_coerce.simps) simp
    next
      case False
      have "amps (take ?n s @ utf8_coerce (drop ?n s)) = amps (take ?n s) + amps (drop ?n s)"
        using 1(2) [OF Cons refl False] by simp
      also have "\<dots> = amps s" by (metis amps_simps(3) append_take_drop_id)
      finally show ?thesis using Cons False by (subst utf8_coerce.simps) (simp add: Let_def)
    qed
  qed simp
qed

lemma chain_scan_ConsE:
  assumes "chain_scan (c # cs) parts cur q e = Some out"
  obtains (push) q' e' where "chain_scan cs parts (cur @ [c]) q' e' = Some out"
  | (split) ds where "c = CHR ''&''" "cs = CHR ''&'' # ds" "chain_scan ds (parts @ [trim_space cur]) [] None False = Some out"
proof (cases "\<not> e \<and> q = None \<and> c = CHR ''&''")
  case True
  then obtain ds where "cs = CHR ''&'' # ds" "chain_scan ds (parts @ [trim_space cur]) [] None False = Some out"
    using assms by (cases cs) (simp_all split: if_splits)
  with True split show ?thesis by blast
next
  case False
  show ?thesis
  proof (cases e)
    case True
    then show ?thesis using assms push by simp
  next
    case e: False
    show ?thesis
    proof (cases "c = backslash \<and> q \<noteq> Some (CHR 0x27)")
      case True
      then show ?thesis using assms e push by simp
    next
      case bs: False
      show ?thesis
      proof (cases q)
        case None
        then show ?thesis using assms e bs False push by (simp split: if_splits)
      next
        case (Some a)
        then show ?thesis using assms e bs push by (simp only: chain_scan.simps if_False option.simps)
      qed
    qed
  qed
qed

lemma chain_scan_Nil:
  assumes "chain_scan [] parts cur q e = Some out"
  shows "out = parts @ [trim_space cur]" "parts \<noteq> []"
  using assms by (auto simp: Let_def split: if_splits)

declare chain_scan.simps [simp del]

lemma chain_scan_amps:
  "chain_scan s parts cur q e = Some out \<Longrightarrow> p \<in> set out \<Longrightarrow> p \<in> set parts \<or> amps p \<le> amps cur + amps s"
proof (induction s arbitrary: parts cur q e rule: length_induct)
  case (1 s)
  show ?case
  proof (cases s)
    case Nil
    then show ?thesis using chain_scan_Nil [of parts cur q e out] 1(2,3) amps_trim [of cur] by auto
  next
    case (Cons c cs)
    from 1(2) [unfolded Cons] show ?thesis
    proof (cases rule: chain_scan_ConsE)
      case (push q' e')
      then show ?thesis using 1(1) [rule_format, OF _ push 1(3)] Cons by auto
    next
      case (split ds)
      then show ?thesis using 1(1) [rule_format, OF _ split(3) 1(3)] Cons amps_trim [of cur] by auto
    qed
  qed
qed

lemma chain_scan_fewer_amps:
  "chain_scan s [] cur q e = Some out \<Longrightarrow> p \<in> set out \<Longrightarrow> amps p < amps cur + amps s"
proof (induction s arbitrary: cur q e)
  case Nil
  then show ?case using chain_scan_Nil by blast
next
  case (Cons c cs)
  from Cons.prems(1) show ?case
  proof (cases rule: chain_scan_ConsE)
    case (push q' e')
    then show ?thesis using Cons.IH [OF push Cons.prems(2)] by auto
  next
    case (split ds)
    then show ?thesis using chain_scan_amps [OF split(3) Cons.prems(2)] amps_trim [of cur] by auto
  qed
qed

lemma chain_scan_two: "chain_scan s parts cur q e = Some out \<Longrightarrow> 2 \<le> length out"
proof (induction s arbitrary: parts cur q e rule: length_induct)
  case (1 s)
  show ?case
  proof (cases s)
    case Nil
    then show ?thesis using chain_scan_Nil [of parts cur q e out] 1(2) by (cases parts) auto
  next
    case (Cons c cs)
    from 1(2) [unfolded Cons] show ?thesis
    proof (cases rule: chain_scan_ConsE)
      case (push q' e')
      show ?thesis using 1(1) [rule_format, OF _ push] Cons by simp
    next
      case (split ds)
      show ?thesis using 1(1) [rule_format, OF _ split(3)] Cons split(2) by simp
    qed
  qed
qed

lemma splitAndChain_fewer_amps:
  assumes "splitAndChain command = Some subs" and "p \<in> set subs"
  shows "amps p < amps command"
  using assms chain_scan_fewer_amps [of "utf8_coerce command" "[]" None False subs p]
  by (simp add: splitAndChain_def amps_coerce split: if_splits)

lemma splitAndChain_two: "splitAndChain command = Some subs \<Longrightarrow> 2 \<le> length subs"
  by (auto simp: splitAndChain_def dest: chain_scan_two split: if_splits)

section \<open>Classify\<close>

function Classify :: "('z) secenv_scheme \<Rightarrow> string \<Rightarrow> string \<Rightarrow> sec_context \<Rightarrow> sec_decision"
  and structuredApproval :: "('z) secenv_scheme \<Rightarrow> string \<Rightarrow> (string \<times> string) option" where
  "Classify E command network0 ctx =
     (let network = (if network0 = [] then NetworkApproval else network0) in
      case splitAndChain command of
        Some subs \<Rightarrow> classifyAndChain E command (map (\<lambda>sub. Classify E sub network ctx) subs)
      | None \<Rightarrow> classify_single E command network ctx (structuredApproval E command))"
| "structuredApproval E command =
     (if HasComplexShellComposition command then None
      else case splitAndChain command of
        Some subs \<Rightarrow>
          (let redacted = RedactCommand (collapse_space command) in
           if list_ex (\<lambda>d. d_blocked d \<or> d_risk d > RiskReview \<or> (d_requires d \<and> d_policy d \<noteq> ApprovalRememberable))
                (map (\<lambda>sub. Classify E sub NetworkApproval empty_context) subs) then None
           else Some (''workspace-exec:'' @ hashKey E redacted, redacted))
      | None \<Rightarrow> structured_single E command)"
  by pat_completeness auto
termination
  by (relation "measure (\<lambda>x. case x of Inl (E, command, _) \<Rightarrow> 2 * amps command + 1 | Inr (E, command) \<Rightarrow> 2 * amps command)")
    (auto dest: splitAndChain_fewer_amps)

declare Classify.simps [simp del] structuredApproval.simps [simp del]

definition ClassifyGitWrite :: "('z) secenv_scheme \<Rightarrow> string \<Rightarrow> string \<Rightarrow> sec_decision" where
  "ClassifyGitWrite E operation detail =
     Classify E (trim_space (''git '' @ operation @ '' '' @ detail)) NetworkApproval empty_context"

definition SortRules :: "string list \<Rightarrow> string list" where
  "SortRules rules = sort rules"

section \<open>What a hit does\<close>

definition good_hit :: "hit \<Rightarrow> bool" where
  "good_hit h = (case h of (m, reason, level, block, approve) \<Rightarrow>
     (if block then level = RiskBlocked \<and> \<not> approve else approve \<and> level \<in> {RiskReview, RiskCritical}))"

definition hits_inv :: "hit_state \<Rightarrow> bool" where
  "hits_inv h \<longleftrightarrow> h_risk h \<in> {RiskSafe, RiskReview, RiskCritical, RiskBlocked} \<and>
     (h_risk h = RiskSafe \<longleftrightarrow> \<not> h_blocked h \<and> \<not> h_approval h) \<and> (h_risk h = RiskBlocked \<longleftrightarrow> h_blocked h)"

lemma risk_rank_map_simps [simp]:
  "risk_rank_map RiskSafe = 0" "risk_rank_map RiskReview = 1" "risk_rank_map RiskHigh = 2"
  "risk_rank_map RiskCritical = 3" "risk_rank_map RiskBlocked = 4"
  by (simp_all add: risk_rank_map_def)

lemma apply_hit_inv:
  assumes "hits_inv h" and "good_hit x"
  shows "hits_inv (apply_hit h x)"
proof -
  obtain m reason level block approve where x: "x = (m, reason, level, block, approve)" by (cases x) auto
  have lv: "level = RiskBlocked \<and> block \<and> \<not> approve \<or> level = RiskReview \<and> \<not> block \<and> approve \<or>
      level = RiskCritical \<and> \<not> block \<and> approve"
    using assms(2) by (auto simp: good_hit_def x split: if_splits)
  obtain rules r b a where h: "h = \<lparr>h_rules = rules, h_risk = r, h_blocked = b, h_approval = a\<rparr>" by (cases h)
  have inv: "r \<in> {RiskSafe, RiskReview, RiskCritical, RiskBlocked}" "(r = RiskSafe) = (\<not> b \<and> \<not> a)" "(r = RiskBlocked) = b"
    using assms(1) unfolding hits_inv_def h hit_state.simps by blast+
  from inv(1) consider "r = RiskSafe" | "r = RiskReview" | "r = RiskCritical" | "r = RiskBlocked" by blast
  then show ?thesis using inv(2,3) lv
    by cases (elim disjE conjE; simp add: x h hits_inv_def risk_max_def)+
qed

lemma foldl_hit_inv: "hits_inv h \<Longrightarrow> list_all good_hit xs \<Longrightarrow> hits_inv (foldl apply_hit h xs)"
  by (induction xs arbitrary: h) (auto intro: apply_hit_inv)

lemma block_hits_good: "list_all good_hit (block_hits E command ctx normalized exec args)"
  by (simp add: block_hits_def good_hit_def Let_def)

lemma git_hits_good: "list_all good_hit (git_hits G args)"
  by (simp add: git_hits_def good_hit_def Let_def split: list.splits)

lemma review_hits_good: "list_all good_hit (review_hits E lower network parsed exec args)"
  using git_hits_good [of E args] by (simp add: review_hits_def good_hit_def Let_def)

lemma collect_hits_inv: "hits_inv (collect_hits E command network ctx)"
proof -
  define h0 where "h0 = \<lparr>h_rules = [], h_risk = RiskSafe, h_blocked = False, h_approval = False\<rparr>"
  have h0: "hits_inv h0" by (simp add: h0_def hits_inv_def)
  have final: "hits_inv (if h_blocked h then h\<lparr>h_risk := RiskBlocked\<rparr> else h)" if "hits_inv h" for h
    using that by (auto simp: hits_inv_def)
  have "good_hit (b, r, RiskCritical, False, True)" for b r by (simp add: good_hit_def)
  then show ?thesis unfolding collect_hits_def Let_def h0_def [symmetric]
    by (intro final apply_hit_inv foldl_hit_inv h0) (simp_all add: block_hits_good review_hits_good)
qed

text \<open>A hit that blocks is never lost.\<close>

lemma apply_hit_blocked_mono: "h_blocked h \<Longrightarrow> h_blocked (apply_hit h x)"
  by (cases x) simp

lemma foldl_hit_blocked_mono: "h_blocked h \<Longrightarrow> h_blocked (foldl apply_hit h xs)"
  by (induction xs arbitrary: h) (auto intro: apply_hit_blocked_mono)

lemma foldl_hit_blocked: "(True, reason, level, True, approve) \<in> set xs \<Longrightarrow> h_blocked (foldl apply_hit h xs)"
  by (induction xs arbitrary: h) (auto intro: foldl_hit_blocked_mono)

lemma collect_hits_blocked:
  assumes "(True, reason, level, True, approve) \<in> set (block_hits E command ctx (collapse_space command)
      (case parseCommand E command of None \<Rightarrow> [] | Some p \<Rightarrow> Executable p)
      (case parseCommand E command of None \<Rightarrow> [] | Some p \<Rightarrow> Args p))"
  shows "h_blocked (collect_hits E command network ctx)"
proof -
  have "h_blocked (foldl apply_hit h (block_hits E command ctx (collapse_space command)
      (case parseCommand E command of None \<Rightarrow> [] | Some p \<Rightarrow> Executable p)
      (case parseCommand E command of None \<Rightarrow> [] | Some p \<Rightarrow> Args p) @ ys))" for h ys
    using assms by (intro foldl_hit_blocked) auto
  then show ?thesis unfolding collect_hits_def Let_def by (simp add: apply_hit_blocked_mono)
qed

section \<open>Decisions are well formed\<close>

definition risk_levels :: "string list" where
  "risk_levels = [RiskSafe, RiskReview, RiskHigh, RiskCritical, RiskBlocked]"

definition decision_wf :: "sec_decision \<Rightarrow> bool" where
  "decision_wf d \<longleftrightarrow>
     d_risk d \<in> set risk_levels \<and> distinct (d_rules d) \<and>
     (d_blocked d \<longrightarrow> d_risk d = RiskBlocked \<and> \<not> d_requires d \<and> d_policy d = ApprovalBlocked) \<and>
     (d_requires d \<longrightarrow> d_policy d \<in> {ApprovalRememberable, ApprovalAlways} \<and> d_risk d \<noteq> RiskSafe \<and> d_risk d \<noteq> RiskBlocked) \<and>
     (\<not> d_blocked d \<and> \<not> d_requires d \<longrightarrow> d_policy d = ApprovalNone \<and> d_risk d = RiskSafe) \<and>
     (d_key d \<noteq> [] \<longrightarrow> d_policy d = ApprovalRememberable) \<and>
     (d_policy d = ApprovalRememberable \<longrightarrow> d_requires d \<and> d_risk d = RiskReview)"

lemma classify_single_wf: "decision_wf (classify_single E command network ctx structured)"
proof -
  let ?h = "collect_hits E command network ctx"
  have "hits_inv ?h" by (rule collect_hits_inv)
  then show ?thesis
    by (auto simp: hits_inv_def decision_wf_def classify_single_def Let_def risk_levels_def distinct_uniq_from
        split: if_splits option.splits)
qed

lemma risk_max_foldl:
  assumes "\<And>d. d \<in> set ds \<Longrightarrow> d_risk d \<in> set risk_levels" and "r \<in> set risk_levels"
  shows "foldl (\<lambda>r d. risk_max r (d_risk d)) r ds \<in> set risk_levels \<and>
    risk_rank_map r \<le> risk_rank_map (foldl (\<lambda>r d. risk_max r (d_risk d)) r ds) \<and>
    (\<forall>d \<in> set ds. risk_rank_map (d_risk d) \<le> risk_rank_map (foldl (\<lambda>r d. risk_max r (d_risk d)) r ds)) \<and>
    (foldl (\<lambda>r d. risk_max r (d_risk d)) r ds = r \<or> foldl (\<lambda>r d. risk_max r (d_risk d)) r ds \<in> d_risk ` set ds)"
  using assms
proof (induction ds arbitrary: r)
  case (Cons d ds)
  have "risk_max r (d_risk d) \<in> set risk_levels" using Cons.prems by (auto simp: risk_max_def)
  note IH = Cons.IH [OF _ this] and mx = risk_max_def [of r "d_risk d"]
  show ?case using IH Cons.prems(1) mx by (auto split: if_splits)
qed simp

lemma classifyAndChain_wf:
  assumes "\<And>d. d \<in> set ds \<Longrightarrow> decision_wf d"
  shows "decision_wf (classifyAndChain E command ds)"
proof -
  let ?m = "foldl (\<lambda>r d. risk_max r (d_risk d)) RiskSafe ds"
  have lv: "d_risk d \<in> set risk_levels" if "d \<in> set ds" for d using assms [OF that] by (simp add: decision_wf_def)
  have safe: "RiskSafe \<in> set risk_levels" by (simp add: risk_levels_def)
  note M = risk_max_foldl [of ds RiskSafe, OF lv safe]
  have one: "?m \<noteq> RiskSafe" if "d \<in> set ds" "d_requires d" for d
  proof -
    have "d_risk d \<noteq> RiskSafe" "d_risk d \<in> set risk_levels" using assms [OF that(1)] that(2) by (auto simp: decision_wf_def)
    then have "0 < risk_rank_map (d_risk d)" by (auto simp: risk_levels_def risk_rank_map_def)
    then show ?thesis using M that(1) by (fastforce simp: risk_rank_map_def)
  qed
  have two: "?m = RiskSafe" if "\<forall>d \<in> set ds. \<not> d_blocked d \<and> \<not> d_requires d"
  proof -
    have "d_risk d = RiskSafe" if "d \<in> set ds" for d using assms [OF that] \<open>\<forall>d \<in> set ds. _ d\<close> that by (auto simp: decision_wf_def)
    then show ?thesis using M by auto
  qed
  have three: "?m \<noteq> RiskBlocked" if "\<forall>d \<in> set ds. \<not> d_blocked d"
  proof -
    have "d_risk d \<noteq> RiskBlocked" if "d \<in> set ds" for d
      using assms [OF that] \<open>\<forall>d \<in> set ds. \<not> d_blocked d\<close> that by (auto simp: decision_wf_def)
    then show ?thesis using M by auto
  qed
  show ?thesis using M one two three
    by (auto simp: decision_wf_def classifyAndChain_def Let_def distinct_uniq_from list_ex_iff risk_levels_def split: if_splits)
qed

section \<open>Containment in the workspace\<close>

lemma split_on_no_sep: "w \<in> set (split_on d s) \<Longrightarrow> d \<notin> set w"
  by (induction s arbitrary: w) (auto split: if_splits list.splits)

lemma split_on_not_Nil [simp]: "split_on d s \<noteq> []"
  by (induction s) (auto split: list.splits)

lemma split_on_append: "d \<notin> set w \<Longrightarrow> split_on d (w @ d # s) = w # split_on d s"
  by (induction w) auto

lemma split_on_word: "d \<notin> set w \<Longrightarrow> split_on d w = [w]"
  by (induction w) auto

lemma split_on_join: "ws \<noteq> [] \<Longrightarrow> (\<And>w. w \<in> set ws \<Longrightarrow> d \<notin> set w) \<Longrightarrow> split_on d (str_join [d] ws) = ws"
  by (induction "[d]" ws rule: str_join.induct) (auto simp: split_on_word split_on_append)

lemma clean_comps_rooted:
  assumes "set out \<inter> {[], ''.'', ''..''} = {}"
  shows "set (clean_comps True out ws) \<inter> {[], ''.'', ''..''} = {} \<and>
    set (clean_comps True out ws) \<subseteq> set out \<union> set ws"
  using assms
proof (induction True out ws rule: clean_comps.induct)
  case (2 out w ws)
  then show ?case by (cases out) (auto split: if_splits)
qed auto

lemma clean_comps_fixed:
  "set ws \<inter> {[], ''.'', ''..''} = {} \<Longrightarrow> clean_comps r out ws = rev out @ ws"
  by (induction ws arbitrary: out) auto

lemma abs_comps:
  assumes "is_abs p" and "w \<in> set (path_comps p)"
  shows "w \<noteq> []" "w \<noteq> ''..''" "w \<noteq> ''.''" "slash \<notin> set w"
  using assms clean_comps_rooted [of "[]" "split_on slash p"] split_on_no_sep [of w slash p]
  by (auto simp: path_comps_def)

lemma abs_clean:
  assumes "is_abs p"
  shows "is_abs (path_clean p)" "path_comps (path_clean p) = path_comps p" "path_clean (path_clean p) = path_clean p"
proof -
  let ?cs = "path_comps p"
  have pc: "path_clean p = slash # str_join [slash] ?cs" using assms by (simp add: path_clean_def)
  then show ab: "is_abs (path_clean p)" by (simp add: is_abs_def has_prefix_def)
  have fixed: "clean_comps True [] ?cs = ?cs"
    using clean_comps_fixed [of ?cs True "[]"] abs_comps [OF assms] by auto
  show comps: "path_comps (path_clean p) = ?cs"
  proof (cases "?cs = []")
    case True
    moreover have "path_comps [slash] = []" by code_simp
    ultimately show ?thesis by (simp add: pc)
  next
    case False
    then have "split_on slash (str_join [slash] ?cs) = ?cs"
      using split_on_join abs_comps(4) [OF assms] by blast
    then have "path_comps (slash # str_join [slash] ?cs) = clean_comps True [] ([] # ?cs)"
      using ab [unfolded pc] by (simp add: path_comps_def)
    then show ?thesis using fixed by (simp add: pc)
  qed
  have "path_clean (path_clean p) = slash # str_join [slash] (path_comps (path_clean p))"
    using ab by (simp add: path_clean_def [of "path_clean p"])
  then show "path_clean (path_clean p) = path_clean p" unfolding comps pc [symmetric] .
qed

lemma strip_common_prefix: "strip_common xs ys = (bs, ts) \<Longrightarrow> (bs = [] \<longleftrightarrow> prefix xs ys) \<and> (\<exists>zs. ys = zs @ ts) \<and> (\<exists>zs. xs = zs @ bs)"
proof (induction xs ys rule: strip_common.induct)
  case (1 x xs y ys)
  show ?case
  proof (cases "x = y")
    case True
    then have IH: "(bs = [] \<longleftrightarrow> prefix xs ys) \<and> (\<exists>zs. ys = zs @ ts) \<and> (\<exists>zs. xs = zs @ bs)" using 1 by simp
    then obtain z1 z2 where "ys = z1 @ ts" "xs = z2 @ bs" by blast
    then have "y # ys = (y # z1) @ ts" "x # xs = (x # z2) @ bs" by simp_all
    then show ?thesis using IH True by (metis Cons_prefix_Cons)
  next
    case False
    with 1 show ?thesis by auto
  qed
qed auto

lemma strip_common_Nil: "strip_common xs ys = ([], []) \<Longrightarrow> xs = ys"
  by (induction xs ys rule: strip_common.induct) (auto split: if_splits)

lemma dotdot_first:
  assumes "ts \<noteq> []" and "\<And>w. w \<in> set ts \<Longrightarrow> slash \<notin> set w"
  shows "str_join [slash] ts = ''..'' \<or> has_prefix (str_join [slash] ts) ''../'' \<longleftrightarrow> hd ts = ''..''"
    and "is_abs (str_join [slash] ts) \<Longrightarrow> hd ts = []"
proof -
  let ?s = "str_join [slash] ts"
  have sp: "split_on slash ?s = ts" using split_on_join assms by blast
  have a: "hd ts = ''..''" if "has_prefix ?s ''../''"
  proof -
    have "take 3 ?s = ''..'' @ [slash]" using that by (simp add: has_prefix_def eval_nat_numeral)
    then have "?s = ''..'' @ slash # drop 3 ?s" using append_take_drop_id [of 3 ?s] by simp
    moreover have "split_on slash (''..'' @ slash # drop 3 ?s) = ''..'' # split_on slash (drop 3 ?s)"
      by (rule split_on_append) simp
    ultimately have "split_on slash ?s = ''..'' # split_on slash (drop 3 ?s)" by (rule arg_cong [THEN trans])
    with sp show ?thesis by (metis list.sel(1))
  qed
  have b: "hd ts = ''..''" if "?s = ''..''"
  proof -
    have "split_on slash ''..'' = [''..'']" by code_simp
    with sp that show ?thesis by (metis list.sel(1))
  qed
  have c: "?s = ''..'' \<or> has_prefix ?s ''../''" if "hd ts = ''..''"
    using that assms(1) by (cases ts; cases "tl ts") (auto simp: has_prefix_def)
  show "?s = ''..'' \<or> has_prefix ?s ''../'' \<longleftrightarrow> hd ts = ''..''" using a b c by blast
  show "hd ts = []" if "is_abs ?s"
  proof -
    have "?s = [] @ slash # tl ?s" using that by (cases ?s) (auto simp: is_abs_def has_prefix_def)
    then have "split_on slash ?s = [] # split_on slash (tl ?s)" by (metis append_Nil empty_iff list.set(1) split_on_append)
    with sp show ?thesis by (metis list.sel(1))
  qed
qed

text \<open>The test behind the containment checks of the code: the relative path does not lead up.\<close>

definition stays_inside :: "string \<Rightarrow> string \<Rightarrow> bool" where
  "stays_inside root c \<longleftrightarrow> (if c = root then True else case path_rel root c of None \<Rightarrow> False
      | Some rel \<Rightarrow> rel \<noteq> ''..'' \<and> \<not> has_prefix rel ''../'' \<and> \<not> is_abs rel)"

lemma stays_inside_prefix:
  assumes "is_abs root" and "is_abs candidate"
  shows "stays_inside (path_clean root) (path_clean candidate) \<longleftrightarrow> prefix (path_comps root) (path_comps candidate)"
proof -
  let ?r = "path_clean root" and ?c = "path_clean candidate"
  note cr = abs_clean [OF assms(1)] and cc = abs_clean [OF assms(2)]
  note ins = stays_inside_def [of ?r ?c]
  show ?thesis
  proof (cases "?c = ?r")
    case True
    then have "path_comps candidate = path_comps root" using cr(2) cc(2) by metis
    with True ins show ?thesis by simp
  next
    case False
    obtain bs ts where st: "strip_common (path_comps root) (path_comps candidate) = (bs, ts)" by fastforce
    note sc = strip_common_prefix [OF st]
    have sub: "set bs \<subseteq> set (path_comps root)" "set ts \<subseteq> set (path_comps candidate)" using sc by auto
    have bs: "w \<noteq> ''..''" if "w \<in> set bs" for w
      using abs_comps(2) [OF assms(1)] sub(1) that by blast
    have ts: "w \<noteq> [] \<and> w \<noteq> ''..'' \<and> slash \<notin> set w" if "w \<in> set ts" for w
      using abs_comps(1,2,4) [OF assms(2)] sub(2) that by blast
    let ?ws = "replicate (length bs) ''..'' @ ts"
    have nb: "\<not> (bs \<noteq> [] \<and> hd bs = ''..'')" using bs by (metis list.set_sel(1))
    then have rel: "path_rel ?r ?c = Some (str_join [slash] ?ws)"
      using False cr cc st by (simp add: path_rel_def)
    have ne: "?ws \<noteq> []"
    proof
      assume "?ws = []"
      then have "path_comps root = path_comps candidate" using strip_common_Nil st by simp
      then show False using False assms by (simp add: path_clean_def)
    qed
    have ns: "slash \<notin> set w" if "w \<in> set ?ws" for w using that ts by auto
    show ?thesis
    proof (cases "bs = []")
      case True
      then have "hd ?ws \<noteq> ''..''" "hd ?ws \<noteq> []" using ne ts by (auto dest: hd_in_set)
      then show ?thesis using dotdot_first [OF ne ns] ins False rel sc True by auto
    next
      case b: False
      then have "hd ?ws = ''..''" by (cases bs) auto
      then show ?thesis using dotdot_first(1) [OF ne ns] ins False rel sc b by auto
    qed
  qed
qed

lemma inside_prefix:
  assumes "is_abs root" and "is_abs candidate"
  shows "inside E root candidate \<longleftrightarrow> prefix (path_comps root) (path_comps candidate)"
proof -
  have "inside E root candidate = stays_inside (path_clean root) (path_clean candidate)"
    using assms by (simp add: inside_def path_abs_def stays_inside_def)
  then show ?thesis using stays_inside_prefix [OF assms] by simp
qed

text \<open>
  C27. \<open>inside\<close>, which decides through \<open>filepath.Abs\<close>, \<open>Clean\<close> and \<open>Rel\<close> whether a path lies in the
  workspace, is exactly containment by path components on absolute paths: the components of the
  root, with empty, \<open>.\<close> and \<open>..\<close> components resolved, are a prefix of those of the candidate, so that a
  sibling directory whose name merely extends the name of the root is outside.
\<close>

theorem inside_iff_prefix:
  assumes "is_abs root" and "is_abs candidate"
  shows "inside E root candidate \<longleftrightarrow> prefix (path_comps root) (path_comps candidate)"
  using assms by (rule inside_prefix)

definition demo_secenv :: secenv where
  "demo_secenv = \<lparr>sha256hex = id, lower_unicode = id, json_big = JNum, fmt_time = (\<lambda>_. ''t''), upper_unicode = id,
     home_dir = ''/home/u'', work_dir = Some ''/'', url_hostname = (\<lambda>_. None)\<rparr>"

theorem inside_iff_prefix_witness:
  "\<not> inside demo_secenv ''/w'' ''/w/../wx/a'' \<and> inside demo_secenv ''/w'' ''/x/../w/./a''"
proof -
  have a: "is_abs ''/w''" "is_abs ''/w/../wx/a''" "is_abs ''/x/../w/./a''" by code_simp+
  have b: "\<not> prefix (path_comps ''/w'') (path_comps ''/w/../wx/a'')" "prefix (path_comps ''/w'') (path_comps ''/x/../w/./a'')"
    by code_simp+
  show ?thesis using inside_iff_prefix [OF a(1,2), of demo_secenv] inside_iff_prefix [OF a(1,3), of demo_secenv] b by blast
qed

section \<open>Properties of Classify\<close>

lemma Classify_chain:
  "splitAndChain command = Some subs \<Longrightarrow> network \<noteq> [] \<Longrightarrow>
   Classify E command network ctx = classifyAndChain E command (map (\<lambda>sub. Classify E sub network ctx) subs)"
  by (subst Classify.simps) simp

lemma Classify_simple:
  "splitAndChain command = None \<Longrightarrow> Classify E command network ctx =
   classify_single E command (if network = [] then NetworkApproval else network) ctx (structuredApproval E command)"
  by (subst Classify.simps) (simp add: Let_def)

lemma Classify_wf_aux: "decision_wf (Classify E command network ctx)"
proof (induction command arbitrary: network rule: measure_induct_rule [of amps])
  case (less command)
  show ?case
  proof (cases "splitAndChain command")
    case None
    then show ?thesis by (simp add: Classify_simple classify_single_wf)
  next
    case (Some subs)
    then have "decision_wf d" if "d \<in> set (map (\<lambda>sub. Classify E sub n ctx) subs)" for d n
      using less splitAndChain_fewer_amps [OF Some] that by auto
    then show ?thesis using Some by (subst Classify.simps) (auto simp: Let_def intro!: classifyAndChain_wf)
  qed
qed

text \<open>
  C39. Every decision is well formed: the risk is one of the five levels, the matched rules do not
  repeat, a blocked command has risk BLOCKED and asks for no approval, a command that asks for approval
  is neither safe nor blocked, a command that neither is blocked nor asks is safe, and only a command of
  risk REVIEW may be remembered under a key. The recursion through \<open>&&\<close> chains ends for every command.
\<close>

theorem Classify_wf: "decision_wf (Classify E command network ctx)"
  by (rule Classify_wf_aux)

lemma classifyAndChain_dominates:
  assumes "\<And>x. x \<in> set ds \<Longrightarrow> decision_wf x" and "x \<in> set ds"
  shows "risk_rank_map (d_risk x) \<le> risk_rank_map (d_risk (classifyAndChain E command ds))"
proof -
  have lv: "d_risk d \<in> set risk_levels" if "d \<in> set ds" for d using assms(1) [OF that] by (simp add: decision_wf_def)
  have "risk_rank_map (d_risk x) \<le> 4" using lv [OF assms(2)] by (auto simp: risk_levels_def)
  moreover have "risk_rank_map (d_risk x) \<le> risk_rank_map (foldl (\<lambda>r d. risk_max r (d_risk d)) RiskSafe ds)"
    using risk_max_foldl [of ds RiskSafe, OF lv] assms(2) by (simp add: risk_levels_def)
  ultimately show ?thesis by (auto simp: classifyAndChain_def Let_def split: prod.splits)
qed

text \<open>
  C8. A chain hides nothing: the decision on \<open>a && b && \<dots>\<close> is blocked exactly when the decision on one of its
  parts is, asks for approval exactly when it is not blocked and some part asks, has at least the risk of
  every part and names every rule a part matched.
\<close>

theorem Classify_chain_dominates:
  assumes "splitAndChain command = Some subs" and "network \<noteq> []"
  shows "(d_blocked (Classify E command network ctx) \<longleftrightarrow> (\<exists>sub \<in> set subs. d_blocked (Classify E sub network ctx))) \<and>
    (d_requires (Classify E command network ctx) \<longleftrightarrow>
       \<not> d_blocked (Classify E command network ctx) \<and> (\<exists>sub \<in> set subs. d_requires (Classify E sub network ctx))) \<and>
    (\<forall>sub \<in> set subs. risk_rank_map (d_risk (Classify E sub network ctx)) \<le> risk_rank_map (d_risk (Classify E command network ctx))) \<and>
    set (d_rules (Classify E command network ctx)) = (\<Union>sub \<in> set subs. set (d_rules (Classify E sub network ctx)))"
proof -
  let ?ds = "map (\<lambda>sub. Classify E sub network ctx) subs" and ?d = "Classify E command network ctx"
  have d: "?d = classifyAndChain E command ?ds" by (rule Classify_chain [OF assms])
  have wf: "decision_wf x" if "x \<in> set ?ds" for x using that by (auto simp: Classify_wf_aux)
  have "\<forall>sub \<in> set subs. risk_rank_map (d_risk (Classify E sub network ctx)) \<le> risk_rank_map (d_risk ?d)"
    unfolding d by (intro ballI classifyAndChain_dominates wf) auto
  moreover have "d_blocked ?d \<longleftrightarrow> (\<exists>sub \<in> set subs. d_blocked (Classify E sub network ctx))"
    unfolding d by (simp add: classifyAndChain_def Let_def list_ex_iff split: prod.splits)
  moreover have "d_requires ?d \<longleftrightarrow> \<not> d_blocked ?d \<and> (\<exists>sub \<in> set subs. d_requires (Classify E sub network ctx))"
    unfolding d by (simp add: classifyAndChain_def Let_def list_ex_iff split: prod.splits)
  moreover have "set (d_rules ?d) = (\<Union>sub \<in> set subs. set (d_rules (Classify E sub network ctx)))"
    unfolding d by (simp add: classifyAndChain_def Let_def set_uniq_from split: prod.splits)
  ultimately show ?thesis by blast
qed

lemma classify_single_blocked:
  "h_blocked (collect_hits E command network ctx) \<Longrightarrow> d_blocked (classify_single E command network ctx st)"
  by (simp add: classify_single_def Let_def split: prod.splits)

lemma hard_blocked_aux:
  assumes "splitAndChain command = None"
    and "parseCommand E command = Some p \<and> contains_str [''sudo'', ''shutdown'', ''reboot'', ''halt'', ''diskutil'', ''mkfs'',
           ''fdisk'', ''gpt'', ''mount'', ''umount''] (Executable p) \<or>
         explicitPathEscape E command ctx \<noteq> [] \<or>
         list_ex (match_string reSensitiveEnv) (env_refs (collapse_space command)) \<or>
         match_string reCredentialDir (collapse_space command)"
  shows "d_blocked (Classify E command network ctx)"
proof -
  let ?exec = "case parseCommand E command of None \<Rightarrow> [] | Some p \<Rightarrow> Executable p"
  let ?args = "case parseCommand E command of None \<Rightarrow> [] | Some p \<Rightarrow> Args p"
  let ?hits = "block_hits E command ctx (collapse_space command) ?exec ?args"
  have hit: "h_blocked (collect_hits E command n ctx)" if "(m, reason, level, True, approve) \<in> set ?hits" and m for m reason level approve n
    using that collect_hits_blocked [of reason level approve E command ctx n] by simp
  have hits: "(?exec = ''sudo'', ''privilege escalation'', RiskBlocked, True, False) \<in> set ?hits"
    "(contains_str [''shutdown'', ''reboot'', ''halt'', ''diskutil'', ''mkfs'', ''fdisk'', ''gpt'', ''mount'', ''umount''] ?exec,
        ''system or disk administration'', RiskBlocked, True, False) \<in> set ?hits"
    "(explicitPathEscape E command ctx \<noteq> [], ''explicit path escapes authorized workspace: '' @
        RedactCommand (explicitPathEscape E command ctx), RiskBlocked, True, False) \<in> set ?hits"
    "(list_ex (match_string reSensitiveEnv) (env_refs (collapse_space command)),
        ''sensitive environment variable expansion'', RiskBlocked, True, False) \<in> set ?hits"
    "(match_string reCredentialDir (collapse_space command), ''credential directory access'', RiskBlocked, True, False) \<in> set ?hits"
    unfolding block_hits_def Let_def list.set by (simp_all only: insert_iff simp_thms)
  have "h_blocked (collect_hits E command n ctx)" for n
    using assms(2)
  proof (elim disjE conjE)
    assume p: "parseCommand E command = Some p" and "contains_str [''sudo'', ''shutdown'', ''reboot'', ''halt'', ''diskutil'', ''mkfs'',
      ''fdisk'', ''gpt'', ''mount'', ''umount''] (Executable p)"
    then have "?exec = ''sudo'' \<or> contains_str [''shutdown'', ''reboot'', ''halt'', ''diskutil'', ''mkfs'', ''fdisk'', ''gpt'', ''mount'', ''umount''] ?exec"
      unfolding p contains_str_def list_ex_iff by auto
    then show ?thesis using hit hits(1,2) by blast
  qed (use hit hits(3-5) in blast)+
  then show ?thesis by (simp add: Classify_simple [OF assms(1)] classify_single_blocked)
qed

lemma hard_blocked_escape:
  "splitAndChain command = None \<Longrightarrow> explicitPathEscape E command ctx \<noteq> [] \<Longrightarrow> d_blocked (Classify E command network ctx)"
  using hard_blocked_aux by blast

text \<open>
  What a path argument means to the program it is given to, said without the code's detection: an absolute path is
  itself, \<open>~\<close> is the home directory, and a path that climbs is taken from the working directory of the command. A
  token is such a path or a flag \<open>-...=\<close> with one. The code leaves URLs and \<open>/dev/null\<close> alone.
\<close>

definition url_text :: "('z) goenv_scheme \<Rightarrow> string \<Rightarrow> bool" where
  "url_text G t \<longleftrightarrow> (\<exists>p \<in> {''http://'', ''https://'', ''ws://'', ''wss://'', ''ssh://''}. has_prefix (to_lower G t) p)"

inductive path_of :: "('z) secenv_scheme \<Rightarrow> sec_context \<Rightarrow> string \<Rightarrow> string \<Rightarrow> bool" for E ctx where
  absolute: "is_abs t \<Longrightarrow> t \<noteq> ''/dev/null'' \<Longrightarrow> path_of E ctx t t"
| home: "path_of E ctx ''~'' (home_dir E)"
| below_home: "path_of E ctx (''~/'' @ r) (path_join (home_dir E) r)"
| climbing: "\<not> is_abs t \<Longrightarrow> \<not> has_prefix t ''~/'' \<Longrightarrow> t = ''..'' \<or> has_prefix t ''../'' \<or> str_contains t ''/../'' \<Longrightarrow>
    path_of E ctx t (path_join (if CWD ctx = [] then WorkspaceRoot ctx else CWD ctx) t)"

inductive token_path :: "('z) secenv_scheme \<Rightarrow> sec_context \<Rightarrow> string \<Rightarrow> string \<Rightarrow> bool" for E ctx where
  plain: "path_of E ctx t q \<Longrightarrow> \<not> url_text E t \<Longrightarrow> \<not> has_prefix t ''-'' \<Longrightarrow> token_path E ctx t q"
| flag: "path_of E ctx t q \<Longrightarrow> \<not> url_text E t \<Longrightarrow> CHR ''='' \<notin> set k \<Longrightarrow> token_path E ctx (''-'' @ k @ ''='' @ t) q"

lemma url_text_ascii:
  assumes "is_ascii t" and "hd t \<in> {slash, CHR ''~'', CHR ''.''}" and "t \<noteq> []"
  shows "\<not> url_text G t"
proof -
  obtain c cs where t: "t = c # cs" using assms(3) by (cases t) auto
  then have "ascii_lower c \<in> {slash, CHR ''~'', CHR ''.''}" using assms(2) by (auto simp: ascii_lower_def)
  then show ?thesis using assms(1) by (auto simp: url_text_def to_lower_def has_prefix_def t)
qed

lemma trim_by_keeps_last:
  "\<forall>w \<in> set ws. of_char c \<notin> set w \<Longrightarrow> \<exists>ys. trim_by ws (xs @ [c]) = ys @ [c]"
proof (induction "length xs" arbitrary: xs rule: less_induct)
  case less
  show ?case
  proof (cases "lead_space ws (xs @ [c]) = 0")
    case True
    then show ?thesis by (simp add: trim_by_fixed)
  next
    case False
    obtain d ds where d: "xs @ [c] = d # ds" by (cases "xs @ [c]") auto
    with False obtain w where w: "w \<in> set ws" "take (length w) (bytes_of (xs @ [c])) = w" "lead_space ws (xs @ [c]) = length w"
    proof -
      obtain w where f: "find (\<lambda>w. hd w = of_char d \<and> take (length w) (bytes_of (xs @ [c])) = w) ws = Some w"
        using False d by (auto simp: lead_space_def split: option.splits)
      then have "w \<in> set ws" "take (length w) (bytes_of (xs @ [c])) = w" by (auto simp: find_Some_iff)
      moreover have "lead_space ws (xs @ [c]) = length w" using f d by (simp add: lead_space_def)
      ultimately show thesis by (rule that)
    qed
    have "length w \<le> length xs"
    proof (rule ccontr)
      assume "\<not> length w \<le> length xs"
      then have "of_char c \<in> set (take (length w) (bytes_of (xs @ [c])))" by (simp add: bytes_of_def)
      then show False using w(1,2) less.prems by simp
    qed
    then have dr: "drop (length w) (xs @ [c]) = drop (length w) xs @ [c]" by simp
    have "length (drop (length w) xs) < length xs" using False w(3) \<open>length w \<le> length xs\<close> by (cases w) auto
    from less.hyps [OF this less.prems] show ?thesis
      using False w(3) dr by (subst trim_by.simps) simp
  qed
qed

lemma trim_space_slash:
  assumes "is_abs t"
  shows "has_prefix (replace_char backslash slash (trim_space t)) [slash]"
proof -
  obtain r where t: "t = slash # r" using assms by (cases t) (auto simp: is_abs_def has_prefix_def)
  have "lead_space space_codes t = 0" unfolding t by (rule lead_space_plain) (simp_all add: plain_char_def space_codes_def)
  moreover obtain ys where "trim_by (map rev space_codes) (rev r @ [slash]) = ys @ [slash]"
    using trim_by_keeps_last [of "map rev space_codes" slash "rev r"] by (auto simp: space_codes_def)
  ultimately have "trim_space t = slash # rev ys" unfolding trim_space_def by (simp add: trim_by_fixed t)
  then show ?thesis by (simp add: has_prefix_def replace_char_def)
qed

lemma pathCandidate_value:
  assumes "path_of E ctx t q" and "\<not> url_text E t"
  shows "(if list_ex (has_prefix (to_lower E t)) [''http://'', ''https://'', ''ws://'', ''wss://'', ''ssh://''] then []
     else if t = ''/dev/null'' \<or> t = ''NUL'' then []
     else if t = ''~'' \<or> has_prefix t ''~/'' \<or> crossPlatformAbsolute t \<or> t = ''..'' \<or>
             has_prefix t ''../'' \<or> str_contains t ''/../'' then t
     else []) = t"
proof -
  have nul: "str_contains ''NUL'' ''/../'' = False" "is_abs ''NUL'' = False" "str_contains ''/dev/null'' ''/../'' = False"
    "is_abs ''/dev/null''" by code_simp+
  have "crossPlatformAbsolute t" if "is_abs t"
    using trim_space_slash [OF that] by (simp add: crossPlatformAbsolute_def Let_def)
  with assms nul show ?thesis
    by cases (auto simp: url_text_def has_prefix_def)
qed

lemma pathCandidate_token:
  assumes "token_path E ctx token q"
  obtains t where "pathCandidate E token = t" "path_of E ctx t q"
  using assms
proof cases
  case plain
  then have raw: "(case str_cut (CHR ''='') token of Some (key, v) \<Rightarrow> if key \<noteq> [] \<and> has_prefix token ''-'' then v else token
      | None \<Rightarrow> token) = token"
    by (simp split: option.splits prod.splits)
  have "pathCandidate E token = token"
    unfolding pathCandidate_def Let_def raw by (rule pathCandidate_value [OF plain(1,2)])
  then show ?thesis using that plain(1) by blast
next
  case (flag t k)
  have "str_cut (CHR ''='') token = Some (''-'' @ k, t)"
  proof -
    have "\<forall>c \<in> set k. c \<noteq> CHR ''=''" using flag(4) by auto
    then show ?thesis unfolding flag(1) by (simp add: str_cut_def takeWhile_append dropWhile_append)
  qed
  moreover have "has_prefix token ''-''" unfolding flag(1) by (simp add: has_prefix_def)
  ultimately have raw: "(case str_cut (CHR ''='') token of Some (key, v) \<Rightarrow> if key \<noteq> [] \<and> has_prefix token ''-'' then v else token
      | None \<Rightarrow> token) = t"
    by simp
  have "pathCandidate E token = t"
    unfolding pathCandidate_def Let_def raw by (rule pathCandidate_value [OF flag(2,3)])
  then show ?thesis using that flag(2) by blast
qed

lemma token_escapes_outside:
  assumes "path_of E ctx t q" and "is_abs (WorkspaceRoot ctx)" and "is_abs q"
    and "\<not> prefix (path_comps (WorkspaceRoot ctx)) (path_comps q)"
  shows "t \<noteq> [] \<and> token_escapes E ctx (if CWD ctx = [] then WorkspaceRoot ctx else CWD ctx) t"
proof -
  have out: "\<not> inside E (WorkspaceRoot ctx) q" using inside_prefix [OF assms(2,3)] assms(4) by simp
  show ?thesis using assms(1)
  proof cases
    case absolute
    then have "t \<noteq> ''~''" "\<not> has_prefix t ''~/''" "t \<noteq> []"
      by (cases t; auto simp: is_abs_def has_prefix_def)+
    with absolute out show ?thesis by (simp add: token_escapes_def)
  next
    case home
    then show ?thesis using out by (simp add: token_escapes_def)
  next
    case (below_home r)
    then have "has_prefix t ''~/''" "t \<noteq> ''~''" "drop 2 t = r" by (simp_all add: has_prefix_def)
    with below_home out show ?thesis by (simp add: token_escapes_def Let_def)
  next
    case climbing
    then have "t \<noteq> []" "t \<noteq> ''~''" by (auto simp: has_prefix_def)
    with climbing out show ?thesis by (simp add: token_escapes_def Let_def)
  qed
qed

lemma explicitPathEscape_finds:
  assumes "parseCommand E command = Some p" and "CommandIndex p < length (Words p)" and "WorkspaceRoot ctx \<noteq> []"
    and "token \<in> set ((Words p ! CommandIndex p) # Args p)" and "pathCandidate E token = t" and "t \<noteq> []"
    and "token_escapes E ctx (if CWD ctx = [] then WorkspaceRoot ctx else CWD ctx) t"
  shows "explicitPathEscape E command ctx \<noteq> []"
proof -
  let ?cwd = "if CWD ctx = [] then WorkspaceRoot ctx else CWD ctx"
  let ?cs = "map (pathCandidate E) ((Words p ! CommandIndex p) # Args p)"
  let ?bad = "\<lambda>c. c \<noteq> [] \<and> token_escapes E ctx ?cwd c"
  have "t \<in> set ?cs" using assms(4,5) unfolding set_map by blast
  then have "find ?bad ?cs \<noteq> None" using assms(6,7) unfolding find_None_iff by blast
  then obtain c where c: "find ?bad ?cs = Some c" by blast
  then have "c \<noteq> []" by (auto simp: find_Some_iff simp del: list.map)
  moreover have "explicitPathEscapeParsed E command ctx = (case find ?bad ?cs of None \<Rightarrow> [] | Some c \<Rightarrow> c)"
    using assms(1-3) by (simp add: explicitPathEscapeParsed_def Let_def)
  ultimately have "explicitPathEscapeParsed E command ctx \<noteq> []" unfolding c by simp
  then show ?thesis by (simp add: explicitPathEscape_def Let_def)
qed

text \<open>
  C19. No path argument leaves the workspace: when the workspace root is absolute, a command that is not a chain and
  one of whose words, from the executable on, names a path outside it is blocked, whatever the network policy and
  whatever else the command says. Such a word is an absolute path other than \<open>/dev/null\<close>, a path below the home
  directory, or one that climbs with \<open>..\<close> from the working directory, alone or as the value of a flag, and not a URL;
  outside means that the components of the root are not a prefix of those of the cleaned path. What the shell expands
  otherwise (variables, substitutions, links) is not seen by this check. For chains, \<open>Classify_chain_dominates\<close>
  extends it to every part.
\<close>

theorem Classify_hard_blocks:
  assumes "splitAndChain command = None" and "parseCommand E command = Some p" and "CommandIndex p < length (Words p)"
    and "token \<in> set ((Words p ! CommandIndex p) # Args p)" and "token_path E ctx token q"
    and "is_abs (WorkspaceRoot ctx)" and "is_abs q" and "\<not> prefix (path_comps (WorkspaceRoot ctx)) (path_comps q)"
  shows "d_blocked (Classify E command network ctx)"
proof -
  obtain t where t: "pathCandidate E token = t" "path_of E ctx t q" using pathCandidate_token [OF assms(5)] by blast
  have root: "WorkspaceRoot ctx \<noteq> []" using assms(6) by (auto simp: is_abs_def has_prefix_def)
  from token_escapes_outside [OF t(2) assms(6-8)] show ?thesis
    using explicitPathEscape_finds [OF assms(2,3) root assms(4) t(1)] hard_blocked_escape [OF assms(1)] by blast
qed

theorem Classify_hard_blocks_witness:
  "d_blocked (Classify demo_secenv ''A=1 cat 'x y' --from=../../etc/passwd'' NetworkAllow \<lparr>WorkspaceRoot = ''/w'', CWD = ''/w/sub''\<rparr>) \<and>
   d_blocked (Classify demo_secenv ''cat /w/../wx'' NetworkAllow \<lparr>WorkspaceRoot = ''/w'', CWD = []\<rparr>)"
proof -
  let ?c1 = "''A=1 cat 'x y' --from=../../etc/passwd''" and ?x1 = "\<lparr>WorkspaceRoot = ''/w'', CWD = ''/w/sub''\<rparr>"
  let ?c2 = "''cat /w/../wx''" and ?x2 = "\<lparr>WorkspaceRoot = ''/w'', CWD = []\<rparr>"
  have s: "splitAndChain ?c1 = None" "splitAndChain ?c2 = None" by code_simp+
  have p1: "parseCommand demo_secenv ?c1 = Some \<lparr>Words = [''A=1'', ''cat'', ''x y'', ''--from=../../etc/passwd''], CommandIndex = 1,
      Executable = ''cat'', Args = [''x y'', ''--from=../../etc/passwd'']\<rparr>" by code_simp
  have p2: "parseCommand demo_secenv ?c2 = Some \<lparr>Words = [''cat'', ''/w/../wx''], CommandIndex = 0,
      Executable = ''cat'', Args = [''/w/../wx'']\<rparr>" by code_simp
  have u: "\<not> url_text demo_secenv ''../../etc/passwd''" "\<not> url_text demo_secenv ''/w/../wx''"
    by (rule url_text_ascii; simp add: is_ascii_def)+
  have a: "path_join ''/w/sub'' ''../../etc/passwd'' = ''/etc/passwd''" "is_abs ''/w''" "is_abs ''/etc/passwd''" "is_abs ''/w/../wx''"
    "\<not> is_abs ''../../etc/passwd''" "\<not> has_prefix ''../../etc/passwd'' ''~/''" "has_prefix ''../../etc/passwd'' ''../''"
    "\<not> has_prefix ''/w/../wx'' ''-''" "\<not> prefix (path_comps ''/w'') (path_comps ''/etc/passwd'')"
    "\<not> prefix (path_comps ''/w'') (path_comps ''/w/../wx'')" by code_simp+
  have "path_of demo_secenv ?x1 ''../../etc/passwd'' ''/etc/passwd''"
    using path_of.climbing [of "''../../etc/passwd''" demo_secenv ?x1] a by simp
  from token_path.flag [OF this u(1), of "''-from''"]
  have t1: "token_path demo_secenv ?x1 ''--from=../../etc/passwd'' ''/etc/passwd''" by simp
  have t2: "token_path demo_secenv ?x2 ''/w/../wx'' ''/w/../wx''"
    by (intro token_path.plain path_of.absolute a u) simp
  show ?thesis
    using Classify_hard_blocks [OF s(1) p1 _ _ t1, of NetworkAllow] Classify_hard_blocks [OF s(2) p2 _ _ t2, of NetworkAllow] a by simp
qed

theorem Classify_chain_dominates_witness:
  "d_blocked (Classify demo_secenv ''ls && sudo x'' NetworkAllow empty_context) \<longleftrightarrow>
   (\<exists>sub \<in> {''ls'', ''sudo x''}. d_blocked (Classify demo_secenv sub NetworkAllow empty_context))"
proof -
  have a: "splitAndChain ''ls && sudo x'' = Some [''ls'', ''sudo x'']" by code_simp
  show ?thesis using Classify_chain_dominates [OF a, of NetworkAllow demo_secenv empty_context] by simp
qed

end
