(* ===== verification/PolicyKernel.thy ===== *)
theory PolicyKernel
  imports Policy "HOL-Library.Multiset"
begin

text \<open>
  The policy kernel of \<open>src/internal/security/policy_kernel.go\<close>, which combines the command
  classifier, path, network and secret policy and declarative rules into one decision, and the
  rule language of \<open>policy_dsl.go\<close>.
\<close>

section \<open>Types\<close>

abbreviation "EffectAllow \<equiv> ''allow''"
abbreviation "EffectPrompt \<equiv> ''prompt''"
abbreviation "EffectDeny \<equiv> ''deny''"
abbreviation "SecretNone \<equiv> ''none''"
abbreviation "SecretConsume \<equiv> ''consume_internal''"
abbreviation "SecretExpose \<equiv> ''expose''"
abbreviation "SecretEnumerate \<equiv> ''enumerate''"
abbreviation "SecretOutputNone \<equiv> ''none''"
abbreviation "SecretOutputRedacted \<equiv> ''redacted''"
abbreviation "SecretOutputRaw \<equiv> ''raw''"

record policy_request =
  rq_actor :: string
  rq_agent :: string
  rq_role :: string
  rq_action :: string
  rq_tool :: string
  rq_command :: string
  rq_path :: string
  rq_network :: string
  rq_root :: string
  rq_cwd :: string
  rq_secret :: string
  rq_names :: "string list"
  rq_output :: string

record policy_match =
  mt_action :: string
  mt_tool :: string
  mt_role :: string
  mt_path :: string
  mt_host :: string
  mt_secret :: string
  mt_risk :: string

record policy_rule =
  ru_id :: string
  ru_priority :: int
  ru_effect :: string
  ru_match :: policy_match
  ru_reason :: string

record policy_decision =
  pd_effect :: string
  pd_risk :: string
  pd_rules :: "string list"
  pd_reasons :: "string list"
  pd_requires :: bool
  pd_blocked :: bool
  pd_redacted :: string
  pd_secret :: string
  pd_key :: string

record policy_kernel =
  k_rules :: "policy_rule list"
  k_network :: string

datatype policy_error = ErrInvalidPolicyKernel | ErrInvalidCapabilityProjection

section \<open>Ranks\<close>

definition validPolicyEffect :: "string \<Rightarrow> bool" where
  "validPolicyEffect e \<longleftrightarrow> e = EffectAllow \<or> e = EffectPrompt \<or> e = EffectDeny"

definition policyEffectRank :: "string \<Rightarrow> int" where
  "policyEffectRank e = (if e = EffectAllow then 0 else if e = EffectPrompt then 1 else if e = EffectDeny then 2 else - 1)"

definition secretModeRank :: "string \<Rightarrow> int" where
  "secretModeRank m = (if m = SecretNone then 1 else if m = SecretConsume then 2 else if m = SecretExpose then 3
     else if m = SecretEnumerate then 4 else 0)"

definition riskRank :: "string \<Rightarrow> int" where
  "riskRank r = (if r = RiskSafe then 0 else if r = RiskReview then 1 else if r = RiskHigh then 2
     else if r = RiskCritical then 3 else if r = RiskBlocked then 4 else - 1)"

definition validRuleMatch :: "policy_match \<Rightarrow> bool" where
  "validRuleMatch m \<longleftrightarrow> \<not> (mt_secret m \<noteq> [] \<and> secretModeRank (mt_secret m) = 0) \<and>
     \<not> (mt_risk m \<noteq> [] \<and> riskRank (mt_risk m) < 0)"

section \<open>Building a kernel\<close>

text \<open>The loop of \<open>NewPolicyKernel\<close>: trimming, validation, unique ids.\<close>

fun normalize_rules :: "string list \<Rightarrow> policy_rule list \<Rightarrow> policy_rule list option" where
  "normalize_rules seen [] = Some []"
| "normalize_rules seen (r0 # rs) =
     (let r = r0\<lparr>ru_id := trim_space (ru_id r0), ru_reason := trim_space (ru_reason r0)\<rparr> in
      if ru_id r = [] \<or> \<not> validPolicyEffect (ru_effect r) \<or> \<not> validRuleMatch (ru_match r) then None
      else if ru_id r \<in> set seen then None
      else map_option ((#) r) (normalize_rules (ru_id r # seen) rs))"

text \<open>Higher priority first, then by id.\<close>

definition rule_key :: "policy_rule \<Rightarrow> int \<times> string" where
  "rule_key r = (- ru_priority r, ru_id r)"

definition NewPolicyKernel :: "policy_rule list \<Rightarrow> string \<Rightarrow> policy_error + policy_kernel" where
  "NewPolicyKernel rules network0 =
     (let network = (if network0 = [] then NetworkApproval else network0) in
      if network \<noteq> NetworkDeny \<and> network \<noteq> NetworkApproval \<and> network \<noteq> NetworkAllow then Inl ErrInvalidPolicyKernel
      else case normalize_rules [] rules of
             None \<Rightarrow> Inl ErrInvalidPolicyKernel
           | Some copyRules \<Rightarrow> Inr \<lparr>k_rules = sort_key rule_key copyRules, k_network = network\<rparr>)"

section \<open>Requests\<close>

definition filepathSlash :: "string \<Rightarrow> string" where
  "filepathSlash value = trim_prefix (replace_char backslash slash (trim_space value)) ''./''"

definition normalize_names :: "string list \<Rightarrow> string list" where
  "normalize_names names = uniq_trim [] (sort (filter (\<lambda>n. n \<noteq> []) (map trim_space names)))"

definition normalizePolicyRequest :: "('z) goenv_scheme \<Rightarrow> policy_request \<Rightarrow> policy_request" where
  "normalizePolicyRequest G r = r\<lparr>
     rq_actor := trim_space (rq_actor r), rq_agent := trim_space (rq_agent r),
     rq_role := to_lower G (trim_space (rq_role r)), rq_action := to_lower G (trim_space (rq_action r)),
     rq_tool := to_lower G (trim_space (rq_tool r)), rq_command := trim_space (rq_command r),
     rq_path := filepathSlash (rq_path r), rq_network := trim_space (rq_network r),
     rq_root := trim_space (rq_root r), rq_cwd := trim_space (rq_cwd r),
     rq_secret := (if rq_secret r = [] then SecretNone else rq_secret r),
     rq_output := (if rq_output r = [] then SecretOutputNone else rq_output r),
     rq_names := normalize_names (rq_names r)\<rparr>"

definition containsOutputSink :: "string \<Rightarrow> bool" where
  "containsOutputSink lower = list_ex (str_contains lower)
     [''console.log'', ''console.error'', ''print('', ''printf('', ''fmt.println'', ''fmt.printf'', ''sys.stdout'',
      ''process.stdout'', ''echo '']"

definition detectCommandSecretMode :: "('z) goenv_scheme \<Rightarrow> string \<Rightarrow> string" where
  "detectCommandSecretMode G command =
     (let lower = to_lower G command in
      if lower = [] then SecretNone
      else
        let parsed = parseCommand G command;
            exec = (case parsed of None \<Rightarrow> [] | Some p \<Rightarrow> Executable p);
            args = (case parsed of None \<Rightarrow> [] | Some p \<Rightarrow> Args p)
        in if parsed \<noteq> None \<and> (exec = ''env'' \<or> exec = ''set'' \<or> (exec = ''printenv'' \<and> args = [])) then SecretEnumerate
           else if parsed \<noteq> None \<and> exec = ''printenv'' \<and> (case args of [] \<Rightarrow> False | a0 # _ \<Rightarrow> IsSensitiveEnvName a0)
           then SecretExpose
           else if list_ex IsSensitiveEnvName (env_refs command) then SecretExpose
           else if (str_contains lower ''process.env.'' \<or> str_contains lower ''os.environ['' \<or> str_contains lower ''os.getenv('') \<and>
                   containsOutputSink lower then SecretExpose
           else SecretNone)"

definition effectiveSecretMode :: "('z) goenv_scheme \<Rightarrow> policy_request \<Rightarrow> string" where
  "effectiveSecretMode G req =
     (let explicit = (if rq_secret req = [] then SecretNone else rq_secret req);
          detected = detectCommandSecretMode G (rq_command req)
      in if secretModeRank detected > secretModeRank explicit then detected else explicit)"

definition networkHost :: "('z) secenv_scheme \<Rightarrow> string \<Rightarrow> string" where
  "networkHost E target =
     (let value = trim_space target in
      if value = [] then []
      else case url_hostname E value of
        Some (c # h) \<Rightarrow> to_lower E (c # h)
      | _ \<Rightarrow>
          (let v = (case str_cut (CHR '':'') value of Some (c # h, _) \<Rightarrow> c # h | _ \<Rightarrow> value)
           in to_lower E (trim_space v)))"

definition policyApprovalKey :: "('z) secenv_scheme \<Rightarrow> policy_request \<Rightarrow> string \<Rightarrow> string" where
  "policyApprovalKey E req mode =
     ''policy:'' @ take 24 (sha256hex E (str_join [CHR 0x00]
       ([rq_actor req, rq_agent req, rq_action req, rq_tool req, rq_path req, networkHost E (rq_network req), mode,
         RedactCommand (rq_command req)] @ rq_names req)))"

section \<open>Evaluation\<close>

definition tightenPolicy :: "string \<Rightarrow> string \<Rightarrow> string \<Rightarrow> policy_decision \<Rightarrow> policy_decision" where
  "tightenPolicy effect risk reason d = d\<lparr>
     pd_effect := (if policyEffectRank effect > policyEffectRank (pd_effect d) then effect else pd_effect d),
     pd_risk := (if riskRank risk > riskRank (pd_risk d) then risk else pd_risk d),
     pd_reasons := (if trim_space reason \<noteq> [] then pd_reasons d @ [trim_space reason] else pd_reasons d)\<rparr>"

definition applySecretPolicy :: "policy_request \<Rightarrow> policy_decision \<Rightarrow> policy_decision" where
  "applySecretPolicy req d =
     (if pd_secret d = SecretExpose then tightenPolicy EffectDeny RiskBlocked ''secret_exposure_blocked'' d
      else if pd_secret d = SecretEnumerate then tightenPolicy EffectDeny RiskBlocked ''secret_enumeration_blocked'' d
      else if pd_secret d = SecretConsume then
        (if rq_names req = [] then tightenPolicy EffectDeny RiskBlocked ''secret_consumption_missing_scope'' d
         else if rq_output req = SecretOutputRaw then tightenPolicy EffectDeny RiskBlocked ''secret_raw_output_blocked'' d
         else tightenPolicy EffectPrompt RiskReview ''secret_internal_consumption_requires_capability'' d)
      else d)"

definition ruleMatches :: "('z) secenv_scheme \<Rightarrow> policy_match \<Rightarrow> policy_request \<Rightarrow> string \<Rightarrow> bool" where
  "ruleMatches E m req risk \<longleftrightarrow>
     \<not> (mt_action m \<noteq> [] \<and> to_lower E (trim_space (mt_action m)) \<noteq> rq_action req) \<and>
     \<not> (mt_tool m \<noteq> [] \<and> to_lower E (trim_space (mt_tool m)) \<noteq> rq_tool req) \<and>
     \<not> (mt_role m \<noteq> [] \<and> to_lower E (trim_space (mt_role m)) \<noteq> rq_role req) \<and>
     \<not> (mt_path m \<noteq> [] \<and> \<not> has_prefix (rq_path req) (filepathSlash (mt_path m))) \<and>
     \<not> (mt_host m \<noteq> [] \<and> \<not> has_suffix (networkHost E (rq_network req)) (to_lower E (trim_space (mt_host m)))) \<and>
     \<not> (mt_secret m \<noteq> [] \<and> mt_secret m \<noteq> effectiveSecretMode E req) \<and>
     \<not> (mt_risk m \<noteq> [] \<and> riskRank risk < riskRank (mt_risk m))"

definition apply_rule :: "('z) secenv_scheme \<Rightarrow> policy_request \<Rightarrow> policy_decision \<Rightarrow> policy_rule \<Rightarrow> policy_decision" where
  "apply_rule E req d rule =
     (if \<not> ruleMatches E (ru_match rule) req (pd_risk d) then d
      else
        let d' = d\<lparr>pd_rules := pd_rules d @ [ru_id rule]\<rparr>;
            reason = (if ru_reason rule = [] then ''rule:'' @ ru_id rule else ru_reason rule)
        in tightenPolicy (ru_effect rule) (pd_risk d') reason d')"

text \<open>The decision before the declarative rules are applied.\<close>

definition base_decision :: "('z) secenv_scheme \<Rightarrow> string \<Rightarrow> policy_request \<Rightarrow> policy_decision" where
  "base_decision E network req =
     (let d0 = \<lparr>pd_effect = EffectAllow, pd_risk = RiskSafe, pd_rules = [], pd_reasons = [], pd_requires = False,
                pd_blocked = False, pd_redacted = [], pd_secret = effectiveSecretMode E req, pd_key = []\<rparr>;
          d1 = (if rq_command req \<noteq> [] then
                  (let legacy = Classify E (rq_command req) network \<lparr>WorkspaceRoot = rq_root req, CWD = rq_cwd req\<rparr>
                   in d0\<lparr>pd_risk := d_risk legacy, pd_redacted := d_redacted legacy,
                         pd_reasons := pd_reasons d0 @ d_rules legacy,
                         pd_effect := (if d_blocked legacy then EffectDeny
                                       else if d_requires legacy then EffectPrompt else pd_effect d0)\<rparr>)
                else d0);
          d2 = (if rq_path req \<noteq> [] \<and> IsSensitivePath E (rq_path req)
                then tightenPolicy EffectDeny RiskBlocked ''sensitive_path_access'' d1 else d1);
          d3 = (if rq_network req \<noteq> [] then
                  (if network = NetworkDeny then tightenPolicy EffectDeny RiskBlocked ''network_denied'' d2
                   else if network = NetworkApproval then tightenPolicy EffectPrompt RiskCritical ''network_requires_approval'' d2
                   else d2)
                else d2)
      in applySecretPolicy req d3)"

definition Evaluate :: "('z) secenv_scheme \<Rightarrow> policy_kernel \<Rightarrow> policy_request \<Rightarrow> policy_decision" where
  "Evaluate E k input =
     (let req = normalizePolicyRequest E input;
          d = foldl (apply_rule E req) (base_decision E (k_network k) req) (k_rules k);
          requires = (pd_effect d = EffectPrompt)
      in d\<lparr>pd_rules := uniq_trim [] (pd_rules d), pd_reasons := uniq_trim [] (pd_reasons d),
           pd_blocked := (pd_effect d = EffectDeny), pd_requires := requires,
           pd_key := (if requires then policyApprovalKey E req (pd_secret d) else pd_key d)\<rparr>)"

section \<open>The kernel decides by the strictest layer\<close>

definition layer_denies :: "('z) secenv_scheme \<Rightarrow> string \<Rightarrow> policy_request \<Rightarrow> bool" where
  "layer_denies E network req \<longleftrightarrow>
     (rq_command req \<noteq> [] \<and> d_blocked (Classify E (rq_command req) network \<lparr>WorkspaceRoot = rq_root req, CWD = rq_cwd req\<rparr>)) \<or>
     (rq_path req \<noteq> [] \<and> IsSensitivePath E (rq_path req)) \<or>
     (rq_network req \<noteq> [] \<and> network = NetworkDeny) \<or>
     effectiveSecretMode E req = SecretExpose \<or> effectiveSecretMode E req = SecretEnumerate \<or>
     (effectiveSecretMode E req = SecretConsume \<and> (rq_names req = [] \<or> rq_output req = SecretOutputRaw))"

definition layer_prompts :: "('z) secenv_scheme \<Rightarrow> string \<Rightarrow> policy_request \<Rightarrow> bool" where
  "layer_prompts E network req \<longleftrightarrow>
     (rq_command req \<noteq> [] \<and> d_requires (Classify E (rq_command req) network \<lparr>WorkspaceRoot = rq_root req, CWD = rq_cwd req\<rparr>)) \<or>
     (rq_network req \<noteq> [] \<and> network = NetworkApproval) \<or>
     effectiveSecretMode E req = SecretConsume"

definition rule_says :: "('z) secenv_scheme \<Rightarrow> policy_kernel \<Rightarrow> policy_request \<Rightarrow> string \<Rightarrow> bool" where
  "rule_says E k req effect \<longleftrightarrow> list_ex (\<lambda>r. ru_effect r = effect \<and>
     ruleMatches E (ru_match r) req (pd_risk (base_decision E (k_network k) req))) (k_rules k)"

definition strictest_effect :: "('z) secenv_scheme \<Rightarrow> policy_kernel \<Rightarrow> policy_request \<Rightarrow> string" where
  "strictest_effect E k req =
     (if layer_denies E (k_network k) req \<or> rule_says E k req EffectDeny then EffectDeny
      else if layer_prompts E (k_network k) req \<or> rule_says E k req EffectPrompt then EffectPrompt
      else EffectAllow)"

lemma effect_rank_simps [simp]:
  "policyEffectRank EffectAllow = 0" "policyEffectRank EffectPrompt = 1" "policyEffectRank EffectDeny = 2"
  by (simp_all add: policyEffectRank_def)

lemma tighten_fields [simp]:
  "pd_secret (tightenPolicy e r s d) = pd_secret d" "pd_rules (tightenPolicy e r s d) = pd_rules d"
  "pd_risk (tightenPolicy e (pd_risk d) s d) = pd_risk d" "pd_key (tightenPolicy e r s d) = pd_key d"
  by (simp_all add: tightenPolicy_def)

text \<open>Effects as a lattice: tightening is the join.\<close>

definition effect_join :: "string \<Rightarrow> string \<Rightarrow> string" where
  "effect_join e f = (if e = EffectDeny \<or> f = EffectDeny then EffectDeny
     else if e = EffectPrompt \<or> f = EffectPrompt then EffectPrompt else EffectAllow)"

lemma tighten_effect:
  assumes "validPolicyEffect e" and "validPolicyEffect (pd_effect d)"
  shows "pd_effect (tightenPolicy e r s d) = effect_join (pd_effect d) e"
  using assms unfolding validPolicyEffect_def
  by (elim disjE) (simp_all add: tightenPolicy_def effect_join_def)

lemma valid_join [simp]: "validPolicyEffect (effect_join e f)"
  by (simp add: validPolicyEffect_def effect_join_def)

lemma valid_effects [simp]: "validPolicyEffect EffectAllow" "validPolicyEffect EffectPrompt" "validPolicyEffect EffectDeny"
  by (simp_all add: validPolicyEffect_def)

lemma apply_rule_risk [simp]: "pd_risk (apply_rule E req d r) = pd_risk d"
  by (simp add: apply_rule_def Let_def tightenPolicy_def)

lemma apply_rule_effect:
  assumes "validPolicyEffect (ru_effect r)" and "validPolicyEffect (pd_effect d)"
  shows "pd_effect (apply_rule E req d r) =
    (if ruleMatches E (ru_match r) req (pd_risk d) then effect_join (pd_effect d) (ru_effect r) else pd_effect d)"
  using assms by (simp add: apply_rule_def Let_def tighten_effect)

lemma foldl_rule_effect:
  assumes "\<And>r. r \<in> set rs \<Longrightarrow> validPolicyEffect (ru_effect r)" and "validPolicyEffect (pd_effect d)"
  shows "validPolicyEffect (pd_effect (foldl (apply_rule E req) d rs)) \<and>
    (pd_effect (foldl (apply_rule E req) d rs) = EffectDeny \<longleftrightarrow>
       pd_effect d = EffectDeny \<or> list_ex (\<lambda>r. ru_effect r = EffectDeny \<and> ruleMatches E (ru_match r) req (pd_risk d)) rs) \<and>
    (pd_effect (foldl (apply_rule E req) d rs) = EffectAllow \<longleftrightarrow>
       pd_effect d = EffectAllow \<and> \<not> list_ex (\<lambda>r. ru_effect r = EffectDeny \<and> ruleMatches E (ru_match r) req (pd_risk d)) rs \<and>
       \<not> list_ex (\<lambda>r. ru_effect r = EffectPrompt \<and> ruleMatches E (ru_match r) req (pd_risk d)) rs)"
  using assms
proof (induction rs arbitrary: d)
  case (Cons r rs)
  let ?d = "apply_rule E req d r"
  have v: "validPolicyEffect (ru_effect r)" using Cons.prems(1) by simp
  have e: "pd_effect ?d = (if ruleMatches E (ru_match r) req (pd_risk d) then effect_join (pd_effect d) (ru_effect r) else pd_effect d)"
    by (rule apply_rule_effect [OF v Cons.prems(2)])
  then have vd: "validPolicyEffect (pd_effect ?d)" using Cons.prems(2) by simp
  have IH: "validPolicyEffect (pd_effect (foldl (apply_rule E req) ?d rs)) \<and>
    (pd_effect (foldl (apply_rule E req) ?d rs) = EffectDeny \<longleftrightarrow>
       pd_effect ?d = EffectDeny \<or> list_ex (\<lambda>r. ru_effect r = EffectDeny \<and> ruleMatches E (ru_match r) req (pd_risk d)) rs) \<and>
    (pd_effect (foldl (apply_rule E req) ?d rs) = EffectAllow \<longleftrightarrow>
       pd_effect ?d = EffectAllow \<and> \<not> list_ex (\<lambda>r. ru_effect r = EffectDeny \<and> ruleMatches E (ru_match r) req (pd_risk d)) rs \<and>
       \<not> list_ex (\<lambda>r. ru_effect r = EffectPrompt \<and> ruleMatches E (ru_match r) req (pd_risk d)) rs)"
    using Cons.IH [OF Cons.prems(1) vd] by simp
  show ?case
  proof (cases "ruleMatches E (ru_match r) req (pd_risk d)")
    case True
    have "pd_effect ?d = effect_join (pd_effect d) (ru_effect r)" using e True by simp
    then show ?thesis using IH True v Cons.prems(2) unfolding validPolicyEffect_def foldl_Cons
      by (elim disjE conjE) (simp_all add: effect_join_def)
  next
    case False
    then have "pd_effect ?d = pd_effect d" using e by simp
    with IH False show ?thesis by simp
  qed
qed simp

lemma secret_policy_effect:
  assumes "validPolicyEffect (pd_effect d)"
  shows "pd_effect (applySecretPolicy req d) =
    (if pd_secret d = SecretExpose \<or> pd_secret d = SecretEnumerate \<or>
        (pd_secret d = SecretConsume \<and> (rq_names req = [] \<or> rq_output req = SecretOutputRaw))
     then effect_join (pd_effect d) EffectDeny
     else if pd_secret d = SecretConsume then effect_join (pd_effect d) EffectPrompt else pd_effect d)"
  using assms by (simp add: applySecretPolicy_def tighten_effect)

definition eff :: "bool \<Rightarrow> bool \<Rightarrow> string" where
  "eff deny prompt = (if deny then EffectDeny else if prompt then EffectPrompt else EffectAllow)"

lemma eff_facts:
  "validPolicyEffect (eff b p)" "effect_join (eff b p) EffectDeny = eff True p" "effect_join (eff b p) EffectPrompt = eff b True"
  by (simp_all add: eff_def effect_join_def)

lemma base_effect:
  "pd_effect (base_decision E network req) =
     eff (layer_denies E network req) (layer_prompts E network req)"
proof -
  let ?legacy = "Classify E (rq_command req) network \<lparr>WorkspaceRoot = rq_root req, CWD = rq_cwd req\<rparr>"
  define d0 where "d0 = \<lparr>pd_effect = EffectAllow, pd_risk = RiskSafe, pd_rules = [], pd_reasons = [], pd_requires = False,
    pd_blocked = False, pd_redacted = [], pd_secret = effectiveSecretMode E req, pd_key = []\<rparr>"
  define d1 where "d1 = (if rq_command req \<noteq> [] then
    d0\<lparr>pd_risk := d_risk ?legacy, pd_redacted := d_redacted ?legacy, pd_reasons := pd_reasons d0 @ d_rules ?legacy,
       pd_effect := (if d_blocked ?legacy then EffectDeny else if d_requires ?legacy then EffectPrompt else pd_effect d0)\<rparr> else d0)"
  define d2 where "d2 = (if rq_path req \<noteq> [] \<and> IsSensitivePath E (rq_path req)
    then tightenPolicy EffectDeny RiskBlocked ''sensitive_path_access'' d1 else d1)"
  define d3 where "d3 = (if rq_network req \<noteq> [] then
      (if network = NetworkDeny then tightenPolicy EffectDeny RiskBlocked ''network_denied'' d2
       else if network = NetworkApproval then tightenPolicy EffectPrompt RiskCritical ''network_requires_approval'' d2
       else d2) else d2)"
  have eq: "base_decision E network req = applySecretPolicy req d3"
    unfolding base_decision_def Let_def d3_def d2_def d1_def d0_def by (rule refl)
  let ?b1 = "rq_command req \<noteq> [] \<and> d_blocked ?legacy" and ?p1 = "rq_command req \<noteq> [] \<and> d_requires ?legacy"
  let ?b2 = "?b1 \<or> rq_path req \<noteq> [] \<and> IsSensitivePath E (rq_path req)"
  let ?b3 = "?b2 \<or> rq_network req \<noteq> [] \<and> network = NetworkDeny"
  let ?p3 = "?p1 \<or> rq_network req \<noteq> [] \<and> network = NetworkApproval"
  let ?s = "effectiveSecretMode E req"
  let ?bs = "?s = SecretExpose \<or> ?s = SecretEnumerate \<or> (?s = SecretConsume \<and> (rq_names req = [] \<or> rq_output req = SecretOutputRaw))"
  have e1: "pd_effect d1 = eff ?b1 ?p1" "pd_secret d1 = ?s"
    by (simp_all add: d1_def d0_def eff_def)
  have e2: "pd_effect d2 = eff ?b2 ?p1" "pd_secret d2 = ?s"
    unfolding d2_def by (simp_all add: tighten_effect e1 eff_facts)
  have e3: "pd_effect d3 = eff ?b3 ?p3 \<and> pd_secret d3 = ?s"
  proof -
    define b p where "b = ?b2" and "p = ?p1"
    have d2: "pd_effect d2 = eff b p" "pd_secret d2 = ?s" using e2 unfolding b_def p_def by blast+
    have "pd_effect d3 = eff (b \<or> rq_network req \<noteq> [] \<and> network = NetworkDeny) (p \<or> rq_network req \<noteq> [] \<and> network = NetworkApproval) \<and>
      pd_secret d3 = ?s"
      unfolding d3_def by (auto simp: tighten_effect d2 eff_facts)
    then show ?thesis unfolding b_def p_def by blast
  qed
  have "pd_effect (applySecretPolicy req d3) = eff (?b3 \<or> ?bs) (?p3 \<or> ?s = SecretConsume)"
  proof (cases ?bs)
    case True
    then show ?thesis using secret_policy_effect [of d3 req] by (simp add: e3 eff_facts) (simp add: eff_def)
  next
    case False
    then show ?thesis using secret_policy_effect [of d3 req]
      by (cases "?s = SecretConsume") (simp_all add: e3 eff_facts)
  qed
  then show ?thesis unfolding eq layer_denies_def layer_prompts_def by (simp only: disj_assoc)
qed

lemma normalize_rules_Some:
  "normalize_rules seen rs = Some out \<longleftrightarrow>
     out = map (\<lambda>r. r\<lparr>ru_id := trim_space (ru_id r), ru_reason := trim_space (ru_reason r)\<rparr>) rs \<and>
     (\<forall>r \<in> set rs. trim_space (ru_id r) \<noteq> [] \<and> validPolicyEffect (ru_effect r) \<and> validRuleMatch (ru_match r) \<and>
        trim_space (ru_id r) \<notin> set seen) \<and>
     distinct (map (\<lambda>r. trim_space (ru_id r)) rs)"
proof (induction seen rs arbitrary: out rule: normalize_rules.induct)
  case (2 seen r rs)
  let ?r = "r\<lparr>ru_id := trim_space (ru_id r), ru_reason := trim_space (ru_reason r)\<rparr>"
  show ?case
  proof (cases "trim_space (ru_id r) = [] \<or> \<not> validPolicyEffect (ru_effect r) \<or> \<not> validRuleMatch (ru_match r) \<or>
      trim_space (ru_id r) \<in> set seen")
    case True
    then show ?thesis by (auto simp: Let_def)
  next
    case False
    note IH = 2 [OF refl]
    have "normalize_rules seen (r # rs) = map_option ((#) ?r) (normalize_rules (trim_space (ru_id r) # seen) rs)"
      using False by (simp add: Let_def)
    then show ?thesis using False IH by (auto simp: image_iff)
  qed
qed auto

lemma NewPolicyKernel_Inr:
  assumes "NewPolicyKernel rules network = Inr k"
  shows "normalize_rules [] rules \<noteq> None" "k_rules k = sort_key rule_key (the (normalize_rules [] rules))"
    "r \<in> set (k_rules k) \<Longrightarrow> validPolicyEffect (ru_effect r)"
    "k_network k = NetworkDeny \<or> k_network k = NetworkApproval \<or> k_network k = NetworkAllow"
proof -
  obtain out where out: "normalize_rules [] rules = Some out" and k: "k_rules k = sort_key rule_key out"
    and net: "k_network k = NetworkDeny \<or> k_network k = NetworkApproval \<or> k_network k = NetworkAllow"
    using assms unfolding NewPolicyKernel_def Let_def by (auto split: if_splits option.splits)
  show "normalize_rules [] rules \<noteq> None" "k_rules k = sort_key rule_key (the (normalize_rules [] rules))"
    using out k by simp_all
  show "validPolicyEffect (ru_effect r)" if "r \<in> set (k_rules k)"
    using out that unfolding normalize_rules_Some k by auto
  show "k_network k = NetworkDeny \<or> k_network k = NetworkApproval \<or> k_network k = NetworkAllow" by (rule net)
qed

lemma Evaluate_fields:
  "pd_effect (Evaluate E k input) = pd_effect (foldl (apply_rule E (normalizePolicyRequest E input))
     (base_decision E (k_network k) (normalizePolicyRequest E input)) (k_rules k))"
  "pd_blocked (Evaluate E k input) = (pd_effect (Evaluate E k input) = EffectDeny)"
  "pd_requires (Evaluate E k input) = (pd_effect (Evaluate E k input) = EffectPrompt)"
  "pd_requires (Evaluate E k input) \<Longrightarrow> pd_key (Evaluate E k input) =
     policyApprovalKey E (normalizePolicyRequest E input) (pd_secret (Evaluate E k input))"
  by (simp_all add: Evaluate_def Let_def)

lemma Evaluate_strictest:
  assumes "\<And>r. r \<in> set (k_rules k) \<Longrightarrow> validPolicyEffect (ru_effect r)"
  shows "pd_effect (Evaluate E k input) = strictest_effect E k (normalizePolicyRequest E input)"
proof -
  let ?req = "normalizePolicyRequest E input"
  let ?b = "base_decision E (k_network k) ?req"
  have b: "pd_effect ?b = eff (layer_denies E (k_network k) ?req) (layer_prompts E (k_network k) ?req)" by (rule base_effect)
  note F = foldl_rule_effect [of "k_rules k" ?b E ?req, OF assms]
  have v: "validPolicyEffect (pd_effect ?b)" unfolding b by (rule eff_facts)
  show ?thesis
    using F [OF _ v] unfolding Evaluate_fields(1) strictest_effect_def rule_says_def b
    by (auto simp: eff_def validPolicyEffect_def split: if_splits)
qed

text \<open>
  C7. The kernel refines the specification that the strictest layer wins: the effect of \<open>Evaluate\<close> is deny when
  the classifier blocks the command, the path is sensitive, the network is denied, the secret use is not
  scoped and redacted, or some matching rule denies; otherwise prompt when some layer or matching rule
  prompts; otherwise allow. No layer and no rule, whatever its priority, loosens a stricter one; the flags
  follow the effect, and a prompt carries the approval key of the normalised request.
\<close>

theorem Evaluate_refines_strictest:
  assumes "NewPolicyKernel rules network = Inr k"
  shows "pd_effect (Evaluate E k input) = strictest_effect E k (normalizePolicyRequest E input) \<and>
    pd_blocked (Evaluate E k input) = (pd_effect (Evaluate E k input) = EffectDeny) \<and>
    pd_requires (Evaluate E k input) = (pd_effect (Evaluate E k input) = EffectPrompt) \<and>
    (pd_requires (Evaluate E k input) \<longrightarrow> pd_key (Evaluate E k input) =
       policyApprovalKey E (normalizePolicyRequest E input) (pd_secret (Evaluate E k input)))"
  using Evaluate_strictest [of k E input] NewPolicyKernel_Inr(3) [OF assms] Evaluate_fields [of E k input] by blast

text \<open>
  The order in which rules are supplied does not matter: for any permutation of the rules
  \<open>NewPolicyKernel\<close> accepts or refuses alike and builds the same kernel, hence the same decisions,
  reasons and keys.
\<close>

theorem NewPolicyKernel_permutation:
  assumes "mset rules = mset rules'"
  shows "NewPolicyKernel rules network = NewPolicyKernel rules' network"
proof -
  let ?f = "\<lambda>r :: policy_rule. r\<lparr>ru_id := trim_space (ru_id r), ru_reason := trim_space (ru_reason r)\<rparr>"
  have sets: "set rules = set rules'" using assms by (rule mset_eq_setD)
  have dist: "distinct (map (\<lambda>r. trim_space (ru_id r)) rules) = distinct (map (\<lambda>r. trim_space (ru_id r)) rules')"
    using assms by (metis mset_eq_imp_distinct_iff mset_map)
  have iff: "normalize_rules [] rs \<noteq> None \<longleftrightarrow>
      (\<forall>r \<in> set rs. trim_space (ru_id r) \<noteq> [] \<and> validPolicyEffect (ru_effect r) \<and> validRuleMatch (ru_match r)) \<and>
      distinct (map (\<lambda>r. trim_space (ru_id r)) rs)" for rs
    unfolding not_None_eq normalize_rules_Some by simp
  have none: "normalize_rules [] rules = None \<longleftrightarrow> normalize_rules [] rules' = None"
    using iff [of rules] iff [of rules'] unfolding sets dist by blast
  have "sort_key rule_key out = sort_key rule_key out'"
    if o: "normalize_rules [] rules = Some out" "normalize_rules [] rules' = Some out'" for out out'
  proof -
    have out: "out = map ?f rules" "out' = map ?f rules'" "distinct (map (\<lambda>r. trim_space (ru_id r)) rules)"
      using o unfolding normalize_rules_Some by simp_all
    have "mset out = mset out'" unfolding out(1,2) mset_map assms ..
    then have "mset out = mset (sort_key rule_key out')" by simp
    moreover have "distinct (map ru_id out)" using out(3) by (simp add: out(1) comp_def)
    then have "inj_on ru_id (set out)" by (simp add: distinct_map)
    then have "inj_on rule_key (set out)" by (auto simp: inj_on_def rule_key_def)
    ultimately show ?thesis by (rule sort_key_inj_key_eq) simp
  qed
  with none show ?thesis unfolding NewPolicyKernel_def Let_def by (auto split: option.splits)
qed

definition any_match :: policy_match where
  "any_match = \<lparr>mt_action = [], mt_tool = [], mt_role = [], mt_path = [], mt_host = [], mt_secret = [], mt_risk = []\<rparr>"

definition demo_rules :: "policy_rule list" where
  "demo_rules = [\<lparr>ru_id = ''a'', ru_priority = 1, ru_effect = EffectAllow, ru_match = any_match, ru_reason = []\<rparr>,
     \<lparr>ru_id = ''b'', ru_priority = 5, ru_effect = EffectDeny, ru_match = any_match\<lparr>mt_tool := ''edit''\<rparr>, ru_reason = []\<rparr>]"

definition demo_kernel :: policy_kernel where
  "demo_kernel = \<lparr>k_rules = rev demo_rules, k_network = NetworkApproval\<rparr>"

lemma demo_kernel_built: "NewPolicyKernel demo_rules [] = Inr demo_kernel"
  unfolding demo_kernel_def by code_simp

definition demo_request :: policy_request where
  "demo_request = \<lparr>rq_actor = ''u'', rq_agent = [], rq_role = [], rq_action = ''read'', rq_tool = ''Edit '', rq_command = [],
     rq_path = [], rq_network = [], rq_root = [], rq_cwd = [], rq_secret = [], rq_names = [], rq_output = []\<rparr>"

theorem Evaluate_refines_strictest_witness:
  "pd_effect (Evaluate demo_secenv demo_kernel demo_request) = EffectDeny \<and>
   pd_blocked (Evaluate demo_secenv demo_kernel demo_request)"
proof -
  have "strictest_effect demo_secenv demo_kernel (normalizePolicyRequest demo_secenv demo_request) = EffectDeny" by code_simp
  then show ?thesis using Evaluate_refines_strictest [OF demo_kernel_built, of demo_secenv demo_request] by simp
qed

theorem NewPolicyKernel_permutation_witness:
  "NewPolicyKernel (rev demo_rules) [] = Inr demo_kernel"
proof -
  have "mset demo_rules = mset (rev demo_rules)" by simp
  from NewPolicyKernel_permutation [OF this, of "[]"] show ?thesis using demo_kernel_built by simp
qed

section \<open>The rule language\<close>

datatype dsl_problem =
    UnterminatedQuote | UnknownEffect string | MalformedSelector string | DuplicateSelector string
  | UnknownSecretMode string | UnknownRiskLevel string | UnquotedReason | InvalidPriority string
  | EmptyRuleID | UnknownSelector string | DuplicateRuleID string

text \<open>\<open>dslError\<close>: the line number and the problem.\<close>

datatype dsl_error = ErrInvalidPolicyDSL nat dsl_problem

fun dsl_fields :: "string \<Rightarrow> string list \<Rightarrow> string \<Rightarrow> bool \<Rightarrow> string list option" where
  "dsl_fields [] flds cur q = (if q then None else Some (flds @ flush_word cur []))"
| "dsl_fields (c # cs) flds cur q =
     (if c = CHR ''#'' \<and> \<not> q \<and> cur = [] then Some flds
      else if c = CHR 0x22 then dsl_fields cs flds (cur @ [c]) (\<not> q)
      else if (c = CHR 0x20 \<or> c = CHR 0x09) \<and> \<not> q then dsl_fields cs (flds @ flush_word cur []) [] q
      else dsl_fields cs flds (cur @ [c]) q)"

definition splitDSLFields :: "string \<Rightarrow> string list option" where
  "splitDSLFields line = dsl_fields (utf8_coerce line) [] [] False"

definition dslEffect :: "('z) goenv_scheme \<Rightarrow> string \<Rightarrow> string option" where
  "dslEffect G raw = (let e = to_lower G (trim_space raw) in if validPolicyEffect e then Some e else None)"

definition dslSecretMode :: "('z) goenv_scheme \<Rightarrow> string \<Rightarrow> string option" where
  "dslSecretMode G raw =
     (let m = to_lower G (trim_space raw) in
      if m = SecretNone \<or> m = SecretConsume \<or> m = SecretExpose \<or> m = SecretEnumerate then Some m else None)"

definition dslRiskLevel :: "('z) secenv_scheme \<Rightarrow> string \<Rightarrow> string option" where
  "dslRiskLevel E raw = (let l = to_upper (upper_unicode E) (trim_space raw) in if l \<in> set risk_levels then Some l else None)"

definition dslUnquote :: "string \<Rightarrow> string option" where
  "dslUnquote raw =
     (if length raw \<ge> 2 \<and> has_prefix raw [CHR 0x22] \<and> has_suffix raw [CHR 0x22]
      then Some (take (length raw - 2) (drop 1 raw)) else None)"

text \<open>\<open>strconv.Atoi\<close> on a 64-bit platform.\<close>

definition atoi :: "string \<Rightarrow> int option" where
  "atoi s =
     (let (neg, ds) = (case s of [] \<Rightarrow> (False, []) | c # cs \<Rightarrow>
              if c = CHR ''-'' then (True, cs) else if c = CHR ''+'' then (False, cs) else (False, s))
      in if ds = [] \<or> list_ex (\<lambda>c. of_char c < (48::int) \<or> of_char c > (57::int)) ds then None
         else let v = foldl (\<lambda>a c. 10 * a + (of_char c - 48)) 0 ds; n = (if neg then - v else v)
              in if - (2 ^ 63) \<le> n \<and> n < 2 ^ 63 then Some n else None)"

definition dsl_selector ::
  "('z) secenv_scheme \<Rightarrow> string \<Rightarrow> string \<Rightarrow> policy_rule \<Rightarrow> dsl_problem + policy_rule" where
  "dsl_selector E key value rule =
     (let m = ru_match rule in
      if key = ''action'' then Inr (rule\<lparr>ru_match := m\<lparr>mt_action := value\<rparr>\<rparr>)
      else if key = ''tool'' then Inr (rule\<lparr>ru_match := m\<lparr>mt_tool := value\<rparr>\<rparr>)
      else if key = ''role'' then Inr (rule\<lparr>ru_match := m\<lparr>mt_role := value\<rparr>\<rparr>)
      else if key = ''path'' then Inr (rule\<lparr>ru_match := m\<lparr>mt_path := value\<rparr>\<rparr>)
      else if key = ''host'' then Inr (rule\<lparr>ru_match := m\<lparr>mt_host := value\<rparr>\<rparr>)
      else if key = ''secret'' then
        (case dslSecretMode E value of None \<Rightarrow> Inl (UnknownSecretMode value)
         | Some mode \<Rightarrow> Inr (rule\<lparr>ru_match := m\<lparr>mt_secret := mode\<rparr>\<rparr>))
      else if key = ''risk'' then
        (case dslRiskLevel E value of None \<Rightarrow> Inl (UnknownRiskLevel value)
         | Some level \<Rightarrow> Inr (rule\<lparr>ru_match := m\<lparr>mt_risk := level\<rparr>\<rparr>))
      else if key = ''reason'' then
        (case dslUnquote value of None \<Rightarrow> Inl UnquotedReason | Some r \<Rightarrow> Inr (rule\<lparr>ru_reason := r\<rparr>))
      else if key = ''priority'' then
        (case atoi value of None \<Rightarrow> Inl (InvalidPriority value) | Some p \<Rightarrow> Inr (rule\<lparr>ru_priority := p\<rparr>))
      else if key = ''id'' then (if trim_space value = [] then Inl EmptyRuleID else Inr (rule\<lparr>ru_id := value\<rparr>))
      else Inl (UnknownSelector key))"

fun dsl_selectors ::
  "('z) secenv_scheme \<Rightarrow> string list \<Rightarrow> policy_rule \<Rightarrow> string list \<Rightarrow> dsl_problem + policy_rule" where
  "dsl_selectors E used rule [] = Inr rule"
| "dsl_selectors E used rule (field # flds) =
     (case str_cut (CHR '':'') field of
        None \<Rightarrow> Inl (MalformedSelector field)
      | Some (key0, value) \<Rightarrow>
          let key = to_lower E (trim_space key0) in
          if key \<in> set used then Inl (DuplicateSelector key)
          else case dsl_selector E key value rule of
                 Inl x \<Rightarrow> Inl x
               | Inr rule' \<Rightarrow> dsl_selectors E (key # used) rule' flds)"

definition parseDSLRule :: "('z) secenv_scheme \<Rightarrow> nat \<Rightarrow> string list \<Rightarrow> dsl_error + policy_rule" where
  "parseDSLRule E line flds =
     (case flds of
        [] \<Rightarrow> Inl (ErrInvalidPolicyDSL line (UnknownEffect []))
      | f0 # rest \<Rightarrow>
          (case dslEffect E f0 of
             None \<Rightarrow> Inl (ErrInvalidPolicyDSL line (UnknownEffect f0))
           | Some effect \<Rightarrow>
               (case dsl_selectors E [] \<lparr>ru_id = ''dsl-'' @ itoa line, ru_priority = 0, ru_effect = effect,
                       ru_match = any_match, ru_reason = []\<rparr> rest of
                  Inl x \<Rightarrow> Inl (ErrInvalidPolicyDSL line x)
                | Inr rule \<Rightarrow> Inr rule)))"

fun dsl_lines :: "('z) secenv_scheme \<Rightarrow> nat \<Rightarrow> string list \<Rightarrow> string list \<Rightarrow> dsl_error + policy_rule list" where
  "dsl_lines E n seen [] = Inr []"
| "dsl_lines E n seen (raw # raws) =
     (case splitDSLFields raw of
        None \<Rightarrow> Inl (ErrInvalidPolicyDSL n UnterminatedQuote)
      | Some flds \<Rightarrow>
          if flds = [] then dsl_lines E (n + 1) seen raws
          else case parseDSLRule E n flds of
            Inl x \<Rightarrow> Inl x
          | Inr rule \<Rightarrow>
              if ru_id rule \<in> set seen then Inl (ErrInvalidPolicyDSL n (DuplicateRuleID (ru_id rule)))
              else map_sum id ((#) rule) (dsl_lines E (n + 1) (ru_id rule # seen) raws))"

definition ParsePolicyDSL :: "('z) secenv_scheme \<Rightarrow> string \<Rightarrow> dsl_error + policy_rule list" where
  "ParsePolicyDSL E input = dsl_lines E 1 [] (split_on (CHR 0x0A) input)"

text \<open>What the parser guarantees of a rule.\<close>

definition dsl_rule_ok :: "policy_rule \<Rightarrow> bool" where
  "dsl_rule_ok r \<longleftrightarrow> trim_space (ru_id r) \<noteq> [] \<and> validPolicyEffect (ru_effect r) \<and> validRuleMatch (ru_match r)"

lemma dslSecretMode_rank: "dslSecretMode G v = Some m \<Longrightarrow> secretModeRank m \<noteq> 0"
  by (auto simp: dslSecretMode_def secretModeRank_def Let_def split: if_splits)

lemma dslRiskLevel_rank: "dslRiskLevel E v = Some l \<Longrightarrow> 0 \<le> riskRank l"
  by (auto simp: dslRiskLevel_def riskRank_def risk_levels_def Let_def split: if_splits)

lemma dsl_selector_ok:
  assumes "dsl_selector E key value rule = Inr rule'" and "dsl_rule_ok rule"
  shows "dsl_rule_ok rule'"
  using assms
  unfolding dsl_selector_def Let_def dsl_rule_ok_def validRuleMatch_def
  by (force dest: dslSecretMode_rank dslRiskLevel_rank split: if_splits option.splits)

lemma dsl_selectors_ok:
  "dsl_selectors E used rule flds = Inr rule' \<Longrightarrow> dsl_rule_ok rule \<Longrightarrow> dsl_rule_ok rule'"
proof (induction flds arbitrary: used rule)
  case (Cons field flds)
  obtain key0 v where c: "str_cut (CHR '':'') field = Some (key0, v)"
    using Cons.prems(1) by (auto split: option.splits)
  then obtain r where "dsl_selector E (to_lower E (trim_space key0)) v rule = Inr r"
    "dsl_selectors E (to_lower E (trim_space key0) # used) r flds = Inr rule'"
    using Cons.prems(1) by (auto simp: Let_def split: if_splits sum.splits)
  then show ?case using Cons.IH dsl_selector_ok Cons.prems(2) by blast
qed simp

lemma parseDSLRule_ok:
  assumes "parseDSLRule E n flds = Inr rule"
  shows "dsl_rule_ok rule"
proof -
  have id: "trim_space (''dsl-'' @ itoa n) \<noteq> []"
    using trim_space_of_trimmed [OF trimmed_number_key [of "CHR ''d''" "''sl-''" n]] by (simp add: plain_char_def)
  obtain f0 rest effect where r: "dslEffect E f0 = Some effect"
    "dsl_selectors E [] \<lparr>ru_id = ''dsl-'' @ itoa n, ru_priority = 0, ru_effect = effect, ru_match = any_match, ru_reason = []\<rparr> rest = Inr rule"
    using assms by (auto simp: parseDSLRule_def split: list.splits option.splits sum.splits)
  then have "validPolicyEffect effect" by (auto simp: dslEffect_def Let_def split: if_splits)
  then show ?thesis using dsl_selectors_ok [OF r(2)] id
    by (simp add: dsl_rule_ok_def validRuleMatch_def any_match_def)
qed

lemma dsl_lines_ok: "dsl_lines E n seen raws = Inr rules \<Longrightarrow> r \<in> set rules \<Longrightarrow> dsl_rule_ok r"
proof (induction E n seen raws arbitrary: rules rule: dsl_lines.induct)
  case (2 E n seen raw raws)
  obtain flds where f: "splitDSLFields raw = Some flds" using 2(3) by (auto split: option.splits)
  show ?case
  proof (cases "flds = []")
    case True
    then show ?thesis using 2 f by simp
  next
    case False
    then obtain rule rs where p: "parseDSLRule E n flds = Inr rule" "ru_id rule \<notin> set seen"
      "dsl_lines E (n + 1) (ru_id rule # seen) raws = Inr rs" "rules = rule # rs"
      using 2(3) f by (cases "parseDSLRule E n flds"; cases "dsl_lines E (n + 1) (ru_id (projr (parseDSLRule E n flds)) # seen) raws")
        (auto split: if_splits)
    show ?thesis using 2(2) [OF f False p(1,2,3)] 2(4) p(4) parseDSLRule_ok [OF p(1)] by auto
  qed
qed simp

text \<open>
  A document \<open>ParsePolicyDSL\<close> accepts compiles to rules with valid effects, secret modes, risk levels and
  ids, so that the only reason for \<open>NewPolicyKernel\<close> to refuse them, under a valid network policy, is two
  ids that differ in outer white space only (the parser compares ids before trimming, the kernel after).
\<close>

theorem ParsePolicyDSL_accepted:
  assumes "ParsePolicyDSL E input = Inr rules"
    and "network = [] \<or> network = NetworkDeny \<or> network = NetworkApproval \<or> network = NetworkAllow"
  shows "(\<exists>k. NewPolicyKernel rules network = Inr k) \<longleftrightarrow> distinct (map (\<lambda>r. trim_space (ru_id r)) rules)"
proof -
  have ok: "trim_space (ru_id r) \<noteq> [] \<and> validPolicyEffect (ru_effect r) \<and> validRuleMatch (ru_match r)" if "r \<in> set rules" for r
    using dsl_lines_ok [OF assms(1) [unfolded ParsePolicyDSL_def] that] by (simp add: dsl_rule_ok_def)
  have "normalize_rules [] rules \<noteq> None \<longleftrightarrow> distinct (map (\<lambda>r. trim_space (ru_id r)) rules)"
    unfolding not_None_eq normalize_rules_Some using ok by simp
  moreover have "(\<exists>k. NewPolicyKernel rules network = Inr k) \<longleftrightarrow> normalize_rules [] rules \<noteq> None"
    using assms(2) by (elim disjE) (simp_all add: NewPolicyKernel_def split: option.splits)
  ultimately show ?thesis by simp
qed

text \<open>Two rules whose ids differ by a carriage return pass the parser and are refused by the kernel.\<close>

definition demo_crlf :: string where
  "demo_crlf = ''allow id:x'' @ [CHR 0x0D, CHR 0x0A] @ ''deny id:x''"

theorem ParsePolicyDSL_accepted_witness:
  "(\<exists>rules. ParsePolicyDSL demo_secenv ''deny secret:expose # c'' = Inr rules \<and> rules \<noteq> [] \<and> (\<exists>k. NewPolicyKernel rules [] = Inr k)) \<and>
   (\<exists>rules. ParsePolicyDSL demo_secenv demo_crlf = Inr rules \<and> \<not> (\<exists>k. NewPolicyKernel rules [] = Inr k))"
proof -
  have a: "map_sum id (\<lambda>rs. rs \<noteq> [] \<and> distinct (map (\<lambda>r. trim_space (ru_id r)) rs)) (ParsePolicyDSL demo_secenv ''deny secret:expose # c'') = Inr True"
    by code_simp
  have b: "map_sum id (\<lambda>rs. distinct (map (\<lambda>r. trim_space (ru_id r)) rs)) (ParsePolicyDSL demo_secenv demo_crlf) = Inr False"
    by code_simp
  obtain rs where rs: "ParsePolicyDSL demo_secenv ''deny secret:expose # c'' = Inr rs" "rs \<noteq> []" "distinct (map (\<lambda>r. trim_space (ru_id r)) rs)"
    using a by (cases "ParsePolicyDSL demo_secenv ''deny secret:expose # c''") auto
  obtain qs where qs: "ParsePolicyDSL demo_secenv demo_crlf = Inr qs" "\<not> distinct (map (\<lambda>r. trim_space (ru_id r)) qs)"
    using b by (cases "ParsePolicyDSL demo_secenv demo_crlf") auto
  show ?thesis using ParsePolicyDSL_accepted [OF rs(1), of "[]"] ParsePolicyDSL_accepted [OF qs(1), of "[]"] rs qs by blast
qed

section \<open>Capability projection\<close>

text \<open>\<open>src/internal/security/capability_projection.go\<close>\<close>

record capability_descriptor =
  cd_id :: string
  cd_action :: string
  cd_tool :: string
  cd_path :: string
  cd_network :: string
  cd_secret :: string
  cd_names :: "string list"
  cd_mutates :: bool

datatype visibility = CapabilityAvailable | CapabilityPromptable

record projected_capability =
  pc_cap :: capability_descriptor
  pc_visibility :: visibility
  pc_key :: string
  pc_risk :: string

record projection_request =
  pr_actor :: string
  pr_agent :: string
  pr_role :: string
  pr_root :: string
  pr_cwd :: string
  pr_approval :: bool
  pr_caps :: "capability_descriptor list"

definition normalizeCapabilityDescriptor :: "('z) goenv_scheme \<Rightarrow> capability_descriptor \<Rightarrow> capability_descriptor" where
  "normalizeCapabilityDescriptor G v = v\<lparr>cd_id := trim_space (cd_id v), cd_action := to_lower G (trim_space (cd_action v)),
     cd_tool := to_lower G (trim_space (cd_tool v)), cd_path := filepathSlash (cd_path v),
     cd_network := trim_space (cd_network v), cd_secret := (if cd_secret v = [] then SecretNone else cd_secret v),
     cd_names := normalize_names (cd_names v)\<rparr>"

definition capability_request :: "projection_request \<Rightarrow> capability_descriptor \<Rightarrow> policy_request" where
  "capability_request input c = \<lparr>rq_actor = pr_actor input, rq_agent = pr_agent input, rq_role = pr_role input,
     rq_action = cd_action c, rq_tool = cd_tool c, rq_command = [], rq_path = cd_path c, rq_network = cd_network c,
     rq_root = pr_root input, rq_cwd = pr_cwd input, rq_secret = cd_secret c, rq_names = cd_names c,
     rq_output = SecretOutputRedacted\<rparr>"

fun project_loop ::
  "('z) secenv_scheme \<Rightarrow> policy_kernel \<Rightarrow> projection_request \<Rightarrow> string list \<Rightarrow> capability_descriptor list
     \<Rightarrow> projected_capability list option" where
  "project_loop E k input seen [] = Some []"
| "project_loop E k input seen (raw # raws) =
     (let c = normalizeCapabilityDescriptor E raw in
      if cd_id c = [] \<or> cd_action c = [] then None
      else if cd_id c \<in> set seen then None
      else
        let d = Evaluate E k (capability_request input c); go = project_loop E k input (cd_id c # seen) raws in
        if pd_effect d = EffectDeny then go
        else if pd_effect d = EffectPrompt then
          (if \<not> pr_approval input \<or> pd_key d = [] then go
           else map_option ((#) \<lparr>pc_cap = c, pc_visibility = CapabilityPromptable, pc_key = pd_key d, pc_risk = pd_risk d\<rparr>) go)
        else if pd_effect d = EffectAllow then
          map_option ((#) \<lparr>pc_cap = c, pc_visibility = CapabilityAvailable, pc_key = [], pc_risk = pd_risk d\<rparr>) go
        else None)"

definition ProjectCapabilities ::
  "('z) secenv_scheme \<Rightarrow> policy_kernel option \<Rightarrow> projection_request \<Rightarrow> policy_error + projected_capability list" where
  "ProjectCapabilities E okernel input =
     (case okernel of
        None \<Rightarrow> Inl ErrInvalidCapabilityProjection
      | Some k \<Rightarrow>
          if trim_space (pr_actor input) = [] then Inl ErrInvalidCapabilityProjection
          else case project_loop E k input [] (pr_caps input) of
                 None \<Rightarrow> Inl ErrInvalidCapabilityProjection
               | Some out \<Rightarrow> Inr (sort_key (\<lambda>p. cd_id (pc_cap p)) out))"

lemma key_not_empty: "pd_requires (Evaluate E k input) \<Longrightarrow> pd_key (Evaluate E k input) \<noteq> []"
  using Evaluate_fields(4) [of E k input] by (simp add: policyApprovalKey_def)

definition visible :: "('z) secenv_scheme \<Rightarrow> policy_kernel \<Rightarrow> projection_request \<Rightarrow> capability_descriptor \<Rightarrow> bool" where
  "visible E k input c \<longleftrightarrow>
     (let e = strictest_effect E k (normalizePolicyRequest E (capability_request input c)) in
      e = EffectAllow \<or> (e = EffectPrompt \<and> pr_approval input))"

lemma project_loop_spec:
  assumes "\<And>r. r \<in> set (k_rules k) \<Longrightarrow> validPolicyEffect (ru_effect r)"
    and "project_loop E k input seen raws = Some out"
  shows "map pc_cap out = filter (visible E k input) (map (normalizeCapabilityDescriptor E) raws) \<and>
    distinct (map cd_id (map (normalizeCapabilityDescriptor E) raws)) \<and>
    (\<forall>c \<in> set (map (normalizeCapabilityDescriptor E) raws). cd_id c \<notin> set seen \<and> cd_id c \<noteq> []) \<and>
    (\<forall>p \<in> set out. pc_visibility p = CapabilityAvailable \<longleftrightarrow>
       strictest_effect E k (normalizePolicyRequest E (capability_request input (pc_cap p))) = EffectAllow)"
  using assms(2)
proof (induction raws arbitrary: seen out)
  case (Cons raw raws)
  let ?c = "normalizeCapabilityDescriptor E raw"
  let ?rq = "capability_request input ?c"
  let ?d = "Evaluate E k ?rq" and ?go = "project_loop E k input (cd_id ?c # seen) raws"
  have eff: "pd_effect ?d = strictest_effect E k (normalizePolicyRequest E ?rq)" using Evaluate_strictest assms(1) by blast
  have three: "pd_effect ?d = EffectDeny \<or> pd_effect ?d = EffectPrompt \<or> pd_effect ?d = EffectAllow"
    unfolding eff strictest_effect_def by simp
  have key: "pd_effect ?d = EffectPrompt \<Longrightarrow> pd_key ?d \<noteq> []"
    using key_not_empty [of E k ?rq] Evaluate_fields(3) [of E k ?rq] by simp
  have c: "cd_id ?c \<noteq> []" "cd_id ?c \<notin> set seen" using Cons.prems by (auto simp: Let_def split: if_splits)
  have vis: "visible E k input ?c \<longleftrightarrow> pd_effect ?d = EffectAllow \<or> (pd_effect ?d = EffectPrompt \<and> pr_approval input)"
    unfolding visible_def eff Let_def by blast
  obtain out' where go: "?go = Some out'"
    and out: "out = (if visible E k input ?c
      then \<lparr>pc_cap = ?c, pc_visibility = (if pd_effect ?d = EffectAllow then CapabilityAvailable else CapabilityPromptable),
         pc_key = (if pd_effect ?d = EffectAllow then [] else pd_key ?d), pc_risk = pd_risk ?d\<rparr> # out' else out')"
    using Cons.prems c three key unfolding vis by (elim disjE) (auto simp: Let_def split: if_splits)
  note IH = Cons.IH [OF go]
  show ?case using IH c unfolding out by (auto simp: eff)
qed simp

text \<open>
  The projected tool set is exactly what the policy lets the session use: \<open>ProjectCapabilities\<close> returns, in
  order of id and each once, the capabilities whose effect is allow, and those whose effect is prompt
  when the session can satisfy an approval; a denied capability is absent, and a capability is shown as
  available exactly when no approval is needed.
\<close>

theorem ProjectCapabilities_exact:
  assumes "NewPolicyKernel rules network = Inr k" and "ProjectCapabilities E (Some k) input = Inr out"
  shows "set (map pc_cap out) = {c \<in> set (map (normalizeCapabilityDescriptor E) (pr_caps input)). visible E k input c} \<and>
    sorted (map (\<lambda>p. cd_id (pc_cap p)) out) \<and> distinct (map (\<lambda>p. cd_id (pc_cap p)) out) \<and>
    (\<forall>p \<in> set out. pc_visibility p = CapabilityAvailable \<longleftrightarrow>
       strictest_effect E k (normalizePolicyRequest E (capability_request input (pc_cap p))) = EffectAllow)"
proof -
  let ?cs = "map (normalizeCapabilityDescriptor E) (pr_caps input)"
  obtain o1 where o1: "project_loop E k input [] (pr_caps input) = Some o1" and out: "out = sort_key (\<lambda>p. cd_id (pc_cap p)) o1"
    using assms(2) by (auto simp: ProjectCapabilities_def split: if_splits option.splits)
  have spec: "map pc_cap o1 = filter (visible E k input) ?cs" "distinct (map cd_id ?cs)"
    "\<forall>p \<in> set o1. pc_visibility p = CapabilityAvailable \<longleftrightarrow>
       strictest_effect E k (normalizePolicyRequest E (capability_request input (pc_cap p))) = EffectAllow"
    using project_loop_spec [OF NewPolicyKernel_Inr(3) [OF assms(1)] o1] by blast+
  have "distinct (map cd_id (map pc_cap o1))" unfolding spec(1) using spec(2) by (simp add: distinct_map_filter)
  then have "distinct (map (\<lambda>p. cd_id (pc_cap p)) o1)" by (simp add: comp_def)
  then have d: "distinct (map (\<lambda>p. cd_id (pc_cap p)) out)" unfolding out by (auto simp: distinct_map)
  have "set (map pc_cap out) = set (map pc_cap o1)" unfolding out by simp
  also have "\<dots> = {c \<in> set ?cs. visible E k input c}" unfolding spec(1) by simp
  finally show ?thesis using d spec(3) unfolding out by simp
qed

definition demo_caps :: projection_request where
  "demo_caps = (let c = \<lparr>cd_id = ''x'', cd_action = ''read'', cd_tool = ''edit'', cd_path = [], cd_network = [], cd_secret = [], cd_names = [], cd_mutates = False\<rparr>
     in \<lparr>pr_actor = ''u'', pr_agent = [], pr_role = [], pr_root = [], pr_cwd = [], pr_approval = False,
         pr_caps = [c, c\<lparr>cd_id := ''b'', cd_tool := ''view''\<rparr>, c\<lparr>cd_id := ''a'', cd_tool := ''web'', cd_network := ''h''\<rparr>]\<rparr>)"

theorem ProjectCapabilities_exact_witness:
  "\<exists>out. ProjectCapabilities demo_secenv (Some demo_kernel) demo_caps = Inr out \<and> map (\<lambda>p. cd_id (pc_cap p)) out = [''b''] \<and>
     sorted (map (\<lambda>p. cd_id (pc_cap p)) out)"
proof -
  have "map_sum id (map (\<lambda>p. cd_id (pc_cap p))) (ProjectCapabilities demo_secenv (Some demo_kernel) demo_caps) = Inr [''b'']" by code_simp
  then obtain out where out: "ProjectCapabilities demo_secenv (Some demo_kernel) demo_caps = Inr out" "map (\<lambda>p. cd_id (pc_cap p)) out = [''b'']"
    by (cases "ProjectCapabilities demo_secenv (Some demo_kernel) demo_caps") auto
  have "sorted (map (\<lambda>p. cd_id (pc_cap p)) out)"
    using ProjectCapabilities_exact [OF demo_kernel_built out(1)] by (elim conjE)
  with out show ?thesis by (intro exI [of _ out] conjI)
qed

end
