(* ===== verification/CapabilityLease.thy ===== *)
theory CapabilityLease
  imports PolicyKernel
begin

text \<open>
  One-shot capability leases, \<open>src/internal/security/capability_lease.go\<close> and \<open>capability_lending.go\<close>.
  A lease is a JSON file in a directory named after its status; it is spent by renaming it out of the
  directory of active leases. The store has no lock: several processes may run its operations at the same
  time, so the operations are split at their file-system calls and the one-shot property is proved
  for every interleaving of these calls.
\<close>

section \<open>Types\<close>

abbreviation "LeaseActive \<equiv> ''active''"
abbreviation "LeaseConsumed \<equiv> ''consumed''"
abbreviation "LeaseRevoked \<equiv> ''revoked''"
abbreviation "LeaseExpired \<equiv> ''expired''"

datatype lease_error =
    ErrInvalidCapabilityLease | ErrCapabilityLeaseUsed | ErrCapabilityLeaseScope | ErrCapabilityLeaseExpired
  | LeaseIO string

record capability_lease =
  le_id :: string
  le_ws :: string
  le_actor :: string
  le_agents :: "string list"
  le_key :: string
  le_parent :: string
  le_delegated :: string
  le_status :: string
  le_issued :: gotime
  le_expires :: gotime
  le_consumed :: gotime
  le_revoked :: gotime

record lease_issue =
  is_id :: string
  is_ws :: string
  is_actor :: string
  is_agents :: "string list"
  is_key :: string
  is_ttl :: int

record lease_delegate =
  dl_id :: string
  dl_agents :: "string list"
  dl_ttl :: int

record auth_result =
  au_allowed :: bool
  au_decision :: policy_decision
  au_lease :: string
  au_reason :: string

text \<open>
  The files under the root of the store, by the digest of the workspace, the status directory and the
  digest of the lease id. A file holds a lease, or the beginning of one after a crash.
\<close>

datatype lease_file = Partial | Full capability_lease

type_synonym lease_path = "string \<times> string \<times> string"
type_synonym lease_fs = "lease_path \<Rightarrow> lease_file option"

text \<open>How the file system answers during one call: errors of stat, read and rename, the outcome of the final write.\<close>

record lease_io =
  io_stat :: "string \<Rightarrow> string option"
  io_read :: "string option"
  io_rename :: "string option"
  io_write :: write_outcome

definition lease_ok_io :: lease_io where
  "lease_ok_io = \<lparr>io_stat = (\<lambda>_. None), io_read = None, io_rename = None, io_write = WOk\<rparr>"

section \<open>File operations\<close>

definition leaseDigest :: "('z) goenv_scheme \<Rightarrow> string \<Rightarrow> string" where
  "leaseDigest G v = take 24 (sha256hex G (trim_space v))"

definition lease_path :: "('z) goenv_scheme \<Rightarrow> string \<Rightarrow> string \<Rightarrow> string \<Rightarrow> lease_path" where
  "lease_path G ws status i = (leaseDigest G ws, status, leaseDigest G i)"

text \<open>What the JSON file of a lease decodes to.\<close>

definition coerce_lease :: "capability_lease \<Rightarrow> capability_lease" where
  "coerce_lease l = l\<lparr>le_id := utf8_coerce (le_id l), le_ws := utf8_coerce (le_ws l), le_actor := utf8_coerce (le_actor l),
     le_agents := map utf8_coerce (le_agents l), le_key := utf8_coerce (le_key l), le_parent := utf8_coerce (le_parent l),
     le_delegated := utf8_coerce (le_delegated l), le_status := utf8_coerce (le_status l)\<rparr>"

text \<open>\<open>state.WriteJSONAtomic\<close>: a temporary file renamed over the target.\<close>

definition WriteJSONAtomic :: "write_outcome \<Rightarrow> lease_path \<Rightarrow> capability_lease \<Rightarrow> lease_fs \<Rightarrow> lease_fs \<times> lease_error option" where
  "WriteJSONAtomic io p l fs =
     (case io of
        WOk \<Rightarrow> (fs(p \<mapsto> Full (coerce_lease l)), None)
      | WUnsynced e \<Rightarrow> (fs(p \<mapsto> Full (coerce_lease l)), Some (LeaseIO e))
      | WLost e \<Rightarrow> (fs, Some (LeaseIO e))
      | WTorn e \<Rightarrow> (fs, Some (LeaseIO e)))"

text \<open>
  \<open>writeLeaseExclusive\<close>: the file is created only when it does not exist, and removed again when writing or
  syncing fails; \<open>WTorn\<close> is the case where the removal did not happen either. \<open>os.ErrExist\<close> is \<open>Inl True\<close>.
\<close>

definition writeLeaseExclusive :: "write_outcome \<Rightarrow> lease_path \<Rightarrow> capability_lease \<Rightarrow> lease_fs \<Rightarrow> lease_fs \<times> (bool \<times> string) option" where
  "writeLeaseExclusive io p l fs =
     (if fs p \<noteq> None then (fs, Some (True, []))
      else case io of
        WOk \<Rightarrow> (fs(p \<mapsto> Full (coerce_lease l)), None)
      | WTorn e \<Rightarrow> (fs(p \<mapsto> Partial), Some (False, e))
      | WUnsynced e \<Rightarrow> (fs, Some (False, e))
      | WLost e \<Rightarrow> (fs, Some (False, e)))"

definition claim :: "('z) goenv_scheme \<Rightarrow> lease_io \<Rightarrow> string \<Rightarrow> string \<Rightarrow> string \<Rightarrow> lease_fs \<Rightarrow> lease_fs \<times> lease_error option" where
  "claim G io ws i status fs =
     (let from = lease_path G ws LeaseActive i; target = lease_path G ws status i in
      case io_rename io of
        Some e \<Rightarrow> (fs, Some (LeaseIO e))
      | None \<Rightarrow>
          (case fs from of
             None \<Rightarrow> (fs, Some ErrCapabilityLeaseUsed)
           | Some f \<Rightarrow> (fs(from := None, target \<mapsto> f), None)))"

definition loadActive :: "('z) goenv_scheme \<Rightarrow> lease_io \<Rightarrow> string \<Rightarrow> string \<Rightarrow> lease_fs \<Rightarrow> lease_error + capability_lease" where
  "loadActive G io ws0 i0 fs =
     (let ws = trim_space ws0; i = trim_space i0 in
      if ws = [] \<or> i = [] then Inl ErrInvalidCapabilityLease
      else case io_read io of
        Some e \<Rightarrow> Inl (LeaseIO e)
      | None \<Rightarrow>
          (case fs (lease_path G ws LeaseActive i) of
             None \<Rightarrow> Inl ErrCapabilityLeaseUsed
           | Some Partial \<Rightarrow> Inl (LeaseIO ''decode'')
           | Some (Full l) \<Rightarrow>
               if le_id l \<noteq> i \<or> le_ws l \<noteq> ws \<or> le_status l \<noteq> LeaseActive \<or> le_actor l = [] \<or> le_key l = [] \<or>
                  le_issued l = 0 \<or> le_expires l = 0
               then Inl ErrInvalidCapabilityLease else Inr l))"

fun unused_loop :: "('z) goenv_scheme \<Rightarrow> lease_io \<Rightarrow> string \<Rightarrow> string \<Rightarrow> lease_fs \<Rightarrow> string list \<Rightarrow> lease_error option" where
  "unused_loop G io ws i fs [] = None"
| "unused_loop G io ws i fs (status # rest) =
     (case io_stat io status of
        Some e \<Rightarrow> Some (LeaseIO e)
      | None \<Rightarrow> if fs (lease_path G ws status i) \<noteq> None then Some ErrInvalidCapabilityLease
                else unused_loop G io ws i fs rest)"

definition ensureLeaseIDUnused :: "('z) goenv_scheme \<Rightarrow> lease_io \<Rightarrow> string \<Rightarrow> string \<Rightarrow> lease_fs \<Rightarrow> lease_error option" where
  "ensureLeaseIDUnused G io ws i fs =
     unused_loop G io ws i fs [LeaseActive, LeaseConsumed, LeaseRevoked, LeaseExpired]"

definition leaseAllowsAgent :: "capability_lease \<Rightarrow> string \<Rightarrow> bool" where
  "leaseAllowsAgent l agent0 =
     (let agent = trim_space agent0 in if agent = [] then le_agents l = [] else list_ex (\<lambda>a. a = agent) (le_agents l))"

definition normalizeLeaseAgents :: "string list \<Rightarrow> string list" where
  "normalizeLeaseAgents vs = uniq_trim [] (sort (filter (\<lambda>v. v \<noteq> []) (map trim_space vs)))"

section \<open>Operations\<close>

definition clamp_ttl :: "int \<Rightarrow> int" where
  "clamp_ttl ttl0 = (let ttl = (if ttl0 \<le> 0 then 10 * minute_ns else ttl0) in if ttl > hour_ns then hour_ns else ttl)"

text \<open>\<open>now\<close> is the clock of the store, \<open>rid\<close> the text \<open>randomLeaseID\<close> returns.\<close>

definition Issue ::
  "('z) goenv_scheme \<Rightarrow> gotime \<Rightarrow> string \<Rightarrow> lease_io \<Rightarrow> lease_fs \<Rightarrow> lease_issue \<Rightarrow> lease_fs \<times> (lease_error + capability_lease)" where
  "Issue G now rid io fs input =
     (let ws = trim_space (is_ws input); actor = trim_space (is_actor input); key = trim_space (is_key input);
          i0 = trim_space (is_id input)
      in if ws = [] \<or> actor = [] \<or> key = [] then (fs, Inl ErrInvalidCapabilityLease)
         else
           let i = (if i0 = [] then ''lease_'' @ rid else i0);
               lease = \<lparr>le_id = i, le_ws = ws, le_actor = actor, le_agents = normalizeLeaseAgents (is_agents input),
                        le_key = key, le_parent = [], le_delegated = [], le_status = LeaseActive, le_issued = now,
                        le_expires = now + clamp_ttl (is_ttl input), le_consumed = 0, le_revoked = 0\<rparr>
           in case ensureLeaseIDUnused G io ws i fs of
                Some e \<Rightarrow> (fs, Inl e)
              | None \<Rightarrow>
                  (case writeLeaseExclusive (io_write io) (lease_path G ws LeaseActive i) lease fs of
                     (fs', None) \<Rightarrow> (fs', Inr lease)
                   | (fs', Some (exist, e)) \<Rightarrow> (fs', Inl (if exist then ErrInvalidCapabilityLease else LeaseIO e))))"

text \<open>
  \<open>consume\<close> in its three stages: loading with the checks (an expired lease is moved aside), the rename
  that spends the lease, and the record of the consumption.
\<close>

definition consume_load ::
  "('z) goenv_scheme \<Rightarrow> gotime \<Rightarrow> lease_io \<Rightarrow> string \<Rightarrow> string \<Rightarrow> string \<Rightarrow> string \<Rightarrow> string \<Rightarrow> lease_fs
     \<Rightarrow> lease_fs \<times> (lease_error + capability_lease)" where
  "consume_load G now io ws i actor agent key fs =
     (case loadActive G io ws i fs of
        Inl e \<Rightarrow> (fs, Inl e)
      | Inr l \<Rightarrow>
          if \<not> now < le_expires l then
            (fst (WriteJSONAtomic (io_write io) (lease_path G ws LeaseExpired i) (l\<lparr>le_status := LeaseExpired\<rparr>)
                   (fst (claim G io ws i LeaseExpired fs))),
             Inl ErrCapabilityLeaseExpired)
          else if le_actor l \<noteq> actor \<or> le_key l \<noteq> key \<or> \<not> leaseAllowsAgent l agent then (fs, Inl ErrCapabilityLeaseScope)
          else (fs, Inr l))"

definition consume_write ::
  "('z) goenv_scheme \<Rightarrow> gotime \<Rightarrow> lease_io \<Rightarrow> string \<Rightarrow> string \<Rightarrow> capability_lease \<Rightarrow> lease_fs
     \<Rightarrow> lease_fs \<times> (lease_error + capability_lease)" where
  "consume_write G now io ws i l fs =
     (let l' = l\<lparr>le_status := LeaseConsumed, le_consumed := now\<rparr> in
      case WriteJSONAtomic (io_write io) (lease_path G ws LeaseConsumed i) l' fs of
        (fs', Some e) \<Rightarrow> (fs', Inl e)
      | (fs', None) \<Rightarrow> (fs', Inr l'))"

definition consume ::
  "('z) goenv_scheme \<Rightarrow> gotime \<Rightarrow> lease_io \<Rightarrow> string \<Rightarrow> string \<Rightarrow> string \<Rightarrow> string \<Rightarrow> string \<Rightarrow> lease_fs
     \<Rightarrow> lease_fs \<times> (lease_error + capability_lease)" where
  "consume G now io ws i actor agent key fs =
     (case consume_load G now io ws i actor agent key fs of
        (fs1, Inl e) \<Rightarrow> (fs1, Inl e)
      | (fs1, Inr l) \<Rightarrow>
          (case claim G io ws i LeaseConsumed fs1 of
             (fs2, Some e) \<Rightarrow> (fs2, Inl e)
           | (fs2, None) \<Rightarrow> consume_write G now io ws i l fs2))"

definition Authorize ::
  "('z) secenv_scheme \<Rightarrow> gotime \<Rightarrow> lease_io \<Rightarrow> lease_fs \<Rightarrow> string \<Rightarrow> policy_request \<Rightarrow> policy_decision \<Rightarrow> string
     \<Rightarrow> lease_fs \<times> auth_result option \<times> lease_error option" where
  "Authorize E now io fs ws req d leaseID =
     (if pd_effect d = EffectDeny then
        (fs, Some \<lparr>au_allowed = False, au_decision = d, au_lease = [], au_reason = ''policy_denied''\<rparr>, None)
      else if pd_effect d = EffectAllow then
        (fs, Some \<lparr>au_allowed = True, au_decision = d, au_lease = [], au_reason = ''policy_allowed''\<rparr>, None)
      else if pd_effect d \<noteq> EffectPrompt \<or> pd_key d = [] then (fs, None, Some ErrInvalidCapabilityLease)
      else
        let n = normalizePolicyRequest E req; expected = policyApprovalKey E n (effectiveSecretMode E n) in
        if expected \<noteq> pd_key d then (fs, None, Some ErrCapabilityLeaseScope)
        else case consume E now io ws leaseID (rq_actor n) (rq_agent n) (pd_key d) fs of
          (fs', Inl e) \<Rightarrow>
            (fs', Some \<lparr>au_allowed = False, au_decision = d, au_lease = [], au_reason = ''lease_rejected''\<rparr>, Some e)
        | (fs', Inr l) \<Rightarrow>
            (fs', Some \<lparr>au_allowed = True, au_decision = d, au_lease = le_id l, au_reason = ''lease_consumed''\<rparr>, None))"

definition Revoke ::
  "('z) goenv_scheme \<Rightarrow> gotime \<Rightarrow> lease_io \<Rightarrow> lease_fs \<Rightarrow> string \<Rightarrow> string \<Rightarrow> lease_fs \<times> (lease_error + capability_lease)" where
  "Revoke G now io fs ws i =
     (case loadActive G io ws i fs of
        Inl e \<Rightarrow> (fs, Inl e)
      | Inr l \<Rightarrow>
          let l' = l\<lparr>le_status := LeaseRevoked, le_revoked := now\<rparr> in
          (case claim G io ws i LeaseRevoked fs of
             (fs1, Some e) \<Rightarrow> (fs1, Inl e)
           | (fs1, None) \<Rightarrow>
               (case WriteJSONAtomic (io_write io) (lease_path G ws LeaseRevoked i) l' fs1 of
                  (fs2, Some e) \<Rightarrow> (fs2, Inl e)
                | (fs2, None) \<Rightarrow> (fs2, Inr l'))))"

definition Delegate ::
  "('z) goenv_scheme \<Rightarrow> gotime \<Rightarrow> string \<Rightarrow> lease_io \<Rightarrow> lease_fs \<Rightarrow> string \<Rightarrow> string \<Rightarrow> string \<Rightarrow> policy_decision
     \<Rightarrow> lease_delegate \<Rightarrow> lease_fs \<times> (lease_error + capability_lease)" where
  "Delegate G now rid io fs ws parentID delegator d input =
     (if pd_effect d \<noteq> EffectPrompt \<or> trim_space (pd_key d) = [] then (fs, Inl ErrInvalidCapabilityLease)
      else case loadActive G io (trim_space ws) (trim_space parentID) fs of
        Inl e \<Rightarrow> (fs, Inl e)
      | Inr parent \<Rightarrow>
          if \<not> now < le_expires parent then
            (fst (claim G io (le_ws parent) (le_id parent) LeaseExpired fs), Inl ErrCapabilityLeaseExpired)
          else if \<not> leaseAllowsAgent parent delegator then (fs, Inl ErrCapabilityLeaseScope)
          else
            let children = normalizeLeaseAgents (dl_agents input) in
            if children = [] then (fs, Inl ErrCapabilityLeaseScope)
            else if le_agents parent \<noteq> [] \<and> \<not> list_all (\<lambda>c. c \<in> set (le_agents parent)) children
            then (fs, Inl ErrCapabilityLeaseScope)
            else
              let e0 = now + clamp_ttl (dl_ttl input);
                  expires = (if e0 > le_expires parent then le_expires parent else e0)
              in if \<not> now < expires then (fs, Inl ErrCapabilityLeaseExpired)
                 else
                   let i = (if trim_space (dl_id input) = [] then ''lease_'' @ rid else dl_id input);
                       child = \<lparr>le_id = i, le_ws = le_ws parent, le_actor = le_actor parent, le_agents = children,
                         le_key = trim_space (pd_key d), le_parent = le_id parent, le_delegated = trim_space delegator,
                         le_status = LeaseActive, le_issued = now, le_expires = expires, le_consumed = 0, le_revoked = 0\<rparr>
                   in case ensureLeaseIDUnused G io (le_ws child) i fs of
                        Some e \<Rightarrow> (fs, Inl e)
                      | None \<Rightarrow>
                          (case writeLeaseExclusive (io_write io) (lease_path G (le_ws child) LeaseActive i) child fs of
                             (fs', None) \<Rightarrow> (fs', Inr child)
                           | (fs', Some (exist, e)) \<Rightarrow> (fs', Inl (LeaseIO e))))"

section \<open>Interleaved consumers\<close>

text \<open>
  A consumer is one call of \<open>consume\<close> and where it stands. The steps of the world are the file-system
  calls: the stages of a consumer, the exclusive creation of a lease file by \<open>Issue\<close> and \<open>Delegate\<close>, the
  renames of \<open>Revoke\<close> and of expiry, and the writes of audit records. The ghost counter counts how often
  a lease file was created.
\<close>

record consumer =
  cn_ws :: string
  cn_id :: string
  cn_actor :: string
  cn_agent :: string
  cn_key :: string

datatype con_pc = CStart | CLoaded capability_lease | CClaimed capability_lease | CDone "lease_error + capability_lease"

record lease_world =
  w_fs :: lease_fs
  w_cons :: "(consumer \<times> con_pc) list"
  w_created :: "lease_path \<Rightarrow> nat"

definition cn_path :: "('z) goenv_scheme \<Rightarrow> consumer \<Rightarrow> lease_path" where
  "cn_path G c = lease_path G (cn_ws c) LeaseActive (cn_id c)"

fun has_spent :: "con_pc \<Rightarrow> bool" where
  "has_spent (CClaimed l) = True"
| "has_spent (CDone (Inr l)) = True"
| "has_spent _ = False"

definition spent :: "('z) goenv_scheme \<Rightarrow> lease_path \<Rightarrow> (consumer \<times> con_pc) list \<Rightarrow> nat" where
  "spent G p cs = length (filter (\<lambda>(c, pc). cn_path G c = p \<and> has_spent pc) cs)"

inductive lease_step :: "('z) goenv_scheme \<Rightarrow> lease_world \<Rightarrow> lease_world \<Rightarrow> bool" for G where
  arrive: "lease_step G w (w\<lparr>w_cons := w_cons w @ [(c, CStart)]\<rparr>)"
| create: "p = lease_path G ws LeaseActive i \<Longrightarrow> writeLeaseExclusive io p l (w_fs w) = (fs, r) \<Longrightarrow>
    lease_step G w (w\<lparr>w_fs := fs, w_created := (if fs p \<noteq> w_fs w p then (w_created w)(p := Suc (w_created w p)) else w_created w)\<rparr>)"
| move: "claim G io ws i status (w_fs w) = (fs, r) \<Longrightarrow> status \<noteq> LeaseActive \<Longrightarrow> lease_step G w (w\<lparr>w_fs := fs\<rparr>)"
| audit: "WriteJSONAtomic io (lease_path G ws status i) l (w_fs w) = (fs, r) \<Longrightarrow> status \<noteq> LeaseActive \<Longrightarrow>
    lease_step G w (w\<lparr>w_fs := fs\<rparr>)"
| load: "k < length (w_cons w) \<Longrightarrow> w_cons w ! k = (c, CStart) \<Longrightarrow>
    consume_load G now io (cn_ws c) (cn_id c) (cn_actor c) (cn_agent c) (cn_key c) (w_fs w) = (fs, r) \<Longrightarrow>
    lease_step G w (w\<lparr>w_fs := fs, w_cons := (w_cons w)[k := (c, case r of Inl e \<Rightarrow> CDone (Inl e) | Inr l \<Rightarrow> CLoaded l)]\<rparr>)"
| spend: "k < length (w_cons w) \<Longrightarrow> w_cons w ! k = (c, CLoaded l) \<Longrightarrow>
    claim G io (cn_ws c) (cn_id c) LeaseConsumed (w_fs w) = (fs, r) \<Longrightarrow>
    lease_step G w (w\<lparr>w_fs := fs, w_cons := (w_cons w)[k := (c, case r of Some e \<Rightarrow> CDone (Inl e) | None \<Rightarrow> CClaimed l)]\<rparr>)"
| finish: "k < length (w_cons w) \<Longrightarrow> w_cons w ! k = (c, CClaimed l) \<Longrightarrow>
    consume_write G now io (cn_ws c) (cn_id c) l (w_fs w) = (fs, r) \<Longrightarrow>
    lease_step G w (w\<lparr>w_fs := fs, w_cons := (w_cons w)[k := (c, CDone r)]\<rparr>)"

definition lease_inv :: "('z) goenv_scheme \<Rightarrow> lease_world \<Rightarrow> bool" where
  "lease_inv G w \<longleftrightarrow> (\<forall>p. fst (snd p) = LeaseActive \<longrightarrow>
     spent G p (w_cons w) + (if w_fs w p = None then 0 else 1) \<le> w_created w p)"

lemma lease_invD:
  "lease_inv G w \<Longrightarrow> fst (snd p) = LeaseActive \<Longrightarrow> spent G p (w_cons w) + (if w_fs w p = None then 0 else 1) \<le> w_created w p"
  unfolding lease_inv_def by blast

text \<open>What the file-system calls do to the files of active leases.\<close>

lemma lease_path_status [simp]: "fst (snd (lease_path G ws status i)) = status"
  by (simp add: lease_path_def)

lemma claim_active:
  assumes "claim G io ws i status fs = (fs', r)" and "status \<noteq> LeaseActive" and "fst (snd p) = LeaseActive"
  shows "fs' p = (if r = None \<and> p = lease_path G ws LeaseActive i then None else fs p)"
    and "r = None \<Longrightarrow> fs (lease_path G ws LeaseActive i) \<noteq> None"
proof -
  have ne: "p \<noteq> lease_path G ws status i" using assms(2,3) by auto
  show "fs' p = (if r = None \<and> p = lease_path G ws LeaseActive i then None else fs p)"
    using assms(1) ne by (auto simp: claim_def Let_def split: option.splits)
  show "r = None \<Longrightarrow> fs (lease_path G ws LeaseActive i) \<noteq> None"
    using assms(1) by (auto simp: claim_def Let_def split: option.splits)
qed

lemma write_active:
  assumes "WriteJSONAtomic io (lease_path G ws status i) l fs = (fs', r)" and "status \<noteq> LeaseActive" and "fst (snd p) = LeaseActive"
  shows "fs' p = fs p"
proof -
  have "p \<noteq> lease_path G ws status i" using assms(2,3) by auto
  then show ?thesis using assms(1) by (auto simp: WriteJSONAtomic_def split: write_outcome.splits)
qed

lemma exclusive_active:
  assumes "writeLeaseExclusive io p l fs = (fs', r)"
  shows "q \<noteq> p \<Longrightarrow> fs' q = fs q" and "fs' p \<noteq> fs p \<Longrightarrow> fs p = None"
  using assms by (auto simp: writeLeaseExclusive_def split: if_splits write_outcome.splits)

lemma load_active:
  assumes "consume_load G now io ws i actor agent key fs = (fs', r)" and "fst (snd p) = LeaseActive"
  shows "fs' p = fs p \<or> fs' p = None"
proof -
  have e: "LeaseExpired \<noteq> LeaseActive" by simp
  obtain fs1 r1 where c: "claim G io ws i LeaseExpired fs = (fs1, r1)" by fastforce
  have f1: "fs1 p = fs p \<or> fs1 p = None" using claim_active(1) [OF c e assms(2)] by simp
  have f2: "fst (WriteJSONAtomic (io_write io) (lease_path G ws LeaseExpired i) l fs1) p = fs1 p" for l
    using write_active [OF _ e assms(2)] by (metis prod.collapse)
  show ?thesis using assms(1) f1 f2 by (auto simp: consume_load_def c split: sum.splits if_splits)
qed

lemma spent_update:
  assumes "k < length cs" and "cs ! k = (c, pc)"
  shows "spent G p (cs[k := (c, pc')]) + (if cn_path G c = p \<and> has_spent pc then 1 else 0) =
    spent G p cs + (if cn_path G c = p \<and> has_spent pc' then 1 else 0)"
proof -
  let ?P = "\<lambda>(c, pc). cn_path G c = p \<and> has_spent pc"
  have cs: "cs = take k cs @ (c, pc) # drop (Suc k) cs" using assms by (metis id_take_nth_drop)
  have up: "cs[k := (c, pc')] = take k cs @ (c, pc') # drop (Suc k) cs" using assms(1) by (rule upd_conv_take_nth_drop)
  have "spent G p cs = length (filter ?P (take k cs @ (c, pc) # drop (Suc k) cs))" unfolding spent_def using cs by simp
  moreover have "spent G p (cs[k := (c, pc')]) = length (filter ?P (take k cs @ (c, pc') # drop (Suc k) cs))"
    unfolding spent_def up ..
  ultimately show ?thesis by simp
qed

lemma spent_new [simp]: "spent G p (cs @ [(c, CStart)]) = spent G p cs"
  by (simp add: spent_def)

lemma lease_step_inv: "lease_step G w w' \<Longrightarrow> lease_inv G w \<Longrightarrow> lease_inv G w'"
proof (induction rule: lease_step.induct)
  case (arrive w c)
  then show ?case by (simp add: lease_inv_def)
next
  case (create p ws i io l w fs r)
  note ex = exclusive_active [OF create(2)]
  have "spent G q (w_cons w) + (if fs q = None then 0 else 1) \<le>
      (if fs p \<noteq> w_fs w p then (w_created w)(p := Suc (w_created w p)) else w_created w) q"
    if q: "fst (snd q) = LeaseActive" for q
  proof -
    have I: "spent G q (w_cons w) + (if w_fs w q = None then 0 else 1) \<le> w_created w q"
      by (rule lease_invD [OF create(3) q])
    show ?thesis using I ex(1) [of q] ex(2) by (cases "q = p") auto
  qed
  then show ?case unfolding lease_inv_def by simp
next
  case (move io ws i status w fs r)
  have "spent G p (w_cons w) + (if fs p = None then 0 else 1) \<le> w_created w p" if "fst (snd p) = LeaseActive" for p
    using lease_invD [OF move(3) that] claim_active(1) [OF move(1,2) that] by (simp split: if_splits)
  then show ?case unfolding lease_inv_def by simp
next
  case (audit io ws status i l w fs r)
  have "spent G p (w_cons w) + (if fs p = None then 0 else 1) \<le> w_created w p" if "fst (snd p) = LeaseActive" for p
    using lease_invD [OF audit(3) that] write_active [OF audit(1,2) that] by simp
  then show ?case unfolding lease_inv_def by simp
next
  case (load k w c now io fs r)
  have "spent G p ((w_cons w)[k := (c, case r of Inl e \<Rightarrow> CDone (Inl e) | Inr l \<Rightarrow> CLoaded l)]) + (if fs p = None then 0 else 1)
      \<le> w_created w p" if p: "fst (snd p) = LeaseActive" for p
  proof -
    have "spent G p (w_cons w) + (if w_fs w p = None then 0 else 1) \<le> w_created w p" by (rule lease_invD [OF load(4) p])
    then show ?thesis
      using spent_update [OF load(1,2), of G p "case r of Inl e \<Rightarrow> CDone (Inl e) | Inr l \<Rightarrow> CLoaded l"] load_active [OF load(3) p]
      by (auto split: sum.splits)
  qed
  then show ?case unfolding lease_inv_def by simp
next
  case (spend k w c l io fs r)
  have ne: "LeaseConsumed \<noteq> LeaseActive" by simp
  have "spent G p ((w_cons w)[k := (c, case r of Some e \<Rightarrow> CDone (Inl e) | None \<Rightarrow> CClaimed l)]) + (if fs p = None then 0 else 1)
      \<le> w_created w p" if p: "fst (snd p) = LeaseActive" for p
  proof -
    have I: "spent G p (w_cons w) + (if w_fs w p = None then 0 else 1) \<le> w_created w p" by (rule lease_invD [OF spend(4) p])
    note u = spent_update [OF spend(1,2), of G p "case r of Some e \<Rightarrow> CDone (Inl e) | None \<Rightarrow> CClaimed l"]
    note c = claim_active [OF spend(3) ne p]
    show ?thesis
    proof (cases r)
      case None
      then show ?thesis using I u c by (cases "cn_path G c = p") (auto simp: cn_path_def)
    next
      case (Some e)
      then show ?thesis using I u c by simp
    qed
  qed
  then show ?case unfolding lease_inv_def by simp
next
  case (finish k w c l now io fs r)
  have ne: "LeaseConsumed \<noteq> LeaseActive" by simp
  have fs: "fs p = w_fs w p" if p: "fst (snd p) = LeaseActive" for p
    using finish(3) write_active [OF _ ne p] by (auto simp: consume_write_def Let_def split: prod.splits option.splits)
  have "spent G p ((w_cons w)[k := (c, CDone r)]) \<le> spent G p (w_cons w)" for p
    using spent_update [OF finish(1,2), of G p "CDone r"] by (auto split: if_splits)
  then have "spent G p ((w_cons w)[k := (c, CDone r)]) + (if fs p = None then 0 else 1) \<le> w_created w p"
    if p: "fst (snd p) = LeaseActive" for p
    using lease_invD [OF finish(4) p] fs [OF p] by (metis add_le_mono1 order_trans)
  then show ?case unfolding lease_inv_def by simp
qed

lemma lease_steps_inv: "(lease_step G)\<^sup>*\<^sup>* w w' \<Longrightarrow> lease_inv G w \<Longrightarrow> lease_inv G w'"
  by (induction rule: rtranclp_induct) (auto intro: lease_step_inv)

section \<open>Properties\<close>

text \<open>
  C1. A lease is one-shot under every interleaving of concurrent processes: however the file-system calls of
  any number of issuing, delegating, revoking and consuming calls interleave, and whatever writes
  fail, no more consumptions of a lease file have gone through than the file was created, and one less
  while it is still active.
\<close>

theorem lease_one_shot:
  assumes "(lease_step G)\<^sup>*\<^sup>* w0 w" and "w_fs w0 = (\<lambda>_. None)" and "w_cons w0 = []"
  shows "spent G (lease_path G ws LeaseActive i) (w_cons w) +
    (if w_fs w (lease_path G ws LeaseActive i) = None then 0 else 1) \<le> w_created w (lease_path G ws LeaseActive i)"
proof -
  have "lease_inv G w0" using assms(2,3) by (simp add: lease_inv_def spent_def)
  then have "lease_inv G w" by (rule lease_steps_inv [OF assms(1)])
  then show ?thesis by (rule lease_invD) simp
qed

definition demo_issue :: lease_issue where
  "demo_issue = \<lparr>is_id = ''i'', is_ws = ''w'', is_actor = ''u'', is_agents = [''b''], is_key = ''k'', is_ttl = 5\<rparr>"

definition demo_lease :: capability_lease where
  "demo_lease = \<lparr>le_id = ''i'', le_ws = ''w'', le_actor = ''u'', le_agents = [''b''], le_key = ''k'', le_parent = [],
     le_delegated = [], le_status = LeaseActive, le_issued = 7, le_expires = 12, le_consumed = 0, le_revoked = 0\<rparr>"

abbreviation "demo_path \<equiv> lease_path demo_secenv ''w'' LeaseActive ''i''"

definition demo_consumer :: consumer where
  "demo_consumer = \<lparr>cn_ws = ''w'', cn_id = ''i'', cn_actor = ''u'', cn_agent = ''b'', cn_key = ''k''\<rparr>"

definition demo_w0 :: lease_world where
  "demo_w0 = \<lparr>w_fs = (\<lambda>_. None), w_cons = [], w_created = (\<lambda>_. 0)\<rparr>"

definition demo_w1 :: lease_world where
  "demo_w1 = (let (fs, r) = writeLeaseExclusive WOk demo_path demo_lease (w_fs demo_w0) in
     demo_w0\<lparr>w_fs := fs, w_created := (if fs demo_path \<noteq> w_fs demo_w0 demo_path
       then (w_created demo_w0)(demo_path := Suc (w_created demo_w0 demo_path)) else w_created demo_w0)\<rparr>)"

definition demo_w2 :: lease_world where
  "demo_w2 = demo_w1\<lparr>w_cons := w_cons demo_w1 @ [(demo_consumer, CStart)]\<rparr>"

lemma demo_w2_reachable: "(lease_step demo_secenv)\<^sup>*\<^sup>* demo_w0 demo_w2"
proof -
  have "lease_step demo_secenv demo_w0 demo_w1" unfolding demo_w1_def Let_def case_prod_beta
    by (rule lease_step.create [OF refl prod.collapse [symmetric]])
  moreover have "lease_step demo_secenv demo_w1 demo_w2" unfolding demo_w2_def by (rule lease_step.arrive)
  ultimately show ?thesis by (rule rtranclp_trans [OF r_into_rtranclp r_into_rtranclp])
qed

theorem lease_one_shot_witness:
  "w_created demo_w2 demo_path = 1 \<and>
   spent demo_secenv demo_path (w_cons demo_w2) + (if w_fs demo_w2 demo_path = None then 0 else 1) \<le> 1"
proof -
  have "w_created demo_w2 demo_path = 1" by code_simp
  then show ?thesis using lease_one_shot [OF demo_w2_reachable, of "''w''" "''i''"] by (simp add: demo_w0_def)
qed

lemma loadActive_Inr:
  assumes "loadActive G io ws i fs = Inr l"
  shows "fs (lease_path G ws LeaseActive i) = Some (Full l)" "le_id l = trim_space i" "le_ws l = trim_space ws"
    "le_status l = LeaseActive" "trim_space i \<noteq> []" "trim_space ws \<noteq> []"
  using assms
  by (auto simp: loadActive_def Let_def lease_path_def leaseDigest_def split: if_splits option.splits lease_file.splits)

lemma consume_Inr:
  assumes "consume G now io ws i actor agent key fs = (fs', Inr l')"
  shows "\<exists>l. fs (lease_path G ws LeaseActive i) = Some (Full l) \<and> le_id l = trim_space i \<and> le_ws l = trim_space ws \<and>
    now < le_expires l \<and> le_actor l = actor \<and> le_key l = key \<and> leaseAllowsAgent l agent \<and>
    fs' (lease_path G ws LeaseActive i) = None \<and> le_id l' = le_id l"
proof -
  obtain fs1 l where l: "consume_load G now io ws i actor agent key fs = (fs1, Inr l)"
    using assms by (auto simp: consume_def split: prod.splits sum.splits)
  then have la: "loadActive G io ws i fs = Inr l" and f: "fs1 = fs" "now < le_expires l" "le_actor l = actor" "le_key l = key" "leaseAllowsAgent l agent"
    by (auto simp: consume_load_def split: sum.splits if_splits)
  obtain fs2 where c: "claim G io ws i LeaseConsumed fs = (fs2, None)"
    using assms l f(1) by (auto simp: consume_def split: prod.splits option.splits)
  have w: "consume_write G now io ws i l fs2 = (fs', Inr l')" using assms l f(1) c by (simp add: consume_def)
  have "fs2 (lease_path G ws LeaseActive i) = None" using claim_active(1) [OF c, of "lease_path G ws LeaseActive i"] by simp
  moreover have "fs' (lease_path G ws LeaseActive i) = fs2 (lease_path G ws LeaseActive i)" "le_id l' = le_id l"
    using w write_active [of "io_write io" G ws LeaseConsumed i] by (auto simp: consume_write_def Let_def split: prod.splits option.splits)
  ultimately show ?thesis using loadActive_Inr [OF la] f by (intro exI [of _ l]) simp
qed

text \<open>
  C13. \<open>Authorize\<close> never turns a denial into success. An allowed result means that the policy allowed the
  request outright, or that it asked for approval and a lease was spent that was active, unexpired, of the same workspace
  and actor, bound to the approval key of exactly this request, and open to this agent.
\<close>

theorem Authorize_sound:
  assumes "Authorize E now io fs ws req d leaseID = (fs', Some res, err)" and "au_allowed res"
  shows "pd_effect d \<noteq> EffectDeny \<and>
    (pd_effect d = EffectAllow \<and> fs' = fs \<or>
     pd_effect d = EffectPrompt \<and> err = None \<and>
     pd_key d = policyApprovalKey E (normalizePolicyRequest E req) (effectiveSecretMode E (normalizePolicyRequest E req)) \<and>
     (\<exists>l. fs (lease_path E ws LeaseActive leaseID) = Some (Full l) \<and> le_id l = trim_space leaseID \<and> au_lease res = le_id l \<and>
        le_ws l = trim_space ws \<and> now < le_expires l \<and> le_actor l = trim_space (rq_actor req) \<and> le_key l = pd_key d \<and>
        leaseAllowsAgent l (rq_agent req) \<and> fs' (lease_path E ws LeaseActive leaseID) = None))"
proof -
  let ?n = "normalizePolicyRequest E req"
  have n: "rq_actor ?n = trim_space (rq_actor req)" "rq_agent ?n = trim_space (rq_agent req)"
    by (simp_all add: normalizePolicyRequest_def)
  have ag: "leaseAllowsAgent l (trim_space a) = leaseAllowsAgent l a" for l a by (simp add: leaseAllowsAgent_def)
  consider (deny) "pd_effect d = EffectDeny" | (allow) "pd_effect d = EffectAllow"
    | (other) "pd_effect d \<noteq> EffectDeny" "pd_effect d \<noteq> EffectAllow" by blast
  then show ?thesis
  proof cases
    case deny
    then show ?thesis using assms by (auto simp: Authorize_def)
  next
    case allow
    then show ?thesis using assms by (auto simp: Authorize_def)
  next
    case other
    then have p: "pd_effect d = EffectPrompt" and k: "pd_key d = policyApprovalKey E ?n (effectiveSecretMode E ?n)"
      using assms(1) by (auto simp: Authorize_def Let_def split: if_splits)
    obtain l' where c: "consume E now io ws leaseID (rq_actor ?n) (rq_agent ?n) (pd_key d) fs = (fs', Inr l')"
      and r: "au_lease res = le_id l'" "err = None"
      using assms other unfolding Authorize_def Let_def by (auto split: if_splits prod.splits sum.splits)
    show ?thesis using consume_Inr [OF c] p k r other unfolding n ag by auto
  qed
qed

lemma clamp_ttl_bounds: "0 < clamp_ttl t" "clamp_ttl t \<le> hour_ns"
  by (simp_all add: clamp_ttl_def Let_def)

text \<open>
  C31. What delegation bounds: a lease \<open>Delegate\<close> issues comes from an active, unexpired parent that allows the
  delegator, stays in the workspace and with the actor of the parent, names at least one agent, and only agents of the
  parent when the parent names any, lives for a positive time of at most an hour and never longer than the parent, and
  leaves every file that existed, the parent's included, as it was. A parent that names no agent can be delegated to
  any agents.
\<close>

theorem Delegate_narrows:
  assumes "Delegate G now rid io fs ws parentID delegator d input = (fs', Inr child)"
  shows "\<exists>parent. fs (lease_path G ws LeaseActive parentID) = Some (Full parent) \<and> leaseAllowsAgent parent delegator \<and>
    le_ws child = le_ws parent \<and> le_actor child = le_actor parent \<and> le_parent child = le_id parent \<and>
    le_agents child \<noteq> [] \<and> (le_agents parent \<noteq> [] \<longrightarrow> set (le_agents child) \<subseteq> set (le_agents parent)) \<and>
    now < le_expires child \<and> le_expires child \<le> le_expires parent \<and> le_expires child \<le> now + hour_ns \<and>
    (\<forall>p f. fs p = Some f \<longrightarrow> fs' p = Some f)"
proof -
  have pe: "pd_effect d = EffectPrompt" "trim_space (pd_key d) \<noteq> []"
    using assms by (auto simp: Delegate_def split: if_splits)
  obtain parent where la: "loadActive G io (trim_space ws) (trim_space parentID) fs = Inr parent"
    using assms pe by (auto simp: Delegate_def split: sum.splits)
  let ?e = "if now + clamp_ttl (dl_ttl input) > le_expires parent then le_expires parent else now + clamp_ttl (dl_ttl input)"
  let ?cs = "normalizeLeaseAgents (dl_agents input)"
  have c: "now < le_expires parent" "leaseAllowsAgent parent delegator" "?cs \<noteq> []"
    "le_agents parent \<noteq> [] \<longrightarrow> list_all (\<lambda>c. c \<in> set (le_agents parent)) ?cs" "now < ?e"
    using assms pe la by (auto simp: Delegate_def Let_def split: if_splits)
  define i where "i = (if trim_space (dl_id input) = [] then ''lease_'' @ rid else dl_id input)"
  define ch where "ch = \<lparr>le_id = i, le_ws = le_ws parent, le_actor = le_actor parent, le_agents = ?cs,
    le_key = trim_space (pd_key d), le_parent = le_id parent, le_delegated = trim_space delegator,
    le_status = LeaseActive, le_issued = now, le_expires = ?e, le_consumed = 0, le_revoked = 0\<rparr>"
  have neg: "\<not> (le_agents parent \<noteq> [] \<and> \<not> list_all (\<lambda>c. c \<in> set (le_agents parent)) ?cs)" using c(4) by blast
  have del: "Delegate G now rid io fs ws parentID delegator d input =
      (case ensureLeaseIDUnused G io (le_ws ch) i fs of
         Some e \<Rightarrow> (fs, Inl e)
       | None \<Rightarrow> (case writeLeaseExclusive (io_write io) (lease_path G (le_ws ch) LeaseActive i) ch fs of
                    (fs', None) \<Rightarrow> (fs', Inr ch) | (fs', Some (exist, e)) \<Rightarrow> (fs', Inl (LeaseIO e))))"
    unfolding Delegate_def Let_def ch_def i_def
    using pe la c(1-3,5) neg by (simp only: sum.case if_False if_True simp_thms)
  have w: "writeLeaseExclusive (io_write io) (lease_path G (le_ws ch) LeaseActive i) ch fs = (fs', None)" "child = ch"
    using assms unfolding del by (auto split: option.splits prod.splits)
  have keep: "fs p = Some f \<Longrightarrow> fs' p = Some f" for p f
    using w(1) by (auto simp: writeLeaseExclusive_def split: if_splits write_outcome.splits)
  have at: "fs (lease_path G ws LeaseActive parentID) = Some (Full parent)"
    using loadActive_Inr(1) [OF la] by (simp add: lease_path_def leaseDigest_def)
  have "?e \<le> le_expires parent" "?e \<le> now + hour_ns" using clamp_ttl_bounds [of "dl_ttl input"] by auto
  with at c keep show ?thesis unfolding w(2)
    by (intro exI [of _ parent]) (auto simp: ch_def list_all_iff)
qed

definition demo_prompt_request :: policy_request where
  "demo_prompt_request = demo_request\<lparr>rq_tool := ''web'', rq_network := ''h'', rq_agent := ''b''\<rparr>"

definition demo_prompt :: policy_decision where
  "demo_prompt = Evaluate demo_secenv demo_kernel demo_prompt_request"

definition demo_fs :: lease_fs where
  "demo_fs = (\<lambda>_. None)(demo_path \<mapsto> Full (demo_lease\<lparr>le_key := pd_key demo_prompt\<rparr>))"

theorem Authorize_sound_witness:
  "\<exists>fs' res. Authorize demo_secenv 8 lease_ok_io demo_fs ''w'' demo_prompt_request demo_prompt ''i'' = (fs', Some res, None) \<and>
     au_allowed res \<and> fs' demo_path = None"
proof -
  let ?a = "Authorize demo_secenv 8 lease_ok_io demo_fs ''w'' demo_prompt_request demo_prompt ''i''"
  have "case ?a of (fs', Some res, None) \<Rightarrow> au_allowed res | _ \<Rightarrow> False" by code_simp
  then obtain fs' res where a: "?a = (fs', Some res, None)" "au_allowed res" by (auto split: prod.splits option.splits)
  have "pd_effect demo_prompt = EffectPrompt" by code_simp
  then show ?thesis using Authorize_sound [OF a] a by auto
qed

definition demo_delegate :: lease_delegate where
  "demo_delegate = \<lparr>dl_id = ''c'', dl_agents = ['' b''], dl_ttl = 0\<rparr>"

theorem Delegate_narrows_witness:
  "\<exists>fs' child. Delegate demo_secenv 8 [] lease_ok_io demo_fs ''w'' ''i'' ''b'' demo_prompt demo_delegate = (fs', Inr child) \<and>
     le_agents child = [''b''] \<and> le_expires child \<le> 12"
proof -
  let ?a = "Delegate demo_secenv 8 [] lease_ok_io demo_fs ''w'' ''i'' ''b'' demo_prompt demo_delegate"
  have "case ?a of (fs', Inr child) \<Rightarrow> le_agents child = [''b''] | _ \<Rightarrow> False" by code_simp
  then obtain fs' child where a: "?a = (fs', Inr child)" "le_agents child = [''b'']" by (auto split: prod.splits sum.splits)
  obtain parent where p: "demo_fs demo_path = Some (Full parent)" "le_expires child \<le> le_expires parent"
    using Delegate_narrows [OF a(1)] by (elim exE conjE)
  have "le_expires parent = 12" using p(1) by (simp add: demo_fs_def demo_lease_def) (auto simp: demo_lease_def)
  with a p(2) show ?thesis by (intro exI conjI) simp_all
qed

text \<open>
  C32. Issuing and consuming fit together: a lease \<open>Issue\<close> returned can be consumed, before it expires, by its
  actor with its approval key for an agent it allows; the consumption spends it, and a second one is refused
  with \<open>ErrCapabilityLeaseUsed\<close>. It lives for a positive time of at most an hour.
\<close>

theorem Issue_then_consume:
  assumes "Issue G now rid lease_ok_io fs input = (fs1, Inr l)" and "coerce_lease l = l" and "trimmed (le_id l)"
    and "now \<noteq> 0" and "le_expires l \<noteq> 0" and "now' < le_expires l" and "leaseAllowsAgent l agent"
  shows "now < le_expires l \<and> le_expires l \<le> now + hour_ns \<and>
    (\<exists>fs2 l'. consume G now' lease_ok_io (le_ws l) (le_id l) (le_actor l) agent (le_key l) fs1 = (fs2, Inr l') \<and>
       le_status l' = LeaseConsumed \<and>
       snd (consume G now'' io (le_ws l) (le_id l) actor agent' key fs2) = Inl (case io_read io of None \<Rightarrow> ErrCapabilityLeaseUsed | Some e \<Rightarrow> LeaseIO e))"
proof -
  let ?p = "lease_path G (le_ws l) LeaseActive (le_id l)"
  have l: "le_ws l = trim_space (is_ws input)" "le_ws l \<noteq> []" "le_actor l \<noteq> []" "le_key l \<noteq> []" "le_status l = LeaseActive"
    "le_issued l = now" "le_expires l = now + clamp_ttl (is_ttl input)" "fs1 ?p = Some (Full (coerce_lease l))" "le_id l \<noteq> []"
    using assms(1) unfolding Issue_def Let_def
    by (auto simp: writeLeaseExclusive_def lease_ok_io_def split: if_splits option.splits)
  have t: "trim_space (le_ws l) = le_ws l" "trim_space (le_id l) = le_id l" using l(1) assms(3) by (simp_all add: trimmed_def)
  have la: "loadActive G lease_ok_io (le_ws l) (le_id l) fs1 = Inr l"
    using l t assms(2,4,5) by (simp add: loadActive_def lease_ok_io_def)
  have cl: "consume_load G now' lease_ok_io (le_ws l) (le_id l) (le_actor l) agent (le_key l) fs1 = (fs1, Inr l)"
    using la assms(6,7) by (simp add: consume_load_def)
  obtain fs2 where c: "claim G lease_ok_io (le_ws l) (le_id l) LeaseConsumed fs1 = (fs2, None)"
    using l(8) by (simp add: claim_def lease_ok_io_def)
  obtain fs3 where w: "consume_write G now' lease_ok_io (le_ws l) (le_id l) l fs2 = (fs3, Inr (l\<lparr>le_status := LeaseConsumed, le_consumed := now'\<rparr>))"
    by (simp add: consume_write_def WriteJSONAtomic_def lease_ok_io_def Let_def)
  have con: "consume G now' lease_ok_io (le_ws l) (le_id l) (le_actor l) agent (le_key l) fs1 =
      (fs3, Inr (l\<lparr>le_status := LeaseConsumed, le_consumed := now'\<rparr>))"
    by (simp add: consume_def cl c w)
  have gone: "fs3 ?p = None" using consume_Inr [OF con] by blast
  have "snd (consume G now'' io (le_ws l) (le_id l) actor agent' key fs3) = Inl (case io_read io of None \<Rightarrow> ErrCapabilityLeaseUsed | Some e \<Rightarrow> LeaseIO e)"
    using gone l(2,9) t by (simp add: consume_def consume_load_def loadActive_def split: option.splits)
  moreover have "now < le_expires l" "le_expires l \<le> now + hour_ns" using clamp_ttl_bounds [of "is_ttl input"] l(7) by simp_all
  moreover have "le_status (l\<lparr>le_status := LeaseConsumed, le_consumed := now'\<rparr>) = LeaseConsumed" by simp
  ultimately show ?thesis using con by blast
qed

theorem Issue_then_consume_witness:
  "\<exists>fs1 l fs2 l'. Issue demo_secenv 7 [] lease_ok_io (\<lambda>_. None) demo_issue = (fs1, Inr l) \<and>
     consume demo_secenv 8 lease_ok_io (le_ws l) (le_id l) (le_actor l) ''b'' (le_key l) fs1 = (fs2, Inr l')"
proof -
  let ?a = "Issue demo_secenv 7 [] lease_ok_io (\<lambda>_. None) demo_issue"
  have "case ?a of (fs1, Inr l) \<Rightarrow> coerce_lease l = l \<and> trimmed (le_id l) \<and> le_expires l = 12 \<and> leaseAllowsAgent l ''b'' | _ \<Rightarrow> False"
    by code_simp
  then obtain fs1 l where a: "?a = (fs1, Inr l)" "coerce_lease l = l" "trimmed (le_id l)" "le_expires l = 12" "leaseAllowsAgent l ''b''"
    by (auto split: prod.splits sum.splits)
  show ?thesis using Issue_then_consume [OF a(1-3), of 8 "''b''"] a by fastforce
qed

end
