(* ===== verification/Approval.thy ===== *)
theory Approval
  imports Policy
begin

text \<open>
  The approval layer above the classifier: the broker of one-time approval tokens
  (\<open>src/internal/approval/broker.go\<close>) and the approval modes of a workspace (\<open>mode.go\<close>).
\<close>

section \<open>Types\<close>

text \<open>\<open>json_text\<close> is the text \<open>json.Marshal\<close> renders; it is only hashed.\<close>

record apenv = secenv +
  json_text :: "json \<Rightarrow> string"

record preflight =
  pf_status :: string
  pf_risk :: string
  pf_reason :: string
  pf_rules :: "string list"
  pf_command :: string
  pf_policy :: string
  pf_key :: string
  pf_label :: string
  pf_remembered :: bool
  pf_token :: string
  pf_expires :: int

record pendingApproval =
  pa_token :: string
  pa_hash :: string
  pa_fp :: string
  pa_afp :: string
  pa_expires :: int

record broker =
  b_pending :: "(string \<times> pendingApproval) list"
  b_byfp :: "(string \<times> string) list"
  b_ttl :: int

section \<open>Fingerprints\<close>

definition sha :: "('z) goenv_scheme \<Rightarrow> string \<Rightarrow> string" where
  "sha G v = sha256hex G v"

definition actionFingerprint :: "('z) apenv_scheme \<Rightarrow> string \<Rightarrow> string \<Rightarrow> sec_decision \<Rightarrow> string" where
  "actionFingerprint E command cwd d =
     sha E (json_text E (JObj
       [(''approvalKey'', enc_str (d_key d)), (''approvalPolicy'', enc_str (d_policy d)), (''cwd'', enc_str cwd),
        (''rawCommandHash'', enc_str (sha E command)), (''redactedCommand'', enc_str (d_redacted d)),
        (''risk'', enc_str (d_risk d)), (''rules'', enc_strs (sort (d_rules d)))]))"

definition fingerprint :: "('z) apenv_scheme \<Rightarrow> string \<Rightarrow> string \<Rightarrow> string \<Rightarrow> sec_decision \<Rightarrow> string" where
  "fingerprint E session command cwd d =
     sha E (json_text E (JObj
       [(''actionFingerprint'', enc_str (actionFingerprint E command cwd d)), (''sessionId'', enc_str (trim_space session))]))"

text \<open>\<open>hex.DecodeString\<close> and the constant-time comparison of the decoded bytes.\<close>

definition hex_digit :: "char \<Rightarrow> int option" where
  "hex_digit c = (let n = of_char c :: int in
     if 48 \<le> n \<and> n \<le> 57 then Some (n - 48) else if 97 \<le> n \<and> n \<le> 102 then Some (n - 87)
     else if 65 \<le> n \<and> n \<le> 70 then Some (n - 55) else None)"

fun hex_decode :: "string \<Rightarrow> int list option" where
  "hex_decode [] = Some []"
| "hex_decode [c] = None"
| "hex_decode (c # d # s) =
     (case (hex_digit c, hex_digit d, hex_decode s) of
        (Some a, Some b, Some bs) \<Rightarrow> Some ((16 * a + b) # bs) | _ \<Rightarrow> None)"

definition sameHex :: "string \<Rightarrow> string \<Rightarrow> bool" where
  "sameHex a b = (case (hex_decode a, hex_decode b) of (Some x, Some y) \<Rightarrow> x = y | _ \<Rightarrow> False)"

section \<open>The broker\<close>

definition deletePendingLocked :: "string \<Rightarrow> broker \<Rightarrow> broker" where
  "deletePendingLocked i b =
     (case map_of (b_pending b) i of
        None \<Rightarrow> b
      | Some entry \<Rightarrow>
          b\<lparr>b_pending := AList.delete i (b_pending b),
            b_byfp := (if map_of (b_byfp b) (pa_fp entry) = Some i then AList.delete (pa_fp entry) (b_byfp b) else b_byfp b)\<rparr>)"

definition pruneLocked :: "int \<Rightarrow> broker \<Rightarrow> broker" where
  "pruneLocked now b =
     foldl (\<lambda>b (i, entry). if pa_expires entry \<le> now then deletePendingLocked i b else b) b (b_pending b)"

definition preflightBase :: "string \<Rightarrow> sec_decision \<Rightarrow> preflight" where
  "preflightBase status d = \<lparr>pf_status = status, pf_risk = d_risk d, pf_reason = d_reason d, pf_rules = d_rules d,
     pf_command = d_redacted d, pf_policy = d_policy d, pf_key = d_key d, pf_label = d_label d, pf_remembered = False,
     pf_token = [], pf_expires = 0\<rparr>"

definition unix_milli :: "int \<Rightarrow> int" where
  "unix_milli ns = ns div 1000000"

text \<open>\<open>t1\<close> and \<open>t2\<close> are the two readings of the clock (Unix nanoseconds), \<open>rid\<close> and \<open>secret\<close> the two random texts.\<close>

definition PreflightScoped ::
  "('z) apenv_scheme \<Rightarrow> int \<Rightarrow> int \<Rightarrow> string \<Rightarrow> string \<Rightarrow> broker \<Rightarrow> string \<Rightarrow> string \<Rightarrow> string \<Rightarrow> sec_decision
     \<Rightarrow> broker \<times> preflight" where
  "PreflightScoped E t1 t2 rid secret b0 session command cwd d =
     (let now = unix_milli t1; b = pruneLocked now b0 in
      if d_blocked d then (b, preflightBase ''blocked'' d)
      else if \<not> d_requires d then (b, preflightBase ''safe'' d)
      else
        let fp = fingerprint E session command cwd d;
            known = (case map_of (b_byfp b) fp of None \<Rightarrow> [] | Some i \<Rightarrow> i);
            existing = (if known = [] then None else
              case map_of (b_pending b) known of
                None \<Rightarrow> None
              | Some entry \<Rightarrow> if pa_expires entry > now \<and> pa_token entry \<noteq> [] then Some entry else None)
        in case existing of
             Some entry \<Rightarrow>
               (b, (preflightBase ''approval_required'' d)\<lparr>pf_token := pa_token entry, pf_expires := pa_expires entry\<rparr>)
           | None \<Rightarrow>
               let byfp = (if known = [] then b_byfp b else AList.delete fp (b_byfp b));
                   token = rid @ ''.'' @ secret; expires = unix_milli (t2 + b_ttl b)
               in (b\<lparr>b_pending := AList.update rid \<lparr>pa_token = token, pa_hash = sha E secret, pa_fp = fp,
                        pa_afp = actionFingerprint E command cwd d, pa_expires = expires\<rparr> (b_pending b),
                     b_byfp := AList.update fp rid byfp\<rparr>,
                   (preflightBase ''approval_required'' d)\<lparr>pf_token := token, pf_expires := expires\<rparr>))"

definition broker_Preflight where
  "broker_Preflight E t1 t2 rid secret b command cwd d = PreflightScoped E t1 t2 rid secret b [] command cwd d"

definition ConsumeScoped ::
  "('z) apenv_scheme \<Rightarrow> int \<Rightarrow> broker \<Rightarrow> string \<Rightarrow> string \<Rightarrow> string \<Rightarrow> string \<Rightarrow> sec_decision \<Rightarrow> broker \<times> bool" where
  "ConsumeScoped E t b0 session token command cwd d =
     (let now = unix_milli t; b = pruneLocked now b0 in
      if \<not> d_requires d \<or> d_blocked d then (b, \<not> d_blocked d)
      else if token = [] then (b, False)
      else case str_cut (CHR ''.'') token of
        None \<Rightarrow> (b, False)
      | Some (i, secret) \<Rightarrow>
          if i = [] \<or> secret = [] then (b, False)
          else case map_of (b_pending b) i of
            None \<Rightarrow> (b, False)
          | Some entry \<Rightarrow>
              if pa_expires entry \<le> now then (b, False)
              else if \<not> sameHex (pa_hash entry) (sha E secret) then (b, False)
              else if \<not> sameHex (pa_fp entry) (fingerprint E session command cwd d) \<and>
                      \<not> sameHex (pa_afp entry) (actionFingerprint E command cwd d) then (b, False)
              else (deletePendingLocked i b, True))"

definition broker_Consume where
  "broker_Consume E t b token command cwd d = ConsumeScoped E t b [] token command cwd d"

section \<open>Modes\<close>

abbreviation "ModePrompt \<equiv> ''prompt''"
abbreviation "ModeDeny \<equiv> ''deny''"
abbreviation "ModeAutoSafe \<equiv> ''auto-safe''"
abbreviation "ModeAgent \<equiv> ''agent''"
abbreviation "ModeFull \<equiv> ''full''"

datatype mode_error = ModeInvalid | ModeIO string

definition NormalizeMode :: "('z) goenv_scheme \<Rightarrow> string \<Rightarrow> string" where
  "NormalizeMode G v0 =
     (let v = to_lower G (trim_space v0) in
      if v = ModeDeny then ModeDeny else if v = ModeAutoSafe then ModeAutoSafe
      else if v = ModeAgent \<or> v = ''smart'' then ModeAgent
      else if v = ModeFull then ModeFull else ModePrompt)"

definition UserMode :: "('z) goenv_scheme \<Rightarrow> string \<Rightarrow> string" where
  "UserMode G mode =
     (let m = NormalizeMode G mode in if m = ModeAgent then ''smart'' else if m = ModeFull then ''full'' else ''prompt'')"

definition ParseUserMode :: "('z) goenv_scheme \<Rightarrow> string \<Rightarrow> string \<times> bool" where
  "ParseUserMode G v0 =
     (let v = to_lower G (trim_space v0) in
      if v = ''prompt'' then (ModePrompt, True) else if v = ''smart'' then (ModeAgent, True)
      else if v = ''full'' then (ModeFull, True) else (ModePrompt, False))"

text \<open>
  The mode file: absent, unreadable with an error, or its \<open>workspaces\<close> map (a \<open>null\<close> map reads as empty).
\<close>

datatype mode_store = NoModes | BadModes string | Modes "(string \<times> string) list"

definition readModes :: "mode_store \<Rightarrow> mode_error + (string \<times> string) list" where
  "readModes ms = (case ms of NoModes \<Rightarrow> Inr [] | BadModes e \<Rightarrow> Inl (ModeIO e) | Modes m \<Rightarrow> Inr m)"

definition workspaceMode :: "('z) goenv_scheme \<Rightarrow> mode_store \<Rightarrow> string \<Rightarrow> string \<times> bool \<times> mode_error option" where
  "workspaceMode G ms ws =
     (case readModes ms of
        Inl e \<Rightarrow> (ModePrompt, False, Some e)
      | Inr data \<Rightarrow>
          (case map_of data (trim_space ws) of
             None \<Rightarrow> (ModePrompt, False, None)
           | Some v \<Rightarrow> (NormalizeMode G v, True, None)))"

definition WorkspaceMode :: "('z) goenv_scheme \<Rightarrow> mode_store \<Rightarrow> string \<Rightarrow> string \<times> mode_error option" where
  "WorkspaceMode G ms ws = (case workspaceMode G ms ws of (mode, _, e) \<Rightarrow> (mode, e))"

text \<open>\<open>env\<close> is the value of \<open>CODELOCAL_APPROVAL_MODE\<close>, empty when it is not set.\<close>

definition ResolveMode :: "('z) goenv_scheme \<Rightarrow> string \<Rightarrow> mode_store \<Rightarrow> string \<Rightarrow> string" where
  "ResolveMode G env ms ws =
     (let raw = trim_space env in
      if raw \<noteq> [] \<and> (NormalizeMode G raw = ModeDeny \<or> NormalizeMode G raw = ModeAutoSafe) then NormalizeMode G raw
      else case workspaceMode G ms ws of
        (mode, configured, e) \<Rightarrow>
          if e = None \<and> configured then mode
          else if raw \<noteq> [] then NormalizeMode G raw else ModePrompt)"

definition SetWorkspaceMode ::
  "('z) goenv_scheme \<Rightarrow> write_outcome \<Rightarrow> mode_store \<Rightarrow> string \<Rightarrow> string \<Rightarrow> mode_store \<times> mode_error option" where
  "SetWorkspaceMode G io ms ws0 mode =
     (let ws = trim_space ws0 in
      if ws = [] then (ms, Some ModeInvalid)
      else case readModes ms of
        Inl e \<Rightarrow> (ms, Some e)
      | Inr data \<Rightarrow>
          let new = Modes (map (\<lambda>(k, v). (utf8_coerce k, utf8_coerce v)) (AList.update ws (NormalizeMode G mode) data))
          in case io of
               WOk \<Rightarrow> (new, None)
             | WUnsynced e \<Rightarrow> (new, Some (ModeIO e))
             | WLost e \<Rightarrow> (ms, Some (ModeIO e))
             | WTorn e \<Rightarrow> (ms, Some (ModeIO e)))"

definition AgentAllows :: "string \<Rightarrow> sec_decision \<Rightarrow> bool" where
  "AgentAllows mode d =
     (if mode \<noteq> ModeAgent \<or> d_blocked d \<or> \<not> d_requires d then False
      else if d_policy d \<noteq> ApprovalRememberable then False
      else d_risk d = RiskReview \<or> d_risk d = RiskHigh)"

definition FullAllows :: "string \<Rightarrow> sec_decision \<Rightarrow> bool" where
  "FullAllows mode d \<longleftrightarrow> mode = ModeFull \<and> \<not> d_blocked d \<and> d_requires d"

definition DeniesApproval :: "string \<Rightarrow> sec_decision \<Rightarrow> bool" where
  "DeniesApproval mode d = (if d_blocked d \<or> \<not> d_requires d then False else mode = ModeDeny \<or> mode = ModeAutoSafe)"

section \<open>Runs of the broker\<close>

datatype broker_op =
    OpPreflight int int string string string string string sec_decision
  | OpConsume int string string string string sec_decision

fun broker_step :: "('z) apenv_scheme \<Rightarrow> broker \<Rightarrow> broker_op \<Rightarrow> broker" where
  "broker_step E b (OpPreflight t1 t2 rid secret session command cwd d) =
     fst (PreflightScoped E t1 t2 rid secret b session command cwd d)"
| "broker_step E b (OpConsume t session token command cwd d) = fst (ConsumeScoped E t b session token command cwd d)"

fun draws :: "broker_op \<Rightarrow> string \<Rightarrow> bool" where
  "draws (OpPreflight t1 t2 rid secret session command cwd d) i = (rid = i)"
| "draws (OpConsume t session token command cwd d) i = False"

text \<open>Deleting and pruning.\<close>

lemma delete_pending [simp]: "map_of (b_pending (deletePendingLocked i b)) = (map_of (b_pending b))(i := None)"
  by (auto simp: deletePendingLocked_def split: option.splits)

lemma delete_ttl [simp]: "b_ttl (deletePendingLocked i b) = b_ttl b"
  by (simp add: deletePendingLocked_def split: option.splits)

lemma delete_byfp: "map_of (b_byfp b) fp = Some j \<Longrightarrow> i \<noteq> j \<Longrightarrow> map_of (b_byfp (deletePendingLocked i b)) fp = Some j"
  by (auto simp: deletePendingLocked_def split: option.splits)

lemma delete_distinct: "distinct (map fst (b_pending b)) \<Longrightarrow> distinct (map fst (b_pending (deletePendingLocked i b)))"
  by (simp add: deletePendingLocked_def distinct_delete split: option.splits)

definition prune_fold :: "int \<Rightarrow> broker \<Rightarrow> (string \<times> pendingApproval) list \<Rightarrow> broker" where
  "prune_fold now b xs = foldl (\<lambda>b (i, entry). if pa_expires entry \<le> now then deletePendingLocked i b else b) b xs"

lemma prune_fold_simps [simp]:
  "prune_fold now b [] = b"
  "prune_fold now b ((i, entry) # xs) = prune_fold now (if pa_expires entry \<le> now then deletePendingLocked i b else b) xs"
  by (simp_all add: prune_fold_def)

lemma prune_fold_absent: "map_of (b_pending b) i = None \<Longrightarrow> map_of (b_pending (prune_fold now b xs)) i = None"
  by (induction xs arbitrary: b) auto

lemma prune_fold_keeps:
  "map_of (b_byfp b) fp = Some i \<Longrightarrow> map_of (b_pending b) i = Some entry \<Longrightarrow> distinct (map fst (b_pending b)) \<Longrightarrow>
   (\<And>e. (i, e) \<in> set xs \<Longrightarrow> now < pa_expires e) \<Longrightarrow>
   map_of (b_byfp (prune_fold now b xs)) fp = Some i \<and> map_of (b_pending (prune_fold now b xs)) i = Some entry \<and>
   distinct (map fst (b_pending (prune_fold now b xs)))"
proof (induction xs arbitrary: b)
  case (Cons x xs)
  obtain j e where x: "x = (j, e)" by (cases x)
  let ?b = "if pa_expires e \<le> now then deletePendingLocked j b else b"
  have "pa_expires e \<le> now \<Longrightarrow> j \<noteq> i" using Cons.prems(4) [of e] by (auto simp: x)
  then have "map_of (b_byfp ?b) fp = Some i" "map_of (b_pending ?b) i = Some entry" "distinct (map fst (b_pending ?b))"
    using Cons.prems(1-3) by (auto intro: delete_byfp delete_distinct)
  from Cons.IH [OF this] Cons.prems(4) show ?case by (simp add: x)
qed simp

lemma pruneLocked_fold: "pruneLocked now b = prune_fold now b (b_pending b)"
  by (simp add: pruneLocked_def prune_fold_def)

lemma prune_absent: "map_of (b_pending b) i = None \<Longrightarrow> map_of (b_pending (pruneLocked now b)) i = None"
  by (simp add: pruneLocked_fold prune_fold_absent)

lemma preflight_absent:
  assumes "map_of (b_pending b) i = None" and "rid \<noteq> i"
  shows "map_of (b_pending (fst (PreflightScoped E t1 t2 rid secret b session command cwd d))) i = None"
  using prune_absent [OF assms(1), of "unix_milli t1"] assms(2)
  by (auto simp: PreflightScoped_def Let_def split: option.splits)

lemma consume_absent:
  assumes "map_of (b_pending b) i = None"
  shows "map_of (b_pending (fst (ConsumeScoped E t b session token command cwd d))) i = None"
  using prune_absent [OF assms, of "unix_milli t"]
  by (auto simp: ConsumeScoped_def Let_def split: option.splits)

lemma run_absent:
  "map_of (b_pending b) i = None \<Longrightarrow> \<not> list_ex (\<lambda>op. draws op i) ops \<Longrightarrow> map_of (b_pending (foldl (broker_step E) b ops)) i = None"
proof (induction ops arbitrary: b)
  case (Cons op ops)
  then have "map_of (b_pending (broker_step E b op)) i = None"
    by (cases op) (auto intro: preflight_absent consume_absent)
  with Cons show ?case by simp
qed simp

section \<open>Properties\<close>

text \<open>
  C16. An approval token is good for one use: once \<open>ConsumeScoped\<close> has accepted it for a command that needed
  approval, no later call accepts it for such a command, in whatever session and for whatever command, after any
  sequence of further preflights and consumptions in which its random id is not drawn again.
\<close>

theorem broker_token_single_use:
  assumes "ConsumeScoped E t b session token command cwd d = (b', True)" and "d_requires d" and "\<not> d_blocked d"
    and "str_cut (CHR ''.'') token = Some (i, secret)" and "\<not> list_ex (\<lambda>op. draws op i) ops"
    and "d_requires d'" and "\<not> d_blocked d'"
  shows "snd (ConsumeScoped E t' (foldl (broker_step E) b' ops) session' token command' cwd' d') = False"
proof -
  have "b' = deletePendingLocked i (pruneLocked (unix_milli t) b)"
    using assms(1-4) by (auto simp: ConsumeScoped_def Let_def split: if_splits option.splits)
  then have "map_of (b_pending b') i = None" by simp
  then have "map_of (b_pending (foldl (broker_step E) b' ops)) i = None" using run_absent assms(5) by blast
  then have "map_of (b_pending (pruneLocked (unix_milli t') (foldl (broker_step E) b' ops))) i = None" by (rule prune_absent)
  then show ?thesis using assms(4,6,7) by (auto simp: ConsumeScoped_def Let_def)
qed

text \<open>An entry that is pending under its fingerprint.\<close>

definition pending_at :: "broker \<Rightarrow> string \<Rightarrow> string \<Rightarrow> pendingApproval \<Rightarrow> bool" where
  "pending_at b fp i entry \<longleftrightarrow> map_of (b_byfp b) fp = Some i \<and> map_of (b_pending b) i = Some entry \<and>
     distinct (map fst (b_pending b)) \<and> i \<noteq> [] \<and> pa_token entry \<noteq> []"

lemma prune_keeps:
  assumes "pending_at b fp i entry" and "now < pa_expires entry"
  shows "pending_at (pruneLocked now b) fp i entry"
proof -
  have "e = entry" if "(i, e) \<in> set (b_pending b)" for e
    using that assms(1) unfolding pending_at_def by (metis map_of_eq_Some_iff option.inject)
  then show ?thesis using assms prune_fold_keeps [of b fp i entry "b_pending b" now]
    unfolding pending_at_def pruneLocked_fold by blast
qed

lemma prune_distinct: "distinct (map fst (b_pending b)) \<Longrightarrow> distinct (map fst (b_pending (pruneLocked now b)))"
proof -
  have "distinct (map fst (b_pending b)) \<Longrightarrow> distinct (map fst (b_pending (prune_fold now b xs)))" for b xs
  proof (induction xs arbitrary: b)
    case (Cons x xs)
    then show ?case using Cons.IH [OF delete_distinct [OF Cons.prems]] by (cases x) simp
  qed simp
  then show "distinct (map fst (b_pending b)) \<Longrightarrow> distinct (map fst (b_pending (pruneLocked now b)))"
    by (simp add: pruneLocked_fold)
qed

text \<open>
  An operation leaves the entry alone when it runs before the entry expires, draws another id, and is no
  successful consumption of the entry itself.
\<close>

fun spares :: "('z) apenv_scheme \<Rightarrow> string \<Rightarrow> int \<Rightarrow> broker \<Rightarrow> broker_op \<Rightarrow> bool" where
  "spares E i expires b (OpPreflight t1 t2 rid secret session command cwd d) = (unix_milli t1 < expires \<and> rid \<noteq> i)"
| "spares E i expires b (OpConsume t session token command cwd d) =
     (unix_milli t < expires \<and>
      (snd (ConsumeScoped E t b session token command cwd d) \<and> d_requires d \<longrightarrow>
       (case str_cut (CHR ''.'') token of None \<Rightarrow> True | Some (j, _) \<Rightarrow> j \<noteq> i)))"

fun spares_all :: "('z) apenv_scheme \<Rightarrow> string \<Rightarrow> int \<Rightarrow> broker \<Rightarrow> broker_op list \<Rightarrow> bool" where
  "spares_all E i expires b [] = True"
| "spares_all E i expires b (op # ops) = (spares E i expires b op \<and> spares_all E i expires (broker_step E b op) ops)"

lemma preflight_keeps:
  assumes "pending_at b fp i entry" and "unix_milli t1 < pa_expires entry" and "rid \<noteq> i"
  shows "pending_at (fst (PreflightScoped E t1 t2 rid secret b session command cwd d)) fp i entry"
proof -
  let ?b = "pruneLocked (unix_milli t1) b" and ?fp = "fingerprint E session command cwd d"
  have p: "pending_at ?b fp i entry" by (rule prune_keeps [OF assms(1,2)])
  show ?thesis
  proof (cases "?fp = fp")
    case True
    then show ?thesis using p assms(2) by (simp add: PreflightScoped_def Let_def pending_at_def del: map_of_eq_Some_iff)
  next
    case False
    then show ?thesis using p assms(3)
      by (auto simp: PreflightScoped_def Let_def pending_at_def distinct_update simp del: map_of_eq_Some_iff split: option.splits)
  qed
qed

lemma consume_keeps:
  assumes "pending_at b fp i entry" and "spares E i (pa_expires entry) b (OpConsume t session token command cwd d)"
  shows "pending_at (fst (ConsumeScoped E t b session token command cwd d)) fp i entry"
proof -
  let ?b = "pruneLocked (unix_milli t) b"
  have p: "pending_at ?b fp i entry" using prune_keeps [OF assms(1)] assms(2) by simp
  have del: "pending_at (deletePendingLocked j ?b) fp i entry" if "j \<noteq> i" for j
    using p that by (auto simp: pending_at_def intro: delete_byfp delete_distinct)
  show ?thesis
  proof (cases "\<exists>j s. str_cut (CHR ''.'') token = Some (j, s) \<and> fst (ConsumeScoped E t b session token command cwd d) = deletePendingLocked j ?b \<and>
      snd (ConsumeScoped E t b session token command cwd d) \<and> d_requires d")
    case True
    then show ?thesis using del assms(2) by auto
  next
    case False
    then have "fst (ConsumeScoped E t b session token command cwd d) = ?b"
      by (auto simp: ConsumeScoped_def Let_def split: option.splits if_splits)
    with p show ?thesis by simp
  qed
qed

lemma run_keeps:
  "pending_at b fp i entry \<Longrightarrow> spares_all E i (pa_expires entry) b ops \<Longrightarrow> pending_at (foldl (broker_step E) b ops) fp i entry"
proof (induction ops arbitrary: b)
  case (Cons op ops)
  then have "pending_at (broker_step E b op) fp i entry"
    by (cases op) (auto intro: preflight_keeps consume_keeps simp del: spares.simps(2) dest: spares.simps(1) [THEN iffD1])
  with Cons show ?case by simp
qed simp

lemma preflight_pending:
  assumes "PreflightScoped E t1 t2 rid secret b session command cwd d = (b', pf)" and "pf_status pf = ''approval_required''"
    and "distinct (map fst (b_pending b))" and "rid \<noteq> []"
  shows "\<exists>i entry. pending_at b' (fingerprint E session command cwd d) i entry \<and> pf_token pf = pa_token entry \<and>
    pf_expires pf = pa_expires entry \<and> d_requires d \<and> \<not> d_blocked d"
proof -
  let ?b = "pruneLocked (unix_milli t1) b" and ?fp = "fingerprint E session command cwd d"
  have d: "distinct (map fst (b_pending ?b))" using assms(3) by (rule prune_distinct)
  have req: "d_requires d" "\<not> d_blocked d" using assms(1,2) by (auto simp: PreflightScoped_def Let_def preflightBase_def split: if_splits)
  show ?thesis
  proof (cases "\<exists>i entry. map_of (b_byfp ?b) ?fp = Some i \<and> i \<noteq> [] \<and> map_of (b_pending ?b) i = Some entry \<and>
      unix_milli t1 < pa_expires entry \<and> pa_token entry \<noteq> []")
    case True
    then obtain i entry where e: "map_of (b_byfp ?b) ?fp = Some i" "i \<noteq> []" "map_of (b_pending ?b) i = Some entry"
      "unix_milli t1 < pa_expires entry" "pa_token entry \<noteq> []" by blast
    then have "b' = ?b" "pf_token pf = pa_token entry" "pf_expires pf = pa_expires entry"
      using assms(1) req by (auto simp: PreflightScoped_def Let_def)
    with e d req show ?thesis by (auto simp: pending_at_def)
  next
    case False
    define en where "en = \<lparr>pa_token = rid @ ''.'' @ secret, pa_hash = sha E secret, pa_fp = ?fp,
      pa_afp = actionFingerprint E command cwd d, pa_expires = unix_milli (t2 + b_ttl ?b)\<rparr>"
    have "map_of (b_byfp b') ?fp = Some rid \<and> b_pending b' = AList.update rid en (b_pending ?b) \<and>
      pf_token pf = pa_token en \<and> pf_expires pf = pa_expires en"
      using assms(1) req False by (auto simp: PreflightScoped_def Let_def en_def split: option.splits if_splits)
    then show ?thesis using d req assms(4) by (intro exI [of _ rid] exI [of _ en]) (simp add: pending_at_def distinct_update en_def)
  qed
qed

text \<open>
  A pending approval is stable and cannot be knocked out: after a preflight that asked for approval, any
  sequence of calls made before the approval expires (retries, preflights of other actions, consumptions with
  wrong tokens, of other tokens or for changed commands) leaves it in place, so that a repeated preflight of the same
  session, command, directory and decision returns the same token with the same expiry.
\<close>

theorem broker_pending_stable:
  assumes "PreflightScoped E t1 t2 rid secret b session command cwd d = (b', pf)" and "pf_status pf = ''approval_required''"
    and "distinct (map fst (b_pending b))" and "rid \<noteq> []"
    and "map_of (b_byfp b') (fingerprint E session command cwd d) = Some i"
    and "spares_all E i (pf_expires pf) b' ops" and "unix_milli t1' < pf_expires pf"
  shows "pf_token (snd (PreflightScoped E t1' t2' rid' secret' (foldl (broker_step E) b' ops) session command cwd d)) = pf_token pf \<and>
    pf_expires (snd (PreflightScoped E t1' t2' rid' secret' (foldl (broker_step E) b' ops) session command cwd d)) = pf_expires pf"
proof -
  obtain entry where e: "pending_at b' (fingerprint E session command cwd d) i entry" "pf_token pf = pa_token entry"
    "pf_expires pf = pa_expires entry" "d_requires d" "\<not> d_blocked d"
    using preflight_pending [OF assms(1-4)] assms(5) unfolding pending_at_def by auto
  have "spares_all E i (pa_expires entry) b' ops" using assms(6) unfolding e(3) .
  then have "pending_at (foldl (broker_step E) b' ops) (fingerprint E session command cwd d) i entry"
    by (rule run_keeps [OF e(1)])
  then have "pending_at (pruneLocked (unix_milli t1') (foldl (broker_step E) b' ops)) (fingerprint E session command cwd d) i entry"
    using prune_keeps assms(7) e(3) by simp
  then show ?thesis using e assms(7) by (simp add: PreflightScoped_def Let_def pending_at_def del: map_of_eq_Some_iff)
qed

text \<open>A hash that renders the bytes of a text in hexadecimal, for examples.\<close>

definition hex_char :: "int \<Rightarrow> char" where
  "hex_char n = char_of (if n < 10 then 48 + n else 87 + n)"

definition demo_sha :: "string \<Rightarrow> string" where
  "demo_sha s = concat (map (\<lambda>c. [hex_char (of_char c div 16), hex_char (of_char c mod 16)]) s)"

definition demo_text :: "json \<Rightarrow> string" where
  "demo_text j = (case j of JObj ((k, JStr v) # (k', JStr w) # rest) \<Rightarrow> (if rest = [] then w else []) | _ \<Rightarrow> [])"

definition demo_apenv :: apenv where
  "demo_apenv = \<lparr>sha256hex = demo_sha, lower_unicode = id, json_big = JNum, fmt_time = (\<lambda>_. ''t''), upper_unicode = id,
     home_dir = [], work_dir = None, url_hostname = (\<lambda>_. None), json_text = demo_text\<rparr>"

definition demo_decision :: sec_decision where
  "demo_decision = \<lparr>d_risk = RiskReview, d_rules = [], d_requires = True, d_blocked = False, d_redacted = ''go test'', d_reason = [],
     d_policy = ApprovalRememberable, d_key = ''k'', d_label = []\<rparr>"

definition demo_broker0 :: broker where
  "demo_broker0 = \<lparr>b_pending = [], b_byfp = [], b_ttl = 1800000000000\<rparr>"

definition demo_broker1 :: "broker \<times> preflight" where
  "demo_broker1 = PreflightScoped demo_apenv 1000000 1000000 ''a'' ''s'' demo_broker0 ''one'' ''go test'' ''.'' demo_decision"

definition demo_ops :: "broker_op list" where
  "demo_ops = [OpConsume 2000000 ''one'' ''a.x'' ''go test'' ''.'' demo_decision,
     OpPreflight 2000000 2000000 ''b'' ''t'' ''two'' ''ls'' ''.'' demo_decision]"

theorem broker_pending_stable_witness:
  "pf_token (snd (PreflightScoped demo_apenv 3000000 3000000 ''c'' ''u'' (foldl (broker_step demo_apenv) (fst demo_broker1) demo_ops)
     ''one'' ''go test'' ''.'' demo_decision)) = ''a.s''"
proof -
  have a: "PreflightScoped demo_apenv 1000000 1000000 ''a'' ''s'' demo_broker0 ''one'' ''go test'' ''.'' demo_decision =
      (fst demo_broker1, snd demo_broker1)" by (simp add: demo_broker1_def)
  have "case demo_broker1 of (b, p) \<Rightarrow> pf_status p = ''approval_required'' \<and>
    map_of (b_byfp b) (fingerprint demo_apenv ''one'' ''go test'' ''.'' demo_decision) = Some ''a'' \<and>
    spares_all demo_apenv ''a'' (pf_expires p) b demo_ops \<and> unix_milli 3000000 < pf_expires p \<and> pf_token p = ''a.s''" by code_simp
  then have b: "pf_status (snd demo_broker1) = ''approval_required''" "distinct (map fst (b_pending demo_broker0))"
    "map_of (b_byfp (fst demo_broker1)) (fingerprint demo_apenv ''one'' ''go test'' ''.'' demo_decision) = Some ''a''"
    "spares_all demo_apenv ''a'' (pf_expires (snd demo_broker1)) (fst demo_broker1) demo_ops"
    "unix_milli 3000000 < pf_expires (snd demo_broker1)" "pf_token (snd demo_broker1) = ''a.s''"
    by (simp_all add: split_beta demo_broker0_def)
  from broker_pending_stable [OF a b(1,2) _ b(3-5), of 3000000 "''c''" "''u''"] b(6) show ?thesis by simp
qed

theorem broker_token_single_use_witness:
  "snd (ConsumeScoped demo_apenv 2000000 (fst demo_broker1) ''two'' ''a.s'' ''go test'' ''.'' demo_decision) = True \<and>
   snd (ConsumeScoped demo_apenv 3000000
     (fst (ConsumeScoped demo_apenv 2000000 (fst demo_broker1) ''two'' ''a.s'' ''go test'' ''.'' demo_decision))
     ''one'' ''a.s'' ''go test'' ''.'' demo_decision) = False"
proof -
  let ?c = "ConsumeScoped demo_apenv 2000000 (fst demo_broker1) ''two'' ''a.s'' ''go test'' ''.'' demo_decision"
  have ok: "snd ?c" "str_cut (CHR ''.'') ''a.s'' = Some (''a'', ''s'')" by code_simp+
  have c: "?c = (fst ?c, True)" using ok(1) by (simp add: prod_eq_iff)
  have d: "d_requires demo_decision" "\<not> d_blocked demo_decision" by (simp_all add: demo_decision_def)
  from broker_token_single_use [OF c d ok(2), of "[]" demo_decision 3000000 "''one''" "''go test''" "''.''"] d ok(1) show ?thesis by simp
qed

section \<open>Modes and decisions\<close>

text \<open>
  No approval mode overrides the classifier: for a command the classifier blocks, neither agent mode nor full
  mode approves. Agent mode approves only commands of risk REVIEW that may be remembered. For a command that
  needs approval, a mode never both approves and denies, and the modes other than agent, full, deny and auto-safe do neither.
\<close>

theorem modes_respect_classifier:
  "(d_blocked (Classify E command network ctx) \<longrightarrow>
      \<not> AgentAllows mode (Classify E command network ctx) \<and> \<not> FullAllows mode (Classify E command network ctx)) \<and>
   (AgentAllows mode (Classify E command network ctx) \<longrightarrow>
      d_risk (Classify E command network ctx) = RiskReview \<and> d_policy (Classify E command network ctx) = ApprovalRememberable) \<and>
   \<not> ((AgentAllows mode (Classify E command network ctx) \<or> FullAllows mode (Classify E command network ctx)) \<and>
      DeniesApproval mode (Classify E command network ctx)) \<and>
   (mode = ModePrompt \<longrightarrow> \<not> AgentAllows mode (Classify E command network ctx) \<and> \<not> FullAllows mode (Classify E command network ctx) \<and>
      \<not> DeniesApproval mode (Classify E command network ctx))"
  using Classify_wf_aux [of E command network ctx]
  by (auto simp: AgentAllows_def FullAllows_def DeniesApproval_def decision_wf_def)

theorem modes_respect_classifier_witness:
  "d_blocked (Classify demo_secenv ''sudo x'' NetworkAllow empty_context) \<and>
   \<not> FullAllows ModeFull (Classify demo_secenv ''sudo x'' NetworkAllow empty_context)"
proof -
  have a: "splitAndChain ''sudo x'' = None" by code_simp
  have "map_option Executable (parseCommand demo_secenv ''sudo x'') = Some ''sudo''" by code_simp
  then obtain p where p: "parseCommand demo_secenv ''sudo x'' = Some p" "Executable p = ''sudo''" by auto
  have "d_blocked (Classify demo_secenv ''sudo x'' NetworkAllow empty_context)"
    using hard_blocked_aux [OF a, of demo_secenv p] p by (simp add: contains_str_def)
  then show ?thesis using modes_respect_classifier [of demo_secenv "''sudo x''" NetworkAllow empty_context ModeFull] by blast
qed

lemma NormalizeMode_fixed:
  assumes "m \<in> {ModeDeny, ModeAutoSafe, ModeAgent, ModeFull, ModePrompt}"
  shows "NormalizeMode G m = m"
proof -
  have t: "trim_space ModeDeny = ModeDeny" "trim_space ModeAutoSafe = ModeAutoSafe" "trim_space ModeAgent = ModeAgent"
    "trim_space ModeFull = ModeFull" "trim_space ModePrompt = ModePrompt" by code_simp+
  have l: "map ascii_lower ModeDeny = ModeDeny" "map ascii_lower ModeAutoSafe = ModeAutoSafe"
    "map ascii_lower ModeAgent = ModeAgent" "map ascii_lower ModeFull = ModeFull" "map ascii_lower ModePrompt = ModePrompt" by code_simp+
  have a: "is_ascii ModeDeny" "is_ascii ModeAutoSafe" "is_ascii ModeAgent" "is_ascii ModeFull" "is_ascii ModePrompt" by code_simp+
  have c: "to_lower G (trim_space m) = m" if "m = ModeDeny \<or> m = ModeAutoSafe \<or> m = ModeAgent \<or> m = ModeFull \<or> m = ModePrompt" for m
    using that by (elim disjE) (simp_all only: t to_lower_def a l if_True)
  show ?thesis using assms c [of m] by (auto simp: NormalizeMode_def Let_def)
qed

text \<open>
  Modes survive their file: after \<open>SetWorkspaceMode\<close> succeeded, \<open>ResolveMode\<close> and \<open>WorkspaceMode\<close> return the
  normalised mode for that workspace and what they returned before for every other one; the environment
  can only override it with the restrictive modes deny and auto-safe.
\<close>

theorem SetWorkspaceMode_roundtrip:
  assumes "SetWorkspaceMode G io ms ws mode = (ms', None)" and "list_all (\<lambda>(k, v). valid_utf8 k \<and> valid_utf8 v) (projr (readModes ms))"
    and "valid_utf8 (trim_space ws)"
  shows "WorkspaceMode G ms' ws = (NormalizeMode G mode, None) \<and>
    (trim_space ws' \<noteq> trim_space ws \<longrightarrow> WorkspaceMode G ms' ws' = WorkspaceMode G ms ws') \<and>
    ResolveMode G env ms' ws =
      (if trim_space env \<noteq> [] \<and> (NormalizeMode G (trim_space env) = ModeDeny \<or> NormalizeMode G (trim_space env) = ModeAutoSafe)
       then NormalizeMode G (trim_space env) else NormalizeMode G mode)"
proof -
  obtain data where d: "readModes ms = Inr data" and io: "io = WOk"
    using assms(1) by (auto simp: SetWorkspaceMode_def Let_def split: if_splits sum.splits write_outcome.splits)
  let ?m = "NormalizeMode G mode"
  have m: "?m \<in> {ModeDeny, ModeAutoSafe, ModeAgent, ModeFull, ModePrompt}" by (simp add: NormalizeMode_def Let_def)
  then have vm: "utf8_coerce ?m = ?m" by (auto intro!: utf8_coerce_ascii simp: is_ascii_def)
  have nm: "NormalizeMode G ?m = ?m" using m by (rule NormalizeMode_fixed)
  have "utf8_coerce (fst x) = fst x \<and> utf8_coerce (snd x) = snd x" if "x \<in> set (AList.update (trim_space ws) ?m data)" for x
  proof -
    have "x = (trim_space ws, ?m) \<or> x \<in> set data" using that set_update_subset [of "trim_space ws" ?m data] by blast
    then show ?thesis using assms(2,3) vm by (auto simp: d list_all_iff valid_utf8_def)
  qed
  then have "map (\<lambda>(k, v). (utf8_coerce k, utf8_coerce v)) (AList.update (trim_space ws) ?m data) = AList.update (trim_space ws) ?m data"
    by (intro map_idI) (auto simp: case_prod_beta)
  then have ms': "ms' = Modes (AList.update (trim_space ws) ?m data)"
    using assms(1) d io by (auto simp: SetWorkspaceMode_def Let_def split: if_splits)
  show ?thesis
    using d by (simp add: ms' WorkspaceMode_def workspaceMode_def readModes_def ResolveMode_def Let_def nm)
qed

theorem SetWorkspaceMode_roundtrip_witness:
  "ResolveMode demo_secenv ''full'' (fst (SetWorkspaceMode demo_secenv WOk NoModes '' w '' ''Smart'')) '' w '' = ModeAgent"
proof -
  have h: "snd (SetWorkspaceMode demo_secenv WOk NoModes '' w '' ''Smart'') = None" "valid_utf8 (trim_space '' w '')"
    "list_all (\<lambda>(k, v). valid_utf8 k \<and> valid_utf8 v) (projr (readModes NoModes))"
    "NormalizeMode demo_secenv ''Smart'' = ModeAgent" "NormalizeMode demo_secenv (trim_space ''full'') = ModeFull" by code_simp+
  have a: "SetWorkspaceMode demo_secenv WOk NoModes '' w '' ''Smart'' = (fst (SetWorkspaceMode demo_secenv WOk NoModes '' w '' ''Smart''), None)"
    using h(1) by (simp add: prod_eq_iff)
  show ?thesis
    using SetWorkspaceMode_roundtrip [OF a h(3,2), of "[]" "''full''"] h(4,5) by simp
qed

end
