(* ===== verification/Journal.thy ===== *)
theory Journal
  imports EventLog "HOL-Library.Multiset"
begin

text \<open>
  The idempotency journal of the local engine (\<open>internal/idempotency/journal.go\<close>) and its one
  client, \<open>Engine.Handle\<close> of \<open>internal/localclient/engine.go\<close>, which executes a side-effecting
  tool call under a key. The journal keeps its entries in memory and rewrites its file after every
  change; the file survives a crash, the memory does not. \<open>Engine.handle\<close>, the tool itself, is
  represented by its outcome. The workspace worker holds its \<open>sideMu\<close> lock around every
  side-effecting call, so calls on one journal do not overlap.

  The argument \<open>it\<close> is the order in which Go iterates the map of entries (any permutation):
  together with the unstable \<open>sort.Slice\<close> it decides between entries started in the same
  millisecond, and a stable sort of an arbitrary permutation gives exactly these results.
\<close>

section \<open>Entries and files\<close>

definition jStarted :: string where "jStarted = ''started''"
definition jCompleted :: string where "jCompleted = ''completed''"
definition jFailed :: string where "jFailed = ''failed''"

record jentry =
  je_Key :: string
  je_Operation :: string
  je_StartedAt :: int
  je_CompletedAt :: int
  je_Status :: string
  je_Result :: json
  je_Error :: string

datatype jfile = JMissing | JBroken string | JEntries "jentry list"

record journal =
  jl_maxEntries :: int
  jl_loaded :: bool
  jl_entries :: "(string \<times> jentry) list"

type_synonym jstate = "journal \<times> jfile"

definition NewAt :: "int \<Rightarrow> journal" where
  "NewAt n = \<lparr>jl_maxEntries = (if n \<le> 0 then 1000 else n), jl_loaded = False, jl_entries = []\<rparr>"

text \<open>
  A value after \<open>json.MarshalIndent\<close> and \<open>json.Unmarshal\<close> into \<open>any\<close>: text becomes valid UTF-8
  and a number a \<open>float64\<close>.
\<close>

primrec json_transit :: "('z) goenv_scheme \<Rightarrow> json \<Rightarrow> json" where
  "json_transit G JNull = JNull"
| "json_transit G (JBool b) = JBool b"
| "json_transit G (JNum n) = enc_int G n"
| "json_transit G (JStr s) = JStr (utf8_coerce s)"
| "json_transit G (JTime t) = JTime t"
| "json_transit G (JArr js) = JArr (map (json_transit G) js)"
| "json_transit G (JObj fs) = JObj (map (\<lambda>(k, v). (utf8_coerce k, v)) (map (map_prod id (json_transit G)) fs))"

definition transit_entry :: "('z) goenv_scheme \<Rightarrow> jentry \<Rightarrow> jentry" where
  "transit_entry G e = e\<lparr>je_Key := utf8_coerce (je_Key e), je_Operation := utf8_coerce (je_Operation e),
     je_Status := utf8_coerce (je_Status e), je_Result := json_transit G (je_Result e),
     je_Error := utf8_coerce (je_Error e)\<rparr>"

section \<open>The journal\<close>

definition index_entries :: "(string \<times> jentry) list \<Rightarrow> jentry list \<Rightarrow> (string \<times> jentry) list" where
  "index_entries m es = foldl (\<lambda>m e. AList.update (je_Key e) e m) m es"

definition loadLocked :: "jstate \<Rightarrow> jstate \<times> string option" where
  "loadLocked s =
     (case s of (j, f) \<Rightarrow>
        if jl_loaded j then (s, None)
        else case f of
          JBroken e \<Rightarrow> (s, Some e)
        | JMissing \<Rightarrow> ((j\<lparr>jl_loaded := True\<rparr>, f), None)
        | JEntries es \<Rightarrow>
            ((j\<lparr>jl_loaded := True,
               jl_entries := index_entries (jl_entries j) (filter (\<lambda>e. je_Key e \<noteq> []) es)\<rparr>, f), None))"

definition flushLocked ::
  "('z) goenv_scheme \<Rightarrow> (jentry list \<Rightarrow> jentry list) \<Rightarrow> write_outcome \<Rightarrow> jstate \<Rightarrow> jstate \<times> string option" where
  "flushLocked G it io s =
     (case s of (j, f) \<Rightarrow>
        let entries = sort_key (\<lambda>e. - je_StartedAt e) (it (map snd (jl_entries j)));
            kept = (if int (length entries) > jl_maxEntries j then take (nat (jl_maxEntries j)) entries else entries);
            j' = j\<lparr>jl_entries := index_entries [] kept\<rparr>;
            new = JEntries (map (transit_entry G) kept)
        in case io of
             WOk \<Rightarrow> ((j', new), None)
           | WUnsynced e \<Rightarrow> ((j', new), Some e)
           | WLost e \<Rightarrow> ((j', f), Some e)
           | WTorn e \<Rightarrow> ((j', f), Some e))"

definition put_entry :: "string \<Rightarrow> jentry \<Rightarrow> jstate \<Rightarrow> jstate" where
  "put_entry k e s = (case s of (j, f) \<Rightarrow> (j\<lparr>jl_entries := AList.update k e (jl_entries j)\<rparr>, f))"

definition Get :: "jstate \<Rightarrow> string \<Rightarrow> jstate \<times> (string + jentry option)" where
  "Get s k =
     (case loadLocked s of
        (s1, Some e) \<Rightarrow> (s1, Inl e)
      | (s1, None) \<Rightarrow> (s1, Inr (map_of (jl_entries (fst s1)) k)))"

definition Start ::
  "('z) goenv_scheme \<Rightarrow> (jentry list \<Rightarrow> jentry list) \<Rightarrow> int \<Rightarrow> write_outcome \<Rightarrow> jstate \<Rightarrow> string \<Rightarrow> string
     \<Rightarrow> jstate \<times> jentry option \<times> string option" where
  "Start G it now io s k operation =
     (case loadLocked s of
        (s1, Some e) \<Rightarrow> (s1, None, Some e)
      | (s1, None) \<Rightarrow>
          (let e = \<lparr>je_Key = k, je_Operation = operation, je_StartedAt = now, je_CompletedAt = 0,
                    je_Status = jStarted, je_Result = JNull, je_Error = []\<rparr>;
               fresh = (case flushLocked G it io (put_entry k e s1) of (s2, err) \<Rightarrow> (s2, Some e, err))
           in case map_of (jl_entries (fst s1)) k of
                Some existing \<Rightarrow> if je_Status existing \<noteq> jFailed then (s1, Some existing, None) else fresh
              | None \<Rightarrow> fresh))"

text \<open>The three operations that end a request share the shape: load, look up, change, flush.\<close>

definition Complete ::
  "('z) goenv_scheme \<Rightarrow> (jentry list \<Rightarrow> jentry list) \<Rightarrow> int \<Rightarrow> write_outcome \<Rightarrow> jstate \<Rightarrow> string \<Rightarrow> json
     \<Rightarrow> jstate \<times> string option" where
  "Complete G it now io s k res =
     (case loadLocked s of
        (s1, Some e) \<Rightarrow> (s1, Some e)
      | (s1, None) \<Rightarrow>
          (case map_of (jl_entries (fst s1)) k of
             None \<Rightarrow> (s1, None)
           | Some e \<Rightarrow> flushLocked G it io (put_entry k
               (e\<lparr>je_Status := jCompleted, je_CompletedAt := now, je_Result := res, je_Error := []\<rparr>) s1)))"

definition Fail ::
  "('z) goenv_scheme \<Rightarrow> (jentry list \<Rightarrow> jentry list) \<Rightarrow> int \<Rightarrow> write_outcome \<Rightarrow> jstate \<Rightarrow> string \<Rightarrow> string
     \<Rightarrow> jstate \<times> string option" where
  "Fail G it now io s k message =
     (case loadLocked s of
        (s1, Some e) \<Rightarrow> (s1, Some e)
      | (s1, None) \<Rightarrow>
          (case map_of (jl_entries (fst s1)) k of
             None \<Rightarrow> (s1, None)
           | Some e \<Rightarrow> flushLocked G it io (put_entry k
               (e\<lparr>je_Status := jFailed, je_CompletedAt := now, je_Error := message\<rparr>) s1)))"

definition Abandon ::
  "('z) goenv_scheme \<Rightarrow> (jentry list \<Rightarrow> jentry list) \<Rightarrow> write_outcome \<Rightarrow> jstate \<Rightarrow> string \<Rightarrow> jstate \<times> string option" where
  "Abandon G it io s k =
     (case loadLocked s of
        (s1, Some e) \<Rightarrow> (s1, Some e)
      | (s1, None) \<Rightarrow>
          (case map_of (jl_entries (fst s1)) k of
             None \<Rightarrow> (s1, None)
           | Some e \<Rightarrow> flushLocked G it io
               ((fst s1)\<lparr>jl_entries := AList.delete k (jl_entries (fst s1))\<rparr>, snd s1)))"

section \<open>The engine's use of it\<close>

definition side_tools :: "string list" where
  "side_tools = [''write_file'', ''edit_file'', ''apply_patch'', ''apply_edits'', ''format_changed_files'',
     ''run_command'', ''exec_start'', ''pty_start'', ''artifact_publish'',
     ''exec_write'', ''pty_write'', ''process_write'', ''pty_resize'',
     ''exec_signal'', ''pty_signal'', ''exec_kill'', ''pty_kill'', ''process_kill'', ''exec_cancel'',
     ''git_stage'', ''git_unstage'', ''git_commit'', ''git_push'', ''approval_mode'', ''approval_revoke'',
     ''approval_reset'', ''mcp_call'',
     ''browser_open'', ''browser_click'', ''browser_fill'', ''browser_press'', ''browser_close'',
     ''computer_focus'', ''computer_click'', ''computer_type'', ''computer_key'', ''computer_scroll'',
     ''computer_drag'', ''computer_run'',
     ''computer_launch_app'', ''computer_terminate_app'', ''computer_install_app'',
     ''computer_uninstall_app'', ''computer_open_url'', ''computer_set_orientation'',
     ''computer_double_tap'', ''computer_long_press'', ''computer_record_start'', ''computer_record_stop'',
     ''learned_skill_record'', ''learned_skill_feedback'']"

definition SideEffecting :: "string \<Rightarrow> bool" where
  "SideEffecting tool \<longleftrightarrow> tool \<in> set side_tools"

text \<open>
  What \<open>Engine.handle\<close> does: fail with a message, return a value (with whether its Go type is
  \<open>map[string]any\<close>), or never return because the process dies.
\<close>

datatype hout = HFail string | HOk bool json | HCrash

datatype hreply = ReplyErr string | ReplyDuplicate | ReplyOk json | ReplyNone

definition provisional :: "bool \<Rightarrow> json \<Rightarrow> bool" where
  "provisional is_map res \<longleftrightarrow> is_map \<and>
     (case res of JObj fs \<Rightarrow> map_of fs ''status'' \<in> {Some (JStr ''approval_required''), Some (JStr ''blocked'')} | _ \<Rightarrow> False)"

record hcall =
  hc_tool :: string
  hc_key :: string
  hc_out :: hout
  hc_now :: "int \<times> int"
  hc_io :: "write_outcome \<times> write_outcome"

text \<open>After a crash the next process opens the same file with an empty journal.\<close>

definition restart :: "jstate \<Rightarrow> jstate" where
  "restart s = (NewAt (jl_maxEntries (fst s)), snd s)"

text \<open>The third component of the result says whether the tool was executed.\<close>

definition start_and_run ::
  "('z) goenv_scheme \<Rightarrow> (jentry list \<Rightarrow> jentry list) \<Rightarrow> jstate \<Rightarrow> string \<Rightarrow> hcall \<Rightarrow> jstate \<times> hreply \<times> bool" where
  "start_and_run G it s k c =
     (case Start G it (fst (hc_now c)) (fst (hc_io c)) s k (hc_tool c) of
        (s2, _, Some e) \<Rightarrow> (s2, ReplyErr e, False)
      | (s2, _, None) \<Rightarrow>
          (case hc_out c of
             HCrash \<Rightarrow> (restart s2, ReplyNone, True)
           | HFail m \<Rightarrow> (fst (Fail G it (snd (hc_now c)) (snd (hc_io c)) s2 k m), ReplyErr m, True)
           | HOk is_map v \<Rightarrow>
               if provisional is_map v
               then (fst (Abandon G it (snd (hc_io c)) s2 k), ReplyOk v, True)
               else (case Complete G it (snd (hc_now c)) (snd (hc_io c)) s2 k v of
                       (s3, Some e) \<Rightarrow> (s3, ReplyErr e, True)
                     | (s3, None) \<Rightarrow> (s3, ReplyOk v, True))))"

definition Handle ::
  "('z) goenv_scheme \<Rightarrow> (jentry list \<Rightarrow> jentry list) \<Rightarrow> jstate \<Rightarrow> hcall \<Rightarrow> jstate \<times> hreply \<times> bool" where
  "Handle G it s c =
     (let k = trim_space (hc_key c) in
      if \<not> SideEffecting (hc_tool c) \<or> k = []
      then (case hc_out c of
              HFail m \<Rightarrow> (s, ReplyErr m, True)
            | HOk _ v \<Rightarrow> (s, ReplyOk v, True)
            | HCrash \<Rightarrow> (restart s, ReplyNone, True))
      else case Get s k of
        (s1, Inl e) \<Rightarrow> (s1, ReplyErr e, False)
      | (s1, Inr None) \<Rightarrow> start_and_run G it s1 k c
      | (s1, Inr (Some e)) \<Rightarrow>
          if je_Status e = jCompleted then (s1, ReplyOk (je_Result e), False)
          else if je_Status e = jStarted then (s1, ReplyDuplicate, False)
          else start_and_run G it s1 k c)"

section \<open>Memory and disk as maps\<close>

text \<open>What a restart would find on disk.\<close>

definition disk_entries :: "jfile \<Rightarrow> (string \<times> jentry) list" where
  "disk_entries f = (case f of JEntries es \<Rightarrow> index_entries [] (filter (\<lambda>e. je_Key e \<noteq> []) es) | _ \<Rightarrow> [])"

abbreviation mem_map :: "jstate \<Rightarrow> string \<Rightarrow> jentry option" where
  "mem_map s \<equiv> map_of (jl_entries (fst s))"

abbreviation disk_map :: "jstate \<Rightarrow> string \<Rightarrow> jentry option" where
  "disk_map s \<equiv> map_of (disk_entries (snd s))"

definition known_status :: "jentry \<Rightarrow> bool" where
  "known_status e \<longleftrightarrow> je_Status e = jStarted \<or> je_Status e = jCompleted \<or> je_Status e = jFailed"

text \<open>
  \<open>K\<close>: the keys in use. As long as there are no more of them than the journal keeps, nothing is
  evicted. The keys are texts, so they survive the file.
\<close>

definition journal_ok :: "string set \<Rightarrow> jstate \<Rightarrow> bool" where
  "journal_ok K s \<longleftrightarrow>
     distinct (map fst (jl_entries (fst s))) \<and> (\<forall>(k, e) \<in> set (jl_entries (fst s)). je_Key e = k) \<and>
     dom (mem_map s) \<subseteq> K \<and> dom (disk_map s) \<subseteq> K \<and> (\<forall>k e. disk_map s k = Some e \<longrightarrow> je_Key e = k) \<and>
     (\<forall>k e. mem_map s k = Some e \<or> disk_map s k = Some e \<longrightarrow> known_status e) \<and>
     (\<not> jl_loaded (fst s) \<longrightarrow> jl_entries (fst s) = []) \<and>
     finite K \<and> int (card K) \<le> jl_maxEntries (fst s) \<and> (\<forall>k \<in> K. valid_utf8 k \<and> k \<noteq> [])"

definition iter_order :: "(jentry list \<Rightarrow> jentry list) \<Rightarrow> bool" where
  "iter_order it \<longleftrightarrow> (\<forall>es. mset (it es) = mset es)"

lemma map_of_index:
  "distinct (map je_Key es) \<Longrightarrow>
     map_of (index_entries m es) k = (case find (\<lambda>e. je_Key e = k) es of Some e \<Rightarrow> Some e | None \<Rightarrow> map_of m k)"
proof (induction es arbitrary: m)
  case (Cons e es)
  have "find (\<lambda>x. je_Key x = je_Key e) es = None" using Cons.prems by (simp add: find_None_iff image_iff) metis
  with Cons show ?case by (auto simp: index_entries_def split: option.splits)
qed (simp add: index_entries_def)

lemma distinct_index: "distinct (map fst m) \<Longrightarrow> distinct (map fst (index_entries m es))"
  unfolding index_entries_def by (induction es arbitrary: m) (simp_all add: distinct_update)

lemma index_keys:
  "\<forall>(k, e) \<in> set m. je_Key e = k \<Longrightarrow> \<forall>(k, e) \<in> set (index_entries m es). je_Key e = k"
proof (induction es arbitrary: m)
  case (Cons e es)
  have "set (AList.update (je_Key e) e m) \<subseteq> insert (je_Key e, e) (set m)"
    by (induction m) auto
  then have "\<forall>(k, x) \<in> set (AList.update (je_Key e) e m). je_Key x = k" using Cons.prems by auto
  from Cons.IH [OF this] show ?case by (simp add: index_entries_def)
qed (simp add: index_entries_def)

lemma find_SomeD: "find P xs = Some x \<Longrightarrow> x \<in> set xs \<and> P x"
  by (induction xs) (auto split: if_splits)

lemma find_key_map:
  assumes "distinct (map fst m)" and "\<forall>(k, e) \<in> set m. je_Key e = k" and "mset es = mset (map snd m)"
  shows "find (\<lambda>e. je_Key e = k) es = map_of m k"
proof -
  have set: "set es = snd ` set m" using assms(3) by (metis list.set_map set_mset_mset)
  have keys: "e \<in> set es \<Longrightarrow> (je_Key e, e) \<in> set m" for e using set assms(2) by force
  show ?thesis
  proof (cases "find (\<lambda>e. je_Key e = k) es")
    case None
    then have "\<forall>e \<in> set es. je_Key e \<noteq> k" by (simp add: find_None_iff)
    then have "k \<notin> fst ` set m" using set assms(2) by fastforce
    with None show ?thesis by (metis map_of_eq_None_iff)
  next
    case (Some e)
    then have "e \<in> set es" "je_Key e = k" using find_SomeD [of _ es e] by auto
    then have "(k, e) \<in> set m" using keys by blast
    then show ?thesis using assms(1) Some by simp
  qed
qed

lemma distinct_keys_map:
  assumes "distinct (map fst m)" and "\<forall>(k, e) \<in> set m. je_Key e = k" and "mset es = mset (map snd m)"
  shows "distinct (map je_Key es)"
proof -
  have "map je_Key (map snd m) = map fst m" using assms(2) by (induction m) auto
  then have "mset (map je_Key es) = mset (map fst m)" using assms(3) by (metis mset_map)
  with assms(1) show ?thesis by (metis mset_eq_imp_distinct_iff)
qed

lemma journal_okD:
  assumes "journal_ok K s"
  shows "distinct (map fst (jl_entries (fst s)))" and "\<forall>(k, e) \<in> set (jl_entries (fst s)). je_Key e = k"
    and "dom (mem_map s) \<subseteq> K" and "dom (disk_map s) \<subseteq> K" and "finite K"
    and "int (card K) \<le> jl_maxEntries (fst s)" and "\<forall>k \<in> K. valid_utf8 k \<and> k \<noteq> []"
    and "\<not> jl_loaded (fst s) \<longrightarrow> jl_entries (fst s) = []"
    and "\<forall>k e. disk_map s k = Some e \<longrightarrow> je_Key e = k"
    and "\<forall>k e. mem_map s k = Some e \<or> disk_map s k = Some e \<longrightarrow> known_status e"
  using assms by (simp_all add: journal_ok_def)

lemma transit_status [simp]: "known_status e \<Longrightarrow> je_Status (transit_entry G e) = je_Status e"
  unfolding known_status_def transit_entry_def jStarted_def jCompleted_def jFailed_def
  by (auto simp: utf8_coerce_ascii is_ascii_def)

lemma known_transit: "known_status e \<Longrightarrow> known_status (transit_entry G e)"
  using transit_status [of e G] by (simp add: known_status_def)

lemma transit_entry_key: "valid_utf8 (je_Key e) \<Longrightarrow> je_Key (transit_entry G e) = je_Key e"
  by (simp add: transit_entry_def valid_utf8_def)

text \<open>The entries a flush keeps, in the order of the file.\<close>

definition flush_list :: "(jentry list \<Rightarrow> jentry list) \<Rightarrow> journal \<Rightarrow> jentry list" where
  "flush_list it j =
     (let entries = sort_key (\<lambda>e. - je_StartedAt e) (it (map snd (jl_entries j))) in
      if int (length entries) > jl_maxEntries j then take (nat (jl_maxEntries j)) entries else entries)"

lemma flushLocked_alt:
  "flushLocked G it io (j, f) =
     ((j\<lparr>jl_entries := index_entries [] (flush_list it j)\<rparr>,
       if io = WOk \<or> (\<exists>e. io = WUnsynced e) then JEntries (map (transit_entry G) (flush_list it j)) else f),
      case io of WOk \<Rightarrow> None | WUnsynced e \<Rightarrow> Some e | WLost e \<Rightarrow> Some e | WTorn e \<Rightarrow> Some e)"
  by (cases io) (simp_all add: flushLocked_def flush_list_def Let_def)

lemma flush_list_all:
  assumes "journal_ok K s" and "iter_order it"
  shows "mset (flush_list it (fst s)) = mset (map snd (jl_entries (fst s)))"
proof -
  note ok = journal_okD [OF assms(1)]
  have len: "length (it (map snd (jl_entries (fst s)))) = length (jl_entries (fst s))"
    using assms(2) by (metis iter_order_def length_map size_mset)
  have "length (jl_entries (fst s)) = card (dom (mem_map s))"
    using ok(1) by (metis dom_map_of_conv_image_fst distinct_card length_map list.set_map)
  also have "\<dots> \<le> card K" using ok(3,5) by (rule card_mono [rotated])
  finally have "int (length (jl_entries (fst s))) \<le> jl_maxEntries (fst s)" using ok(6) by linarith
  with len have "flush_list it (fst s) = sort_key (\<lambda>e. - je_StartedAt e) (it (map snd (jl_entries (fst s))))"
    by (simp add: flush_list_def Let_def)
  then show ?thesis using assms(2) by (simp add: iter_order_def)
qed

lemma find_map_key:
  "\<forall>e \<in> set es. je_Key (g e) = je_Key e \<Longrightarrow>
     find (\<lambda>e. je_Key e = k) (map g es) = map_option g (find (\<lambda>e. je_Key e = k) es)"
  by (induction es) auto

text \<open>
  As long as nothing has to be evicted a flush leaves the memory as it is, and a successful one
  (or one whose file was replaced in spite of a reported error) makes the file a copy of it.
\<close>

lemma flush_spec:
  assumes "journal_ok K s" and "iter_order it" and "flushLocked G it io s = (s', err)" and "jl_loaded (fst s)"
  shows "mem_map s' = mem_map s"
    and "disk_map s' = disk_map s \<or> disk_map s' = (\<lambda>k. map_option (transit_entry G) (mem_map s k))"
    and "err = None \<Longrightarrow> disk_map s' = (\<lambda>k. map_option (transit_entry G) (mem_map s k))"
    and "journal_ok K s'" and "jl_loaded (fst s')"
proof -
  obtain j f where s: "s = (j, f)" by fastforce
  note ok = journal_okD [OF assms(1)]
  let ?es = "flush_list it j"
  have m: "mset ?es = mset (map snd (jl_entries j))" using flush_list_all [OF assms(1,2)] s by simp
  have d: "distinct (map je_Key ?es)"
    using distinct_keys_map [OF ok(1,2)] m s by simp
  have find: "find (\<lambda>e. je_Key e = k) ?es = map_of (jl_entries j) k" for k
    using find_key_map [OF ok(1,2)] m s by simp
  have inK: "je_Key e \<in> K" if "e \<in> set ?es" for e
  proof -
    have "e \<in> snd ` set (jl_entries j)" using that m by (metis list.set_map set_mset_mset)
    then have "je_Key e \<in> fst ` set (jl_entries j)" using ok(2) s by force
    then show ?thesis using ok(3) s by (auto simp: dom_map_of_conv_image_fst)
  qed
  then have key: "je_Key (transit_entry G e) = je_Key e \<and> je_Key e \<noteq> []" if "e \<in> set ?es" for e
    using that ok(7) transit_entry_key by blast
  have s': "s' = (j\<lparr>jl_entries := index_entries [] ?es\<rparr>,
      if io = WOk \<or> (\<exists>e. io = WUnsynced e) then JEntries (map (transit_entry G) ?es) else f)"
    and err: "err = (case io of WOk \<Rightarrow> None | WUnsynced e \<Rightarrow> Some e | WLost e \<Rightarrow> Some e | WTorn e \<Rightarrow> Some e)"
    using assms(3) by (simp_all add: s flushLocked_alt)
  show mem: "mem_map s' = mem_map s"
    using map_of_index [OF d, of "[]"] find by (auto simp: s' s fun_eq_iff split: option.splits)
  have "filter (\<lambda>e. je_Key e \<noteq> []) (map (transit_entry G) ?es) = map (transit_entry G) ?es"
    using key by (simp add: filter_id_conv)
  moreover have "distinct (map je_Key (map (transit_entry G) ?es))"
  proof -
    have "map je_Key (map (transit_entry G) ?es) = map je_Key ?es" using key by simp
    then show ?thesis using d by (simp only:)
  qed
  ultimately have new: "map_of (disk_entries (JEntries (map (transit_entry G) ?es))) =
      (\<lambda>k. map_option (transit_entry G) (mem_map s k))"
    using map_of_index [of "map (transit_entry G) ?es" "[]"] find_map_key [of ?es "transit_entry G"] key find
    by (auto simp: disk_entries_def s fun_eq_iff split: option.splits)
  show disk: "disk_map s' = disk_map s \<or> disk_map s' = (\<lambda>k. map_option (transit_entry G) (mem_map s k))"
    using new by (simp add: s' s)
  show "err = None \<Longrightarrow> disk_map s' = (\<lambda>k. map_option (transit_entry G) (mem_map s k))"
    using new by (cases io) (simp_all add: s' err)
  show "jl_loaded (fst s')" using assms(4) s s' by simp
  have mem_ok: "\<forall>(k, e) \<in> set (jl_entries (fst s')). je_Key e = k" "distinct (map fst (jl_entries (fst s')))"
    using index_keys [of "[]" ?es] distinct_index [of "[]" ?es] by (simp_all add: s')
  have "je_Key (transit_entry G e) = k" if "mem_map s k = Some e" for k e
  proof -
    have "(k, e) \<in> set (jl_entries j)" "k \<in> K" using that ok(3) s by (auto simp: map_of_SomeD)
    then show ?thesis using ok(2,7) s transit_entry_key by fastforce
  qed
  then have disk_key: "\<forall>k e. disk_map s' k = Some e \<longrightarrow> je_Key e = k"
    using disk ok(9) by (elim disjE) auto
  have disk_dom: "dom (disk_map s') \<subseteq> K"
    using disk ok(3,4) by (elim disjE) (auto simp: dom_def)
  have "known_status x \<Longrightarrow> known_status (transit_entry G x)" for x by (rule known_transit)
  then have "disk_map s' k = Some e \<Longrightarrow> known_status e" for k e
    using disk ok(10) by (elim disjE) auto
  then have known: "\<forall>k e. mem_map s' k = Some e \<or> disk_map s' k = Some e \<longrightarrow> known_status e"
    using ok(10) mem by metis
  have "jl_maxEntries (fst s') = jl_maxEntries (fst s)" "jl_loaded (fst s')"
    using assms(4) s s' by simp_all
  then show "journal_ok K s'"
    using ok(3,5-7) mem_ok mem disk_key disk_dom known unfolding journal_ok_def by simp
qed

lemma load_spec:
  assumes "journal_ok K s" and "loadLocked s = (s', None)"
  shows "mem_map s' = (if jl_loaded (fst s) then mem_map s else disk_map s)" and "snd s' = snd s"
    and "journal_ok K s'" and "jl_loaded (fst s')"
proof -
  obtain j f where s: "s = (j, f)" by fastforce
  note ok = journal_okD [OF assms(1)]
  have "s' = (if jl_loaded j then s else (j\<lparr>jl_loaded := True, jl_entries := disk_entries f\<rparr>, f))"
    using assms(2) ok(8) s by (auto simp: loadLocked_def disk_entries_def split: if_splits jfile.splits)
  moreover have "distinct (map fst (disk_entries f))" "\<forall>(k, e) \<in> set (disk_entries f). je_Key e = k"
    using distinct_index [of "[]"] index_keys [of "[]"] by (cases f; simp add: disk_entries_def)+
  ultimately show "mem_map s' = (if jl_loaded (fst s) then mem_map s else disk_map s)" "snd s' = snd s"
    "journal_ok K s'" "jl_loaded (fst s')"
    using assms(1) s ok by (auto simp: journal_ok_def)
qed

lemma load_error: "loadLocked s = (s', Some e) \<Longrightarrow> s' = s"
  by (auto simp: loadLocked_def split: prod.splits if_splits jfile.splits)

text \<open>
  The entries of the keys \<open>E\<close> satisfy \<open>P\<close> on disk and, once loaded, in memory. \<open>P\<close> is a property
  of entries that bar another execution and that survives the file.
\<close>

definition kept_in :: "(string \<Rightarrow> jentry \<Rightarrow> bool) \<Rightarrow> string set \<Rightarrow> (string \<Rightarrow> jentry option) \<Rightarrow> bool" where
  "kept_in P E m \<longleftrightarrow> (\<forall>k \<in> E. \<exists>e. m k = Some e \<and> P k e)"

definition guarded :: "(string \<Rightarrow> jentry \<Rightarrow> bool) \<Rightarrow> string set \<Rightarrow> jstate \<Rightarrow> bool" where
  "guarded P E s \<longleftrightarrow> kept_in P E (disk_map s) \<and> (jl_loaded (fst s) \<longrightarrow> kept_in P E (mem_map s))"

definition barring :: "('z) goenv_scheme \<Rightarrow> (string \<Rightarrow> jentry \<Rightarrow> bool) \<Rightarrow> bool" where
  "barring G P \<longleftrightarrow> (\<forall>k e. P k e \<longrightarrow> je_Status e \<noteq> jFailed \<and> P k (transit_entry G e))"

lemma kept_in_transit: "barring G P \<Longrightarrow> kept_in P E m \<Longrightarrow> kept_in P E (\<lambda>k. map_option (transit_entry G) (m k))"
  unfolding kept_in_def barring_def by fastforce

lemma load_guarded:
  "journal_ok K s \<Longrightarrow> guarded P E s \<Longrightarrow> loadLocked s = (s', None) \<Longrightarrow> guarded P E s'"
  using load_spec [of K s s'] by (auto simp: guarded_def)

lemma change_flush:
  assumes "journal_ok K s" and "iter_order it" and "jl_loaded (fst s)" and "k \<in> K"
    and "\<forall>e. X = Some e \<longrightarrow> je_Key e = k \<and> known_status e"
    and "s1 = ((fst s)\<lparr>jl_entries := case X of Some e \<Rightarrow> AList.update k e (jl_entries (fst s))
                                     | None \<Rightarrow> AList.delete k (jl_entries (fst s))\<rparr>, snd s)"
    and "flushLocked G it io s1 = (s', err)" and "guarded P E s" and "barring G P" and "k \<notin> E"
  shows "journal_ok K s'" and "jl_loaded (fst s')" and "mem_map s' = (mem_map s)(k := X)"
    and "disk_map s' = disk_map s \<or> disk_map s' = (\<lambda>k. map_option (transit_entry G) (mem_map s' k))"
    and "err = None \<Longrightarrow> disk_map s' = (\<lambda>k. map_option (transit_entry G) (mem_map s' k))"
    and "guarded P E s'"
proof -
  note ok = journal_okD [OF assms(1)]
  have m1: "mem_map s1 = (mem_map s)(k := X)" "snd s1 = snd s" "jl_loaded (fst s1)"
    using assms(3) by (auto simp: assms(6) split: option.splits)
  have "distinct (map fst (jl_entries (fst s1)))"
    using ok(1) by (auto simp: assms(6) distinct_update distinct_delete split: option.splits)
  moreover have "\<forall>(k, e) \<in> set (jl_entries (fst s1)). je_Key e = k"
    using ok(1,2) assms(5)
    by (auto simp: assms(6) set_alist_update AList.delete_eq split: option.splits)
  moreover have "dom (mem_map s1) \<subseteq> K" using ok(3) assms(4) by (auto simp: m1)
  moreover have "jl_maxEntries (fst s1) = jl_maxEntries (fst s)" by (simp add: assms(6))
  ultimately have ok1: "journal_ok K s1"
    using ok m1 assms(5) by (auto simp: journal_ok_def)
  note fl = flush_spec [OF ok1 assms(2,7) m1(3)]
  show "journal_ok K s'" "jl_loaded (fst s')" by (rule fl)+
  show mem: "mem_map s' = (mem_map s)(k := X)" using fl(1) m1(1) by simp
  show disk: "disk_map s' = disk_map s \<or> disk_map s' = (\<lambda>k. map_option (transit_entry G) (mem_map s' k))"
    using fl(1,2) m1(2) by simp
  show "err = None \<Longrightarrow> disk_map s' = (\<lambda>k. map_option (transit_entry G) (mem_map s' k))"
    using fl(1,3) by simp
  have "kept_in P E (mem_map s')"
    using assms(3,8,10) by (auto simp: guarded_def kept_in_def mem)
  then show "guarded P E s'"
    using disk assms(8,9) kept_in_transit [of G P E "mem_map s'"] by (auto simp: guarded_def)
qed

lemma Start_spec:
  assumes "journal_ok K s" and "iter_order it" and "k \<in> K" and "jl_loaded (fst s)"
    and "\<forall>e. mem_map s k = Some e \<longrightarrow> je_Status e = jFailed"
    and "Start G it now io s k tool = (s', r, err)" and "guarded P E s" and "barring G P"
  shows "journal_ok K s'" and "guarded P E s'" and "k \<notin> E" and "jl_loaded (fst s')"
    and "\<exists>e. mem_map s' k = Some e \<and> je_Status e = jStarted"
    and "err = None \<Longrightarrow> disk_map s' = (\<lambda>k. map_option (transit_entry G) (mem_map s' k))"
proof -
  let ?e = "\<lparr>je_Key = k, je_Operation = tool, je_StartedAt = now, je_CompletedAt = 0,
    je_Status = jStarted, je_Result = JNull, je_Error = []\<rparr>"
  have load: "loadLocked s = (s, None)" using assms(4) by (cases s) (simp add: loadLocked_def)
  show nE: "k \<notin> E"
    using assms(4,5,7,8) by (auto simp: guarded_def kept_in_def barring_def)
  have "flushLocked G it io (put_entry k ?e s) = (s', err)"
    using assms(5,6) load by (auto simp: Start_def Let_def split: option.splits prod.splits if_splits)
  then have fl: "flushLocked G it io ((fst s)\<lparr>jl_entries := case Some ?e of Some e \<Rightarrow> AList.update k e (jl_entries (fst s))
      | None \<Rightarrow> AList.delete k (jl_entries (fst s))\<rparr>, snd s) = (s', err)"
    by (cases s) (simp add: put_entry_def)
  have X: "\<forall>e. Some ?e = Some e \<longrightarrow> je_Key e = k \<and> known_status e"
    by (auto simp: known_status_def)
  note c = change_flush [OF assms(1,2,4,3) X refl fl assms(7,8) nE]
  show "journal_ok K s'" "guarded P E s'" "jl_loaded (fst s')" using c(1,2,6) by simp_all
  show "\<exists>e. mem_map s' k = Some e \<and> je_Status e = jStarted" using c(3) by simp
  show "err = None \<Longrightarrow> disk_map s' = (\<lambda>k. map_option (transit_entry G) (mem_map s' k))" by (rule c(5))
qed

text \<open>The operations that end a request change the entry of its key only.\<close>

lemma finish_spec:
  assumes "journal_ok K s" and "iter_order it" and "k \<in> K" and "jl_loaded (fst s)"
    and "mem_map s k = Some e0" and "guarded P E s" and "barring G P" and "k \<notin> E"
    and "\<forall>e. X = Some e \<longrightarrow> je_Key e = k \<and> known_status e"
    and "fin = flushLocked G it io ((fst s)\<lparr>jl_entries := case X of Some e \<Rightarrow> AList.update k e (jl_entries (fst s))
           | None \<Rightarrow> AList.delete k (jl_entries (fst s))\<rparr>, snd s)"
  shows "journal_ok K (fst fin)" and "guarded P E (fst fin)" and "jl_loaded (fst (fst fin))"
    and "mem_map (fst fin) k = X"
    and "disk_map (fst fin) k = disk_map s k \<or> disk_map (fst fin) k = map_option (transit_entry G) X"
    and "snd fin = None \<Longrightarrow> disk_map (fst fin) k = map_option (transit_entry G) X"
proof -
  have "flushLocked G it io ((fst s)\<lparr>jl_entries := case X of Some e \<Rightarrow> AList.update k e (jl_entries (fst s))
      | None \<Rightarrow> AList.delete k (jl_entries (fst s))\<rparr>, snd s) = (fst fin, snd fin)"
    by (simp add: assms(10))
  note c = change_flush [OF assms(1,2,4,3,9) refl this assms(6-8)]
  show "journal_ok K (fst fin)" "guarded P E (fst fin)" "jl_loaded (fst (fst fin))"
    using c(1,2,6) by simp_all
  show m: "mem_map (fst fin) k = X" using c(3) by simp
  show "disk_map (fst fin) k = disk_map s k \<or> disk_map (fst fin) k = map_option (transit_entry G) X"
    using c(4) m by (metis (no_types, lifting))
  show "snd fin = None \<Longrightarrow> disk_map (fst fin) k = map_option (transit_entry G) X"
    using c(5) m by (metis (no_types, lifting))
qed

lemma finish_ops:
  assumes "jl_loaded (fst s)" and "mem_map s k = Some e"
  shows "Fail G it now io s k m = flushLocked G it io ((fst s)\<lparr>jl_entries :=
      case Some (e\<lparr>je_Status := jFailed, je_CompletedAt := now, je_Error := m\<rparr>) of
        Some e \<Rightarrow> AList.update k e (jl_entries (fst s)) | None \<Rightarrow> AList.delete k (jl_entries (fst s))\<rparr>, snd s)"
    and "Complete G it now io s k v = flushLocked G it io ((fst s)\<lparr>jl_entries :=
      case Some (e\<lparr>je_Status := jCompleted, je_CompletedAt := now, je_Result := v, je_Error := []\<rparr>) of
        Some e \<Rightarrow> AList.update k e (jl_entries (fst s)) | None \<Rightarrow> AList.delete k (jl_entries (fst s))\<rparr>, snd s)"
    and "Abandon G it io s k = flushLocked G it io ((fst s)\<lparr>jl_entries :=
      case None of Some e \<Rightarrow> AList.update k e (jl_entries (fst s)) | None \<Rightarrow> AList.delete k (jl_entries (fst s))\<rparr>, snd s)"
  using assms by (cases s; simp add: Fail_def Complete_def Abandon_def loadLocked_def put_entry_def)+

lemma restart_ok:
  assumes "journal_ok K s" and "guarded P E s"
  shows "journal_ok K (restart s)" and "guarded P E (restart s)"
proof -
  have "0 < int (card K) \<or> K = {}" using journal_okD(5) [OF assms(1)] by (auto simp: card_gt_0_iff)
  then have "int (card K) \<le> jl_maxEntries (NewAt (jl_maxEntries (fst s)))"
    using journal_okD(6) [OF assms(1)] by (auto simp: NewAt_def)
  then show "journal_ok K (restart s)" "guarded P E (restart s)"
    using assms by (auto simp: journal_ok_def guarded_def restart_def NewAt_def)
qed

section \<open>One call\<close>

definition keyed :: "hcall \<Rightarrow> bool" where
  "keyed c \<longleftrightarrow> SideEffecting (hc_tool c) \<and> trim_space (hc_key c) \<noteq> []"

text \<open>
  An execution is conclusive for the engine when the tool returned a final value or the process
  died: then the journal says completed or started. A tool that reports an error, whether or not
  it has already acted, or answers that it needs an approval is executed again.
\<close>

definition conclusive :: "hcall \<Rightarrow> bool" where
  "conclusive c \<longleftrightarrow> (case hc_out c of HFail _ \<Rightarrow> False | HOk b v \<Rightarrow> \<not> provisional b v | HCrash \<Rightarrow> True)"

definition blocks :: "string \<Rightarrow> jentry \<Rightarrow> bool" where
  "blocks k e \<longleftrightarrow> je_Status e = jStarted \<or> je_Status e = jCompleted"

definition done_with :: "json \<Rightarrow> string \<Rightarrow> jentry \<Rightarrow> bool" where
  "done_with v k e \<longleftrightarrow> je_Status e = jCompleted \<and> je_Result e = v"

lemma status_distinct [simp]: "jStarted \<noteq> jFailed" "jCompleted \<noteq> jFailed" "jStarted \<noteq> jCompleted"
  "jFailed \<noteq> jStarted" "jFailed \<noteq> jCompleted" "jCompleted \<noteq> jStarted"
  by (simp_all add: jStarted_def jCompleted_def jFailed_def)

lemma transit_blocks: "blocks k e \<Longrightarrow> blocks k (transit_entry G e)"
  using transit_status [of e G] by (auto simp: blocks_def known_status_def)

lemma transit_done: "json_transit G v = v \<Longrightarrow> done_with v k e \<Longrightarrow> done_with v k (transit_entry G e)"
  using transit_status [of e G] by (auto simp: done_with_def known_status_def transit_entry_def)

lemma barring_blocks: "barring G blocks"
  using transit_blocks by (auto simp: barring_def) (auto simp: blocks_def)

lemma barring_done: "json_transit G v = v \<Longrightarrow> barring G (done_with v)"
  using transit_done by (auto simp: barring_def) (auto simp: done_with_def)

lemma guarded_singleton:
  "guarded P {k} s \<longleftrightarrow> (\<exists>e. disk_map s k = Some e \<and> P k e) \<and>
     (jl_loaded (fst s) \<longrightarrow> (\<exists>e. mem_map s k = Some e \<and> P k e))"
  by (simp add: guarded_def kept_in_def)

lemma guarded_insert: "guarded P {k} s \<Longrightarrow> guarded P E s \<Longrightarrow> guarded P (insert k E) s"
  by (auto simp: guarded_def kept_in_def)

lemma start_and_run_step:
  assumes "journal_ok K s" and "iter_order it" and "k \<in> K" and "jl_loaded (fst s)"
    and "\<forall>e. mem_map s k = Some e \<longrightarrow> je_Status e = jFailed"
    and "start_and_run G it s k c = (s', reply, did)" and "guarded P E s" and "barring G P"
  shows "journal_ok K s' \<and> guarded P E s' \<and> k \<notin> E"
    and "did \<Longrightarrow> conclusive c \<Longrightarrow> guarded blocks {k} s'"
    and "did \<Longrightarrow> conclusive c \<Longrightarrow> reply = ReplyOk v \<Longrightarrow> json_transit G v = v \<Longrightarrow> guarded (done_with v) {k} s'"
proof -
  obtain s2 r err where st: "Start G it (fst (hc_now c)) (fst (hc_io c)) s k (hc_tool c) = (s2, r, err)"
    by (metis prod_cases3)
  note S = Start_spec [OF assms(1-5) st assms(7,8)]
  obtain e where e: "mem_map s2 k = Some e" "je_Status e = jStarted" using S(5) by blast
  have keye: "je_Key e = k" using journal_okD(2) [OF S(1)] e(1) map_of_SomeD by fastforce
  note fin = finish_spec [OF S(1) assms(2,3) S(4) e(1) S(2) assms(8) S(3)]
  have knowns: "known_status (e\<lparr>je_Status := jFailed, je_CompletedAt := n, je_Error := m\<rparr>)"
    "known_status (e\<lparr>je_Status := jCompleted, je_CompletedAt := n, je_Result := v, je_Error := []\<rparr>)" for n m v
    by (simp_all add: known_status_def)
  have F: "fst (Fail G it n io s2 k m) = s3 \<Longrightarrow> journal_ok K s3 \<and> guarded P E s3" for n io m s3
    using fin(1,2) [OF _ finish_ops(1) [OF S(4) e(1), where now = n and m = m and io = io and it = it and G = G]] keye knowns by auto
  have A: "fst (Abandon G it io s2 k) = s3 \<Longrightarrow> journal_ok K s3 \<and> guarded P E s3" for io s3
    using fin(1,2) [OF _ finish_ops(3) [OF S(4) e(1), where io = io and it = it and G = G]] by auto
  have C: "Complete G it n io s2 k v = (s3, er) \<Longrightarrow> journal_ok K s3 \<and> guarded P E s3 \<and>
      (\<exists>e'. mem_map s3 k = Some e' \<and> done_with v k e' \<and>
         (disk_map s3 k = disk_map s2 k \<or> disk_map s3 k = Some (transit_entry G e')) \<and>
         (er = None \<longrightarrow> disk_map s3 k = Some (transit_entry G e')))" for n io v s3 er
    using fin [OF _ finish_ops(2) [OF S(4) e(1), where now = n and v = v and io = io and it = it and G = G]] keye knowns by (auto simp: done_with_def)
  have R: "journal_ok K (restart s2)" "guarded P E (restart s2)" by (rule restart_ok [OF S(1,2)])+
  show base: "journal_ok K s' \<and> guarded P E s' \<and> k \<notin> E"
    using assms(6) st S(1-3) F A C R
    by (auto simp: start_and_run_def split: option.splits hout.splits if_splits prod.splits)
  have two: thesis
    if h: "did" "conclusive c"
      and "s' = restart s2 \<Longrightarrow> reply = ReplyNone \<Longrightarrow> disk_map s2 k = Some (transit_entry G e) \<Longrightarrow> thesis"
      and "\<And>w e' er. mem_map s' k = Some e' \<Longrightarrow> done_with w k e' \<Longrightarrow>
        disk_map s' k = Some (transit_entry G e) \<or> disk_map s' k = Some (transit_entry G e') \<Longrightarrow>
        (er = None \<Longrightarrow> disk_map s' k = Some (transit_entry G e')) \<Longrightarrow>
        reply = (case er of None \<Rightarrow> ReplyOk w | Some x \<Rightarrow> ReplyErr x) \<Longrightarrow> thesis" for thesis
  proof -
    have err: "err = None" using h(1) assms(6) st by (auto simp: start_and_run_def split: option.splits)
    then have disk2: "disk_map s2 k = Some (transit_entry G e)" using S(6) e(1) by (simp add: fun_eq_iff)
    consider "s' = restart s2" "reply = ReplyNone"
      | b w er where "hc_out c = HOk b w" "Complete G it (snd (hc_now c)) (snd (hc_io c)) s2 k w = (s', er)"
          "reply = (case er of None \<Rightarrow> ReplyOk w | Some x \<Rightarrow> ReplyErr x)"
      using assms(6) st err h
      by (auto simp: start_and_run_def conclusive_def split: option.splits hout.splits if_splits prod.splits)
    then show thesis
    proof cases
      case 1
      with that(3) disk2 show ?thesis by blast
    next
      case (2 b w er)
      with C [OF 2(2)] disk2 that(4) show ?thesis by metis
    qed
  qed
  have be: "blocks k e" "blocks k (transit_entry G e)" using e(2) transit_blocks by (auto simp: blocks_def)
  show "guarded blocks {k} s'" if "did" "conclusive c"
  proof (rule two [OF that])
    assume "s' = restart s2" "disk_map s2 k = Some (transit_entry G e)"
    then show ?thesis using be by (simp add: guarded_singleton restart_def NewAt_def)
  next
    fix w e'
    assume "mem_map s' k = Some e'" "done_with w k e'"
      "disk_map s' k = Some (transit_entry G e) \<or> disk_map s' k = Some (transit_entry G e')"
    moreover from this(2) have "blocks k e'" by (simp add: blocks_def done_with_def)
    ultimately show ?thesis using be transit_blocks by (auto simp: guarded_singleton)
  qed
  show "guarded (done_with v) {k} s'" if "did" "conclusive c" and rep: "reply = ReplyOk v" and stable: "json_transit G v = v"
  proof (rule two [OF that(1,2)])
    assume "reply = ReplyNone"
    with rep show ?thesis by simp
  next
    fix w e' er
    assume m: "mem_map s' k = Some e'" "done_with w k e'" and d: "er = None \<Longrightarrow> disk_map s' k = Some (transit_entry G e')"
      and r: "reply = (case er of None \<Rightarrow> ReplyOk w | Some x \<Rightarrow> ReplyErr x)"
    from r rep have "er = None" "w = v" by (auto split: option.splits)
    with m d show ?thesis using transit_done [OF stable] by (auto simp: guarded_singleton)
  qed
qed

abbreviation call_key :: "hcall \<Rightarrow> string" where
  "call_key c \<equiv> trim_space (hc_key c)"

lemma load_broken: "loadLocked s = (s', Some e) \<Longrightarrow> s' = s \<and> snd s = JBroken e"
  by (cases s; cases "snd s") (auto simp: loadLocked_def split: if_splits)

lemma Handle_step:
  assumes "journal_ok K s" and "iter_order it" and "keyed c \<longrightarrow> call_key c \<in> K"
    and "Handle G it s c = (s', reply, did)" and "guarded P E s" and "barring G P"
  shows "journal_ok K s' \<and> guarded P E s'"
    and "keyed c \<Longrightarrow> did \<Longrightarrow> call_key c \<notin> E"
    and "keyed c \<Longrightarrow> did \<Longrightarrow> conclusive c \<Longrightarrow> guarded blocks {call_key c} s'"
    and "keyed c \<Longrightarrow> did \<Longrightarrow> conclusive c \<Longrightarrow> reply = ReplyOk v \<Longrightarrow> json_transit G v = v \<Longrightarrow>
      guarded (done_with v) {call_key c} s'"
    and "keyed c \<Longrightarrow> call_key c \<in> E \<Longrightarrow> P = done_with v \<Longrightarrow> snd s = JEntries es \<Longrightarrow> reply = ReplyOk v"
proof -
  let ?k = "call_key c"
  have plain: "\<not> keyed c \<Longrightarrow> s' = s \<or> s' = restart s"
    using assms(4) by (auto simp: Handle_def keyed_def Let_def split: hout.splits)
  have cases: thesis if "keyed c"
    and "s' = s \<Longrightarrow> \<not> did \<Longrightarrow> (\<exists>x. snd s = JBroken x) \<Longrightarrow> thesis"
    and "\<And>e. loadLocked s = (s', None) \<Longrightarrow> \<not> did \<Longrightarrow> mem_map s' ?k = Some e \<Longrightarrow>
      reply = (if je_Status e = jCompleted then ReplyOk (je_Result e) else ReplyDuplicate) \<Longrightarrow> thesis"
    and "\<And>s1. loadLocked s = (s1, None) \<Longrightarrow> \<forall>e. mem_map s1 ?k = Some e \<longrightarrow> je_Status e = jFailed \<Longrightarrow>
      start_and_run G it s1 ?k c = (s', reply, did) \<Longrightarrow> thesis" for thesis
  proof -
    obtain s1 x where l: "loadLocked s = (s1, x)" by fastforce
    show thesis
    proof (cases x)
      case (Some y)
      then have "s1 = s" "snd s = JBroken y" using load_broken l by simp_all
      with Some l that(1,2) assms(4) show ?thesis by (simp add: Handle_def keyed_def Let_def Get_def)
    next
      case None
      have known: "mem_map s1 ?k = Some e \<Longrightarrow> known_status e" for e
        using load_spec(3) [OF assms(1)] l None journal_okD(10) by blast
      show ?thesis
      proof (cases "\<exists>e. mem_map s1 ?k = Some e \<and> je_Status e \<noteq> jFailed")
        case True
        then obtain e where e: "mem_map s1 ?k = Some e" "je_Status e \<noteq> jFailed" by blast
        with known have "je_Status e = jCompleted \<or> je_Status e = jStarted" by (auto simp: known_status_def)
        with e that(1,3) l None assms(4) show ?thesis
          by (fastforce simp: Handle_def keyed_def Let_def Get_def)
      next
        case False
        with that(1,4) l None assms(4) show ?thesis
          by (auto simp: Handle_def keyed_def Let_def Get_def split: option.splits)
      qed
    qed
  qed
  have sar: "journal_ok K s' \<and> guarded P E s' \<and> ?k \<notin> E"
      "did \<Longrightarrow> conclusive c \<Longrightarrow> guarded blocks {?k} s'"
      "did \<Longrightarrow> conclusive c \<Longrightarrow> reply = ReplyOk v \<Longrightarrow> json_transit G v = v \<Longrightarrow> guarded (done_with v) {?k} s'"
    if "keyed c" "loadLocked s = (s1, None)" "\<forall>e. mem_map s1 ?k = Some e \<longrightarrow> je_Status e = jFailed"
      "start_and_run G it s1 ?k c = (s', reply, did)" for s1
    using start_and_run_step [OF load_spec(3) [OF assms(1) that(2)] assms(2) _ load_spec(4) [OF assms(1) that(2)]
        that(3,4) load_guarded [OF assms(1,5) that(2)] assms(6)] assms(3) that(1) by blast+
  show "journal_ok K s' \<and> guarded P E s'"
  proof (cases "keyed c")
    case True
    then show ?thesis
    proof (rule cases)
      assume "s' = s" with assms(1,5) show ?thesis by simp
    next
      assume "loadLocked s = (s', None)"
      with load_spec(3) [OF assms(1)] load_guarded [OF assms(1,5)] show ?thesis by simp
    next
      fix s1 assume "loadLocked s = (s1, None)" "\<forall>e. mem_map s1 ?k = Some e \<longrightarrow> je_Status e = jFailed"
        "start_and_run G it s1 ?k c = (s', reply, did)"
      from sar(1) [OF True this] show ?thesis by simp
    qed
  next
    case False
    then show ?thesis using plain assms(1,5) restart_ok by blast
  qed
  show "call_key c \<notin> E" if "keyed c" "did"
    using that(1) by (rule cases) (use that sar(1) in blast)+
  show "guarded blocks {call_key c} s'" if "keyed c" "did" "conclusive c"
    using that(1) by (rule cases) (use that sar(2) in blast)+
  show "guarded (done_with v) {call_key c} s'"
    if "keyed c" "did" "conclusive c" "reply = ReplyOk v" "json_transit G v = v"
    using that(1) by (rule cases) (use that sar(3) in blast)+
  show "reply = ReplyOk v" if "keyed c" "call_key c \<in> E" "P = done_with v" "snd s = JEntries es"
    using that(1)
  proof (rule cases)
    fix e assume l: "loadLocked s = (s', None)" and e: "mem_map s' ?k = Some e"
      "reply = (if je_Status e = jCompleted then ReplyOk (je_Result e) else ReplyDuplicate)"
    have "kept_in P E (mem_map s')"
      using load_guarded [OF assms(1,5) l] load_spec(4) [OF assms(1) l] by (simp add: guarded_def)
    with that(2,3) e show ?thesis by (auto simp: kept_in_def done_with_def)
  qed (use that sar(1) in auto)
qed

section \<open>Histories\<close>

datatype jop = JCall hcall | JRestart

fun journal_run ::
  "('z) goenv_scheme \<Rightarrow> (jentry list \<Rightarrow> jentry list) \<Rightarrow> jstate \<Rightarrow> jop list \<Rightarrow> (hcall \<times> hreply \<times> bool) list" where
  "journal_run G it s [] = []"
| "journal_run G it s (JRestart # ops) = journal_run G it (restart s) ops"
| "journal_run G it s (JCall c # ops) =
     (case Handle G it s c of (s', reply, did) \<Rightarrow> (c, reply, did) # journal_run G it s' ops)"

lemma guarded_not_executed:
  assumes "iter_order it" and "journal_ok K s" and "guarded blocks E s"
    and "\<forall>c. JCall c \<in> set ops \<and> keyed c \<longrightarrow> call_key c \<in> K"
  shows "\<forall>(c, reply, did) \<in> set (journal_run G it s ops). keyed c \<and> did \<longrightarrow> call_key c \<notin> E"
  using assms(2-4)
proof (induction ops arbitrary: s)
  case (Cons op ops)
  show ?case
  proof (cases op)
    case JRestart
    with Cons restart_ok [OF Cons.prems(1,2)] show ?thesis by simp
  next
    case (JCall c)
    obtain s' reply did where h: "Handle G it s c = (s', reply, did)" by (metis prod_cases3)
    have k: "keyed c \<longrightarrow> call_key c \<in> K" and ops: "\<forall>c. JCall c \<in> set ops \<and> keyed c \<longrightarrow> call_key c \<in> K"
      using Cons.prems(3) JCall by auto
    note H = Handle_step [OF Cons.prems(1) assms(1) k h Cons.prems(2) barring_blocks]
    have "\<forall>(c, reply, did) \<in> set (journal_run G it s' ops). keyed c \<and> did \<longrightarrow> call_key c \<notin> E"
      by (rule Cons.IH [OF _ _ ops]) (use H(1) in auto)
    with H(2) show ?thesis by (auto simp: JCall h)
  qed
qed simp

lemma executions_ordered:
  assumes "iter_order it" and "journal_ok K s"
    and "\<forall>c. JCall c \<in> set ops \<and> keyed c \<longrightarrow> call_key c \<in> K"
  shows "sorted_wrt (\<lambda>(c, _, did) (c', _, did').
    did \<and> did' \<and> keyed c \<and> keyed c' \<and> call_key c' = call_key c \<longrightarrow> \<not> conclusive c) (journal_run G it s ops)"
  using assms(2,3)
proof (induction ops arbitrary: s)
  case (Cons op ops)
  show ?case
  proof (cases op)
    case JRestart
    have "guarded blocks {} s" by (simp add: guarded_def kept_in_def)
    with JRestart Cons restart_ok [OF Cons.prems(1)] show ?thesis by auto
  next
    case (JCall c)
    obtain s' reply did where h: "Handle G it s c = (s', reply, did)" by (metis prod_cases3)
    have k: "keyed c \<longrightarrow> call_key c \<in> K" and ops: "\<forall>c. JCall c \<in> set ops \<and> keyed c \<longrightarrow> call_key c \<in> K"
      using Cons.prems(2) JCall by auto
    have "guarded blocks {} s" by (simp add: guarded_def kept_in_def)
    note H = Handle_step [OF Cons.prems(1) assms(1) k h this barring_blocks]
    have "\<forall>(c', reply, did') \<in> set (journal_run G it s' ops). keyed c' \<and> did' \<longrightarrow> call_key c' \<noteq> call_key c"
      if "did" "keyed c" "conclusive c"
      using guarded_not_executed [OF assms(1) _ H(3) [OF that(2,1,3)] ops] H(1) by fast
    moreover have "sorted_wrt (\<lambda>(c, _, did) (c', _, did').
        did \<and> did' \<and> keyed c \<and> keyed c' \<and> call_key c' = call_key c \<longrightarrow> \<not> conclusive c) (journal_run G it s' ops)"
      using Cons.IH [OF _ ops] H(1) by blast
    ultimately show ?thesis by (auto simp: JCall h)
  qed
qed simp

lemma replays_guarded:
  assumes "iter_order it" and "journal_ok K s" and "guarded (done_with v) {k} s" and "json_transit G v = v"
    and "\<forall>c. JCall c \<in> set ops \<and> keyed c \<longrightarrow> call_key c \<in> K"
  shows "\<forall>(c, reply, did) \<in> set (journal_run G it s ops). keyed c \<and> call_key c = k \<longrightarrow> \<not> did \<and> reply = ReplyOk v"
  using assms(2,3,5)
proof (induction ops arbitrary: s)
  case (Cons op ops)
  show ?case
  proof (cases op)
    case JRestart
    with Cons restart_ok [OF Cons.prems(1,2)] show ?thesis by simp
  next
    case (JCall c)
    obtain s' reply did where h: "Handle G it s c = (s', reply, did)" by (metis prod_cases3)
    have kc: "keyed c \<longrightarrow> call_key c \<in> K" and ops: "\<forall>c. JCall c \<in> set ops \<and> keyed c \<longrightarrow> call_key c \<in> K"
      using Cons.prems(3) JCall by auto
    note H = Handle_step [OF Cons.prems(1) assms(1) kc h Cons.prems(2) barring_done [OF assms(4)]]
    obtain es where "snd s = JEntries es"
      using Cons.prems(2) by (cases "snd s") (auto simp: guarded_singleton disk_entries_def)
    then have "keyed c \<and> call_key c = k \<longrightarrow> \<not> did \<and> reply = ReplyOk v" using H(2) H(5) [OF _ _ refl] by blast
    moreover have "\<forall>(c, reply, did) \<in> set (journal_run G it s' ops). keyed c \<and> call_key c = k \<longrightarrow> \<not> did \<and> reply = ReplyOk v"
      using Cons.IH [OF _ _ ops] H(1) by blast
    ultimately show ?thesis by (simp add: JCall h)
  qed
qed simp

text \<open>
  C2. Re-execution needs a reported error or a provisional answer: start from any consistent
  journal (in memory, on disk, or both), run any sequence of calls and restarts, with any outcome
  of the tool, a crash in the middle of it included, and any outcome of the two file writes of each
  call. While the keys in use fit into the journal, a key is executed a second time only when the
  tool of each earlier execution under it reported an error or answered provisionally (needs an
  approval, is blocked): after a final value or a crash it is not executed again. A tool that acts
  and then reports an error is executed again; whether it has acted is not for the journal to know.
\<close>

theorem Handle_repeats_inconclusive:
  assumes "iter_order it" and "journal_ok K s"
    and "\<forall>c. JCall c \<in> set ops \<and> keyed c \<longrightarrow> call_key c \<in> K"
    and "journal_run G it s ops = before @ (c, reply, True) # between @ (c', reply', True) # after"
    and "keyed c" and "keyed c'" and "call_key c' = call_key c"
  shows "(\<exists>m. hc_out c = HFail m) \<or> (\<exists>is_map v. hc_out c = HOk is_map v \<and> provisional is_map v)"
  using executions_ordered [OF assms(1-3), of G] assms(5-7) unfolding assms(4)
  by (simp add: sorted_wrt_append conclusive_def split: hout.splits)

definition demo_call :: "string \<Rightarrow> hout \<Rightarrow> int \<Rightarrow> hcall" where
  "demo_call k out t = \<lparr>hc_tool = ''git_push'', hc_key = k, hc_out = out, hc_now = (t, t + 1), hc_io = (WOk, WOk)\<rparr>"

definition demo_fresh :: jstate where
  "demo_fresh = (NewAt 2, JMissing)"

lemma demo_fresh_ok: "finite K \<Longrightarrow> card K \<le> 2 \<Longrightarrow> \<forall>k \<in> K. valid_utf8 k \<and> k \<noteq> [] \<Longrightarrow> journal_ok K demo_fresh"
  by (simp add: journal_ok_def demo_fresh_def NewAt_def disk_entries_def)

lemma demo_keys: "valid_utf8 ''k''" "valid_utf8 ''l''" "call_key (demo_call ''k'' x t) = ''k''"
  "call_key (demo_call '' l'' x t) = ''l''" "call_key (demo_call ''l'' x t) = ''l''"
  by (simp_all add: valid_utf8_ascii is_ascii_def demo_call_def, code_simp+)

theorem Handle_repeats_inconclusive_witness:
  "let log = journal_run demo_env id demo_fresh
       [JCall (demo_call '' l'' (HFail ''no'') 1), JCall (demo_call ''k'' HCrash 3), JRestart,
        JCall (demo_call ''l'' (HOk False (JNum 7)) 5), JCall (demo_call ''k'' (HOk False JNull) 7),
        JCall (demo_call ''l'' (HOk False (JNum 8)) 9)] in
   map (snd \<circ> snd) log = [True, True, True, False, False] \<and>
   ((\<exists>m. hc_out (fst (hd log)) = HFail m) \<or>
    (\<exists>is_map v. hc_out (fst (hd log)) = HOk is_map v \<and> provisional is_map v))"
proof -
  let ?c = "demo_call '' l'' (HFail ''no'') 1" and ?d = "demo_call ''k'' HCrash 3"
  let ?c' = "demo_call ''l'' (HOk False (JNum 7)) 5" and ?d' = "demo_call ''k'' (HOk False JNull) 7"
  let ?e = "demo_call ''l'' (HOk False (JNum 8)) 9"
  let ?ops = "[JCall ?c, JCall ?d, JRestart, JCall ?c', JCall ?d', JCall ?e]"
  have log: "journal_run demo_env id demo_fresh ?ops =
      [] @ (?c, ReplyErr ''no'', True) # [(?d, ReplyNone, True)] @ (?c', ReplyOk (JNum 7), True) #
        [(?d', ReplyDuplicate, False), (?e, ReplyOk (JNum 7), False)]"
    by code_simp
  have it: "iter_order id" by (simp add: iter_order_def)
  have ok: "journal_ok {''k'', ''l''} demo_fresh" by (rule demo_fresh_ok) (simp_all add: demo_keys)
  have k: "\<forall>c. JCall c \<in> set ?ops \<and> keyed c \<longrightarrow> call_key c \<in> {''k'', ''l''}" by (auto simp: demo_keys)
  have e: "keyed ?c" "keyed ?c'" "call_key ?c' = call_key ?c" by code_simp+
  show ?thesis using Handle_repeats_inconclusive [OF it ok k log e] unfolding Let_def log by simp
qed

text \<open>
  C38. Replay: once a call under a key has returned a final value that JSON represents faithfully,
  every later call under the key, after restarts too, returns the same value and does not execute,
  while the keys in use fit into the journal (\<open>card K \<le> maxEntries\<close>, in \<open>journal_ok\<close>); a journal
  that overflows evicts entries and executes again (\<open>journal_evicts\<close>).
\<close>

theorem Handle_replays:
  assumes "iter_order it" and "journal_ok K s" and "keyed c" and "conclusive c" and "call_key c \<in> K"
    and "Handle G it s c = (s', ReplyOk v, True)" and "json_transit G v = v"
    and "\<forall>c. JCall c \<in> set ops \<and> keyed c \<longrightarrow> call_key c \<in> K"
  shows "\<forall>(c', reply, did) \<in> set (journal_run G it s' ops).
    keyed c' \<and> call_key c' = call_key c \<longrightarrow> \<not> did \<and> reply = ReplyOk v"
proof -
  have "guarded blocks {} s" by (simp add: guarded_def kept_in_def)
  note H = Handle_step [OF assms(2,1) _ assms(6) this barring_blocks]
  have "journal_ok K s'" "guarded (done_with v) {call_key c} s'"
    using H(1) H(4) [OF _ assms(3) TrueI assms(4) refl assms(7)] assms(5) by simp_all
  then show ?thesis using replays_guarded [OF assms(1) _ _ assms(7,8)] by blast
qed

theorem Handle_replays_witness:
  "let s' = fst (Handle demo_env id demo_fresh (demo_call ''k'' (HOk False (JNum 7)) 1)) in
   \<forall>(c', reply, did) \<in> set (journal_run demo_env id s' [JCall (demo_call '' l'' HCrash 3), JCall (demo_call ''k'' HCrash 5)]).
     keyed c' \<and> call_key c' = ''k'' \<longrightarrow> \<not> did \<and> reply = ReplyOk (JNum 7)"
proof -
  let ?c = "demo_call ''k'' (HOk False (JNum 7)) 1"
  define s' where "s' = fst (Handle demo_env id demo_fresh ?c)"
  have "snd (Handle demo_env id demo_fresh ?c) = (ReplyOk (JNum 7), True)" by code_simp
  then have h: "Handle demo_env id demo_fresh ?c = (s', ReplyOk (JNum 7), True)"
    by (simp add: s'_def prod_eq_iff)
  have ok: "journal_ok {''k'', ''l''} demo_fresh" by (rule demo_fresh_ok) (simp_all add: demo_keys)
  have e: "keyed ?c" "conclusive ?c" "json_transit demo_env (JNum 7) = JNum 7" by code_simp+
  have it: "iter_order id" by (simp add: iter_order_def)
  have k: "call_key ?c \<in> {''k'', ''l''}" by (simp add: demo_keys)
  have "\<forall>c. JCall c \<in> set [JCall (demo_call '' l'' HCrash 3), JCall (demo_call ''k'' HCrash 5)] \<and> keyed c \<longrightarrow>
      call_key c \<in> {''k'', ''l''}" by (auto simp: demo_keys)
  from Handle_replays [OF it ok e(1,2) k h e(3) this] show ?thesis
    by (simp only: demo_keys s'_def Let_def)
qed

text \<open>
  Retention: a flush keeps at most \<open>maxEntries\<close> entries, none of them started before an entry
  it drops, and it drops none while there is room. With a journal of one entry, a second key makes
  the first one executable again.
\<close>

theorem flush_retention:
  assumes "iter_order it" and "0 < jl_maxEntries j"
  shows "int (length (flush_list it j)) \<le> jl_maxEntries j \<and>
    (\<exists>dropped. mset (flush_list it j) + dropped = mset (map snd (jl_entries j)) \<and>
       (\<forall>d \<in># dropped. \<forall>e \<in> set (flush_list it j). je_StartedAt d \<le> je_StartedAt e) \<and>
       (int (length (jl_entries j)) \<le> jl_maxEntries j \<longrightarrow> dropped = {#})) \<and>
    jl_entries (fst (fst (flushLocked G it io (j, f)))) = index_entries [] (flush_list it j)"
proof -
  let ?all = "sort_key (\<lambda>e. - je_StartedAt e) (it (map snd (jl_entries j)))"
  let ?n = "nat (jl_maxEntries j)"
  have m: "mset ?all = mset (map snd (jl_entries j))" using assms(1) by (simp add: iter_order_def)
  then have len: "length ?all = length (jl_entries j)" by (metis length_map size_mset)
  have l: "flush_list it j = take ?n ?all"
    using assms(2) by (auto simp: flush_list_def Let_def)
  have "mset (take ?n ?all) + mset (drop ?n ?all) = mset ?all" by (metis append_take_drop_id mset_append)
  moreover have "je_StartedAt d \<le> je_StartedAt e" if "d \<in> set (drop ?n ?all)" "e \<in> set (take ?n ?all)" for d e
  proof -
    have "sorted (map (\<lambda>e. - je_StartedAt e) (take ?n ?all @ drop ?n ?all))"
      by (simp only: append_take_drop_id sorted_sort_key)
    with that show ?thesis by (fastforce simp: sorted_append simp del: append_take_drop_id)
  qed
  moreover have "drop ?n ?all = []" if "int (length (jl_entries j)) \<le> jl_maxEntries j"
    using that len by simp
  ultimately show ?thesis using l m assms(2)
    by (intro conjI exI [of _ "mset (drop ?n ?all)"]) (auto simp: flushLocked_alt)
qed

definition demo_full :: journal where
  "demo_full = (let e = (\<lambda>k t. (k, \<lparr>je_Key = k, je_Operation = ''git_push'', je_StartedAt = t, je_CompletedAt = 0,
       je_Status = jStarted, je_Result = JNull, je_Error = []\<rparr>)) in
     \<lparr>jl_maxEntries = 1, jl_loaded = True, jl_entries = [e ''k'' 1, e ''l'' 3]\<rparr>)"

theorem flush_retention_witness:
  "int (length (flush_list id demo_full)) \<le> 1 \<and> map je_Key (flush_list id demo_full) = [''l'']"
proof -
  have "iter_order id" "0 < jl_maxEntries demo_full" "jl_maxEntries demo_full = 1"
    by (simp_all add: iter_order_def demo_full_def Let_def)
  then have "int (length (flush_list id demo_full)) \<le> 1" using flush_retention [of id demo_full] by metis
  moreover have "map je_Key (flush_list id demo_full) = [''l'']" by code_simp
  ultimately show ?thesis by blast
qed

lemma journal_evicts:
  "map (\<lambda>(c, _, did). (hc_key c, did)) (journal_run demo_env id (NewAt 1, JMissing)
     [JCall (demo_call ''k'' (HOk False JNull) 1), JCall (demo_call ''l'' (HOk False JNull) 3),
      JCall (demo_call ''k'' (HOk False JNull) 5)]) = [(''k'', True), (''l'', True), (''k'', True)]"
  by code_simp

text \<open>
  After a failed journal write the key is stuck: the call is refused without executing, its
  entry stays in memory as started, and every retry is answered as a duplicate until a restart.
\<close>

theorem Start_lost_write_sticks:
  "let c = (demo_call ''k'' (HOk False JNull) 1)\<lparr>hc_io := (WLost ''disk full'', WOk)\<rparr>;
       log = journal_run demo_env id demo_fresh [JCall c, JCall (demo_call ''k'' (HOk False JNull) 3), JRestart,
               JCall (demo_call ''k'' (HOk False JNull) 5)] in
   map snd log = [(ReplyErr ''disk full'', False), (ReplyDuplicate, False), (ReplyOk JNull, True)]"
  by code_simp

end
