(* ===== verification/GoNum.thy ===== *)
theory GoNum
  imports Prelude "HOL-Library.Log_Nat"
begin

text \<open>
  The number layer of Go that the accounting code uses: \<open>int64\<close> with its wrap-around, and the
  finite non-negative values of \<open>float64\<close> with the rounding of IEEE 754 (to nearest, ties to
  even). A \<open>float64\<close> value is the rational number it stands for. The code divides integers
  between \<open>0\<close> and \<open>2 ^ 63\<close> by integers between \<open>1\<close> and \<open>2 ^ 63\<close>, so no operation overflows,
  is subnormal or gives \<open>NaN\<close>; the exponent is therefore left unbounded.
\<close>

section \<open>int64\<close>

type_synonym i64 = "64 word"

definition i64_max :: int where "i64_max = 2 ^ 63 - 1"

lemma sint_i64_range: "- (2 ^ 63) \<le> sint (a :: i64)" "sint (a :: i64) < 2 ^ 63"
  using sint_ge [of a] sint_lt [of a] by simp_all

lemma sint_of_int_i64: "- (2 ^ 63) \<le> n \<Longrightarrow> n < 2 ^ 63 \<Longrightarrow> sint (of_int n :: i64) = n"
  by (simp add: signed_of_int signed_take_bit_int_eq_self)

lemma sint_add_i64:
  "- (2 ^ 63) \<le> sint a + sint b \<Longrightarrow> sint a + sint b < 2 ^ 63 \<Longrightarrow> sint (a + b :: i64) = sint a + sint b"
  using sint_of_int_i64 [of "sint a + sint b"] by simp

section \<open>float64\<close>

definition round_even :: "rat \<Rightarrow> int" where
  "round_even q =
     (let f = \<lfloor>q\<rfloor>; d = q - of_int f in
      if d < 1 / 2 then f else if 1 / 2 < d then f + 1 else if even f then f else f + 1)"

text \<open>The binary exponent of a positive rational: \<open>2 ^ e \<le> q < 2 ^ (e + 1)\<close>.\<close>

definition two_pow :: "int \<Rightarrow> rat" where
  "two_pow e = (if 0 \<le> e then 2 ^ nat e else 1 / 2 ^ nat (- e))"

definition f64_exp :: "rat \<Rightarrow> int" where
  "f64_exp q = (let (n, d) = quotient_of q; k = bitlen n - bitlen d in
     if two_pow k \<le> q then k else k - 1)"

definition f64_round :: "rat \<Rightarrow> rat" where
  "f64_round q =
     (if q \<le> 0 then 0
      else let u = two_pow (f64_exp q - 52) in of_int (round_even (q / u)) * u)"

definition f64_of_int :: "int \<Rightarrow> rat" where
  "f64_of_int n = f64_round (of_int n)"

definition f64_div :: "rat \<Rightarrow> rat \<Rightarrow> rat" where
  "f64_div a b = f64_round (a / b)"

lemma round_even_of_int [simp]: "round_even (of_int n) = n"
  by (simp add: round_even_def)

lemma round_even_mono: "p \<le> q \<Longrightarrow> round_even p \<le> round_even q"
proof -
  assume pq: "p \<le> q"
  then have fl: "\<lfloor>p\<rfloor> \<le> \<lfloor>q\<rfloor>" by (rule floor_mono)
  have bounds: "\<lfloor>x\<rfloor> \<le> round_even x \<and> round_even x \<le> \<lfloor>x\<rfloor> + 1" for x
    by (simp add: round_even_def Let_def)
  show ?thesis
  proof (cases "\<lfloor>p\<rfloor> = \<lfloor>q\<rfloor>")
    case True
    with pq show ?thesis by (auto simp: round_even_def Let_def)
  next
    case False
    with fl have "\<lfloor>p\<rfloor> + 1 \<le> \<lfloor>q\<rfloor>" by simp
    with bounds [of p] bounds [of q] show ?thesis by linarith
  qed
qed

lemma two_pow_pos [simp]: "0 < two_pow e"
  by (simp add: two_pow_def)

lemma two_pow_nonzero [simp]: "two_pow e \<noteq> 0"
  using two_pow_pos [of e] by linarith

lemma two_pow_powi: "two_pow e = 2 powi e"
proof (cases "0 \<le> e")
  case False
  then show ?thesis by (simp add: two_pow_def power_int_def power_inverse inverse_eq_divide power_divide)
qed (simp add: two_pow_def power_int_def)

lemma two_pow_add: "two_pow (a + b) = two_pow a * two_pow b"
  by (simp add: two_pow_powi power_int_add)

lemma two_pow_mono: "a \<le> b \<Longrightarrow> two_pow a \<le> two_pow b"
  by (simp add: two_pow_powi power_int_increasing)

lemma two_pow_nat [simp]: "two_pow (int n) = 2 ^ n"
  by (simp add: two_pow_def)

lemma bitlen_rat_bounds:
  assumes "0 < n"
  shows "two_pow (bitlen n - 1) \<le> of_int n" and "of_int n < two_pow (bitlen n)"
proof -
  have b: "2 ^ nat (bitlen n - 1) \<le> n" "n < 2 ^ nat (bitlen n)"
    using bitlen_bounds [OF assms] by auto
  have "1 \<le> bitlen n" using assms by (simp add: bitlen_alt_def)
  moreover have "of_int (2 ^ nat (bitlen n - 1)) \<le> (of_int n :: rat)"
    "of_int n < (of_int (2 ^ nat (bitlen n)) :: rat)"
    using b by (simp_all only: of_int_le_iff of_int_less_iff)
  ultimately show "two_pow (bitlen n - 1) \<le> of_int n" "of_int n < two_pow (bitlen n)"
    by (simp_all add: two_pow_def)
qed

lemma f64_exp_bounds:
  assumes "0 < q"
  shows "two_pow (f64_exp q) \<le> q" and "q < two_pow (f64_exp q + 1)"
proof -
  obtain n d where nd: "quotient_of q = (n, d)" by fastforce
  have q: "q = of_int n / of_int d" and d: "0 < d"
    using quotient_of_div [OF nd] quotient_of_denom_pos [OF nd] by simp_all
  have n: "0 < n" using assms d q by (simp add: zero_less_divide_iff)
  let ?k = "bitlen n - bitlen d"
  note bn = bitlen_rat_bounds [OF n] and bd = bitlen_rat_bounds [OF d]
  have "two_pow (?k - 1) * of_int d < two_pow (?k - 1) * two_pow (bitlen d)"
    using bd by (intro mult_strict_left_mono) simp_all
  also have "\<dots> = two_pow (bitlen n - 1)" by (simp add: two_pow_add [symmetric])
  finally have lo: "two_pow (?k - 1) < q" using bn(1) d by (simp add: q field_simps)
  have "of_int n < two_pow (bitlen n)" by (rule bn)
  also have "\<dots> = two_pow (?k + 1) * two_pow (bitlen d - 1)" by (simp add: two_pow_add [symmetric])
  also have "\<dots> \<le> two_pow (?k + 1) * of_int d" using bd by (intro mult_left_mono) (simp_all add: less_imp_le)
  finally have hi: "q < two_pow (?k + 1)" using d by (simp add: q field_simps)
  show "two_pow (f64_exp q) \<le> q" "q < two_pow (f64_exp q + 1)"
    using lo hi by (auto simp: f64_exp_def nd Let_def)
qed

lemma f64_round_bounds:
  assumes "0 < q"
  shows "two_pow (f64_exp q) \<le> f64_round q" and "f64_round q \<le> two_pow (f64_exp q + 1)"
proof -
  let ?u = "two_pow (f64_exp q - 52)"
  have e: "two_pow (f64_exp q) = of_int (2 ^ 52) * ?u" "two_pow (f64_exp q + 1) = of_int (2 ^ 53) * ?u"
    using two_pow_add [of 52 "f64_exp q - 52"] two_pow_add [of 53 "f64_exp q - 52"]
    by (simp_all add: two_pow_def algebra_simps)
  have "of_int (2 ^ 52) \<le> q / ?u" "q / ?u \<le> of_int (2 ^ 53)"
    using f64_exp_bounds [OF assms] unfolding e by (simp_all add: field_simps)
  then have "round_even (of_int (2 ^ 52)) \<le> round_even (q / ?u)" "round_even (q / ?u) \<le> round_even (of_int (2 ^ 53))"
    by (blast intro: round_even_mono)+
  then have "2 ^ 52 \<le> round_even (q / ?u)" "round_even (q / ?u) \<le> 2 ^ 53"
    by (simp_all only: round_even_of_int)
  then have "of_int (2 ^ 52) \<le> (of_int (round_even (q / ?u)) :: rat)"
    "(of_int (round_even (q / ?u)) :: rat) \<le> of_int (2 ^ 53)"
    by (simp_all only: of_int_le_iff)
  then show "two_pow (f64_exp q) \<le> f64_round q" "f64_round q \<le> two_pow (f64_exp q + 1)"
    using assms unfolding e by (simp_all add: f64_round_def Let_def mult_right_mono del: of_int_power of_int_numeral)
qed

lemma f64_round_nonneg: "0 \<le> f64_round q"
proof (cases "0 < q")
  case True
  with f64_round_bounds(1) [OF this] two_pow_pos [of "f64_exp q"] show ?thesis by linarith
qed (simp add: f64_round_def)

lemma f64_round_mono: "p \<le> q \<Longrightarrow> f64_round p \<le> f64_round q"
proof -
  assume pq: "p \<le> q"
  show ?thesis
  proof (cases "0 < p")
    case False
    then have "f64_round p = 0" by (simp add: f64_round_def)
    then show ?thesis by (simp add: f64_round_nonneg)
  next
    case True
    with pq have q: "0 < q" by simp
    note ep = f64_exp_bounds [OF True] and eq = f64_exp_bounds [OF q]
    have "\<not> f64_exp q + 1 \<le> f64_exp p"
      using two_pow_mono [of "f64_exp q + 1" "f64_exp p"] ep(1) eq(2) pq by linarith
    then consider "f64_exp p = f64_exp q" | "f64_exp p + 1 \<le> f64_exp q" by linarith
    then show ?thesis
    proof cases
      case 1
      then show ?thesis using True q pq
        by (simp add: f64_round_def Let_def round_even_mono divide_right_mono less_imp_le mult_right_mono)
    next
      case 2
      then show ?thesis
        using two_pow_mono [OF 2] f64_round_bounds(2) [OF True] f64_round_bounds(1) [OF q] by linarith
    qed
  qed
qed

text \<open>A rational with at most 53 significant bits is a \<open>float64\<close>.\<close>

lemma f64_round_grid:
  assumes "0 < q" and "q / two_pow (f64_exp q - 52) = of_int k"
  shows "f64_round q = q"
proof -
  have "f64_round q = q / two_pow (f64_exp q - 52) * two_pow (f64_exp q - 52)"
    using assms by (simp add: f64_round_def Let_def)
  then show ?thesis using two_pow_pos [of "f64_exp q - 52"] by simp
qed

lemma f64_round_exact:
  assumes "q = of_int m * two_pow e" and "\<bar>m\<bar> \<le> 2 ^ 53" and "0 \<le> q"
  shows "f64_round q = q"
proof (cases "q = 0")
  case True
  then show ?thesis by (simp add: f64_round_def)
next
  case False
  with assms(3) have q: "0 < q" by simp
  then have m: "0 < m" using assms(1) two_pow_pos [of e] by (simp add: zero_less_mult_iff not_less_iff_gr_or_eq)
  have "q \<le> of_int (2 ^ 53) * two_pow e"
    unfolding assms(1) using assms(2) m by (intro mult_right_mono) (simp_all only: of_int_le_iff, simp_all add: less_imp_le)
  then have "q \<le> two_pow (53 + e)" by (simp add: two_pow_add) (simp add: two_pow_def)
  then have "f64_exp q \<le> 53 + e"
    using f64_exp_bounds(1) [OF q] two_pow_mono [of "53 + e + 1" "f64_exp q"]
    two_pow_add [of "53 + e" 1] two_pow_pos [of "53 + e"] by (force simp: two_pow_def)
  show ?thesis
  proof (cases "f64_exp q = 53 + e")
    case True
    have "q = two_pow (53 + e)" using f64_exp_bounds(1) [OF q] \<open>q \<le> two_pow (53 + e)\<close> True by simp
    moreover have "two_pow (53 + e) / two_pow (f64_exp q - 52) = of_int (2 ^ 52)"
      using True two_pow_add [of 52 "1 + e"] two_pow_pos [of "1 + e"] by (simp add: two_pow_def)
    ultimately show ?thesis using f64_round_grid [OF q] by metis
  next
    case False
    then have "0 \<le> 52 + e - f64_exp q" using \<open>f64_exp q \<le> 53 + e\<close> by simp
    then obtain j where j: "52 + e - f64_exp q = int j" using nonneg_int_cases by blast
    then have "e = int j + (f64_exp q - 52)" by simp
    then have "two_pow e = 2 ^ j * two_pow (f64_exp q - 52)" by (metis two_pow_add two_pow_nat)
    then have "two_pow e / two_pow (f64_exp q - 52) = of_int (2 ^ j)"
      using two_pow_pos [of "f64_exp q - 52"] by simp
    then have "of_int m * (two_pow e / two_pow (f64_exp q - 52)) = of_int (m * 2 ^ j)" by simp
    then have "q / two_pow (f64_exp q - 52) = of_int (m * 2 ^ j)" using assms(1) by (metis times_divide_eq_right)
    then show ?thesis by (rule f64_round_grid [OF q])
  qed
qed

lemma f64_of_int_exact: "0 \<le> n \<Longrightarrow> n \<le> 2 ^ 53 \<Longrightarrow> f64_of_int n = of_int n"
  unfolding f64_of_int_def by (rule f64_round_exact [where m = n and e = 0]) (simp_all add: two_pow_def)

lemma f64_round_1: "f64_round 1 = 1"
  using f64_of_int_exact [of 1] by (simp add: f64_of_int_def)

text \<open>The quotient of integers compares with 1 as the integers do, as long as both are exact.\<close>

lemma f64_ratio_ge_1:
  assumes "0 < l" and "l \<le> v"
  shows "1 \<le> f64_div (f64_of_int v) (f64_of_int l)"
proof -
  have "f64_of_int 1 \<le> f64_of_int l" unfolding f64_of_int_def using assms by (intro f64_round_mono) simp
  then have l: "1 \<le> f64_of_int l" using f64_of_int_exact [of 1] by simp
  have "f64_of_int l \<le> f64_of_int v" unfolding f64_of_int_def using assms by (intro f64_round_mono) simp
  with l have "1 \<le> f64_of_int v / f64_of_int l" by simp
  then show ?thesis unfolding f64_div_def using f64_round_mono f64_round_1 by metis
qed

lemma f64_ratio_less_1:
  assumes "0 \<le> v" and "v < l" and "l \<le> 2 ^ 53"
  shows "f64_div (f64_of_int v) (f64_of_int l) < 1"
proof -
  have ex: "f64_of_int v = of_int v" "f64_of_int l = of_int l" using assms by (simp_all add: f64_of_int_exact)
  have "(of_int v :: rat) \<le> of_int (l - 1)" using assms by (simp only: of_int_le_iff)
  then have "of_int v / of_int l \<le> (1 - 1 / of_int l :: rat)" using assms by (simp add: field_simps)
  also have "\<dots> \<le> 1 - 1 / 2 ^ 53"
  proof -
    have "(of_int l :: rat) \<le> of_int (2 ^ 53)" using assms(3) by (simp only: of_int_le_iff)
    then show ?thesis using assms by (simp add: field_simps)
  qed
  finally have "f64_round (of_int v / of_int l) \<le> f64_round (1 - 1 / 2 ^ 53)" by (rule f64_round_mono)
  also have "\<dots> = 1 - 1 / 2 ^ 53"
    by (rule f64_round_exact [where m = "2 ^ 53 - 1" and e = "- 53"]) (simp_all add: two_pow_def)
  also have "\<dots> < 1" by simp
  finally show ?thesis by (simp add: f64_div_def ex)
qed

end
