(* ===== verification/Fallback.thy ===== *)
theory Fallback
  imports EventLog GoNum
begin

text \<open>
  Engine fallback (\<open>internal/agentruntime/fallback.go\<close>) and the rollout flags
  (\<open>internal/featureflag/flag.go\<close>). A fallback never retries by itself: \<open>NextFallback\<close> decides,
  the caller persists the decision, \<open>ApplyFallbackDecision\<close> moves the state. Times and durations
  are integers (nanoseconds), the switch counter is an unbounded integer, and a \<open>nil\<close> cooldown map
  is the empty list.
\<close>

section \<open>Decisions\<close>

definition fallback_causes :: "string list" where
  "fallback_causes = [''rate_limit'', ''quota'', ''auth'', ''transient'', ''context_overflow'', ''unavailable'']"

record engineTarget =
  et_EngineID :: string
  et_ModelID :: string

record fallbackPolicy =
  fp_Primary :: engineTarget
  fp_Chain :: "engineTarget list"
  fp_MaxSwitches :: int
  fp_Cooldown :: int

record fallbackState =
  fs_Current :: engineTarget
  fs_Switches :: int
  fs_CooldownUntil :: "(string \<times> gotime) list"

record fallbackDecision =
  fd_Switch :: bool
  fd_Target :: engineTarget
  fd_Reason :: string
  fd_PersistEvent :: bool
  fd_Exhausted :: bool

definition zero_target :: engineTarget where
  "zero_target = \<lparr>et_EngineID = [], et_ModelID = []\<rparr>"

definition target_key :: "('z) goenv_scheme \<Rightarrow> engineTarget \<Rightarrow> string" where
  "target_key G t = to_lower G (trim_space (et_EngineID t)) @ [char_of (0 :: nat)] @ to_lower G (trim_space (et_ModelID t))"

definition fallbackEligible :: "string \<Rightarrow> bool" where
  "fallbackEligible cause \<longleftrightarrow> cause \<in> set fallback_causes"

definition normalizeTarget :: "('z) goenv_scheme \<Rightarrow> engineTarget \<Rightarrow> engineTarget" where
  "normalizeTarget G t = t\<lparr>et_EngineID := to_lower G (trim_space (et_EngineID t)), et_ModelID := trim_space (et_ModelID t)\<rparr>"

definition no_switch :: "string \<Rightarrow> bool \<Rightarrow> fallbackDecision" where
  "no_switch cause exhausted = \<lparr>fd_Switch = False, fd_Target = zero_target, fd_Reason = cause,
     fd_PersistEvent = False, fd_Exhausted = exhausted\<rparr>"

text \<open>The first index at which a predicate holds, \<open>-1\<close> when it holds nowhere.\<close>

fun index_from :: "int \<Rightarrow> ('a \<Rightarrow> bool) \<Rightarrow> 'a list \<Rightarrow> int" where
  "index_from i P [] = -1"
| "index_from i P (x # xs) = (if P x then i else index_from (i + 1) P xs)"

definition fallback_candidates :: "('z) goenv_scheme \<Rightarrow> fallbackPolicy \<Rightarrow> engineTarget list" where
  "fallback_candidates G p = normalizeTarget G (fp_Primary p) # map (normalizeTarget G) (fp_Chain p)"

definition fallback_current :: "('z) goenv_scheme \<Rightarrow> fallbackPolicy \<Rightarrow> fallbackState \<Rightarrow> engineTarget" where
  "fallback_current G p s =
     (let c = normalizeTarget G (fs_Current s) in
      if et_EngineID c = [] then normalizeTarget G (fp_Primary p) else c)"

text \<open>The loop \<open>for offset := 1; offset <= len(candidates); offset++\<close>.\<close>

fun fallback_scan ::
  "('z) goenv_scheme \<Rightarrow> engineTarget list \<Rightarrow> int \<Rightarrow> string \<Rightarrow> (string \<times> gotime) list \<Rightarrow> gotime
     \<Rightarrow> nat list \<Rightarrow> engineTarget option" where
  "fallback_scan G cs ci cur cool now [] = None"
| "fallback_scan G cs ci cur cool now (off # offs) =
     (let c = cs ! nat ((ci + int off) mod int (length cs)) in
      if et_EngineID c = [] \<or> target_key G c = cur then fallback_scan G cs ci cur cool now offs
      else if (case map_of cool (target_key G c) of None \<Rightarrow> 0 | Some t \<Rightarrow> t) > now
      then fallback_scan G cs ci cur cool now offs
      else Some c)"

definition max_switches :: "fallbackPolicy \<Rightarrow> int" where
  "max_switches p = (if fp_MaxSwitches p \<le> 0 then 2 else fp_MaxSwitches p)"

definition NextFallback ::
  "('z) goenv_scheme \<Rightarrow> fallbackPolicy \<Rightarrow> fallbackState \<Rightarrow> string \<Rightarrow> gotime \<Rightarrow> fallbackDecision" where
  "NextFallback G p s cause now =
     (if \<not> fallbackEligible cause then no_switch cause False
      else if fs_Switches s \<ge> max_switches p then no_switch cause True
      else
        (let cs = fallback_candidates G p;
             cur = target_key G (fallback_current G p s);
             ci = index_from 0 (\<lambda>c. target_key G c = cur) cs in
         case fallback_scan G cs ci cur (fs_CooldownUntil s) now [1..<Suc (length cs)] of
           Some c \<Rightarrow> \<lparr>fd_Switch = True, fd_Target = c, fd_Reason = cause, fd_PersistEvent = True, fd_Exhausted = False\<rparr>
         | None \<Rightarrow> no_switch cause True))"

definition ApplyFallbackDecision ::
  "('z) goenv_scheme \<Rightarrow> fallbackState \<Rightarrow> fallbackDecision \<Rightarrow> int \<Rightarrow> gotime \<Rightarrow> fallbackState" where
  "ApplyFallbackDecision G s d cooldown now =
     (if \<not> fd_Switch d then s
      else
        (let cd = (if cooldown \<le> 0 then 30 * second_ns else cooldown);
             cool = (if et_EngineID (fs_Current s) \<noteq> []
                     then AList.update (target_key G (normalizeTarget G (fs_Current s))) (now + cd) (fs_CooldownUntil s)
                     else fs_CooldownUntil s) in
         s\<lparr>fs_CooldownUntil := cool, fs_Current := normalizeTarget G (fd_Target d), fs_Switches := fs_Switches s + 1\<rparr>))"

section \<open>Rollout flags\<close>

definition Known :: "string list" where
  "Known = [''agent_runtime_v2'', ''context_surface_v2'', ''runtime_events_v2'', ''worktree_v2'',
     ''patch_engine_v2'', ''policy_kernel_v2'', ''tool_program_runtime'', ''failure_intelligence'',
     ''ecosystem_assimilation'']"

text \<open>\<open>up\<close> is the Unicode upper-case table, \<open>getenv\<close> the environment (empty when unset).\<close>

definition envName :: "(string \<Rightarrow> string) \<Rightarrow> string \<Rightarrow> string" where
  "envName up name = ''CODELOCAL_FEATURE_'' @ to_upper up (trim_space name)"

definition FlagEnabled ::
  "('z) goenv_scheme \<Rightarrow> (string \<Rightarrow> string) \<Rightarrow> (string \<Rightarrow> string) \<Rightarrow> string \<Rightarrow> bool" where
  "FlagEnabled G up getenv name0 =
     (let name = trim_space name0 in
      if name = [] then False
      else if name \<notin> set Known then False
      else to_lower G (trim_space (getenv (envName up name))) \<in> {''1'', ''true'', ''yes'', ''on''})"

definition FlagSnapshot ::
  "('z) goenv_scheme \<Rightarrow> (string \<Rightarrow> string) \<Rightarrow> (string \<Rightarrow> string) \<Rightarrow> (string \<times> bool) list" where
  "FlagSnapshot G up getenv = map (\<lambda>n. (n, FlagEnabled G up getenv n)) Known"

section \<open>The scan\<close>

text \<open>A candidate the fallback may switch to.\<close>

definition usable :: "('z) goenv_scheme \<Rightarrow> fallbackPolicy \<Rightarrow> fallbackState \<Rightarrow> gotime \<Rightarrow> engineTarget \<Rightarrow> bool" where
  "usable G p s now c \<longleftrightarrow> et_EngineID c \<noteq> [] \<and> target_key G c \<noteq> target_key G (fallback_current G p s) \<and>
     (case map_of (fs_CooldownUntil s) (target_key G c) of None \<Rightarrow> 0 | Some t \<Rightarrow> t) \<le> now"

text \<open>The candidates from the one after index \<open>i\<close> on, cyclically.\<close>

definition rotation :: "int \<Rightarrow> 'a list \<Rightarrow> 'a list" where
  "rotation i xs = map (\<lambda>off. xs ! nat ((i + int off) mod int (length xs))) [1..<Suc (length xs)]"

lemma scan_find:
  "cs \<noteq> [] \<Longrightarrow> fallback_scan G cs ci (target_key G (fallback_current G p s)) (fs_CooldownUntil s) now offs
     = find (usable G p s now) (map (\<lambda>off. cs ! nat ((ci + int off) mod int (length cs))) offs)"
  by (induction offs) (auto simp: Let_def usable_def)

lemma set_rotation: "set (rotation i xs) = set xs"
proof (cases "xs = []")
  case False
  let ?n = "int (length xs)"
  have n: "0 < ?n" using False by simp
  have "nat ((i + int off) mod ?n) < length xs" for off
    using n by (simp add: nat_less_iff)
  then have "set (rotation i xs) \<subseteq> set xs" by (auto simp: rotation_def simp del: upt_Suc)
  moreover have "x \<in> set (rotation i xs)" if h: "x \<in> set xs" for x
  proof -
    obtain k where k: "k < length xs" "xs ! k = x" using h by (metis in_set_conv_nth)
    define off where "off = nat ((int k - i - 1) mod ?n) + 1"
    have m: "0 \<le> (int k - i - 1) mod ?n" "(int k - i - 1) mod ?n < ?n" using n by simp_all
    have "off \<in> set [1..<Suc (length xs)]" using m by (auto simp: off_def)
    moreover have "(i + int off) mod ?n = int k"
    proof -
      have "(i + int off) mod ?n = (i + 1 + (int k - i - 1) mod ?n) mod ?n" using m by (simp add: off_def add.assoc)
      also have "\<dots> = (i + 1 + (int k - i - 1)) mod ?n" by (rule mod_add_right_eq)
      finally show ?thesis using k by simp
    qed
    ultimately show ?thesis using k unfolding rotation_def by force
  qed
  ultimately show ?thesis by blast
qed (simp add: rotation_def)

lemma NextFallback_eq:
  "NextFallback G p s cause now =
     (if \<not> fallbackEligible cause then no_switch cause False
      else if fs_Switches s \<ge> max_switches p then no_switch cause True
      else case find (usable G p s now)
          (rotation (index_from 0 (\<lambda>c. target_key G c = target_key G (fallback_current G p s)) (fallback_candidates G p))
             (fallback_candidates G p)) of
        Some c \<Rightarrow> \<lparr>fd_Switch = True, fd_Target = c, fd_Reason = cause, fd_PersistEvent = True, fd_Exhausted = False\<rparr>
      | None \<Rightarrow> no_switch cause True)"
proof -
  have ne: "fallback_candidates G p \<noteq> []" by (simp add: fallback_candidates_def)
  show ?thesis
    unfolding NextFallback_def Let_def scan_find [OF ne] rotation_def ..
qed

text \<open>
  C26. The decision is sound and complete: for an eligible cause a switch is proposed exactly when
  the switch limit is not reached and some configured engine is usable (named, different from the
  current one, not cooling down); the proposal is the first usable engine in the cyclic order after
  the current one. Otherwise the chain is reported exhausted, and a cause that is not eligible
  proposes nothing.
\<close>

theorem NextFallback_exact:
  "let d = NextFallback G p s cause now; cs = fallback_candidates G p;
       ci = index_from 0 (\<lambda>c. target_key G c = target_key G (fallback_current G p s)) cs;
       open_chain = (fallbackEligible cause \<and> fs_Switches s < max_switches p) in
   fd_Reason d = cause \<and>
   (fd_Switch d \<longleftrightarrow> open_chain \<and> (\<exists>c \<in> set cs. usable G p s now c)) \<and>
   (fd_Switch d \<longrightarrow> fd_Target d \<in> set cs \<and> usable G p s now (fd_Target d) \<and> fd_PersistEvent d \<and>
      find (usable G p s now) (rotation ci cs) = Some (fd_Target d)) \<and>
   (fd_Exhausted d \<longleftrightarrow> fallbackEligible cause \<and> \<not> fd_Switch d)"
proof -
  define cs where "cs = fallback_candidates G p"
  define r where "r = rotation (index_from 0 (\<lambda>c. target_key G c = target_key G (fallback_current G p s)) cs) cs"
  have r: "set r = set cs" by (simp add: r_def set_rotation)
  have d: "NextFallback G p s cause now =
     (if \<not> fallbackEligible cause then no_switch cause False
      else if fs_Switches s \<ge> max_switches p then no_switch cause True
      else case find (usable G p s now) r of
        Some c \<Rightarrow> \<lparr>fd_Switch = True, fd_Target = c, fd_Reason = cause, fd_PersistEvent = True, fd_Exhausted = False\<rparr>
      | None \<Rightarrow> no_switch cause True)"
    unfolding NextFallback_eq r_def cs_def ..
  show ?thesis
    unfolding Let_def cs_def [symmetric] r_def [symmetric] d
    using r by (auto simp: no_switch_def find_None_iff find_Some_iff split: option.splits)
qed

definition demo_target :: "string \<Rightarrow> engineTarget" where
  "demo_target e = \<lparr>et_EngineID = e, et_ModelID = []\<rparr>"

definition demo_policy :: fallbackPolicy where
  "demo_policy = \<lparr>fp_Primary = demo_target ''Alpha'', fp_Chain = [demo_target ''beta''], fp_MaxSwitches = 9, fp_Cooldown = 0\<rparr>"

definition demo_fstate :: "string \<Rightarrow> fallbackState" where
  "demo_fstate e = \<lparr>fs_Current = demo_target e, fs_Switches = 0, fs_CooldownUntil = []\<rparr>"

theorem NextFallback_exact_witness:
  "let d = NextFallback demo_env demo_policy (demo_fstate ''alpha'') ''quota'' 5 in
   fd_Switch d \<and> usable demo_env demo_policy (demo_fstate ''alpha'') 5 (fd_Target d)"
proof -
  have "fd_Switch (NextFallback demo_env demo_policy (demo_fstate ''alpha'') ''quota'' 5)" by code_simp
  with NextFallback_exact [of demo_env demo_policy "demo_fstate ''alpha''" "''quota''" 5]
  show ?thesis unfolding Let_def by blast
qed

section \<open>Histories of one task\<close>

text \<open>Each failure asks for a decision and applies it.\<close>

fun fallback_run ::
  "('z) goenv_scheme \<Rightarrow> fallbackPolicy \<Rightarrow> int \<Rightarrow> fallbackState \<Rightarrow> (string \<times> gotime) list \<Rightarrow> fallbackState \<times> fallbackDecision list" where
  "fallback_run G p cd s [] = (s, [])"
| "fallback_run G p cd s ((cause, now) # fs) =
     (let d = NextFallback G p s cause now;
          (s', ds) = fallback_run G p cd (ApplyFallbackDecision G s d cd now) fs in (s', d # ds))"

lemma Apply_switches:
  "fs_Switches (ApplyFallbackDecision G s d cd now) = fs_Switches s + (if fd_Switch d then 1 else 0)"
  by (simp add: ApplyFallbackDecision_def Let_def)

lemma NextFallback_switch:
  assumes "fd_Switch (NextFallback G p s cause now)"
  shows "fs_Switches s < max_switches p" and "usable G p s now (fd_Target (NextFallback G p s cause now))"
proof -
  have sat: "find P xs = Some c \<Longrightarrow> P c" for P xs and c :: engineTarget
    by (induction xs) (auto split: if_splits)
  show "fs_Switches s < max_switches p" "usable G p s now (fd_Target (NextFallback G p s cause now))"
    using assms sat by (auto simp: NextFallback_eq no_switch_def split: if_splits option.splits)
qed

text \<open>
  A task switches engines at most \<open>MaxSwitches\<close> times (2 when unset), whatever fails and whenever.
\<close>

theorem fallback_bounded:
  "int (length (filter fd_Switch (snd (fallback_run G p cd s fs)))) \<le> max 0 (max_switches p - fs_Switches s)"
proof (induction fs arbitrary: s)
  case (Cons f fs)
  obtain cause now where f: "f = (cause, now)" by fastforce
  define d where "d = NextFallback G p s cause now"
  define s1 where "s1 = ApplyFallbackDecision G s d cd now"
  have r: "snd (fallback_run G p cd s (f # fs)) = d # snd (fallback_run G p cd s1 fs)"
    by (simp add: f d_def s1_def Let_def split: prod.splits)
  have "fs_Switches s1 = fs_Switches s + (if fd_Switch d then 1 else 0)"
    by (simp add: s1_def Apply_switches)
  moreover have "fd_Switch d \<Longrightarrow> fs_Switches s < max_switches p"
    using NextFallback_switch(1) by (simp add: d_def)
  ultimately show ?case using Cons.IH [of s1] unfolding r by (auto simp: max_def split: if_splits)
qed simp

definition cooldown_of :: "int \<Rightarrow> int" where
  "cooldown_of cd = (if cd \<le> 0 then 30 * second_ns else cd)"

lemma cooling_run:
  assumes "map_of (fs_CooldownUntil s) k = Some u" and "u0 \<le> u"
    and "\<forall>(cause, now) \<in> set fs. u0 \<le> now + cooldown_of cd"
  shows "list_all2 (\<lambda>(cause, now) d. fd_Switch d \<and> target_key G (fd_Target d) = k \<longrightarrow> u0 \<le> now)
    fs (snd (fallback_run G p cd s fs))"
  using assms
proof (induction fs arbitrary: s u)
  case (Cons f fs)
  obtain cause now where f: "f = (cause, now)" by fastforce
  define d where "d = NextFallback G p s cause now"
  define s1 where "s1 = ApplyFallbackDecision G s d cd now"
  have r: "snd (fallback_run G p cd s (f # fs)) = d # snd (fallback_run G p cd s1 fs)"
    by (simp add: f d_def s1_def Let_def split: prod.splits)
  have "u0 \<le> now" if "fd_Switch d" "target_key G (fd_Target d) = k"
    using NextFallback_switch(2) [of G p s cause now] that Cons.prems(1,2) by (simp add: d_def usable_def)
  moreover have "\<exists>u'. map_of (fs_CooldownUntil s1) k = Some u' \<and> u0 \<le> u'"
    using Cons.prems f by (auto simp: s1_def ApplyFallbackDecision_def Let_def cooldown_of_def)
  then have "list_all2 (\<lambda>(cause, now) d. fd_Switch d \<and> target_key G (fd_Target d) = k \<longrightarrow> u0 \<le> now)
      fs (snd (fallback_run G p cd s1 fs))"
    using Cons.IH Cons.prems(3) by auto
  ultimately show ?case unfolding r by (simp add: f)
qed simp

text \<open>
  Cooldown: when a switch leaves a named engine at time \<open>t\<close>, no later decision returns to it
  before \<open>t\<close> plus the cooldown, as long as the clock does not run backwards.
\<close>

theorem fallback_cooldown:
  assumes "fd_Switch (NextFallback G p s cause t)" and "et_EngineID (fs_Current s) \<noteq> []"
    and "\<forall>(c, now) \<in> set fs. t \<le> now"
    and "s1 = ApplyFallbackDecision G s (NextFallback G p s cause t) cd t"
  shows "list_all2 (\<lambda>(c, now) d. fd_Switch d \<and>
      target_key G (fd_Target d) = target_key G (normalizeTarget G (fs_Current s)) \<longrightarrow> t + cooldown_of cd \<le> now)
    fs (snd (fallback_run G p cd s1 fs))"
proof (rule cooling_run)
  show "map_of (fs_CooldownUntil s1) (target_key G (normalizeTarget G (fs_Current s))) = Some (t + cooldown_of cd)"
    using assms(1,2) by (simp add: assms(4) ApplyFallbackDecision_def Let_def cooldown_of_def)
  show "\<forall>(c, now) \<in> set fs. t + cooldown_of cd \<le> now + cooldown_of cd" using assms(3) by auto
qed simp

theorem fallback_cooldown_witness:
  "list_all2 (\<lambda>(c, now) d. fd_Switch d \<and>
      target_key demo_env (fd_Target d) = target_key demo_env (normalizeTarget demo_env (demo_target ''alpha'')) \<longrightarrow>
      5 + cooldown_of 10 \<le> now)
    [(''quota'', 6), (''auth'', 20)]
    (snd (fallback_run demo_env demo_policy 10
       (ApplyFallbackDecision demo_env (demo_fstate ''alpha'')
          (NextFallback demo_env demo_policy (demo_fstate ''alpha'') ''quota'' 5) 10 5) [(''quota'', 6), (''auth'', 20)]))"
proof -
  have "fd_Switch (NextFallback demo_env demo_policy (demo_fstate ''alpha'') ''quota'' 5)" by code_simp
  moreover have "fs_Current (demo_fstate ''alpha'') = demo_target ''alpha''" "et_EngineID (demo_target ''alpha'') \<noteq> []"
    by (simp_all add: demo_fstate_def demo_target_def)
  ultimately show ?thesis
    using fallback_cooldown [of demo_env demo_policy "demo_fstate ''alpha''" "''quota''" 5 "[(''quota'', 6), (''auth'', 20)]" _ 10]
    by simp
qed

text \<open>
  The cooldown has a hole: a state that does not name its current engine stands for the primary
  when the next engine is chosen, but the primary is not put on cooldown when it is left. Leaving
  it after a quota error, the task returns to it one nanosecond later; with the engine named the
  chain is exhausted.
\<close>

theorem fallback_implicit_primary:
  "map (\<lambda>d. (fd_Switch d, et_EngineID (fd_Target d)))
     (snd (fallback_run demo_env demo_policy 10 (demo_fstate []) [(''quota'', 5), (''transient'', 6)]))
     = [(True, ''beta''), (True, ''alpha'')] \<and>
   map (\<lambda>d. (fd_Switch d, et_EngineID (fd_Target d)))
     (snd (fallback_run demo_env demo_policy 10 (demo_fstate ''alpha'') [(''quota'', 5), (''transient'', 6)]))
     = [(True, ''beta''), (False, [])]"
  by code_simp

text \<open>
  Rollout flags fail closed: a flag is on only if its trimmed name is one of the known flags and
  its own environment variable says \<open>1\<close>, \<open>true\<close>, \<open>yes\<close> or \<open>on\<close>; the snapshot lists every known flag
  once with this value.
\<close>

theorem flags_fail_closed:
  "(FlagEnabled G up getenv name \<longleftrightarrow> trim_space name \<in> set Known \<and>
      to_lower G (trim_space (getenv (''CODELOCAL_FEATURE_'' @ map ascii_upper (trim_space name)))) \<in> {''1'', ''true'', ''yes'', ''on''}) \<and>
   \<not> FlagEnabled G up (\<lambda>_. []) name \<and>
   map fst (FlagSnapshot G up getenv) = Known \<and> distinct Known"
proof -
  have ascii: "is_ascii n \<and> n \<noteq> []" if "n \<in> set Known" for n
    using that by (auto simp: Known_def is_ascii_def)
  have e: "FlagEnabled G up env name \<longleftrightarrow> trim_space name \<in> set Known \<and>
      to_lower G (trim_space (env (''CODELOCAL_FEATURE_'' @ map ascii_upper (trim_space name)))) \<in> {''1'', ''true'', ''yes'', ''on''}" for env
    using ascii [of "trim_space name"] by (auto simp: FlagEnabled_def Let_def envName_def to_upper_def)
  have "to_lower G [] = []" by (simp add: to_lower_def is_ascii_def)
  then have "\<not> FlagEnabled G up (\<lambda>_. []) name" unfolding e by simp
  moreover have "distinct Known" by (simp add: Known_def)
  moreover have "map fst (FlagSnapshot G up getenv) = Known" by (simp add: FlagSnapshot_def o_def)
  ultimately show ?thesis using e [of getenv] by blast
qed

end
