(* ===== verification/Usage.thy ===== *)
theory Usage
  imports GoNum "HOL-Library.Multiset"
begin

text \<open>
  Token and cost accounting with admission control (\<open>internal/usage\<close>): the usage record and its
  aggregation (\<open>governor.go\<close>), the budget decision with its \<open>float64\<close> ratios, and the ledger of
  reservations (\<open>reservations.go\<close>). Every counter is an \<open>int64\<close> and wraps. The map of
  reservations is an association list; its order is one iteration order of the Go runtime. The
  argument \<open>up\<close> is the Unicode upper-case table. A \<open>nil\<close> ledger answers like an empty id and is
  not modelled.
\<close>

section \<open>Usage records\<close>

record tokenBreakdown =
  tb_System :: i64
  tb_Brain :: i64
  tb_Code :: i64
  tb_Tool :: i64
  tb_History :: i64
  tb_Output :: i64
  tb_CachedInput :: i64

record taskUsage =
  tu_TaskID :: string
  tu_AgentID :: string
  tu_ActivationID :: string
  tu_EngineID :: string
  tu_ModelID :: string
  tu_Tokens :: tokenBreakdown
  tu_CostMicros :: i64
  tu_Currency :: string
  tu_ModelCalls :: i64
  tu_ToolCalls :: i64
  tu_Estimated :: bool

definition zero_tokens :: tokenBreakdown where
  "zero_tokens = \<lparr>tb_System = 0, tb_Brain = 0, tb_Code = 0, tb_Tool = 0, tb_History = 0,
     tb_Output = 0, tb_CachedInput = 0\<rparr>"

definition zero_usage :: taskUsage where
  "zero_usage = \<lparr>tu_TaskID = [], tu_AgentID = [], tu_ActivationID = [], tu_EngineID = [],
     tu_ModelID = [], tu_Tokens = zero_tokens, tu_CostMicros = 0, tu_Currency = [],
     tu_ModelCalls = 0, tu_ToolCalls = 0, tu_Estimated = False\<rparr>"

definition nonNegative :: "i64 \<Rightarrow> i64" where
  "nonNegative v = (if sint v < 0 then 0 else v)"

definition Input :: "tokenBreakdown \<Rightarrow> i64" where
  "Input b = nonNegative (tb_System b) + nonNegative (tb_Brain b) + nonNegative (tb_Code b)
     + nonNegative (tb_Tool b) + nonNegative (tb_History b)"

definition Total :: "tokenBreakdown \<Rightarrow> i64" where
  "Total b = Input b + nonNegative (tb_Output b)"

definition norm_tokens :: "tokenBreakdown \<Rightarrow> tokenBreakdown" where
  "norm_tokens t = \<lparr>tb_System = nonNegative (tb_System t), tb_Brain = nonNegative (tb_Brain t),
     tb_Code = nonNegative (tb_Code t), tb_Tool = nonNegative (tb_Tool t),
     tb_History = nonNegative (tb_History t), tb_Output = nonNegative (tb_Output t),
     tb_CachedInput = nonNegative (tb_CachedInput t)\<rparr>"

definition Normalize :: "(string \<Rightarrow> string) \<Rightarrow> taskUsage \<Rightarrow> taskUsage" where
  "Normalize up u =
     (let cur = to_upper up (trim_space (tu_Currency u)) in
      \<lparr>tu_TaskID = trim_space (tu_TaskID u),
       tu_AgentID = trim_space (tu_AgentID u),
       tu_ActivationID = trim_space (tu_ActivationID u),
       tu_EngineID = trim_space (tu_EngineID u),
       tu_ModelID = trim_space (tu_ModelID u),
       tu_Tokens = norm_tokens (tu_Tokens u),
       tu_CostMicros = nonNegative (tu_CostMicros u),
       tu_Currency = (if cur = [] \<and> sint (tu_CostMicros u) > 0 then ''USD'' else cur),
       tu_ModelCalls = nonNegative (tu_ModelCalls u),
       tu_ToolCalls = nonNegative (tu_ToolCalls u),
       tu_Estimated = tu_Estimated u\<rparr>)"

definition add_tokens :: "tokenBreakdown \<Rightarrow> tokenBreakdown \<Rightarrow> tokenBreakdown" where
  "add_tokens a b = \<lparr>tb_System = tb_System a + tb_System b, tb_Brain = tb_Brain a + tb_Brain b,
     tb_Code = tb_Code a + tb_Code b, tb_Tool = tb_Tool a + tb_Tool b,
     tb_History = tb_History a + tb_History b, tb_Output = tb_Output a + tb_Output b,
     tb_CachedInput = tb_CachedInput a + tb_CachedInput b\<rparr>"

definition merge_name :: "string \<Rightarrow> string \<Rightarrow> string" where
  "merge_name a b = (if a = [] then b else if b \<noteq> [] \<and> a \<noteq> b then ''mixed'' else a)"

definition Add :: "(string \<Rightarrow> string) \<Rightarrow> taskUsage \<Rightarrow> taskUsage \<Rightarrow> taskUsage" where
  "Add up left0 right0 =
     (let left = Normalize up left0;
          right = Normalize up right0;
          cur = (if tu_Currency left = [] then tu_Currency right else tu_Currency left);
          clash = cur \<noteq> tu_Currency right \<and> sint (tu_CostMicros right) > 0 in
      left\<lparr>tu_TaskID := if tu_TaskID left = [] then tu_TaskID right else tu_TaskID left,
        tu_EngineID := merge_name (tu_EngineID left) (tu_EngineID right),
        tu_ModelID := merge_name (tu_ModelID left) (tu_ModelID right),
        tu_CostMicros := if clash then 0 else tu_CostMicros left + tu_CostMicros right,
        tu_Currency := if clash then ''MIXED'' else cur,
        tu_Tokens := add_tokens (tu_Tokens left) (tu_Tokens right),
        tu_ModelCalls := tu_ModelCalls left + tu_ModelCalls right,
        tu_ToolCalls := tu_ToolCalls left + tu_ToolCalls right,
        tu_Estimated := tu_Estimated left \<or> tu_Estimated right\<rparr>)"

section \<open>Budgets\<close>

record budget =
  bg_MaxInputTokens :: i64
  bg_MaxOutputTokens :: i64
  bg_MaxTotalTokens :: i64
  bg_MaxCostMicros :: i64
  bg_Currency :: string
  bg_SoftRatio :: rat

datatype budgetState = BudgetUnset | BudgetWithin | BudgetSoft | BudgetHard

record budgetDecision =
  bd_State :: budgetState
  bd_InputRatio :: rat
  bd_OutputRatio :: rat
  bd_TotalRatio :: rat
  bd_CostRatio :: rat
  bd_DominantRatio :: rat
  bd_RemainingTotal :: i64
  bd_RemainingCost :: i64
  bd_Reason :: string

definition zero_decision :: budgetDecision where
  "zero_decision = \<lparr>bd_State = BudgetUnset, bd_InputRatio = 0, bd_OutputRatio = 0,
     bd_TotalRatio = 0, bd_CostRatio = 0, bd_DominantRatio = 0, bd_RemainingTotal = 0,
     bd_RemainingCost = 0, bd_Reason = []\<rparr>"

definition ratio :: "i64 \<Rightarrow> i64 \<Rightarrow> rat" where
  "ratio v limit =
     (if sint limit \<le> 0 then 0
      else f64_div (f64_of_int (sint (nonNegative v))) (f64_of_int (sint limit)))"

definition max4 :: "rat \<Rightarrow> rat \<Rightarrow> rat \<Rightarrow> rat \<Rightarrow> rat" where
  "max4 a b c d = max (max a b) (max c d)"

definition max64 :: "i64 \<Rightarrow> i64 \<Rightarrow> i64" where
  "max64 a b = (if sint a > sint b then a else b)"

text \<open>The constant \<open>.8\<close> of the source is the nearest \<open>float64\<close>.\<close>

definition soft_of :: "budget \<Rightarrow> rat" where
  "soft_of b = (if bg_SoftRatio b \<le> 0 \<or> bg_SoftRatio b \<ge> 1 then f64_round (8 / 10) else bg_SoftRatio b)"

definition EvaluateBudget :: "(string \<Rightarrow> string) \<Rightarrow> budget \<Rightarrow> taskUsage \<Rightarrow> budgetDecision" where
  "EvaluateBudget up b current0 =
     (let current = Normalize up current0;
          t = tu_Tokens current;
          i = ratio (Input t) (bg_MaxInputTokens b);
          out = ratio (tb_Output t) (bg_MaxOutputTokens b);
          tot = ratio (Total t) (bg_MaxTotalTokens b);
          cost = ratio (tu_CostMicros current) (bg_MaxCostMicros b);
          d = zero_decision\<lparr>bd_State := BudgetWithin, bd_InputRatio := i, bd_OutputRatio := out,
                bd_TotalRatio := tot, bd_CostRatio := cost, bd_DominantRatio := max4 i out tot cost,
                bd_RemainingTotal :=
                  if sint (bg_MaxTotalTokens b) > 0 then max64 0 (bg_MaxTotalTokens b - Total t) else 0,
                bd_RemainingCost :=
                  if sint (bg_MaxCostMicros b) > 0
                  then max64 0 (bg_MaxCostMicros b - tu_CostMicros current) else 0\<rparr>;
          cur = to_upper up (trim_space (bg_Currency b)) in
      if sint (bg_MaxCostMicros b) > 0 \<and> cur \<noteq> [] \<and> tu_Currency current \<noteq> [] \<and> tu_Currency current \<noteq> cur
      then d\<lparr>bd_State := BudgetHard, bd_Reason := ''usage currency does not match budget currency''\<rparr>
      else if bd_DominantRatio d \<ge> 1
      then d\<lparr>bd_State := BudgetHard, bd_Reason := ''hard task budget reached''\<rparr>
      else if bd_DominantRatio d \<ge> soft_of b
      then d\<lparr>bd_State := BudgetSoft, bd_Reason := ''soft task budget reached''\<rparr>
      else d)"

section \<open>The ledger\<close>

datatype usageErr = ErrReservationExists | ErrReservationNotFound | ErrBudgetReservationDenied

datatype reservationState = ReservationOpen | ReservationSettled | ReservationReleased

record reservation =
  rs_ID :: string
  rs_Usage :: taskUsage
  rs_State :: reservationState
  rs_CreatedAt :: gotime
  rs_UpdatedAt :: gotime

record ledger =
  lg_budget :: budget
  lg_committed :: taskUsage
  lg_reservations :: "(string \<times> reservation) list"

record ledgerSnapshot =
  ls_Budget :: budget
  ls_Committed :: taskUsage
  ls_Reserved :: taskUsage
  ls_Projected :: taskUsage
  ls_Decision :: budgetDecision
  ls_OpenReservations :: int

definition NewLedger :: "(string \<Rightarrow> string) \<Rightarrow> budget \<Rightarrow> taskUsage \<Rightarrow> ledger" where
  "NewLedger up b committed = \<lparr>lg_budget = b, lg_committed = Normalize up committed, lg_reservations = []\<rparr>"

definition is_open :: "reservation \<Rightarrow> bool" where
  "is_open r \<longleftrightarrow> rs_State r = ReservationOpen"

definition reservedLocked :: "(string \<Rightarrow> string) \<Rightarrow> ledger \<Rightarrow> taskUsage" where
  "reservedLocked up l =
     foldl (\<lambda>total (k, r). if is_open r then Add up total (rs_Usage r) else total)
       zero_usage (lg_reservations l)"

definition projectedLocked :: "(string \<Rightarrow> string) \<Rightarrow> ledger \<Rightarrow> taskUsage option \<Rightarrow> taskUsage" where
  "projectedLocked up l extra =
     (let projected = Add up (lg_committed l) (reservedLocked up l) in
      case extra of None \<Rightarrow> projected | Some x \<Rightarrow> Add up projected x)"

definition Reserve ::
  "(string \<Rightarrow> string) \<Rightarrow> gotime \<Rightarrow> ledger \<Rightarrow> string \<Rightarrow> taskUsage
     \<Rightarrow> ledger \<times> budgetDecision \<times> (usageErr + reservation)" where
  "Reserve up now l id0 estimate0 =
     (let rid = trim_space id0; estimate = Normalize up estimate0 in
      if rid = [] then (l, zero_decision, Inl ErrReservationNotFound)
      else case map_of (lg_reservations l) rid of
        Some _ \<Rightarrow> (l, EvaluateBudget up (lg_budget l) (projectedLocked up l None), Inl ErrReservationExists)
      | None \<Rightarrow>
          (let decision = EvaluateBudget up (lg_budget l) (projectedLocked up l (Some estimate)) in
           if bd_State decision = BudgetHard then (l, decision, Inl ErrBudgetReservationDenied)
           else
             (let r = \<lparr>rs_ID = rid, rs_Usage = estimate, rs_State = ReservationOpen,
                       rs_CreatedAt = now, rs_UpdatedAt = now\<rparr> in
              (l\<lparr>lg_reservations := AList.update rid r (lg_reservations l)\<rparr>, decision, Inr r))))"

definition Settle ::
  "(string \<Rightarrow> string) \<Rightarrow> gotime \<Rightarrow> ledger \<Rightarrow> string \<Rightarrow> taskUsage
     \<Rightarrow> ledger \<times> taskUsage \<times> budgetDecision \<times> usageErr option" where
  "Settle up now l id0 actual0 =
     (let rid = trim_space id0; actual = Normalize up actual0 in
      if rid = [] then (l, zero_usage, zero_decision, Some ErrReservationNotFound)
      else
        (let missing = (l, lg_committed l, EvaluateBudget up (lg_budget l) (projectedLocked up l None),
                        Some ErrReservationNotFound) in
         case map_of (lg_reservations l) rid of
           None \<Rightarrow> missing
         | Some r \<Rightarrow>
             if \<not> is_open r then missing
             else
               (let r' = r\<lparr>rs_State := ReservationSettled, rs_UpdatedAt := now\<rparr>;
                    l' = l\<lparr>lg_reservations := AList.update rid r' (lg_reservations l),
                           lg_committed := Add up (lg_committed l) actual\<rparr> in
                (l', lg_committed l', EvaluateBudget up (lg_budget l') (projectedLocked up l' None), None))))"

definition Release ::
  "(string \<Rightarrow> string) \<Rightarrow> gotime \<Rightarrow> ledger \<Rightarrow> string \<Rightarrow> ledger \<times> budgetDecision \<times> usageErr option" where
  "Release up now l id0 =
     (let rid = trim_space id0 in
      if rid = [] then (l, zero_decision, Some ErrReservationNotFound)
      else
        (let missing = (l, EvaluateBudget up (lg_budget l) (projectedLocked up l None),
                        Some ErrReservationNotFound) in
         case map_of (lg_reservations l) rid of
           None \<Rightarrow> missing
         | Some r \<Rightarrow>
             if \<not> is_open r then missing
             else
               (let r' = r\<lparr>rs_State := ReservationReleased, rs_UpdatedAt := now\<rparr>;
                    l' = l\<lparr>lg_reservations := AList.update rid r' (lg_reservations l)\<rparr> in
                (l', EvaluateBudget up (lg_budget l') (projectedLocked up l' None), None))))"

definition Snapshot :: "(string \<Rightarrow> string) \<Rightarrow> ledger \<Rightarrow> ledgerSnapshot" where
  "Snapshot up l =
     (let reserved = reservedLocked up l; projected = Add up (lg_committed l) reserved in
      \<lparr>ls_Budget = lg_budget l, ls_Committed = lg_committed l, ls_Reserved = reserved,
       ls_Projected = projected, ls_Decision = EvaluateBudget up (lg_budget l) projected,
       ls_OpenReservations = int (length (filter (\<lambda>(k, r). is_open r) (lg_reservations l)))\<rparr>)"

section \<open>Estimated tokens of a payload\<close>

text \<open>\<open>utf8.RuneCount\<close>: an invalid byte counts as one rune.\<close>

function rune_count :: "string \<Rightarrow> nat" where
  "rune_count s = (if s = [] then 0 else Suc (rune_count (drop (max 1 (utf8_size (bytes_of s))) s)))"
  by pat_completeness auto
termination
  by (relation "measure length") auto

declare rune_count.simps [simp del]

text \<open>The argument is the marshalled payload (\<open>json.Marshal\<close>, or its printed form on failure).\<close>

definition EstimateTokens :: "string \<Rightarrow> nat \<times> nat" where
  "EstimateTokens raw =
     (let chars = rune_count raw in
      if chars = 0 then (length raw, 0) else (length raw, (chars + 3) div 4))"

section \<open>Usage in unbounded integers\<close>

text \<open>
  The reference the \<open>int64\<close> code is compared with: each dimension of a usage record that a budget
  can limit, as an integer that does not wrap, and the limit for it.
\<close>

datatype dim = DInput | DOutput | DTotal | DCost

definition pos :: "i64 \<Rightarrow> int" where
  "pos v = max 0 (sint v)"

definition in_tokens :: "tokenBreakdown \<Rightarrow> int" where
  "in_tokens t = pos (tb_System t) + pos (tb_Brain t) + pos (tb_Code t) + pos (tb_Tool t) + pos (tb_History t)"

fun use_dim :: "dim \<Rightarrow> taskUsage \<Rightarrow> int" where
  "use_dim DInput u = in_tokens (tu_Tokens u)"
| "use_dim DOutput u = pos (tb_Output (tu_Tokens u))"
| "use_dim DTotal u = in_tokens (tu_Tokens u) + pos (tb_Output (tu_Tokens u))"
| "use_dim DCost u = pos (tu_CostMicros u)"

fun lim_dim :: "dim \<Rightarrow> budget \<Rightarrow> int" where
  "lim_dim DInput b = sint (bg_MaxInputTokens b)"
| "lim_dim DOutput b = sint (bg_MaxOutputTokens b)"
| "lim_dim DTotal b = sint (bg_MaxTotalTokens b)"
| "lim_dim DCost b = sint (bg_MaxCostMicros b)"

lemma sint_nonNegative [simp]: "sint (nonNegative v) = pos v"
  by (simp add: nonNegative_def pos_def)

lemma pos_nonneg [simp]: "0 \<le> pos v"
  by (simp add: pos_def)

lemma pos_0 [simp]: "pos 0 = 0"
  by (simp add: pos_def)

lemma pos_nonNegative [simp]: "pos (nonNegative v) = pos v"
  by (simp add: pos_def nonNegative_def)

lemma pos_add:
  "pos a + pos b < 2 ^ 63 \<Longrightarrow> pos (nonNegative a + nonNegative b) = pos a + pos b"
  using sint_add_i64 [of "nonNegative a" "nonNegative b"] pos_nonneg [of a] pos_nonneg [of b]
  by (simp add: pos_def [of "_ + _"])

lemma sint_add_pos:
  "sint a = x \<Longrightarrow> 0 \<le> x \<Longrightarrow> x + pos b < 2 ^ 63 \<Longrightarrow> sint (a + nonNegative b) = x + pos b"
  using sint_add_i64 [of a "nonNegative b"] pos_nonneg [of b] by simp

lemma in_tokens_nonneg [simp]: "0 \<le> in_tokens t"
  by (simp add: in_tokens_def)

lemma use_dim_nonneg [simp]: "0 \<le> use_dim d u"
  by (cases d) simp_all

lemma sint_Input: "in_tokens t < 2 ^ 63 \<Longrightarrow> sint (Input t) = in_tokens t"
  unfolding Input_def in_tokens_def
  using pos_nonneg [of "tb_System t"] pos_nonneg [of "tb_Brain t"] pos_nonneg [of "tb_Code t"]
    pos_nonneg [of "tb_Tool t"] pos_nonneg [of "tb_History t"]
  by (intro sint_add_pos sint_nonNegative) linarith+

lemma sint_Total:
  "in_tokens t + pos (tb_Output t) < 2 ^ 63 \<Longrightarrow> sint (Total t) = in_tokens t + pos (tb_Output t)"
  unfolding Total_def using pos_nonneg [of "tb_Output t"] in_tokens_nonneg [of t]
  by (intro sint_add_pos sint_Input) linarith+

lemma use_dim_Normalize [simp]: "use_dim d (Normalize up u) = use_dim d u"
  by (cases d) (simp_all add: Normalize_def norm_tokens_def in_tokens_def Let_def)

lemma in_tokens_add:
  assumes "in_tokens a + in_tokens b < 2 ^ 63"
  shows "in_tokens (add_tokens (norm_tokens a) (norm_tokens b)) = in_tokens a + in_tokens b"
proof -
  have nn: "0 \<le> pos (tb_System a)" "0 \<le> pos (tb_Brain a)" "0 \<le> pos (tb_Code a)"
    "0 \<le> pos (tb_Tool a)" "0 \<le> pos (tb_History a)" "0 \<le> pos (tb_System b)"
    "0 \<le> pos (tb_Brain b)" "0 \<le> pos (tb_Code b)" "0 \<le> pos (tb_Tool b)" "0 \<le> pos (tb_History b)"
    by (rule pos_nonneg)+
  have "pos (tb_System a) + pos (tb_System b) < 2 ^ 63" "pos (tb_Brain a) + pos (tb_Brain b) < 2 ^ 63"
    "pos (tb_Code a) + pos (tb_Code b) < 2 ^ 63" "pos (tb_Tool a) + pos (tb_Tool b) < 2 ^ 63"
    "pos (tb_History a) + pos (tb_History b) < 2 ^ 63"
    using assms nn unfolding in_tokens_def by linarith+
  then show ?thesis
    by (simp add: in_tokens_def add_tokens_def norm_tokens_def pos_add)
qed

text \<open>
  A usage in one currency: what it costs is in currency \<open>c\<close>. Adding usages of one currency never
  gives the \<open>MIXED\<close> marker.
\<close>

definition canonical :: "(string \<Rightarrow> string) \<Rightarrow> string \<Rightarrow> bool" where
  "canonical up c \<longleftrightarrow> to_upper up (trim_space c) = c"

definition in_currency :: "(string \<Rightarrow> string) \<Rightarrow> string \<Rightarrow> taskUsage \<Rightarrow> bool" where
  "in_currency up c u \<longleftrightarrow> tu_Currency (Normalize up u) = c \<or> (tu_Currency (Normalize up u) = [] \<and> pos (tu_CostMicros u) = 0)"

lemma to_upper_Nil [simp]: "to_upper up [] = []"
  by (simp add: to_upper_def is_ascii_def)

lemma cost_has_currency: "0 < pos (tu_CostMicros u) \<Longrightarrow> tu_Currency (Normalize up u) \<noteq> []"
  by (auto simp: Normalize_def Let_def pos_def)

lemma Add_tokens: "tu_Tokens (Add up a b) = add_tokens (norm_tokens (tu_Tokens a)) (norm_tokens (tu_Tokens b))"
  by (simp add: Add_def Let_def Normalize_def)

lemma Add_same_currency:
  assumes "in_currency up c a" and "in_currency up c b"
  shows "tu_Currency (Add up a b) =
      (if tu_Currency (Normalize up a) = [] then tu_Currency (Normalize up b) else tu_Currency (Normalize up a))"
    and "tu_CostMicros (Add up a b) = nonNegative (tu_CostMicros a) + nonNegative (tu_CostMicros b)"
proof -
  let ?a = "tu_Currency (Normalize up a)" and ?b = "tu_Currency (Normalize up b)"
  have n: "tu_CostMicros (Normalize up u) = nonNegative (tu_CostMicros u)" for u
    by (simp add: Normalize_def Let_def)
  have "((if ?a = [] then ?b else ?a) \<noteq> ?b \<and> pos (tu_CostMicros b) > 0) = False"
    using assms cost_has_currency [of b up] by (auto simp: in_currency_def)
  then show "tu_Currency (Add up a b) = (if ?a = [] then ?b else ?a)"
    "tu_CostMicros (Add up a b) = nonNegative (tu_CostMicros a) + nonNegative (tu_CostMicros b)"
    unfolding Add_def Let_def n sint_nonNegative by (auto split: if_splits)
qed

lemma Add_dim:
  assumes "use_dim d a + use_dim d b < 2 ^ 63"
    and "d = DCost \<Longrightarrow> in_currency up c a \<and> in_currency up c b"
  shows "use_dim d (Add up a b) = use_dim d a + use_dim d b"
proof (cases d)
  case DInput
  with assms show ?thesis by (simp add: Add_tokens in_tokens_add)
next
  case DOutput
  with assms show ?thesis by (simp add: Add_tokens pos_add) (simp add: add_tokens_def norm_tokens_def pos_add)
next
  case DTotal
  then have "in_tokens (tu_Tokens a) + in_tokens (tu_Tokens b) < 2 ^ 63"
    "pos (tb_Output (tu_Tokens a)) + pos (tb_Output (tu_Tokens b)) < 2 ^ 63"
    using assms(1) in_tokens_nonneg [of "tu_Tokens a"] in_tokens_nonneg [of "tu_Tokens b"]
      pos_nonneg [of "tb_Output (tu_Tokens a)"] pos_nonneg [of "tb_Output (tu_Tokens b)"]
    unfolding DTotal use_dim.simps by linarith+
  with DTotal show ?thesis
    by (simp add: Add_tokens in_tokens_add) (simp add: add_tokens_def norm_tokens_def pos_add)
next
  case DCost
  with assms(2) have "tu_CostMicros (Add up a b) = nonNegative (tu_CostMicros a) + nonNegative (tu_CostMicros b)"
    using Add_same_currency(2) by blast
  with DCost assms(1) show ?thesis by (simp add: pos_add)
qed

lemma Add_in_currency:
  assumes "in_currency up c a" and "in_currency up c b" and "canonical up c"
  shows "in_currency up c (Add up a b)"
proof -
  note r = Add_same_currency [OF assms(1,2)]
  have nz: "pos v = 0 \<Longrightarrow> nonNegative v = 0" for v
    by (auto simp: pos_def nonNegative_def max_def split: if_splits) (metis signed_0 signed_eq_0_iff)
  show ?thesis
  proof (cases "tu_Currency (Add up a b) = []")
    case True
    then have "pos (tu_CostMicros a) = 0" "pos (tu_CostMicros b) = 0"
      using r(1) cost_has_currency [of a up] cost_has_currency [of b up] pos_nonneg
      by (metis less_le)+
    with r(2) True nz show ?thesis by (simp add: in_currency_def Normalize_def Let_def)
  next
    case False
    with r(1) assms(1,2) have "tu_Currency (Add up a b) = c" by (auto simp: in_currency_def split: if_splits)
    with False assms(3) show ?thesis by (auto simp: in_currency_def Normalize_def Let_def canonical_def)
  qed
qed

section \<open>The budget decision is the integer comparison\<close>

lemma ratio_pos: "0 < sint l \<Longrightarrow> ratio v l = f64_div (f64_of_int (pos v)) (f64_of_int (sint l))"
  by (simp add: ratio_def)

lemma ratio_ge_1: "0 < sint l \<Longrightarrow> sint l \<le> pos v \<Longrightarrow> 1 \<le> ratio v l"
  by (simp add: ratio_pos f64_ratio_ge_1)

lemma ratio_less_1:
  assumes "sint l \<le> 2 ^ 53" and "0 < sint l \<Longrightarrow> pos v < sint l"
  shows "ratio v l < 1"
proof (cases "0 < sint l")
  case True
  with assms show ?thesis by (simp add: ratio_pos f64_ratio_less_1)
qed (simp add: ratio_def)

definition dim_value :: "dim \<Rightarrow> taskUsage \<Rightarrow> i64" where
  "dim_value d u = (case d of DInput \<Rightarrow> Input (tu_Tokens u) | DOutput \<Rightarrow> tb_Output (tu_Tokens u)
     | DTotal \<Rightarrow> Total (tu_Tokens u) | DCost \<Rightarrow> tu_CostMicros u)"

definition dim_limit :: "dim \<Rightarrow> budget \<Rightarrow> i64" where
  "dim_limit d b = (case d of DInput \<Rightarrow> bg_MaxInputTokens b | DOutput \<Rightarrow> bg_MaxOutputTokens b
     | DTotal \<Rightarrow> bg_MaxTotalTokens b | DCost \<Rightarrow> bg_MaxCostMicros b)"

lemma sint_dim_limit [simp]: "sint (dim_limit d b) = lim_dim d b"
  by (cases d) (simp_all add: dim_limit_def)

lemma norm_tokens_Input [simp]: "Input (norm_tokens t) = Input t" "Total (norm_tokens t) = Total t"
  by (simp_all add: Input_def Total_def norm_tokens_def nonNegative_def)

lemma pos_dim_value: "use_dim d u < 2 ^ 63 \<Longrightarrow> pos (dim_value d u) = use_dim d u"
proof (cases d)
  case DInput
  then show "use_dim d u < 2 ^ 63 \<Longrightarrow> pos (dim_value d u) = use_dim d u"
    by (simp add: dim_value_def pos_def [of "Input _"] sint_Input)
next
  case DTotal
  then show "use_dim d u < 2 ^ 63 \<Longrightarrow> pos (dim_value d u) = use_dim d u"
    using in_tokens_nonneg [of "tu_Tokens u"] pos_nonneg [of "tb_Output (tu_Tokens u)"]
    by (simp add: dim_value_def pos_def [of "Total _"] sint_Total max_def del: in_tokens_nonneg pos_nonneg)
qed (simp_all add: dim_value_def)

definition currency_clash :: "(string \<Rightarrow> string) \<Rightarrow> budget \<Rightarrow> taskUsage \<Rightarrow> bool" where
  "currency_clash up b u \<longleftrightarrow>
     (let cur = to_upper up (trim_space (bg_Currency b)); have = tu_Currency (Normalize up u) in
      0 < lim_dim DCost b \<and> cur \<noteq> [] \<and> have \<noteq> [] \<and> have \<noteq> cur)"

lemma ratio_nonNegative [simp]: "ratio (nonNegative v) l = ratio v l"
  by (simp add: ratio_def)

lemma max4_ge: "1 \<le> max4 a b c d \<longleftrightarrow> 1 \<le> a \<or> 1 \<le> b \<or> 1 \<le> c \<or> 1 \<le> d"
  by (auto simp: max4_def)

lemma hard_iff_ratio:
  "bd_State (EvaluateBudget up b u) = BudgetHard \<longleftrightarrow>
     currency_clash up b u \<or> (\<exists>d. 1 \<le> ratio (dim_value d u) (dim_limit d b))"
proof -
  have "(\<exists>d. 1 \<le> ratio (dim_value d u) (dim_limit d b)) \<longleftrightarrow>
      1 \<le> max4 (ratio (Input (tu_Tokens u)) (bg_MaxInputTokens b))
        (ratio (tb_Output (tu_Tokens u)) (bg_MaxOutputTokens b))
        (ratio (Total (tu_Tokens u)) (bg_MaxTotalTokens b)) (ratio (tu_CostMicros u) (bg_MaxCostMicros b))"
    unfolding max4_ge by (metis dim.exhaust dim_limit_def dim_value_def dim.simps(13-16))
  moreover have "tu_Tokens (Normalize up u) = norm_tokens (tu_Tokens u)"
    "tu_CostMicros (Normalize up u) = nonNegative (tu_CostMicros u)"
    by (simp_all add: Normalize_def Let_def)
  moreover have "tb_Output (norm_tokens t) = nonNegative (tb_Output t)" for t
    by (simp add: norm_tokens_def)
  ultimately show ?thesis
    unfolding EvaluateBudget_def Let_def currency_clash_def by (simp add: zero_decision_def)
qed

lemma over_limit_hard:
  assumes "0 < lim_dim d b" and "lim_dim d b \<le> use_dim d u" and "use_dim d u < 2 ^ 63"
  shows "bd_State (EvaluateBudget up b u) = BudgetHard"
  using ratio_ge_1 [of "dim_limit d b" "dim_value d u"] assms
  by (auto simp: hard_iff_ratio pos_dim_value)

text \<open>With limits of at most \<open>2 ^ 53\<close> and counters that do not overflow the ratios are exact.\<close>

lemma hard_iff:
  assumes "\<And>d. lim_dim d b \<le> 2 ^ 53" and "\<And>d. use_dim d u < 2 ^ 63"
  shows "bd_State (EvaluateBudget up b u) = BudgetHard \<longleftrightarrow>
    currency_clash up b u \<or> (\<exists>d. 0 < lim_dim d b \<and> lim_dim d b \<le> use_dim d u)"
proof -
  have "1 \<le> ratio (dim_value d u) (dim_limit d b) \<longleftrightarrow> 0 < lim_dim d b \<and> lim_dim d b \<le> use_dim d u" for d
    using ratio_ge_1 [of "dim_limit d b" "dim_value d u"] ratio_less_1 [of "dim_limit d b" "dim_value d u"]
      assms(1) [of d] pos_dim_value [OF assms(2), of d]
    by (auto simp: not_le [symmetric])
  then show ?thesis by (simp add: hard_iff_ratio)
qed

section \<open>What is reserved\<close>

definition open_sum :: "dim \<Rightarrow> (string \<times> reservation) list \<Rightarrow> int" where
  "open_sum d rs = (\<Sum>(k, r) \<leftarrow> rs. if is_open r then use_dim d (rs_Usage r) else 0)"

definition open_in :: "(string \<Rightarrow> string) \<Rightarrow> string \<Rightarrow> (string \<times> reservation) list \<Rightarrow> bool" where
  "open_in up c rs = list_all (\<lambda>(k, r). is_open r \<longrightarrow> in_currency up c (rs_Usage r)) rs"

lemma open_sum_simps [simp]:
  "open_sum d [] = 0"
  "open_sum d ((k, r) # rs) = (if is_open r then use_dim d (rs_Usage r) else 0) + open_sum d rs"
  by (simp_all add: open_sum_def)

lemma open_sum_nonneg: "0 \<le> open_sum d rs"
  by (induction rs) auto

lemma reserved_foldl:
  assumes "use_dim d acc + open_sum d rs < 2 ^ 63"
    and "d = DCost \<Longrightarrow> canonical up c \<and> in_currency up c acc \<and> open_in up c rs"
  shows "use_dim d (foldl (\<lambda>total (k, r). if is_open r then Add up total (rs_Usage r) else total) acc rs)
       = use_dim d acc + open_sum d rs
     \<and> (d = DCost \<longrightarrow>
         in_currency up c (foldl (\<lambda>total (k, r). if is_open r then Add up total (rs_Usage r) else total) acc rs))"
  using assms
proof (induction rs arbitrary: acc)
  case (Cons kr rs)
  obtain k r where kr: "kr = (k, r)" by fastforce
  show ?case
  proof (cases "is_open r")
    case True
    have a: "use_dim d (Add up acc (rs_Usage r)) = use_dim d acc + use_dim d (rs_Usage r)"
    proof (rule Add_dim)
      show "use_dim d acc + use_dim d (rs_Usage r) < 2 ^ 63"
        using Cons.prems(1) open_sum_nonneg [of d rs] True kr by simp
      show "in_currency up c acc \<and> in_currency up c (rs_Usage r)" if "d = DCost"
        using Cons.prems(2) [OF that] True kr by (simp add: open_in_def)
    qed
    moreover have "canonical up c \<and> in_currency up c (Add up acc (rs_Usage r)) \<and> open_in up c rs" if "d = DCost"
      using Cons.prems(2) [OF that] True kr Add_in_currency [of up c acc "rs_Usage r"] by (simp add: open_in_def)
    ultimately show ?thesis using Cons.IH [of "Add up acc (rs_Usage r)"] Cons.prems(1) True kr by simp
  next
    case False
    have "canonical up c \<and> in_currency up c acc \<and> open_in up c rs" if "d = DCost"
      using Cons.prems(2) [OF that] by (simp add: open_in_def)
    with Cons.IH [of acc] Cons.prems(1) False kr show ?thesis by simp
  qed
qed simp

lemma zero_usage_props [simp]: "use_dim d zero_usage = 0" "in_currency up c zero_usage"
  by (cases d; simp add: zero_usage_def zero_tokens_def in_tokens_def)
    (simp add: zero_usage_def in_currency_def Normalize_def Let_def)

text \<open>
  The reserved usage is the sum over the open reservations; in particular it does not depend on
  the order in which the map is iterated.
\<close>

lemma reserved_dim:
  assumes "open_sum d (lg_reservations l) < 2 ^ 63"
    and "d = DCost \<Longrightarrow> canonical up c \<and> open_in up c (lg_reservations l)"
  shows "use_dim d (reservedLocked up l) = open_sum d (lg_reservations l)"
    and "d = DCost \<Longrightarrow> in_currency up c (reservedLocked up l)"
  using reserved_foldl [of d zero_usage "lg_reservations l" up c] assms
  unfolding reservedLocked_def by simp_all

lemma open_sum_update_new:
  "map_of rs k = None \<Longrightarrow>
     open_sum d (AList.update k r rs) = open_sum d rs + (if is_open r then use_dim d (rs_Usage r) else 0)"
  by (induction rs) auto

lemma open_sum_update_close:
  "map_of rs k = Some r \<Longrightarrow> is_open r \<Longrightarrow> \<not> is_open r' \<Longrightarrow>
     open_sum d (AList.update k r' rs) = open_sum d rs - use_dim d (rs_Usage r)"
  by (induction rs) (auto split: if_splits)

lemma open_in_update:
  "open_in up c rs \<Longrightarrow> (is_open r \<Longrightarrow> in_currency up c (rs_Usage r)) \<Longrightarrow> open_in up c (AList.update k r rs)"
  by (induction rs) (auto simp: open_in_def)

lemma open_sum_mset: "mset rs = mset rs' \<Longrightarrow> open_sum d rs = open_sum d rs'"
  unfolding open_sum_def by (metis (no_types) mset_map sum_mset_sum_list)

section \<open>The ledger keeps within its budget\<close>

lemma in_currency_Normalize: "canonical up c \<Longrightarrow> in_currency up c u \<Longrightarrow> in_currency up c (Normalize up u)"
proof -
  assume c: "canonical up c" and u: "in_currency up c u"
  let ?n = "Normalize up u"
  have cost: "tu_CostMicros ?n = nonNegative (tu_CostMicros u)" by (simp add: Normalize_def Let_def)
  have nn: "tu_Currency (Normalize up ?n) =
      (let cur = to_upper up (trim_space (tu_Currency ?n)) in
       if cur = [] \<and> 0 < pos (tu_CostMicros u) then ''USD'' else cur)"
    unfolding Normalize_def [of up ?n] by (simp add: Let_def cost)
  from u show ?thesis unfolding in_currency_def nn cost
    using c cost_has_currency [of u up] by (auto simp: Let_def canonical_def)
qed

text \<open>The invariant: in dimension \<open>d\<close>, committed and openly reserved usage stay below the limit.\<close>

definition ledger_inv :: "(string \<Rightarrow> string) \<Rightarrow> dim \<Rightarrow> string \<Rightarrow> ledger \<Rightarrow> bool" where
  "ledger_inv up d c l \<longleftrightarrow>
     use_dim d (lg_committed l) + open_sum d (lg_reservations l) < lim_dim d (lg_budget l) \<and>
     (d = DCost \<longrightarrow> in_currency up c (lg_committed l) \<and> open_in up c (lg_reservations l))"

lemma projected_dim:
  assumes "use_dim d (lg_committed l) + open_sum d (lg_reservations l) < 2 ^ 62"
    and "d = DCost \<longrightarrow> canonical up c \<and> in_currency up c (lg_committed l) \<and> open_in up c (lg_reservations l)
           \<and> in_currency up c x"
    and "use_dim d x < 2 ^ 62"
  shows "use_dim d (projectedLocked up l (Some x))
    = use_dim d (lg_committed l) + open_sum d (lg_reservations l) + use_dim d x"
proof -
  have nn: "0 \<le> use_dim d (lg_committed l)" "0 \<le> open_sum d (lg_reservations l)"
    by (rule use_dim_nonneg open_sum_nonneg)+
  have "open_sum d (lg_reservations l) < 2 ^ 63" using assms(1) nn by (simp del: use_dim_nonneg)
  then have r: "use_dim d (reservedLocked up l) = open_sum d (lg_reservations l)"
    "d = DCost \<Longrightarrow> in_currency up c (reservedLocked up l)"
    using reserved_dim [of d l up c] assms(2) by blast+
  let ?p = "Add up (lg_committed l) (reservedLocked up l)"
  have p: "use_dim d ?p = use_dim d (lg_committed l) + open_sum d (lg_reservations l)"
    using Add_dim [of d "lg_committed l" "reservedLocked up l" up c] assms(1,2) r by simp
  have "d = DCost \<Longrightarrow> in_currency up c ?p \<and> in_currency up c x"
    using assms(2) r(2) Add_in_currency by blast
  then have "use_dim d (Add up ?p x) = use_dim d ?p + use_dim d x"
    using assms(1,3) p nn by (intro Add_dim [where c = c]) simp_all
  with p show ?thesis by (simp add: projectedLocked_def)
qed

lemma Reserve_cases:
  obtains (refused) "fst (Reserve up now l i e) = l" "\<exists>x. snd (snd (Reserve up now l i e)) = Inl x"
  | (granted) r where
      "fst (Reserve up now l i e) = l\<lparr>lg_reservations := AList.update (trim_space i) r (lg_reservations l)\<rparr>"
      "snd (snd (Reserve up now l i e)) = Inr r"
      "trim_space i \<noteq> []" "map_of (lg_reservations l) (trim_space i) = None"
      "bd_State (EvaluateBudget up (lg_budget l) (projectedLocked up l (Some (Normalize up e)))) \<noteq> BudgetHard"
      "r = \<lparr>rs_ID = trim_space i, rs_Usage = Normalize up e, rs_State = ReservationOpen,
            rs_CreatedAt = now, rs_UpdatedAt = now\<rparr>"
proof (cases "trim_space i = [] \<or> map_of (lg_reservations l) (trim_space i) \<noteq> None
    \<or> bd_State (EvaluateBudget up (lg_budget l) (projectedLocked up l (Some (Normalize up e)))) = BudgetHard")
  case True
  then show ?thesis by (intro refused) (auto simp: Reserve_def Let_def split: option.splits)
next
  case False
  then show ?thesis by (intro granted) (simp_all add: Reserve_def Let_def)
qed

lemma Reserve_inv:
  assumes "ledger_inv up d c l" and "canonical up c" and "0 < lim_dim d (lg_budget l)"
    and "lim_dim d (lg_budget l) \<le> 2 ^ 62"
    and "use_dim d e < 2 ^ 62" and "d = DCost \<longrightarrow> in_currency up c e"
  shows "ledger_inv up d c (fst (Reserve up now l i e))"
proof (cases rule: Reserve_cases [of up now l i e])
  case refused
  with assms(1) show ?thesis by simp
next
  case (granted r)
  have o: "is_open r" "rs_Usage r = Normalize up e" using granted(6) by (simp_all add: is_open_def)
  have e: "d = DCost \<longrightarrow> in_currency up c (Normalize up e)"
    using assms(2,6) in_currency_Normalize by blast
  have "use_dim d (projectedLocked up l (Some (Normalize up e))) =
      use_dim d (lg_committed l) + open_sum d (lg_reservations l) + use_dim d e"
    using projected_dim [of d l up c "Normalize up e"] assms e by (simp add: ledger_inv_def)
  moreover have "use_dim d (lg_committed l) + open_sum d (lg_reservations l) + use_dim d e < 2 ^ 63"
    using assms(1,4,5) by (simp add: ledger_inv_def)
  ultimately have "use_dim d (lg_committed l) + open_sum d (lg_reservations l) + use_dim d e < lim_dim d (lg_budget l)"
    using over_limit_hard [of d "lg_budget l" _ up] assms(3) granted(5) by (metis not_le)
  then show ?thesis
    using assms(1) e granted(1,4) o
    by (auto simp: ledger_inv_def open_sum_update_new intro!: open_in_update)
qed

lemma Settle_cases:
  obtains (refused) "fst (Settle up now l i a) = l"
  | (settled) r where "map_of (lg_reservations l) (trim_space i) = Some r" "is_open r"
      "fst (Settle up now l i a) = l\<lparr>lg_reservations := AList.update (trim_space i)
         (r\<lparr>rs_State := ReservationSettled, rs_UpdatedAt := now\<rparr>) (lg_reservations l),
         lg_committed := Add up (lg_committed l) (Normalize up a)\<rparr>"
proof (cases "\<exists>r. trim_space i \<noteq> [] \<and> map_of (lg_reservations l) (trim_space i) = Some r \<and> is_open r")
  case True
  then obtain r where "trim_space i \<noteq> []" "map_of (lg_reservations l) (trim_space i) = Some r" "is_open r" by blast
  then show ?thesis by (intro settled) (simp_all add: Settle_def Let_def)
next
  case False
  then show ?thesis by (intro refused) (auto simp: Settle_def Let_def split: option.splits)
qed

lemma Release_cases:
  obtains (refused) "fst (Release up now l i) = l"
  | (released) r where "map_of (lg_reservations l) (trim_space i) = Some r" "is_open r"
      "fst (Release up now l i) = l\<lparr>lg_reservations := AList.update (trim_space i)
         (r\<lparr>rs_State := ReservationReleased, rs_UpdatedAt := now\<rparr>) (lg_reservations l)\<rparr>"
proof (cases "\<exists>r. trim_space i \<noteq> [] \<and> map_of (lg_reservations l) (trim_space i) = Some r \<and> is_open r")
  case True
  then obtain r where "trim_space i \<noteq> []" "map_of (lg_reservations l) (trim_space i) = Some r" "is_open r" by blast
  then show ?thesis by (intro released) (simp_all add: Release_def Let_def)
next
  case False
  then show ?thesis by (intro refused) (auto simp: Release_def Let_def split: option.splits)
qed

lemma Settle_inv:
  assumes "ledger_inv up d c l" and "canonical up c" and "lim_dim d (lg_budget l) \<le> 2 ^ 62"
    and "\<forall>r. map_of (lg_reservations l) (trim_space i) = Some r \<and> is_open r \<longrightarrow>
           use_dim d a \<le> use_dim d (rs_Usage r)"
    and "d = DCost \<longrightarrow> in_currency up c a"
  shows "ledger_inv up d c (fst (Settle up now l i a))"
proof (cases rule: Settle_cases [of up now l i a])
  case refused
  with assms(1) show ?thesis by simp
next
  case (settled r)
  let ?r = "r\<lparr>rs_State := ReservationSettled, rs_UpdatedAt := now\<rparr>"
  have closed: "\<not> is_open ?r" by (simp add: is_open_def)
  have le: "use_dim d a \<le> use_dim d (rs_Usage r)" using assms(4) settled(1,2) by blast
  have cur: "d = DCost \<longrightarrow> in_currency up c (Normalize up a)" "d = DCost \<longrightarrow> in_currency up c (lg_committed l)"
    using assms(1,2,5) in_currency_Normalize by (auto simp: ledger_inv_def)
  have sum: "open_sum d (AList.update (trim_space i) ?r (lg_reservations l)) =
      open_sum d (lg_reservations l) - use_dim d (rs_Usage r)"
    using settled(1,2) closed by (rule open_sum_update_close)
  then have "use_dim d (rs_Usage r) \<le> open_sum d (lg_reservations l)"
    using open_sum_nonneg [of d "AList.update (trim_space i) ?r (lg_reservations l)"] by simp
  moreover have inv: "use_dim d (lg_committed l) + open_sum d (lg_reservations l) < lim_dim d (lg_budget l)"
    using assms(1) by (simp add: ledger_inv_def)
  ultimately have "use_dim d (lg_committed l) + use_dim d (Normalize up a) < 2 ^ 63"
    using le assms(3) by simp
  then have "use_dim d (Add up (lg_committed l) (Normalize up a)) = use_dim d (lg_committed l) + use_dim d (Normalize up a)"
    using cur by (intro Add_dim [where c = c]) simp_all
  moreover have "d = DCost \<longrightarrow> in_currency up c (Add up (lg_committed l) (Normalize up a))"
    using cur assms(2) Add_in_currency by blast
  ultimately show ?thesis
    using assms(1) settled(3) sum le inv closed
    by (auto simp: ledger_inv_def intro!: open_in_update)
qed

lemma Release_inv:
  assumes "ledger_inv up d c l"
  shows "ledger_inv up d c (fst (Release up now l i))"
proof (cases rule: Release_cases [of up now l i])
  case refused
  with assms show ?thesis by simp
next
  case (released r)
  let ?r = "r\<lparr>rs_State := ReservationReleased, rs_UpdatedAt := now\<rparr>"
  have closed: "\<not> is_open ?r" by (simp add: is_open_def)
  have "open_sum d (AList.update (trim_space i) ?r (lg_reservations l)) =
      open_sum d (lg_reservations l) - use_dim d (rs_Usage r)"
    using released(1,2) closed by (rule open_sum_update_close)
  with assms released(3) closed use_dim_nonneg [of d "rs_Usage r"] show ?thesis
    by (auto simp: ledger_inv_def intro!: open_in_update simp del: use_dim_nonneg)
qed

lemma budget_frame [simp]:
  "lg_budget (fst (Reserve up now l i e)) = lg_budget l"
  "lg_budget (fst (Settle up now l i a)) = lg_budget l"
  "lg_budget (fst (Release up now l i)) = lg_budget l"
  subgoal by (cases rule: Reserve_cases [of up now l i e]) simp_all
  subgoal by (cases rule: Settle_cases [of up now l i a]) simp_all
  subgoal by (cases rule: Release_cases [of up now l i]) simp_all
  done

text \<open>
  The histories of a ledger: any interleaving of the three operations, in which no single estimate
  is absurd (\<open>2 ^ 62\<close> or more) and a settlement does not report more than was reserved.
\<close>

inductive ledger_reach :: "(string \<Rightarrow> string) \<Rightarrow> dim \<Rightarrow> string \<Rightarrow> ledger \<Rightarrow> ledger \<Rightarrow> bool"
  for up d c l0 where
  start: "ledger_reach up d c l0 l0"
| reserve: "ledger_reach up d c l0 l \<Longrightarrow> use_dim d e < 2 ^ 62 \<Longrightarrow> (d = DCost \<longrightarrow> in_currency up c e) \<Longrightarrow>
    ledger_reach up d c l0 (fst (Reserve up now l i e))"
| settle: "ledger_reach up d c l0 l \<Longrightarrow>
    (\<forall>r. map_of (lg_reservations l) (trim_space i) = Some r \<and> is_open r \<longrightarrow>
       use_dim d a \<le> use_dim d (rs_Usage r)) \<Longrightarrow> (d = DCost \<longrightarrow> in_currency up c a) \<Longrightarrow>
    ledger_reach up d c l0 (fst (Settle up now l i a))"
| release: "ledger_reach up d c l0 l \<Longrightarrow> ledger_reach up d c l0 (fst (Release up now l i))"

lemma ledger_reach_inv:
  assumes "ledger_reach up d c l0 l" and "ledger_inv up d c l0" and "canonical up c"
    and "0 < lim_dim d (lg_budget l0)" and "lim_dim d (lg_budget l0) \<le> 2 ^ 62"
  shows "ledger_inv up d c l \<and> lg_budget l = lg_budget l0"
  using assms(1)
proof induction
  case start
  show ?case using assms(2) by simp
next
  case (reserve l e now i)
  then show ?case using Reserve_inv [of up d c l e now i] assms(3-5) by simp
next
  case (settle l i a now)
  then show ?case using Settle_inv [of up d c l i a now] assms(3,5) by simp
next
  case (release l now i)
  then show ?case using Release_inv [of up d c l now i] by simp
qed

text \<open>
  C4. Admission control within bounds: take a dimension (input, output, total tokens or cost) whose
  limit is set and at most \<open>2 ^ 62\<close>, start a ledger below the limit and run any interleaving of
  \<open>Reserve\<close>, \<open>Settle\<close> and \<open>Release\<close> in which every estimate is below \<open>2 ^ 62\<close> and settlements report
  at most what was reserved; for cost, let all usage be in one currency. Then committed and reserved
  usage together, as unbounded integers, and the projection the snapshot reports, stay strictly
  below the limit: within these bounds the \<open>int64\<close> and \<open>float64\<close> arithmetic never admits too much.
  Outside them it can: an estimate near \<open>2 ^ 63\<close> wraps around, and mixed currencies drop the cost.
\<close>

theorem ledger_never_overruns:
  assumes "ledger_reach up d c (NewLedger up b u0) l" and "canonical up c"
    and "0 < lim_dim d b" and "lim_dim d b \<le> 2 ^ 62"
    and "use_dim d u0 < lim_dim d b" and "d = DCost \<longrightarrow> in_currency up c u0"
  shows "use_dim d (lg_committed l) + open_sum d (lg_reservations l) < lim_dim d b \<and>
    use_dim d (ls_Projected (Snapshot up l)) < lim_dim d b"
proof -
  have "ledger_inv up d c (NewLedger up b u0)"
    using assms(2,5,6) by (auto simp: ledger_inv_def NewLedger_def open_in_def in_currency_Normalize)
  then have inv: "ledger_inv up d c l" and b: "lg_budget l = b"
    using ledger_reach_inv [OF assms(1) _ assms(2)] assms(3,4) by (auto simp: NewLedger_def)
  then have lt: "use_dim d (lg_committed l) + open_sum d (lg_reservations l) < lim_dim d b"
    by (simp add: ledger_inv_def)
  have nn: "0 \<le> use_dim d (lg_committed l)" "0 \<le> open_sum d (lg_reservations l)"
    by (rule use_dim_nonneg open_sum_nonneg)+
  with lt assms(4) have "open_sum d (lg_reservations l) < 2 ^ 63" by (simp del: use_dim_nonneg)
  then have r: "use_dim d (reservedLocked up l) = open_sum d (lg_reservations l)"
    "d = DCost \<Longrightarrow> in_currency up c (reservedLocked up l)"
    using reserved_dim [of d l up c] inv assms(2) by (auto simp: ledger_inv_def)
  have "use_dim d (Add up (lg_committed l) (reservedLocked up l)) =
      use_dim d (lg_committed l) + use_dim d (reservedLocked up l)"
    using lt assms(4) r inv by (intro Add_dim [where c = c]) (auto simp: ledger_inv_def)
  with lt r(1) show ?thesis by (simp add: Snapshot_def Let_def)
qed

definition demo_budget :: budget where
  "demo_budget = \<lparr>bg_MaxInputTokens = 0, bg_MaxOutputTokens = 0, bg_MaxTotalTokens = 1000,
     bg_MaxCostMicros = 500, bg_Currency = ''usd'', bg_SoftRatio = 0\<rparr>"

definition demo_usage :: "int \<Rightarrow> int \<Rightarrow> int \<Rightarrow> string \<Rightarrow> taskUsage" where
  "demo_usage i out cost cur = zero_usage\<lparr>tu_Tokens := zero_tokens\<lparr>tb_Code := of_int i, tb_Output := of_int out\<rparr>,
     tu_CostMicros := of_int cost, tu_Currency := cur\<rparr>"

theorem ledger_never_overruns_witness:
  "let l1 = fst (Reserve id 7 (NewLedger id demo_budget (demo_usage 100 50 20 ''usd'')) ''a'' (demo_usage 300 200 40 ''USD''));
       l2 = fst (Settle id 8 l1 ''a'' (demo_usage 250 200 40 ''usd'')) in
   use_dim DTotal (lg_committed l2) + open_sum DTotal (lg_reservations l2) < 1000 \<and>
   use_dim DTotal (ls_Projected (Snapshot id l2)) < 1000"
proof -
  define l0 where "l0 = NewLedger id demo_budget (demo_usage 100 50 20 ''usd'')"
  define l1 where "l1 = fst (Reserve id 7 l0 ''a'' (demo_usage 300 200 40 ''USD''))"
  have "ledger_reach id DTotal ''USD'' l0 l0" by (rule ledger_reach.start)
  moreover have "use_dim DTotal (demo_usage 300 200 40 ''USD'') < 2 ^ 62" by code_simp
  ultimately have "ledger_reach id DTotal ''USD'' l0 l1"
    unfolding l1_def by (rule ledger_reach.reserve) simp
  moreover have "case map_of (lg_reservations l1) (trim_space ''a'') of None \<Rightarrow> False
      | Some r \<Rightarrow> use_dim DTotal (demo_usage 250 200 40 ''usd'') \<le> use_dim DTotal (rs_Usage r)"
    unfolding l1_def l0_def by code_simp
  then have "\<forall>r. map_of (lg_reservations l1) (trim_space ''a'') = Some r \<and> is_open r \<longrightarrow>
      use_dim DTotal (demo_usage 250 200 40 ''usd'') \<le> use_dim DTotal (rs_Usage r)" by auto
  ultimately have "ledger_reach id DTotal ''USD'' l0 (fst (Settle id 8 l1 ''a'' (demo_usage 250 200 40 ''usd'')))"
    by (rule ledger_reach.settle) simp
  moreover have "canonical id ''USD''" "lim_dim DTotal demo_budget = 1000"
    "use_dim DTotal (demo_usage 100 50 20 ''usd'') = 150" by code_simp+
  ultimately show ?thesis
    using ledger_never_overruns [where up = id and d = DTotal and c = "''USD''" and b = demo_budget
        and ?u0.0 = "demo_usage 100 50 20 ''usd''"] unfolding l1_def l0_def Let_def by fastforce
qed

text \<open>
  C20. \<open>Reserve\<close> is exact within bounds: for a fresh id that is not blank, limits up to \<open>2 ^ 53\<close>, committed
  plus reserved usage and the estimate each below \<open>2 ^ 62\<close> in every dimension, and all usage in one
  currency, the reservation is granted if and only if every set limit is above committed plus
  reserved plus estimated usage and the currency of the projection does not clash with that of the
  budget; a granted estimate is recorded as an open reservation, a refused one changes nothing.
\<close>

theorem Reserve_exact:
  assumes "trim_space i \<noteq> []" and "map_of (lg_reservations l) (trim_space i) = None"
    and "\<forall>d. lim_dim d (lg_budget l) \<le> 2 ^ 53" and "canonical up c"
    and "\<forall>d. use_dim d (lg_committed l) + open_sum d (lg_reservations l) < 2 ^ 62 \<and> use_dim d e < 2 ^ 62"
    and "in_currency up c (lg_committed l)" and "open_in up c (lg_reservations l)" and "in_currency up c e"
  shows "((\<exists>r. snd (snd (Reserve up now l i e)) = Inr r) \<longleftrightarrow>
      (\<forall>d. 0 < lim_dim d (lg_budget l) \<longrightarrow>
         use_dim d (lg_committed l) + open_sum d (lg_reservations l) + use_dim d e < lim_dim d (lg_budget l))
      \<and> \<not> currency_clash up (lg_budget l) (projectedLocked up l (Some (Normalize up e))))
    \<and> (case snd (snd (Reserve up now l i e)) of
          Inr r \<Rightarrow> fst (Reserve up now l i e) = l\<lparr>lg_reservations := AList.update (trim_space i) r (lg_reservations l)\<rparr>
            \<and> is_open r \<and> rs_Usage r = Normalize up e
        | Inl x \<Rightarrow> fst (Reserve up now l i e) = l \<and> x = ErrBudgetReservationDenied)"
proof -
  let ?p = "projectedLocked up l (Some (Normalize up e))"
  have p: "use_dim d ?p = use_dim d (lg_committed l) + open_sum d (lg_reservations l) + use_dim d e" for d
    using projected_dim [of d l up c "Normalize up e"] assms in_currency_Normalize by simp
  have "use_dim d ?p < 2 ^ 63" for d
  proof -
    have "use_dim d (lg_committed l) + open_sum d (lg_reservations l) < 2 ^ 62" "use_dim d e < 2 ^ 62"
      using assms(5) by blast+
    then show ?thesis unfolding p by simp
  qed
  then have hard: "bd_State (EvaluateBudget up (lg_budget l) ?p) = BudgetHard \<longleftrightarrow>
      currency_clash up (lg_budget l) ?p \<or> (\<exists>d. 0 < lim_dim d (lg_budget l) \<and> lim_dim d (lg_budget l) \<le> use_dim d ?p)"
    using assms(3) by (intro hard_iff) blast+
  have "(\<exists>r. snd (snd (Reserve up now l i e)) = Inr r) \<longleftrightarrow> bd_State (EvaluateBudget up (lg_budget l) ?p) \<noteq> BudgetHard"
    using assms(1,2) by (simp add: Reserve_def Let_def)
  then have grant: "(\<exists>r. snd (snd (Reserve up now l i e)) = Inr r) \<longleftrightarrow>
      (\<forall>d. 0 < lim_dim d (lg_budget l) \<longrightarrow>
         use_dim d (lg_committed l) + open_sum d (lg_reservations l) + use_dim d e < lim_dim d (lg_budget l))
      \<and> \<not> currency_clash up (lg_budget l) ?p"
    unfolding hard p not_le [symmetric] by blast
  have "case snd (snd (Reserve up now l i e)) of
      Inr r \<Rightarrow> fst (Reserve up now l i e) = l\<lparr>lg_reservations := AList.update (trim_space i) r (lg_reservations l)\<rparr>
        \<and> is_open r \<and> rs_Usage r = Normalize up e
    | Inl x \<Rightarrow> fst (Reserve up now l i e) = l \<and> x = ErrBudgetReservationDenied"
    using assms(1,2) by (auto simp: Reserve_def Let_def is_open_def)
  with grant show ?thesis by blast
qed

theorem Reserve_exact_witness:
  "let l = NewLedger id demo_budget (demo_usage 100 50 20 ''usd'') in
   (\<exists>r. snd (snd (Reserve id 7 l ''a'' (demo_usage 300 200 40 ''USD''))) = Inr r) \<and>
   \<not> (\<exists>r. snd (snd (Reserve id 7 l ''a'' (demo_usage 800 50 40 ''USD''))) = Inr r)"
proof -
  define l where "l = NewLedger id demo_budget (demo_usage 100 50 20 ''usd'')"
  have all_dims: "(\<forall>d. P d) \<longleftrightarrow> P DInput \<and> P DOutput \<and> P DTotal \<and> P DCost" for P
    by (metis dim.exhaust)
  note ex = Reserve_exact [of "''a''" l id "''USD''", where now = 7]
  have base: "trim_space ''a'' \<noteq> []" "map_of (lg_reservations l) (trim_space ''a'') = None"
    "canonical id ''USD''" "in_currency id ''USD'' (lg_committed l)" "open_in id ''USD'' (lg_reservations l)"
    "lg_reservations l = []" "lg_budget l = demo_budget"
    unfolding l_def by (code_simp, simp add: NewLedger_def, code_simp, code_simp, simp_all add: NewLedger_def open_in_def)
  have lims: "lim_dim DInput demo_budget = 0" "lim_dim DOutput demo_budget = 0" "lim_dim DTotal demo_budget = 1000"
    "lim_dim DCost demo_budget = 500" by code_simp+
  have uses: "use_dim DInput (lg_committed l) = 100" "use_dim DOutput (lg_committed l) = 50"
    "use_dim DTotal (lg_committed l) = 150" "use_dim DCost (lg_committed l) = 20"
    unfolding l_def by code_simp+
  have est: "use_dim DInput (demo_usage 300 200 40 ''USD'') = 300" "use_dim DOutput (demo_usage 300 200 40 ''USD'') = 200"
    "use_dim DTotal (demo_usage 300 200 40 ''USD'') = 500" "use_dim DCost (demo_usage 300 200 40 ''USD'') = 40"
    "use_dim DInput (demo_usage 800 50 40 ''USD'') = 800" "use_dim DOutput (demo_usage 800 50 40 ''USD'') = 50"
    "use_dim DTotal (demo_usage 800 50 40 ''USD'') = 850" "use_dim DCost (demo_usage 800 50 40 ''USD'') = 40"
    "in_currency id ''USD'' (demo_usage 300 200 40 ''USD'')" "in_currency id ''USD'' (demo_usage 800 50 40 ''USD'')"
    "\<not> currency_clash id demo_budget (projectedLocked id l (Some (Normalize id (demo_usage 300 200 40 ''USD''))))"
    unfolding l_def by code_simp+
  have "\<exists>r. snd (snd (Reserve id 7 l ''a'' (demo_usage 300 200 40 ''USD''))) = Inr r"
    using ex [of "demo_usage 300 200 40 ''USD''"] base
    by (simp add: all_dims lims uses est del: use_dim.simps lim_dim.simps)
  moreover have "\<not> (\<exists>r. snd (snd (Reserve id 7 l ''a'' (demo_usage 800 50 40 ''USD''))) = Inr r)"
    using ex [of "demo_usage 800 50 40 ''USD''"] base
    by (simp add: all_dims lims uses est del: use_dim.simps lim_dim.simps)
  ultimately show ?thesis unfolding l_def Let_def by blast
qed

definition demo_res :: "string \<Rightarrow> taskUsage \<Rightarrow> string \<times> reservation" where
  "demo_res k u = (k, \<lparr>rs_ID = k, rs_Usage = u, rs_State = ReservationOpen, rs_CreatedAt = 1, rs_UpdatedAt = 1\<rparr>)"

text \<open>
  What breaks the admission control. (1) The counters wrap: an estimate of \<open>2 ^ 63\<close> input
  tokens is counted as 0 and admitted under a limit of 1000. (2) The decision depends on the
  iteration order of the reservation map: a reservation that names another currency and costs
  nothing makes the sum \<open>MIXED\<close> when it comes first and leaves it alone when it comes last.
  (3) Usage in two currencies resets the accumulated cost to 0, so that a budget without a
  currency admits any cost afterwards.
\<close>

theorem ledger_gaps:
  "(bd_State (fst (snd (Reserve id 7 (NewLedger id demo_budget zero_usage) ''a''
      (zero_usage\<lparr>tu_Tokens := zero_tokens\<lparr>tb_System := 2 ^ 62, tb_Brain := 2 ^ 62\<rparr>\<rparr>)))) = BudgetWithin) \<and>
  (let l0 = NewLedger id demo_budget zero_usage;
       eur = demo_res ''a'' (demo_usage 0 0 0 ''EUR''); usd = demo_res ''b'' (demo_usage 0 0 10 ''USD'') in
   bd_State (ls_Decision (Snapshot id (l0\<lparr>lg_reservations := [eur, usd]\<rparr>))) = BudgetHard \<and>
   bd_State (ls_Decision (Snapshot id (l0\<lparr>lg_reservations := [usd, eur]\<rparr>))) = BudgetWithin) \<and>
  (let b = demo_budget\<lparr>bg_Currency := []\<rparr>;
       l0 = (NewLedger id b (demo_usage 0 0 499 ''USD''))\<lparr>lg_reservations := [demo_res ''a'' (demo_usage 0 0 0 [])]\<rparr>;
       l1 = fst (Settle id 8 l0 ''a'' (demo_usage 0 0 400 ''EUR'')) in
   tu_CostMicros (lg_committed l1) = 0 \<and> bd_State (ls_Decision (Snapshot id l1)) = BudgetWithin)"
  by (intro conjI) code_simp+

end
