(* ===== verification/TeamPlan.thy ===== *)
theory TeamPlan
  imports Usage GoText EventLog
begin

text \<open>
  Team planning (\<open>internal/orchestration/adaptive_scheduler.go\<close>, \<open>specialists.go\<close>): the tier of a
  task from its shape, the bounded team for the tier, and the admission of the whole team to the
  usage ledger before any member is dispatched. Counts of files and subsystems are integers.
\<close>

section \<open>Specialists\<close>

definition SpQuick :: string where "SpQuick = ''quick''"
definition SpInvestigator :: string where "SpInvestigator = ''investigator''"
definition SpImplementer :: string where "SpImplementer = ''implementer''"
definition SpTester :: string where "SpTester = ''tester''"
definition SpReviewer :: string where "SpReviewer = ''reviewer''"
definition SpSecurity :: string where "SpSecurity = ''security''"
definition SpDeep :: string where "SpDeep = ''deep''"

lemmas specialist_defs = SpQuick_def SpInvestigator_def SpImplementer_def SpTester_def SpReviewer_def
  SpSecurity_def SpDeep_def

record specialistPolicy =
  sp_Role :: string
  sp_EngineProfile :: string
  sp_ToolAllowlist :: "string list"
  sp_MaxDepth :: int
  sp_MaxConcurrentChildren :: int
  sp_TokenBudget :: i64
  sp_ReadOnly :: bool

definition mk_policy :: "string \<Rightarrow> string \<Rightarrow> string list \<Rightarrow> int \<Rightarrow> int \<Rightarrow> i64 \<Rightarrow> bool \<Rightarrow> string \<times> specialistPolicy" where
  "mk_policy role profile tools depth children tokens ro =
     (role, \<lparr>sp_Role = role, sp_EngineProfile = profile, sp_ToolAllowlist = tools, sp_MaxDepth = depth,
        sp_MaxConcurrentChildren = children, sp_TokenBudget = tokens, sp_ReadOnly = ro\<rparr>)"

definition DefaultSpecialistPolicies :: "(string \<times> specialistPolicy) list" where
  "DefaultSpecialistPolicies =
    [mk_policy SpQuick ''fast'' [''read'', ''search'', ''symbols''] 1 2 12000 True,
     mk_policy SpInvestigator ''balanced'' [''read'', ''search'', ''symbols'', ''git'', ''run''] 2 3 24000 True,
     mk_policy SpImplementer ''coding'' [''read'', ''search'', ''symbols'', ''edit'', ''git'', ''run''] 2 2 48000 False,
     mk_policy SpTester ''fast'' [''read'', ''run'', ''browser''] 1 1 16000 True,
     mk_policy SpReviewer ''reasoning'' [''read'', ''search'', ''git'', ''run''] 1 1 24000 True,
     mk_policy SpSecurity ''reasoning'' [''read'', ''search'', ''git'', ''run''] 1 1 32000 True,
     mk_policy SpDeep ''strong'' [''read'', ''search'', ''symbols'', ''edit'', ''git'', ''run'', ''browser''] 2 2 64000 False]"

definition zero_policy :: specialistPolicy where
  "zero_policy = \<lparr>sp_Role = [], sp_EngineProfile = [], sp_ToolAllowlist = [], sp_MaxDepth = 0,
     sp_MaxConcurrentChildren = 0, sp_TokenBudget = 0, sp_ReadOnly = False\<rparr>"

datatype delegationErr = ErrUnknownSpecialist | ErrDelegationDepth | ErrDelegationConcurrency

definition ValidateDelegation ::
  "(string \<times> specialistPolicy) list \<Rightarrow> string \<Rightarrow> int \<Rightarrow> int \<Rightarrow> delegationErr + specialistPolicy" where
  "ValidateDelegation policies role parentDepth activeChildren =
     (case map_of policies role of
        None \<Rightarrow> Inl ErrUnknownSpecialist
      | Some p \<Rightarrow>
          if parentDepth + 1 > sp_MaxDepth p then Inl ErrDelegationDepth
          else if activeChildren \<ge> sp_MaxConcurrentChildren p then Inl ErrDelegationConcurrency
          else Inr p)"

definition RecommendSpecialist :: "('z) goenv_scheme \<Rightarrow> string \<Rightarrow> int \<Rightarrow> bool \<Rightarrow> string" where
  "RecommendSpecialist G taskKind complexity securitySensitive =
     (if securitySensitive then SpSecurity
      else
        (let kind = to_lower G (trim_space taskKind) in
         if str_contains kind ''review'' then SpReviewer
         else if str_contains kind ''test'' \<or> str_contains kind ''verify'' then SpTester
         else if str_contains kind ''investig'' \<or> str_contains kind ''diagnos'' then SpInvestigator
         else if complexity \<ge> 4 then SpDeep
         else if str_contains kind ''implement'' \<or> str_contains kind ''fix'' \<or> str_contains kind ''refactor''
         then SpImplementer
         else SpQuick))"

section \<open>The plan\<close>

datatype taskTier = TaskTier0 | TaskTier1 | TaskTier2 | TaskTier3 | TaskTier4

record taskShape =
  sh_TaskKind :: string
  sh_FilesEstimated :: int
  sh_Subsystems :: int
  sh_Architectural :: bool
  sh_SecuritySensitive :: bool
  sh_NeedsProductVerification :: bool

record teamMember =
  tm_ID :: string
  tm_Role :: string
  tm_EngineProfile :: string
  tm_ReadOnly :: bool
  tm_TokenBudget :: i64
  tm_DependsOn :: "string list"
  tm_VerificationOnly :: bool

record teamPlan =
  tp_Tier :: taskTier
  tp_Members :: "teamMember list"
  tp_Parallelism :: int
  tp_Reason :: string

definition ClassifyTaskTier :: "('z) goenv_scheme \<Rightarrow> taskShape \<Rightarrow> taskTier" where
  "ClassifyTaskTier G sh =
     (let kind = to_lower G (trim_space (sh_TaskKind sh)) in
      if sh_Architectural sh \<or> sh_Subsystems sh \<ge> 4 \<or> sh_FilesEstimated sh \<ge> 12 then TaskTier4
      else if sh_SecuritySensitive sh \<or> sh_Subsystems sh \<ge> 3 \<or> sh_FilesEstimated sh \<ge> 7 \<or> str_contains kind ''migration''
      then TaskTier3
      else if sh_Subsystems sh \<ge> 2 \<or> sh_FilesEstimated sh \<ge> 3 \<or> str_contains kind ''refactor'' then TaskTier2
      else if sh_FilesEstimated sh \<le> 1 \<and> \<not> sh_NeedsProductVerification sh \<and> \<not> str_contains kind ''implement''
      then TaskTier0
      else TaskTier1)"

definition policy_of :: "(string \<times> specialistPolicy) list \<Rightarrow> string \<Rightarrow> specialistPolicy" where
  "policy_of policies role = (case map_of policies role of None \<Rightarrow> zero_policy | Some p \<Rightarrow> p)"

definition add_member ::
  "(string \<times> specialistPolicy) list \<Rightarrow> string \<Rightarrow> string \<Rightarrow> string list \<Rightarrow> teamMember" where
  "add_member policies mid role deps =
     (let p = policy_of policies role in
      \<lparr>tm_ID = mid, tm_Role = role, tm_EngineProfile = sp_EngineProfile p, tm_ReadOnly = sp_ReadOnly p,
       tm_TokenBudget = sp_TokenBudget p, tm_DependsOn = deps, tm_VerificationOnly = False\<rparr>)"

definition team_of ::
  "('z) goenv_scheme \<Rightarrow> (string \<times> specialistPolicy) list \<Rightarrow> taskShape \<Rightarrow> taskTier \<Rightarrow> teamMember list" where
  "team_of G ps sh tier =
     (case tier of
        TaskTier0 \<Rightarrow> [add_member ps ''lead'' SpQuick []]
      | TaskTier1 \<Rightarrow> [add_member ps ''lead'' (RecommendSpecialist G (sh_TaskKind sh) 2 (sh_SecuritySensitive sh)) []]
      | TaskTier2 \<Rightarrow> [add_member ps ''implement'' SpImplementer [], add_member ps ''review'' SpReviewer [''implement'']]
      | TaskTier3 \<Rightarrow>
          (let first = (if sh_SecuritySensitive sh then add_member ps ''security'' SpSecurity []
                        else add_member ps ''investigate'' SpInvestigator []) in
           [first, add_member ps ''implement'' SpImplementer [tm_ID first],
            add_member ps ''test'' SpTester [''implement''], add_member ps ''review'' SpReviewer [''implement'']])
      | TaskTier4 \<Rightarrow>
          [add_member ps ''investigate'' SpInvestigator [], add_member ps ''deep'' SpDeep [''investigate''],
           add_member ps ''implement'' SpImplementer [''investigate''], add_member ps ''test'' SpTester [''implement''],
           add_member ps ''review'' SpReviewer [''deep'', ''implement'']]
          @ (if sh_SecuritySensitive sh then [add_member ps ''security'' SpSecurity [''implement'']] else []))"

definition mark_testers :: "teamMember list \<Rightarrow> teamMember list" where
  "mark_testers ms = map (\<lambda>m. if tm_Role m = SpTester then m\<lparr>tm_VerificationOnly := True\<rparr> else m) ms"

definition PlanAdaptiveTeam ::
  "('z) goenv_scheme \<Rightarrow> taskShape \<Rightarrow> (string \<times> specialistPolicy) list option \<Rightarrow> teamPlan" where
  "PlanAdaptiveTeam G sh policies0 =
     (let ps = (case policies0 of None \<Rightarrow> DefaultSpecialistPolicies | Some p \<Rightarrow> p);
          tier = ClassifyTaskTier G sh;
          team = team_of G ps sh tier;
          p = policy_of ps SpTester;
          members =
            (if sh_NeedsProductVerification sh
             then mark_testers team @
               (if \<not> list_ex (\<lambda>m. tm_Role m = SpTester) team \<and> tier \<noteq> TaskTier0
                then [\<lparr>tm_ID = ''product-verify'', tm_Role = SpTester, tm_EngineProfile = sp_EngineProfile p,
                       tm_ReadOnly = True, tm_TokenBudget = sp_TokenBudget p, tm_DependsOn = [], tm_VerificationOnly = True\<rparr>]
                else [])
             else team) in
      \<lparr>tp_Tier = tier, tp_Members = members,
       tp_Parallelism = (if tier = TaskTier3 then 2 else if tier = TaskTier4 then 3 else 1),
       tp_Reason = ''bounded_adaptive_team''\<rparr>)"

section \<open>Admission of the team\<close>

definition member_key :: "string \<Rightarrow> teamMember \<Rightarrow> string" where
  "member_key task m = ''team:'' @ trim_space task @ '':'' @ tm_ID m"

definition member_estimate :: "string \<Rightarrow> teamMember \<Rightarrow> taskUsage" where
  "member_estimate task m = zero_usage\<lparr>tu_TaskID := task, tu_AgentID := tm_ID m,
     tu_Tokens := zero_tokens\<lparr>tb_Code := tm_TokenBudget m\<rparr>, tu_Estimated := True\<rparr>"

definition release_all :: "(string \<Rightarrow> string) \<Rightarrow> gotime \<Rightarrow> ledger \<Rightarrow> reservation list \<Rightarrow> ledger" where
  "release_all up now l rs = foldl (\<lambda>l r. fst (Release up now l (rs_ID r))) l rs"

fun reserve_members ::
  "(string \<Rightarrow> string) \<Rightarrow> gotime \<Rightarrow> string \<Rightarrow> ledger \<Rightarrow> reservation list \<Rightarrow> teamMember list
     \<Rightarrow> ledger \<times> (string + reservation list)" where
  "reserve_members up now task l acc [] = (l, Inr acc)"
| "reserve_members up now task l acc (m # ms) =
     (case Reserve up now l (member_key task m) (member_estimate task m) of
        (l', _, Inr r) \<Rightarrow> reserve_members up now task l' (acc @ [r]) ms
      | (l', _, Inl _) \<Rightarrow> (release_all up now l' acc, Inl (tm_ID m)))"

text \<open>All calls of one admission carry one time; the error names the refused member.\<close>

definition ReserveTeamBudget ::
  "(string \<Rightarrow> string) \<Rightarrow> gotime \<Rightarrow> ledger \<Rightarrow> string \<Rightarrow> teamPlan \<Rightarrow> ledger \<times> (string + reservation list)" where
  "ReserveTeamBudget up now l task plan = reserve_members up now task l [] (tp_Members plan)"

section \<open>Plans\<close>

text \<open>Every dependency names an earlier member, so members can run in list order.\<close>

fun ordered_deps :: "string list \<Rightarrow> teamMember list \<Rightarrow> bool" where
  "ordered_deps seen [] \<longleftrightarrow> True"
| "ordered_deps seen (m # ms) \<longleftrightarrow> list_all (\<lambda>d. d \<in> set seen) (tm_DependsOn m) \<and> ordered_deps (tm_ID m # seen) ms"

definition tier_rank :: "taskTier \<Rightarrow> nat" where
  "tier_rank t = (case t of TaskTier0 \<Rightarrow> 0 | TaskTier1 \<Rightarrow> 1 | TaskTier2 \<Rightarrow> 2 | TaskTier3 \<Rightarrow> 3 | TaskTier4 \<Rightarrow> 4)"

lemma add_member_simps [simp]:
  "tm_ID (add_member ps i r d) = i" "tm_Role (add_member ps i r d) = r"
  "tm_DependsOn (add_member ps i r d) = d" "tm_VerificationOnly (add_member ps i r d) = False"
  "tm_ReadOnly (add_member ps i r d) = sp_ReadOnly (policy_of ps r)"
  by (simp_all add: add_member_def Let_def)

lemma mark_testers_simps [simp]:
  "map tm_ID (mark_testers ms) = map tm_ID ms" "length (mark_testers ms) = length ms"
  "map tm_DependsOn (mark_testers ms) = map tm_DependsOn ms"
  by (simp_all add: mark_testers_def o_def if_distrib)

lemma ordered_deps_cong:
  "map tm_ID ms = map tm_ID ns \<Longrightarrow> map tm_DependsOn ms = map tm_DependsOn ns \<Longrightarrow> ordered_deps seen ms = ordered_deps seen ns"
proof (induction ms arbitrary: ns seen)
  case (Cons m ms)
  then obtain n ns' where ns: "ns = n # ns'" by (cases ns) simp_all
  with Cons.prems have h: "tm_ID m = tm_ID n" "tm_DependsOn m = tm_DependsOn n"
    "map tm_ID ms = map tm_ID ns'" "map tm_DependsOn ms = map tm_DependsOn ns'" by simp_all
  show ?case unfolding ns ordered_deps.simps h(1,2) Cons.IH [OF h(3,4)] ..
qed simp

lemma ordered_deps_append:
  "ordered_deps seen (ms @ ns) \<longleftrightarrow> ordered_deps seen ms \<and> ordered_deps (rev (map tm_ID ms) @ seen) ns"
  by (induction ms arbitrary: seen) auto

lemma team_of_wf:
  "distinct (map tm_ID (team_of G ps sh t)) \<and> ''product-verify'' \<notin> set (map tm_ID (team_of G ps sh t)) \<and>
   ordered_deps [] (team_of G ps sh t) \<and> team_of G ps sh t \<noteq> [] \<and> length (team_of G ps sh t) \<le> 6"
  by (cases t) (simp_all add: team_of_def Let_def)

section \<open>All or nothing\<close>

text \<open>\<open>rs\<close> are open reservations of the ledger, under distinct ids.\<close>

definition holds_open :: "ledger \<Rightarrow> reservation list \<Rightarrow> bool" where
  "holds_open l rs \<longleftrightarrow> distinct (map rs_ID rs) \<and>
     (\<forall>r \<in> set rs. trim_space (rs_ID r) = rs_ID r \<and> rs_ID r \<noteq> [] \<and> is_open r \<and> map_of (lg_reservations l) (rs_ID r) = Some r)"

text \<open>Nothing but the reservations under the ids \<open>ks\<close> differs.\<close>

definition same_but :: "string set \<Rightarrow> ledger \<Rightarrow> ledger \<Rightarrow> bool" where
  "same_but ks l l' \<longleftrightarrow> lg_budget l' = lg_budget l \<and> lg_committed l' = lg_committed l \<and>
     (\<forall>k. k \<notin> ks \<longrightarrow> map_of (lg_reservations l') k = map_of (lg_reservations l) k)"

definition res_sum :: "dim \<Rightarrow> reservation list \<Rightarrow> int" where
  "res_sum d rs = (\<Sum>r \<leftarrow> rs. use_dim d (rs_Usage r))"

lemma res_sum_simps [simp]:
  "res_sum d [] = 0" "res_sum d (r # rs) = use_dim d (rs_Usage r) + res_sum d rs"
  "res_sum d (rs @ ss) = res_sum d rs + res_sum d ss"
  by (simp_all add: res_sum_def)

lemma Release_open:
  assumes "map_of (lg_reservations l) (trim_space i) = Some r" and "is_open r" and "trim_space i \<noteq> []"
  shows "fst (Release up now l i) = l\<lparr>lg_reservations := AList.update (trim_space i)
    (r\<lparr>rs_State := ReservationReleased, rs_UpdatedAt := now\<rparr>) (lg_reservations l)\<rparr>"
  using assms by (simp add: Release_def Let_def)

lemma release_all_spec:
  assumes "holds_open l rs"
  shows "same_but (rs_ID ` set rs) l (release_all up now l rs) \<and>
    open_sum d (lg_reservations (release_all up now l rs)) = open_sum d (lg_reservations l) - res_sum d rs \<and>
    (\<forall>r \<in> set rs. \<exists>r'. map_of (lg_reservations (release_all up now l rs)) (rs_ID r) = Some r' \<and> \<not> is_open r')"
  using assms
proof (induction rs arbitrary: l)
  case Nil
  show ?case by (simp add: release_all_def same_but_def)
next
  case (Cons r rs)
  let ?c = "r\<lparr>rs_State := ReservationReleased, rs_UpdatedAt := now\<rparr>"
  have r: "trim_space (rs_ID r) = rs_ID r" "rs_ID r \<noteq> []" "is_open r" "map_of (lg_reservations l) (rs_ID r) = Some r"
    "rs_ID r \<notin> rs_ID ` set rs"
    using Cons.prems by (auto simp: holds_open_def)
  define l1 where "l1 = l\<lparr>lg_reservations := AList.update (rs_ID r) ?c (lg_reservations l)\<rparr>"
  have l1: "release_all up now l (r # rs) = release_all up now l1 rs"
    using Release_open [of l "rs_ID r" r up now] r by (simp add: release_all_def l1_def)
  have closed: "\<not> is_open ?c" by (simp add: is_open_def)
  have "holds_open l1 rs"
    using Cons.prems r(5) unfolding holds_open_def l1_def by (auto simp: image_iff)
  from Cons.IH [OF this] have IH: "same_but (rs_ID ` set rs) l1 (release_all up now l1 rs)"
    "open_sum d (lg_reservations (release_all up now l1 rs)) = open_sum d (lg_reservations l1) - res_sum d rs"
    "\<forall>r \<in> set rs. \<exists>r'. map_of (lg_reservations (release_all up now l1 rs)) (rs_ID r) = Some r' \<and> \<not> is_open r'"
    by blast+
  have "open_sum d (lg_reservations l1) = open_sum d (lg_reservations l) - use_dim d (rs_Usage r)"
    using open_sum_update_close [OF r(4,3) closed] by (simp add: l1_def)
  moreover have "same_but (rs_ID ` set (r # rs)) l (release_all up now l1 rs)"
    using IH(1) by (auto simp: same_but_def l1_def)
  moreover have "map_of (lg_reservations (release_all up now l1 rs)) (rs_ID r) = Some ?c"
    using IH(1) r(5) by (auto simp: same_but_def l1_def)
  ultimately show ?case using IH(2,3) closed unfolding l1 by auto
qed

lemma Reserve_granted:
  assumes "Reserve up now l i e = (l', dec, Inr r)"
  shows "l' = l\<lparr>lg_reservations := AList.update (trim_space i) r (lg_reservations l)\<rparr>"
    and "rs_ID r = trim_space i" and "trim_space i \<noteq> []" and "is_open r" and "rs_Usage r = Normalize up e"
    and "map_of (lg_reservations l) (trim_space i) = None"
  using assms by (cases rule: Reserve_cases [of up now l i e]; auto simp: is_open_def)+

lemma Reserve_refused: "Reserve up now l i e = (l', dec, Inl x) \<Longrightarrow> l' = l"
  by (cases rule: Reserve_cases [of up now l i e]) auto

definition member_res :: "(string \<Rightarrow> string) \<Rightarrow> string \<Rightarrow> teamMember \<Rightarrow> reservation \<Rightarrow> bool" where
  "member_res up task m r \<longleftrightarrow> rs_ID r = trim_space (member_key task m) \<and> rs_Usage r = Normalize up (member_estimate task m)"

lemma reserve_members_spec:
  assumes "reserve_members up now task l acc ms = (l', res)" and "holds_open l acc"
    and "same_but (rs_ID ` set acc) l0 l" and "\<forall>r \<in> set acc. map_of (lg_reservations l0) (rs_ID r) = None"
    and "open_sum d (lg_reservations l) = open_sum d (lg_reservations l0) + res_sum d acc"
  shows "case res of
      Inr rs \<Rightarrow> \<exists>new. rs = acc @ new \<and> list_all2 (member_res up task) ms new \<and> holds_open l' rs \<and>
        same_but (rs_ID ` set rs) l0 l' \<and> open_sum d (lg_reservations l') = open_sum d (lg_reservations l0) + res_sum d rs
    | Inl m \<Rightarrow> lg_budget l' = lg_budget l0 \<and> lg_committed l' = lg_committed l0 \<and>
        open_sum d (lg_reservations l') = open_sum d (lg_reservations l0) \<and>
        (\<forall>k r. is_open r \<longrightarrow> map_of (lg_reservations l') k = Some r \<longleftrightarrow> map_of (lg_reservations l0) k = Some r)"
  using assms
proof (induction ms arbitrary: l acc)
  case Nil
  then show ?case by auto
next
  case (Cons m ms)
  obtain l1 dec x where R: "Reserve up now l (member_key task m) (member_estimate task m) = (l1, dec, x)"
    by (metis prod_cases3)
  show ?case
  proof (cases x)
    case (Inl e)
    then have l1: "l1 = l" using R Reserve_refused by blast
    then have l': "l' = release_all up now l acc" "res = Inl (tm_ID m)"
      using Cons.prems(1) R Inl by simp_all
    note rel = release_all_spec [OF Cons.prems(2), of up now d]
    have "map_of (lg_reservations l') k = Some r \<longleftrightarrow> map_of (lg_reservations l0) k = Some r" if "is_open r" for k r
    proof (cases "k \<in> rs_ID ` set acc")
      case True
      then show ?thesis using rel Cons.prems(4) that l'(1) by fastforce
    next
      case False
      then show ?thesis using rel Cons.prems(3) l'(1) by (simp add: same_but_def)
    qed
    then show ?thesis using rel Cons.prems(3,5) l' by (simp add: same_but_def)
  next
    case (Inr r)
    note G = Reserve_granted [OF R [unfolded Inr]]
    let ?k = "trim_space (member_key task m)"
    have new: "?k \<notin> rs_ID ` set acc" using Cons.prems(2) G(6) by (force simp: holds_open_def)
    have h: "holds_open l1 (acc @ [r])"
      using Cons.prems(2) new G unfolding holds_open_def by (auto simp: image_iff)
    have s: "same_but (rs_ID ` set (acc @ [r])) l0 l1"
      using Cons.prems(3) G(1,2) by (auto simp: same_but_def)
    have fresh: "\<forall>r \<in> set (acc @ [r]). map_of (lg_reservations l0) (rs_ID r) = None"
      using Cons.prems(3,4) G(2,6) new by (auto simp: same_but_def)
    have o: "open_sum d (lg_reservations l1) = open_sum d (lg_reservations l0) + res_sum d (acc @ [r])"
      using open_sum_update_new [OF G(6), of d r] Cons.prems(5) G(1,4) by simp
    have nx: "reserve_members up now task l1 (acc @ [r]) ms = (l', res)" using Cons.prems(1) R Inr by simp
    have "member_res up task m r" using G(2,5) by (simp add: member_res_def)
    then show ?thesis using Cons.IH [OF nx h s fresh o] by (force split: sum.splits)
  qed
qed

section \<open>The properties\<close>

text \<open>
  Every plan is runnable: its members have distinct ids, every dependency names an earlier
  member (so the members form an acyclic graph and the first one can start), there are between one
  and seven of them, and the parallelism is between 1 and 3.
\<close>

theorem PlanAdaptiveTeam_wf:
  "let p = PlanAdaptiveTeam G sh policies; ms = tp_Members p in
   distinct (map tm_ID ms) \<and> ordered_deps [] ms \<and> tm_DependsOn (hd ms) = [] \<and>
   1 \<le> length ms \<and> length ms \<le> 7 \<and> 1 \<le> tp_Parallelism p \<and> tp_Parallelism p \<le> 3 \<and>
   tp_Tier p = ClassifyTaskTier G sh"
proof -
  define ps where "ps = (case policies of None \<Rightarrow> DefaultSpecialistPolicies | Some p \<Rightarrow> p)"
  define team where "team = team_of G ps sh (ClassifyTaskTier G sh)"
  define extra where "extra = (if \<not> list_ex (\<lambda>m. tm_Role m = SpTester) team \<and> ClassifyTaskTier G sh \<noteq> TaskTier0
    then [\<lparr>tm_ID = ''product-verify'', tm_Role = SpTester, tm_EngineProfile = sp_EngineProfile (policy_of ps SpTester),
      tm_ReadOnly = True, tm_TokenBudget = sp_TokenBudget (policy_of ps SpTester), tm_DependsOn = [],
      tm_VerificationOnly = True\<rparr>] else [])"
  define ms where "ms = (if sh_NeedsProductVerification sh then mark_testers team @ extra else team)"
  have p: "PlanAdaptiveTeam G sh policies = \<lparr>tp_Tier = ClassifyTaskTier G sh, tp_Members = ms,
      tp_Parallelism = (if ClassifyTaskTier G sh = TaskTier3 then 2 else if ClassifyTaskTier G sh = TaskTier4 then 3 else 1),
      tp_Reason = ''bounded_adaptive_team''\<rparr>"
    unfolding PlanAdaptiveTeam_def Let_def ms_def extra_def team_def ps_def by (rule refl)
  have wf: "distinct (map tm_ID team)" "''product-verify'' \<notin> set (map tm_ID team)" "ordered_deps [] team"
    "team \<noteq> []" "length team \<le> 6"
    using team_of_wf [of G ps sh "ClassifyTaskTier G sh"] by (simp_all add: team_def)
  have mt: "ordered_deps [] (mark_testers team)"
    using wf(3) ordered_deps_cong [of "mark_testers team" team "[]"] by simp
  have ids: "set (map tm_ID (mark_testers team)) = set (map tm_ID team)" by simp
  have ex: "extra = [] \<or> (\<exists>x. extra = [x] \<and> tm_ID x = ''product-verify'' \<and> tm_DependsOn x = [])"
    by (simp add: extra_def)
  have "distinct (map tm_ID ms)" using ex
  proof (elim disjE exE)
    fix x assume "extra = [x] \<and> tm_ID x = ''product-verify'' \<and> tm_DependsOn x = []"
    moreover have "tm_ID m \<noteq> ''product-verify''" if "m \<in> set (mark_testers team)" for m
      using that wf(2) ids by (metis image_eqI list.set_map)
    ultimately show ?thesis using wf(1,2) mark_testers_simps(1) [of team]
      by (auto simp: ms_def simp del: mark_testers_simps)
  qed (use wf(1) in \<open>simp add: ms_def\<close>)
  moreover have ord: "ordered_deps [] ms" using wf(3) mt ex by (elim disjE) (auto simp: ms_def ordered_deps_append)
  moreover have ne: "ms \<noteq> []" using wf(4) by (auto simp: ms_def mark_testers_def)
  moreover have "length ms \<le> 7" using wf(5) ex by (elim disjE) (auto simp: ms_def)
  moreover have "tm_DependsOn (hd ms) = []" using ord ne by (cases ms) (auto simp: list_all_iff)
  ultimately show ?thesis unfolding p Let_def by (simp add: Suc_le_eq)
qed

text \<open>
  The tier grows with the task: more files, more subsystems, or setting the architectural or
  security flag never lowers it.
\<close>

theorem ClassifyTaskTier_mono:
  assumes "sh_FilesEstimated a \<le> sh_FilesEstimated b" and "sh_Subsystems a \<le> sh_Subsystems b"
    and "sh_Architectural a \<longrightarrow> sh_Architectural b" and "sh_SecuritySensitive a \<longrightarrow> sh_SecuritySensitive b"
    and "sh_NeedsProductVerification a \<longrightarrow> sh_NeedsProductVerification b" and "sh_TaskKind b = sh_TaskKind a"
  shows "tier_rank (ClassifyTaskTier G a) \<le> tier_rank (ClassifyTaskTier G b)"
  using assms by (auto simp: ClassifyTaskTier_def Let_def tier_rank_def)

definition demo_shape :: "string \<Rightarrow> int \<Rightarrow> int \<Rightarrow> bool \<Rightarrow> taskShape" where
  "demo_shape kind files subs verify = \<lparr>sh_TaskKind = kind, sh_FilesEstimated = files, sh_Subsystems = subs,
     sh_Architectural = False, sh_SecuritySensitive = False, sh_NeedsProductVerification = verify\<rparr>"

theorem ClassifyTaskTier_mono_witness:
  "tier_rank (ClassifyTaskTier demo_env (demo_shape ''fix'' 2 1 False)) \<le> tier_rank (ClassifyTaskTier demo_env (demo_shape ''fix'' 8 2 True))"
  by (rule ClassifyTaskTier_mono) (simp_all add: demo_shape_def)

text \<open>
  C25. Team admission is all or nothing: when every member is granted, each has exactly one new open
  reservation under its key with its token budget; when one is refused, the budget, the committed
  usage and the set of open reservations are what they were before.
\<close>

theorem ReserveTeamBudget_all_or_nothing:
  "case ReserveTeamBudget up now l task plan of (l', res) \<Rightarrow>
     lg_budget l' = lg_budget l \<and> lg_committed l' = lg_committed l \<and>
     (case res of
        Inr rs \<Rightarrow> list_all2 (member_res up task) (tp_Members plan) rs \<and> holds_open l' rs \<and> same_but (rs_ID ` set rs) l l' \<and>
          open_sum d (lg_reservations l') = open_sum d (lg_reservations l) + res_sum d rs
      | Inl m \<Rightarrow> open_sum d (lg_reservations l') = open_sum d (lg_reservations l) \<and>
          (\<forall>k. \<forall>r \<in> Collect is_open. map_of (lg_reservations l') k = Some r \<longleftrightarrow> map_of (lg_reservations l) k = Some r))"
proof -
  obtain l' res where r: "reserve_members up now task l [] (tp_Members plan) = (l', res)" by fastforce
  have "holds_open l []" "same_but (rs_ID ` set []) l l" by (simp_all add: holds_open_def same_but_def)
  from reserve_members_spec [OF r this, of d] show ?thesis
    by (cases res) (auto simp: ReserveTeamBudget_def r same_but_def)
qed

definition demo_team :: "i64 \<Rightarrow> i64 \<Rightarrow> teamPlan" where
  "demo_team a b = \<lparr>tp_Tier = TaskTier2, tp_Members =
     [(add_member [] ''implement'' SpImplementer [])\<lparr>tm_TokenBudget := a\<rparr>,
      (add_member [] ''review'' SpReviewer [''implement''])\<lparr>tm_TokenBudget := b\<rparr>], tp_Parallelism = 1, tp_Reason = []\<rparr>"

theorem ReserveTeamBudget_all_or_nothing_witness:
  "case ReserveTeamBudget id 7 (NewLedger id demo_budget zero_usage) ''t'' (demo_team 600 500) of
     (l', res) \<Rightarrow> res = Inl ''review'' \<and> open_sum DTotal (lg_reservations l') = 0"
proof -
  let ?R = "ReserveTeamBudget id 7 (NewLedger id demo_budget zero_usage) ''t'' (demo_team 600 500)"
  have "case snd ?R of Inl m \<Rightarrow> m = ''review'' | Inr _ \<Rightarrow> False" by code_simp
  moreover have "open_sum DTotal (lg_reservations (NewLedger id demo_budget zero_usage)) = 0"
    by (simp add: NewLedger_def)
  ultimately show ?thesis
    using ReserveTeamBudget_all_or_nothing [where up = id and now = 7 and
        l = "NewLedger id demo_budget zero_usage" and task = "''t''" and plan = "demo_team 600 500" and d = DTotal]
    by (cases ?R) (auto split: sum.splits)
qed

text \<open>
  The rollback leaves the released reservations in the ledger, so the same team can never be
  admitted again: after a refusal of the second member, a retry is refused at the first one, even
  for a plan that would fit.
\<close>

theorem ReserveTeamBudget_retry_denied:
  "let l1 = fst (ReserveTeamBudget id 7 (NewLedger id demo_budget zero_usage) ''t'' (demo_team 600 500)) in
   (case snd (ReserveTeamBudget id 9 l1 ''t'' (demo_team 10 10)) of Inl m \<Rightarrow> m = ''implement'' | Inr _ \<Rightarrow> False) \<and>
   (case snd (ReserveTeamBudget id 9 (NewLedger id demo_budget zero_usage) ''t'' (demo_team 10 10)) of
      Inl _ \<Rightarrow> False | Inr _ \<Rightarrow> True)"
  by (intro conjI | code_simp)+

text \<open>
  Two gaps of the plans: in tier 2 the member that verifies the product depends on nobody, so it
  may run before the implementation; and a tier 1 task whose kind mentions tests is given to a
  single read-only tester, so that nobody may write.
\<close>

theorem PlanAdaptiveTeam_gaps:
  "map (\<lambda>m. (tm_ID m, tm_DependsOn m, tm_VerificationOnly m))
     (tp_Members (PlanAdaptiveTeam demo_env (demo_shape ''fix'' 4 1 True) None))
     = [(''implement'', [], False), (''review'', [''implement''], False), (''product-verify'', [], True)] \<and>
   map (\<lambda>m. (tm_ID m, tm_ReadOnly m)) (tp_Members (PlanAdaptiveTeam demo_env (demo_shape ''implement tests'' 2 1 False) None))
     = [(''lead'', True)]"
  by code_simp

end
