(* ===== verification/TaskExec.thy ===== *)
theory TaskExec
  imports Interfaces
begin

text \<open>
  The durable execution bundles of tasks, \<open>internal/taskexecution\<close>: the store with its revisions and leases
  (\<open>store.go\<close>, \<open>types.go\<close>), the runtime generation (\<open>generation.go\<close>), the host lifecycle
  (\<open>runtime_lifecycle.go\<close>) and the resume snapshot (\<open>task_resume.go\<close>). The manager that composes them is in
  the theory \<open>ExecManager\<close>.

  A bundle is one JSON file that is replaced by a rename, so the directory of the store is a map from the
  digests of workspace and task to bundles. Each call takes the clock it reads and an \<open>exec_io\<close>: how reading
  and writing the file went.
\<close>

section \<open>Types\<close>

abbreviation "ProviderLocalWorktree \<equiv> ''local_worktree''"
abbreviation "ProviderActiveCheckout \<equiv> ''active_checkout''"
abbreviation "RuntimeV1 \<equiv> ''v1''"
abbreviation "RuntimeV2 \<equiv> ''v2''"
abbreviation "StatePreparing \<equiv> ''preparing''"
abbreviation "StateReady \<equiv> ''ready''"

record repository_binding =
  rb_id :: string
  rb_path :: string
  rb_revision :: string
  rb_dirty :: bool
  rb_fingerprint :: string
  rb_branch :: string
  rb_binding :: string
  rb_local :: string

record exec_lease =
  el_owner :: string
  el_gen :: u64
  el_expires :: gotime

record exec_bundle =
  eb_schema :: int
  eb_id :: string
  eb_rev :: u64
  eb_task :: string
  eb_project :: string
  eb_wsid :: string
  eb_ws :: string
  eb_provider :: string
  eb_runtime :: string
  eb_state :: string
  eb_bindings :: "repository_binding list"
  eb_lease :: exec_lease
  eb_created :: gotime
  eb_updated :: gotime

datatype exec_error =
    ErrTaskRequired | ErrProviderRequired | ErrOwnerRequired | ErrLeaseHeld | ErrLeaseGeneration
  | ErrRevisionConflict | ErrNotExist | ErrExecutionProviderMismatch | ErrRepositoryCoverageChanged
  | ErrBindingUnavailable | ErrActiveCheckoutBusy | ErrWorktreeLimitReached | ErrCheckoutIdentity
  | ErrRepositoryRequired | ExecIO string

record exec_io =
  xi_read :: "string option"
  xi_write :: write_outcome

definition exec_ok_io :: exec_io where
  "exec_ok_io = \<lparr>xi_read = None, xi_write = WOk\<rparr>"

type_synonym exec_path = "string \<times> string"
type_synonym exec_fs = "exec_path \<Rightarrow> exec_bundle option"

definition EffectiveRuntimeGeneration :: "exec_bundle \<Rightarrow> string" where
  "EffectiveRuntimeGeneration b = (if eb_runtime b = RuntimeV2 then RuntimeV2 else RuntimeV1)"

section \<open>Files\<close>

text \<open>\<open>digestKey\<close>: each part is trimmed and closed by a zero byte; the digest is cut at 24 digits.\<close>

definition digestKey :: "('z) goenv_scheme \<Rightarrow> string list \<Rightarrow> string" where
  "digestKey G parts = take 24 (sha256hex G (concat (map (\<lambda>p. trim_space p @ [CHR 0x00]) parts)))"

definition bundlePath :: "('z) goenv_scheme \<Rightarrow> string \<Rightarrow> string \<Rightarrow> exec_path" where
  "bundlePath G ws task = (digestKey G [''workspace'', ws], digestKey G [''task'', task])"

definition validateBundle :: "exec_bundle \<Rightarrow> exec_error option" where
  "validateBundle b =
     (if trim_space (eb_task b) = [] \<or> trim_space (eb_ws b) = [] then Some ErrTaskRequired
      else if eb_provider b = [] then Some ErrProviderRequired else None)"

definition normalizedRevision :: "exec_bundle \<Rightarrow> u64" where
  "normalizedRevision b = (if eb_rev b = 0 then 1 else eb_rev b)"

text \<open>What the JSON file of a bundle decodes to.\<close>

definition coerce_binding :: "repository_binding \<Rightarrow> repository_binding" where
  "coerce_binding r = r\<lparr>rb_id := utf8_coerce (rb_id r), rb_path := utf8_coerce (rb_path r),
     rb_revision := utf8_coerce (rb_revision r), rb_fingerprint := utf8_coerce (rb_fingerprint r),
     rb_branch := utf8_coerce (rb_branch r), rb_binding := utf8_coerce (rb_binding r),
     rb_local := utf8_coerce (rb_local r)\<rparr>"

definition coerce_bundle :: "exec_bundle \<Rightarrow> exec_bundle" where
  "coerce_bundle b = b\<lparr>eb_id := utf8_coerce (eb_id b), eb_task := utf8_coerce (eb_task b),
     eb_project := utf8_coerce (eb_project b), eb_wsid := utf8_coerce (eb_wsid b), eb_ws := utf8_coerce (eb_ws b),
     eb_provider := utf8_coerce (eb_provider b), eb_runtime := utf8_coerce (eb_runtime b),
     eb_state := utf8_coerce (eb_state b), eb_bindings := map coerce_binding (eb_bindings b),
     eb_lease := (eb_lease b)\<lparr>el_owner := utf8_coerce (el_owner (eb_lease b))\<rparr>\<rparr>"

text \<open>\<open>readBundle\<close>: \<open>Inr None\<close> is a file that does not exist.\<close>

definition readBundle :: "exec_io \<Rightarrow> exec_path \<Rightarrow> exec_fs \<Rightarrow> exec_error + exec_bundle option" where
  "readBundle io p fs =
     (case xi_read io of
        Some e \<Rightarrow> Inl (ExecIO e)
      | None \<Rightarrow>
          (case fs p of
             None \<Rightarrow> Inr None
           | Some b \<Rightarrow> Inr (Some (b\<lparr>eb_rev := normalizedRevision b\<rparr>))))"

text \<open>
  \<open>state.WriteJSONAtomic\<close>: a temporary file renamed over the target, then a \<open>Chmod\<close> that may still report an
  error (\<open>WUnsynced\<close>). A failed write leaves the old file.
\<close>

definition writeBundle :: "exec_io \<Rightarrow> exec_path \<Rightarrow> exec_bundle \<Rightarrow> exec_fs \<Rightarrow> exec_fs \<times> (exec_error + exec_bundle)" where
  "writeBundle io p b fs =
     (case xi_write io of
        WOk \<Rightarrow> (fs(p \<mapsto> coerce_bundle b), Inr b)
      | WUnsynced e \<Rightarrow> (fs(p \<mapsto> coerce_bundle b), Inl (ExecIO e))
      | WLost e \<Rightarrow> (fs, Inl (ExecIO e))
      | WTorn e \<Rightarrow> (fs, Inl (ExecIO e)))"

definition prepareBundle :: "('z) goenv_scheme \<Rightarrow> exec_bundle \<Rightarrow> exec_bundle option \<Rightarrow> gotime \<Rightarrow> exec_bundle" where
  "prepareBundle G b existing now =
     b\<lparr>eb_schema := (if eb_schema b = 0 then 1 else eb_schema b),
       eb_id := (if eb_id b = []
                 then (case existing of
                         Some x \<Rightarrow> if eb_id x \<noteq> [] then eb_id x else ''exec_'' @ digestKey G [eb_ws b, eb_task b]
                       | None \<Rightarrow> ''exec_'' @ digestKey G [eb_ws b, eb_task b])
                 else eb_id b),
       eb_created := (if eb_created b = 0
                      then (case existing of Some x \<Rightarrow> if eb_created x \<noteq> 0 then eb_created x else now | None \<Rightarrow> now)
                      else eb_created b),
       eb_rev := (case existing of None \<Rightarrow> 1 | Some x \<Rightarrow> normalizedRevision x + 1),
       eb_updated := now\<rparr>"

section \<open>The store\<close>

definition Store_Put ::
  "('z) goenv_scheme \<Rightarrow> gotime \<Rightarrow> exec_io \<Rightarrow> exec_bundle \<Rightarrow> exec_fs \<Rightarrow> exec_fs \<times> (exec_error + exec_bundle)" where
  "Store_Put G now io b fs =
     (case validateBundle b of
        Some e \<Rightarrow> (fs, Inl e)
      | None \<Rightarrow>
          let p = bundlePath G (eb_ws b) (eb_task b) in
          (case readBundle io p fs of
             Inl e \<Rightarrow> (fs, Inl e)
           | Inr existing \<Rightarrow> writeBundle io p (prepareBundle G b existing now) fs))"

definition Store_PutCAS ::
  "('z) goenv_scheme \<Rightarrow> gotime \<Rightarrow> exec_io \<Rightarrow> exec_bundle \<Rightarrow> u64 \<Rightarrow> exec_fs \<Rightarrow> exec_fs \<times> (exec_error + exec_bundle)" where
  "Store_PutCAS G now io b expected fs =
     (case validateBundle b of
        Some e \<Rightarrow> (fs, Inl e)
      | None \<Rightarrow>
          let p = bundlePath G (eb_ws b) (eb_task b) in
          (case readBundle io p fs of
             Inl e \<Rightarrow> (fs, Inl e)
           | Inr None \<Rightarrow>
               if expected \<noteq> 0 then (fs, Inl ErrRevisionConflict)
               else writeBundle io p (prepareBundle G b None now) fs
           | Inr (Some x) \<Rightarrow>
               if normalizedRevision x \<noteq> expected then (fs, Inl ErrRevisionConflict)
               else writeBundle io p (prepareBundle G b (Some x) now) fs))"

definition Store_Get ::
  "('z) goenv_scheme \<Rightarrow> exec_io \<Rightarrow> string \<Rightarrow> string \<Rightarrow> exec_fs \<Rightarrow> exec_error + exec_bundle option" where
  "Store_Get G io ws task fs = readBundle io (bundlePath G ws task) fs"

text \<open>\<open>os.Remove\<close> either removes the file, finds none, or fails.\<close>

definition Store_Delete ::
  "('z) goenv_scheme \<Rightarrow> string option \<Rightarrow> string \<Rightarrow> string \<Rightarrow> exec_fs \<Rightarrow> exec_fs \<times> exec_error option" where
  "Store_Delete G io ws task fs =
     (case io of
        Some e \<Rightarrow> (fs, Some (ExecIO e))
      | None \<Rightarrow> (fs(bundlePath G ws task := None), None))"

definition default_ttl :: "int \<Rightarrow> int" where
  "default_ttl ttl = (if ttl \<le> 0 then 15 * minute_ns else ttl)"

definition Store_Claim ::
  "('z) goenv_scheme \<Rightarrow> gotime \<Rightarrow> exec_io \<Rightarrow> string \<Rightarrow> string \<Rightarrow> string \<Rightarrow> int \<Rightarrow> exec_fs
     \<Rightarrow> exec_fs \<times> (exec_error + exec_bundle)" where
  "Store_Claim G now io ws task owner0 ttl fs =
     (let owner = trim_space owner0; p = bundlePath G ws task in
      if owner = [] then (fs, Inl ErrOwnerRequired)
      else case readBundle io p fs of
        Inl e \<Rightarrow> (fs, Inl e)
      | Inr None \<Rightarrow> (fs, Inl ErrNotExist)
      | Inr (Some b) \<Rightarrow>
          let l = eb_lease b in
          if el_owner l \<noteq> [] \<and> el_owner l \<noteq> owner \<and> now < el_expires l then (fs, Inl ErrLeaseHeld)
          else
            let g = (if el_gen l + 1 = 0 then 1 else el_gen l + 1) in
            writeBundle io p
              (b\<lparr>eb_lease := \<lparr>el_owner = owner, el_gen = g, el_expires = now + default_ttl ttl\<rparr>,
                 eb_rev := normalizedRevision b + 1, eb_updated := now\<rparr>) fs)"

text \<open>Release and ReleaseLease clear the owner and the expiry and keep the generation.\<close>

definition drop_lease :: "gotime \<Rightarrow> exec_bundle \<Rightarrow> exec_bundle" where
  "drop_lease now b =
     b\<lparr>eb_lease := (eb_lease b)\<lparr>el_owner := [], el_expires := 0\<rparr>, eb_rev := normalizedRevision b + 1,
       eb_updated := now\<rparr>"

definition Store_Release ::
  "('z) goenv_scheme \<Rightarrow> gotime \<Rightarrow> exec_io \<Rightarrow> string \<Rightarrow> string \<Rightarrow> string \<Rightarrow> exec_fs
     \<Rightarrow> exec_fs \<times> (exec_error + exec_bundle)" where
  "Store_Release G now io ws task owner0 fs =
     (let p = bundlePath G ws task in
      case readBundle io p fs of
        Inl e \<Rightarrow> (fs, Inl e)
      | Inr None \<Rightarrow> (fs, Inl ErrNotExist)
      | Inr (Some b) \<Rightarrow>
          if el_owner (eb_lease b) \<noteq> [] \<and> el_owner (eb_lease b) \<noteq> trim_space owner0 then (fs, Inl ErrLeaseHeld)
          else writeBundle io p (drop_lease now b) fs)"

definition Store_ReleaseLease ::
  "('z) goenv_scheme \<Rightarrow> gotime \<Rightarrow> exec_io \<Rightarrow> string \<Rightarrow> string \<Rightarrow> string \<Rightarrow> u64 \<Rightarrow> exec_fs
     \<Rightarrow> exec_fs \<times> (exec_error + exec_bundle)" where
  "Store_ReleaseLease G now io ws task owner0 gen fs =
     (let p = bundlePath G ws task in
      case readBundle io p fs of
        Inl e \<Rightarrow> (fs, Inl e)
      | Inr None \<Rightarrow> (fs, Inl ErrNotExist)
      | Inr (Some b) \<Rightarrow>
          if el_owner (eb_lease b) \<noteq> trim_space owner0 then (fs, Inl ErrLeaseHeld)
          else if gen = 0 \<or> el_gen (eb_lease b) \<noteq> gen then (fs, Inl ErrLeaseGeneration)
          else writeBundle io p (drop_lease now b) fs)"

section \<open>Runtime generation\<close>

record runtime_rollout =
  ro_enabled :: bool
  ro_percent :: int
  ro_force1 :: bool
  ro_force2 :: bool

text \<open>\<open>binary.BigEndian.Uint32(sum[:4])\<close> read off the first eight hexadecimal digits of the digest.\<close>

definition hex_digit :: "char \<Rightarrow> int" where
  "hex_digit c = (if (97::int) \<le> of_char c then of_char c - 87 else of_char c - 48)"

definition hex_val :: "string \<Rightarrow> int" where
  "hex_val s = foldl (\<lambda>a c. 16 * a + hex_digit c) 0 s"

definition rollout_bucket :: "('z) goenv_scheme \<Rightarrow> string \<Rightarrow> int" where
  "rollout_bucket G task = hex_val (take 8 (sha256hex G task)) mod 100"

text \<open>\<open>ErrInvalidRuntimeGeneration\<close> is \<open>None\<close>.\<close>

definition SelectRuntimeGeneration :: "('z) goenv_scheme \<Rightarrow> string \<Rightarrow> runtime_rollout \<Rightarrow> string option" where
  "SelectRuntimeGeneration G task0 r =
     (let task = trim_space task0 in
      if task = [] \<or> ro_percent r < 0 \<or> ro_percent r > 100 \<or> (ro_force1 r \<and> ro_force2 r) then None
      else if ro_force1 r \<or> \<not> ro_enabled r then Some RuntimeV1
      else if ro_force2 r then Some RuntimeV2
      else if ro_percent r = 0 then Some RuntimeV1
      else if ro_percent r = 100 then Some RuntimeV2
      else if rollout_bucket G task < ro_percent r then Some RuntimeV2
      else Some RuntimeV1)"

definition PinRuntimeGeneration :: "exec_bundle \<Rightarrow> string \<Rightarrow> exec_bundle option" where
  "PinRuntimeGeneration b g =
     (if g \<noteq> RuntimeV1 \<and> g \<noteq> RuntimeV2 then None
      else if eb_runtime b \<noteq> [] \<and> eb_runtime b \<noteq> g then None
      else Some (b\<lparr>eb_runtime := g\<rparr>))"

section \<open>Host lifecycle\<close>

abbreviation "LifecycleCold \<equiv> ''cold''"
abbreviation "LifecycleProvisioning \<equiv> ''provisioning''"
abbreviation "LifecycleReady \<equiv> ''ready''"
abbreviation "LifecycleActive \<equiv> ''active''"
abbreviation "LifecycleIdle \<equiv> ''idle''"
abbreviation "LifecycleCheckpointed \<equiv> ''checkpointed''"
abbreviation "LifecycleSleeping \<equiv> ''sleeping''"
abbreviation "LifecycleTerminated \<equiv> ''terminated''"

datatype lifecycle_error = ErrInvalidLifecycleTransition | ErrLifecycleSleepUnsafe

record runtime_lifecycle =
  lc_state :: string
  lc_digest :: string

definition lifecycle_next :: "string \<Rightarrow> string list" where
  "lifecycle_next s =
     (if s = LifecycleCold then [LifecycleProvisioning, LifecycleTerminated]
      else if s = LifecycleProvisioning then [LifecycleReady, LifecycleTerminated]
      else if s = LifecycleReady then [LifecycleActive, LifecycleTerminated]
      else if s = LifecycleActive then [LifecycleIdle, LifecycleCheckpointed, LifecycleTerminated]
      else if s = LifecycleIdle then [LifecycleActive, LifecycleCheckpointed, LifecycleTerminated]
      else if s = LifecycleCheckpointed then [LifecycleIdle, LifecycleSleeping, LifecycleTerminated]
      else if s = LifecycleSleeping then [LifecycleReady, LifecycleTerminated]
      else [])"

definition lc_transition :: "runtime_lifecycle \<Rightarrow> string \<Rightarrow> lifecycle_error + runtime_lifecycle" where
  "lc_transition l to =
     (if to \<in> set (lifecycle_next (lc_state l)) then Inr (l\<lparr>lc_state := to\<rparr>) else Inl ErrInvalidLifecycleTransition)"

definition Provision :: "runtime_lifecycle \<Rightarrow> lifecycle_error + runtime_lifecycle" where
  "Provision l = lc_transition l LifecycleProvisioning"

definition MarkReady :: "runtime_lifecycle \<Rightarrow> lifecycle_error + runtime_lifecycle" where
  "MarkReady l =
     (case lc_transition l LifecycleReady of Inl e \<Rightarrow> Inl e | Inr n \<Rightarrow> Inr (n\<lparr>lc_digest := []\<rparr>))"

definition Activate :: "runtime_lifecycle \<Rightarrow> lifecycle_error + runtime_lifecycle" where
  "Activate l = lc_transition l LifecycleActive"

definition MarkIdle :: "runtime_lifecycle \<Rightarrow> lifecycle_error + runtime_lifecycle" where
  "MarkIdle l = lc_transition l LifecycleIdle"

definition Checkpoint :: "runtime_lifecycle \<Rightarrow> string \<Rightarrow> lifecycle_error + runtime_lifecycle" where
  "Checkpoint l d =
     (if trim_space d = [] then Inl ErrInvalidLifecycleTransition
      else case lc_transition l LifecycleCheckpointed of
        Inl e \<Rightarrow> Inl e
      | Inr n \<Rightarrow> Inr (n\<lparr>lc_digest := trim_space d\<rparr>))"

definition Sleep :: "runtime_lifecycle \<Rightarrow> lifecycle_error + runtime_lifecycle" where
  "Sleep l =
     (if trim_space (lc_digest l) = [] then Inl ErrLifecycleSleepUnsafe else lc_transition l LifecycleSleeping)"

definition Wake :: "runtime_lifecycle \<Rightarrow> lifecycle_error + runtime_lifecycle" where
  "Wake l =
     (case lc_transition l LifecycleReady of Inl e \<Rightarrow> Inl e | Inr n \<Rightarrow> Inr (n\<lparr>lc_digest := []\<rparr>))"

definition Terminate :: "runtime_lifecycle \<Rightarrow> lifecycle_error + runtime_lifecycle" where
  "Terminate l =
     (if lc_state l = LifecycleTerminated then Inl ErrInvalidLifecycleTransition
      else lc_transition l LifecycleTerminated)"

section \<open>Resume snapshots\<close>

record resume_snapshot =
  rs_schema :: int
  rs_task :: string
  rs_ws :: string
  rs_bundle :: exec_bundle
  rs_high :: u64
  rs_exported :: gotime
  rs_digest :: string

datatype resume_error = ErrInvalidTaskResume | ResumeMarshal string

text \<open>
  \<open>resumeDigest\<close> hashes the JSON text of the bundle and the high-water mark. The text is the argument
  \<open>mj\<close>: \<open>json.Marshal\<close> fails (\<open>Inl\<close>) on an instant whose year is out of range.
\<close>

definition resumeDigest ::
  "('z) goenv_scheme \<Rightarrow> (exec_bundle \<Rightarrow> u64 \<Rightarrow> string + string) \<Rightarrow> exec_bundle \<Rightarrow> u64 \<Rightarrow> resume_error + string" where
  "resumeDigest G mj b hw = (case mj b hw of Inl e \<Rightarrow> Inl (ResumeMarshal e) | Inr raw \<Rightarrow> Inr (sha256hex G raw))"

text \<open>The constant-time comparison: the differences of the bytes are collected with \<open>|=\<close> and \<open>^\<close>.\<close>

fun compare_loop :: "string \<Rightarrow> string \<Rightarrow> int \<Rightarrow> int" where
  "compare_loop (x # xs) (y # ys) r = compare_loop xs ys (or r (xor (of_char x) (of_char y)))"
| "compare_loop _ _ r = r"

definition subtleCompare :: "string \<Rightarrow> string \<Rightarrow> bool" where
  "subtleCompare a b = (if length a \<noteq> length b then False else compare_loop a b 0 = 0)"

definition ExportTaskResume ::
  "('z) goenv_scheme \<Rightarrow> (exec_bundle \<Rightarrow> u64 \<Rightarrow> string + string) \<Rightarrow> gotime \<Rightarrow> exec_bundle \<Rightarrow> u64
     \<Rightarrow> resume_error + resume_snapshot" where
  "ExportTaskResume G mj now b0 hw =
     (let b = b0\<lparr>eb_ws := trim_space (eb_ws b0), eb_task := trim_space (eb_task b0)\<rparr> in
      if eb_ws b = [] \<or> eb_task b = [] then Inl ErrInvalidTaskResume
      else case resumeDigest G mj b hw of
        Inl e \<Rightarrow> Inl e
      | Inr d \<Rightarrow> Inr \<lparr>rs_schema = 1, rs_task = eb_task b, rs_ws = eb_ws b, rs_bundle = b, rs_high = hw,
                      rs_exported = now, rs_digest = d\<rparr>)"

definition ImportTaskResume ::
  "('z) goenv_scheme \<Rightarrow> (exec_bundle \<Rightarrow> u64 \<Rightarrow> string + string) \<Rightarrow> resume_snapshot
     \<Rightarrow> resume_error + exec_bundle \<times> u64" where
  "ImportTaskResume G mj s =
     (if rs_schema s \<noteq> 1 \<or> trim_space (rs_task s) = [] \<or> trim_space (rs_ws s) = [] then Inl ErrInvalidTaskResume
      else if eb_task (rs_bundle s) \<noteq> rs_task s \<or> eb_ws (rs_bundle s) \<noteq> rs_ws s then Inl ErrInvalidTaskResume
      else case resumeDigest G mj (rs_bundle s) (rs_high s) of
        Inl e \<Rightarrow> Inl e
      | Inr d \<Rightarrow>
          if subtleCompare d (rs_digest s) \<noteq> True then Inl ErrInvalidTaskResume
          else Inr (rs_bundle s, rs_high s))"

text \<open>The snapshot as its receiver decodes it from JSON.\<close>

definition coerce_snapshot :: "resume_snapshot \<Rightarrow> resume_snapshot" where
  "coerce_snapshot s = s\<lparr>rs_task := utf8_coerce (rs_task s), rs_ws := utf8_coerce (rs_ws s),
     rs_bundle := coerce_bundle (rs_bundle s), rs_digest := utf8_coerce (rs_digest s)\<rparr>"

section \<open>Revisions\<close>

text \<open>A call of \<open>PutCAS\<close>; it won when the file of its bundle changed, whatever error it reported.\<close>

record exec_put =
  xp_now :: gotime
  xp_io :: exec_io
  xp_bundle :: exec_bundle
  xp_expected :: u64

definition exec_rev :: "exec_fs \<Rightarrow> exec_path \<Rightarrow> u64 option" where
  "exec_rev fs p = map_option normalizedRevision (fs p)"

definition exec_put_path :: "('z) goenv_scheme \<Rightarrow> exec_put \<Rightarrow> exec_path" where
  "exec_put_path G c = bundlePath G (eb_ws (xp_bundle c)) (eb_task (xp_bundle c))"

definition exec_cas :: "('z) goenv_scheme \<Rightarrow> exec_put \<Rightarrow> exec_fs \<Rightarrow> exec_fs \<times> bool" where
  "exec_cas G c fs =
     (let fs' = fst (Store_PutCAS G (xp_now c) (xp_io c) (xp_bundle c) (xp_expected c) fs); p = exec_put_path G c
      in (fs', fs' p \<noteq> fs p))"

text \<open>A replacing call: revision 0 means create, and the revision after \<open>2 ^ 64 - 1\<close> is 0, which reads as 1.\<close>

definition exec_replacing :: "exec_put \<Rightarrow> bool" where
  "exec_replacing c \<longleftrightarrow> xp_expected c \<noteq> 0 \<and> xp_expected c + 1 \<noteq> 0"

lemma normalizedRevision_simps [simp]:
  "normalizedRevision (b\<lparr>eb_rev := normalizedRevision b'\<rparr>) = normalizedRevision b'"
  "r \<noteq> 0 \<Longrightarrow> normalizedRevision (b\<lparr>eb_rev := r\<rparr>) = r"
  "normalizedRevision (coerce_bundle b) = normalizedRevision b"
  "eb_rev (coerce_bundle b) = eb_rev b"
  "eb_rev (prepareBundle G b (Some x) now) = normalizedRevision x + 1"
  "eb_rev (prepareBundle G b None now) = 1"
  by (auto simp: normalizedRevision_def coerce_bundle_def prepareBundle_def)

lemma PutCAS_outcome:
  assumes "exec_replacing c"
  shows "(\<exists>x b. fs (exec_put_path G c) = Some x \<and> normalizedRevision x = xp_expected c \<and> eb_rev b = xp_expected c + 1 \<and>
       fst (Store_PutCAS G (xp_now c) (xp_io c) (xp_bundle c) (xp_expected c) fs) = fs(exec_put_path G c \<mapsto> b)) \<or>
     fst (Store_PutCAS G (xp_now c) (xp_io c) (xp_bundle c) (xp_expected c) fs) = fs"
proof (cases "readBundle (xp_io c) (exec_put_path G c) fs")
  case (Inl e)
  then show ?thesis by (auto simp: Store_PutCAS_def exec_put_path_def split: option.splits)
next
  case (Inr r)
  then show ?thesis using assms
    by (cases r; cases "fs (exec_put_path G c)")
      (auto simp: Store_PutCAS_def Let_def exec_put_path_def exec_replacing_def readBundle_def writeBundle_def
        split: option.splits write_outcome.splits if_splits
        intro!: exI [of _ "coerce_bundle (prepareBundle G (xp_bundle c)
          (Some ((the (fs (exec_put_path G c)))\<lparr>eb_rev := xp_expected c\<rparr>)) (xp_now c))"])
qed

interpretation exec_fence: cas_store exec_rev "exec_cas G" "exec_put_path G" xp_expected exec_replacing
proof
  fix c s s'
  assume ok: "exec_replacing c"
  let ?w = "\<exists>x b. s (exec_put_path G c) = Some x \<and> normalizedRevision x = xp_expected c \<and>
    eb_rev b = xp_expected c + 1 \<and> s' = s(exec_put_path G c \<mapsto> b)"
  have out: "?w \<or> s' = s" if "exec_cas G c s = (s', w)" for w
    using PutCAS_outcome [OF ok, of s G] that by (auto simp: exec_cas_def Let_def)
  show "exec_rev s (exec_put_path G c) = Some (xp_expected c)" if "exec_cas G c s = (s', True)"
    using out [OF that] that by (auto simp: exec_cas_def exec_rev_def Let_def)
  show "exec_rev s' = (exec_rev s)(exec_put_path G c \<mapsto> xp_expected c + 1)" if "exec_cas G c s = (s', True)"
  proof -
    from out [OF that] that obtain x b where "s (exec_put_path G c) = Some x" "eb_rev b = xp_expected c + 1"
      "s' = s(exec_put_path G c \<mapsto> b)" by (auto simp: exec_cas_def Let_def)
    then show ?thesis using ok
      by (auto simp: exec_rev_def fun_eq_iff exec_replacing_def normalizedRevision_def)
  qed
  show "exec_rev s' = exec_rev s" if "exec_cas G c s = (s', False)"
  proof -
    have "\<not> ?w"
    proof
      assume ?w
      then obtain x b where "s (exec_put_path G c) = Some x" "normalizedRevision x = xp_expected c"
        "eb_rev b = xp_expected c + 1" "s' (exec_put_path G c) = Some b" by auto
      then show False using that ok
        by (auto simp: exec_cas_def Let_def normalizedRevision_def exec_replacing_def split: if_splits)
    qed
    with out [OF that] have "s' = s" by blast
    then show ?thesis by simp
  qed
qed

text \<open>
  No lost update: of all \<open>PutCAS\<close> calls that replace the same bundle and name the same revision, in
  whatever order they run and however their writes end, at most one changes the file.
\<close>

theorem exec_one_winner:
  assumes "list_all exec_replacing cs" and "length cs \<le> 2 ^ 64"
  shows "distinct (map (\<lambda>c. (exec_put_path G c, xp_expected c)) (snd (cas_run (exec_cas G) fs cs)))"
  using assms by (rule exec_fence.one_winner)

section \<open>Leases\<close>

datatype store_op =
    OpClaim gotime exec_io string string string int
  | OpRelease gotime exec_io string string string
  | OpReleaseLease gotime exec_io string string string u64

fun op_owner :: "store_op \<Rightarrow> string" where
  "op_owner (OpClaim now io ws task owner ttl) = trim_space owner"
| "op_owner (OpRelease now io ws task owner) = trim_space owner"
| "op_owner (OpReleaseLease now io ws task owner g) = trim_space owner"

fun op_now :: "store_op \<Rightarrow> gotime" where
  "op_now (OpClaim now io ws task owner ttl) = now"
| "op_now (OpRelease now io ws task owner) = now"
| "op_now (OpReleaseLease now io ws task owner g) = now"

fun op_path :: "('z) goenv_scheme \<Rightarrow> store_op \<Rightarrow> exec_path" where
  "op_path G (OpClaim now io ws task owner ttl) = bundlePath G ws task"
| "op_path G (OpRelease now io ws task owner) = bundlePath G ws task"
| "op_path G (OpReleaseLease now io ws task owner g) = bundlePath G ws task"

fun run_op :: "('z) goenv_scheme \<Rightarrow> store_op \<Rightarrow> exec_fs \<Rightarrow> exec_fs \<times> (exec_error + exec_bundle)" where
  "run_op G (OpClaim now io ws task owner ttl) fs = Store_Claim G now io ws task owner ttl fs"
| "run_op G (OpRelease now io ws task owner) fs = Store_Release G now io ws task owner fs"
| "run_op G (OpReleaseLease now io ws task owner g) fs = Store_ReleaseLease G now io ws task owner g fs"

definition run_ops :: "('z) goenv_scheme \<Rightarrow> store_op list \<Rightarrow> exec_fs \<Rightarrow> exec_fs" where
  "run_ops G ops fs = fold (\<lambda>op s. fst (run_op G op s)) ops fs"

lemma writeBundle_other [simp]: "q \<noteq> p \<Longrightarrow> fst (writeBundle io p b fs) q = fs q"
  by (simp add: writeBundle_def split: write_outcome.splits)

lemma writeBundle_cases:
  "fst (writeBundle io p b fs) = fs(p \<mapsto> coerce_bundle b) \<or>
   (\<exists>e. writeBundle io p b fs = (fs, Inl e))"
  by (auto simp: writeBundle_def split: write_outcome.splits)

lemma run_op_other: "op_path G op \<noteq> p \<Longrightarrow> fst (run_op G op fs) p = fs p"
  by (cases op) (auto simp: Store_Claim_def Store_Release_def Store_ReleaseLease_def Let_def
      split: sum.splits option.splits)

lemma run_op_foreign:
  assumes "fs p = Some b" and "el_owner (eb_lease b) \<noteq> []" and "op_owner op \<noteq> el_owner (eb_lease b)"
    and "op_now op < el_expires (eb_lease b)"
  shows "fst (run_op G op fs) p = Some b"
proof (cases "op_path G op = p")
  case True
  with assms show ?thesis
    by (cases op) (auto simp: Store_Claim_def Store_Release_def Store_ReleaseLease_def Let_def readBundle_def
        split: option.splits)
qed (simp add: run_op_other assms(1))

text \<open>
  C30. A live lease excludes everybody else: as long as it has not expired, no sequence of \<open>Claim\<close>, \<open>Release\<close> and
  \<open>ReleaseLease\<close> calls by other owners, on this or other bundles and with any outcome of their I/O, changes the
  leased bundle.
\<close>

theorem lease_exclusive:
  assumes "fs p = Some b" and "el_owner (eb_lease b) \<noteq> []"
    and "list_all (\<lambda>op. op_owner op \<noteq> el_owner (eb_lease b) \<and> op_now op < el_expires (eb_lease b)) ops"
  shows "run_ops G ops fs p = Some b"
  using assms(1,3)
proof (induction ops arbitrary: fs)
  case Nil
  then show ?case by (simp add: run_ops_def)
next
  case (Cons op ops)
  from Cons.prems have "fst (run_op G op fs) p = Some b" using assms(2) by (intro run_op_foreign) auto
  with Cons show ?case by (auto simp: run_ops_def)
qed

text \<open>The generations a bundle goes through: 0 is skipped when the counter wraps.\<close>

definition next_gen :: "u64 \<Rightarrow> u64" where
  "next_gen g = (if g + 1 = 0 then 1 else g + 1)"

lemma unat_next_gen: "unat (next_gen g) = (if unat g = 2 ^ 64 - 1 then 1 else unat g + 1)"
proof (cases "g + 1 = 0")
  case True
  then have "g = - 1" by (simp add: eq_neg_iff_add_eq_0)
  with True show ?thesis by (simp add: next_gen_def unsigned_minus_1_eq_mask mask_eq_exp_minus_1)
next
  case False
  then have "unat (g + 1) = Suc (unat g)" by (simp add: unatSuc add.commute)
  moreover have "unat g \<noteq> 2 ^ 64 - 1"
  proof
    assume "unat g = 2 ^ 64 - 1"
    then have "unat (g + 1) = 2 ^ 64" using \<open>unat (g + 1) = Suc (unat g)\<close> by simp
    then show False using unsigned_less [of "g + 1", where ?'a = nat] by simp
  qed
  ultimately show ?thesis using False by (simp add: next_gen_def)
qed

lemma next_gen_iterate:
  assumes "g \<noteq> 0" and "m = (2::nat) ^ 64 - 1"
  shows "unat ((next_gen ^^ k) g) = (unat g - 1 + k) mod m + 1"
proof (induction k)
  case 0
  have "unat g < 2 ^ 64" using unsigned_less [of g, where ?'a = nat] by simp
  with assms show ?case by (simp add: unat_gt_0)
next
  case (Suc k)
  let ?u = "(unat g - 1 + k) mod m"
  have "?u < m" using assms(2) by simp
  have "unat ((next_gen ^^ Suc k) g) = (if ?u + 1 = m then 1 else ?u + 2)"
    using Suc assms(2) by (simp add: unat_next_gen)
  also have "\<dots> = (?u + 1) mod m + 1" using \<open>?u < m\<close> by (simp add: mod_if)
  also have "\<dots> = (unat g - 1 + Suc k) mod m + 1" by (simp add: mod_Suc_eq)
  finally show ?case .
qed

lemma next_gen_no_cycle:
  assumes "g \<noteq> 0" and "0 < k" and "k < (2::nat) ^ 64 - 1"
  shows "(next_gen ^^ k) g \<noteq> g"
proof
  define m where "m = (2::nat) ^ 64 - 1"
  assume a: "(next_gen ^^ k) g = g"
  have "(unat g - 1 + k) mod m + 1 = unat g"
    using next_gen_iterate [OF assms(1) m_def, of k] unfolding a by (rule sym)
  then have e: "(unat g - 1 + k) mod m = unat g - 1" by linarith
  moreover have "0 < m" by (simp add: m_def)
  ultimately have "unat g - 1 < m" by (metis mod_less_divisor)
  then have "(unat g - 1 + k) mod m = (unat g - 1) mod m" using e by simp
  then have "m dvd k" by (metis add_diff_cancel_left' le_add1 mod_eq_dvd_iff_nat)
  with assms(2,3) show False by (auto simp: m_def dest: dvd_imp_le)
qed

text \<open>How many of the calls were a \<open>Claim\<close> of the bundle at \<open>p\<close> that changed the file.\<close>

fun claims_won :: "('z) goenv_scheme \<Rightarrow> exec_path \<Rightarrow> store_op list \<Rightarrow> exec_fs \<Rightarrow> nat" where
  "claims_won G p [] fs = 0"
| "claims_won G p (op # ops) fs =
     (let fs' = fst (run_op G op fs) in
      (case op of OpClaim now io ws task owner ttl \<Rightarrow> if fs' p \<noteq> fs p then 1 else 0 | _ \<Rightarrow> 0) + claims_won G p ops fs')"

lemma claims_won_le: "claims_won G p ops fs \<le> length ops"
  by (induction G p ops fs rule: claims_won.induct) (auto simp: Let_def split: store_op.splits)

lemma el_gen_coerce [simp]: "el_gen (eb_lease (coerce_bundle b)) = el_gen (eb_lease b)"
  by (simp add: coerce_bundle_def)

lemma run_op_gen:
  assumes "fs p = Some b"
  shows "\<exists>b'. fst (run_op G op fs) p = Some b' \<and>
    el_gen (eb_lease b') = (if (case op of OpClaim now io ws task owner ttl \<Rightarrow> fst (run_op G op fs) p \<noteq> fs p | _ \<Rightarrow> False)
                            then next_gen (el_gen (eb_lease b)) else el_gen (eb_lease b))"
proof (cases "op_path G op = p")
  case False
  then show ?thesis using run_op_other [OF False, of fs] assms by (auto split: store_op.splits)
next
  case True
  show ?thesis
  proof (cases op)
    case (OpClaim now io ws task owner ttl)
    with True assms show ?thesis
      by (auto simp: Store_Claim_def Let_def readBundle_def writeBundle_def next_gen_def
          split: option.splits write_outcome.splits)
  next
    case (OpRelease now io ws task owner)
    with True assms show ?thesis
      by (auto simp: Store_Release_def Let_def readBundle_def writeBundle_def drop_lease_def
          split: option.splits write_outcome.splits)
  next
    case (OpReleaseLease now io ws task owner g)
    with True assms show ?thesis
      by (auto simp: Store_ReleaseLease_def Let_def readBundle_def writeBundle_def drop_lease_def
          split: option.splits write_outcome.splits)
  qed
qed

lemma run_ops_gen:
  assumes "fs p = Some b"
  shows "\<exists>b'. run_ops G ops fs p = Some b' \<and>
    el_gen (eb_lease b') = (next_gen ^^ claims_won G p ops fs) (el_gen (eb_lease b))"
  using assms
proof (induction ops arbitrary: fs b)
  case Nil
  then show ?case by (simp add: run_ops_def)
next
  case (Cons op ops)
  obtain b1 where b1: "fst (run_op G op fs) p = Some b1"
    "el_gen (eb_lease b1) = (if (case op of OpClaim now io ws task owner ttl \<Rightarrow> fst (run_op G op fs) p \<noteq> fs p | _ \<Rightarrow> False)
                            then next_gen (el_gen (eb_lease b)) else el_gen (eb_lease b))"
    using run_op_gen [where fs = fs and p = p and b = b and G = G and op = op] Cons.prems by blast
  obtain b2 where b2: "run_ops G ops (fst (run_op G op fs)) p = Some b2"
    "el_gen (eb_lease b2) = (next_gen ^^ claims_won G p ops (fst (run_op G op fs))) (el_gen (eb_lease b1))"
    using Cons.IH [where fs = "fst (run_op G op fs)" and b = b1] b1(1) by blast
  have "run_ops G (op # ops) fs = run_ops G ops (fst (run_op G op fs))" by (simp add: run_ops_def)
  moreover have "(next_gen ^^ claims_won G p (op # ops) fs) (el_gen (eb_lease b)) = el_gen (eb_lease b2)"
    using b1(2) b2(2) by (cases op) (auto simp: Let_def funpow_swap1)
  ultimately show ?case using b2(1) by simp
qed

text \<open>
  C15. The generation fences a stale owner: after a \<open>Claim\<close> gave generation \<open>g\<close>, any further sequence of
  fewer than \<open>2 ^ 64 - 1\<close> calls of \<open>Claim\<close>, \<open>Release\<close> and \<open>ReleaseLease\<close> in which another \<open>Claim\<close> of the bundle took
  effect makes \<open>ReleaseLease\<close> with \<open>g\<close> fail, for every owner name and every outcome of the I/O, and change nothing.
  Other operations are excluded: a \<open>SetState\<close> that read the bundle before that \<open>Claim\<close> writes the old generation back.
\<close>

theorem claim_fences:
  assumes "fs (bundlePath G ws task) = Some b" and "el_gen (eb_lease b) = g" and "g \<noteq> 0"
    and "0 < claims_won G (bundlePath G ws task) ops fs" and "length ops < 2 ^ 64 - 1"
  shows "\<exists>e. Store_ReleaseLease G now io ws task owner g (run_ops G ops fs) = (run_ops G ops fs, Inl e)"
proof -
  obtain b' where "run_ops G ops fs (bundlePath G ws task) = Some b'"
    "el_gen (eb_lease b') = (next_gen ^^ claims_won G (bundlePath G ws task) ops fs) g"
    using run_ops_gen [where fs = fs and p = "bundlePath G ws task" and b = b and G = G and ops = ops] assms(1,2) by auto
  moreover have "(next_gen ^^ claims_won G (bundlePath G ws task) ops fs) g \<noteq> g"
    using claims_won_le [of G "bundlePath G ws task" ops fs] assms(5)
    by (intro next_gen_no_cycle [OF assms(3,4)]) linarith
  ultimately show ?thesis by (auto simp: Store_ReleaseLease_def Let_def readBundle_def split: option.splits)
qed

section \<open>Host lifecycle\<close>

interpretation lifecycle: status_machine "\<lambda>a b. b \<in> set (lifecycle_next a)" "\<lambda>s. s = LifecycleTerminated"
  by unfold_locales (simp add: lifecycle_next_def)

datatype lifecycle_op = LcProvision | LcReady | LcActivate | LcIdle | LcCheckpoint string | LcSleep | LcWake | LcTerminate

fun lc_op :: "runtime_lifecycle \<Rightarrow> lifecycle_op \<Rightarrow> lifecycle_error + runtime_lifecycle" where
  "lc_op l LcProvision = Provision l"
| "lc_op l LcReady = MarkReady l"
| "lc_op l LcActivate = Activate l"
| "lc_op l LcIdle = MarkIdle l"
| "lc_op l (LcCheckpoint d) = Checkpoint l d"
| "lc_op l LcSleep = Sleep l"
| "lc_op l LcWake = Wake l"
| "lc_op l LcTerminate = Terminate l"

text \<open>A sequence of calls that all succeed.\<close>

fun lc_run :: "runtime_lifecycle \<Rightarrow> lifecycle_op list \<Rightarrow> runtime_lifecycle option" where
  "lc_run l [] = Some l"
| "lc_run l (op # ops) = (case lc_op l op of Inl e \<Rightarrow> None | Inr l' \<Rightarrow> lc_run l' ops)"

lemmas lc_defs = Provision_def MarkReady_def Activate_def MarkIdle_def Checkpoint_def Sleep_def Wake_def
  Terminate_def lc_transition_def

lemma lc_op_allowed: "lc_op l op = Inr l' \<Longrightarrow> lc_state l' \<in> set (lifecycle_next (lc_state l))"
  by (cases op) (auto simp: lc_defs split: if_splits)

lemma lc_run_snoc:
  "lc_run l (ops @ [op]) = (case lc_run l ops of None \<Rightarrow> None | Some l' \<Rightarrow> (case lc_op l' op of Inl e \<Rightarrow> None | Inr m \<Rightarrow> Some m))"
  by (induction ops arbitrary: l) (auto split: sum.splits option.splits)

lemma lc_run_snocD:
  "lc_run l (ops @ [op]) = Some m \<Longrightarrow> \<exists>l'. lc_run l ops = Some l' \<and> lc_op l' op = Inr m"
  by (auto simp: lc_run_snoc split: option.splits sum.splits)

lemma into_sleeping:
  "lc_op l op = Inr m \<Longrightarrow> lc_state m = LifecycleSleeping \<Longrightarrow>
     op = LcSleep \<and> lc_state l = LifecycleCheckpointed \<and> lc_digest m = lc_digest l"
  by (cases op) (auto simp: lc_defs lifecycle_next_def split: if_splits)

lemma into_checkpointed:
  "lc_op l op = Inr m \<Longrightarrow> lc_state m = LifecycleCheckpointed \<Longrightarrow>
     \<exists>d. op = LcCheckpoint d \<and> trim_space d \<noteq> [] \<and> lc_digest m = trim_space d"
  by (cases op) (auto simp: lc_defs lifecycle_next_def split: if_splits)

text \<open>
  C37. Sleep is always resumable: a cold runtime that a sequence of successful calls has brought to sleeping got there by
  a \<open>Checkpoint\<close> with a digest that is not blank immediately followed by \<open>Sleep\<close>, and the digest it sleeps on is that
  checkpoint's.
\<close>

theorem sleep_resumable:
  assumes "lc_run \<lparr>lc_state = LifecycleCold, lc_digest = d0\<rparr> ops = Some l" and "lc_state l = LifecycleSleeping"
  shows "\<exists>pre d. ops = pre @ [LcCheckpoint d, LcSleep] \<and> trim_space d \<noteq> [] \<and> lc_digest l = trim_space d"
proof (cases ops rule: rev_cases)
  case Nil
  with assms show ?thesis by auto
next
  case (snoc ops1 op)
  then obtain m where m: "lc_run \<lparr>lc_state = LifecycleCold, lc_digest = d0\<rparr> ops1 = Some m" "lc_op m op = Inr l"
    using assms(1) lc_run_snocD by blast
  then have s: "op = LcSleep" "lc_state m = LifecycleCheckpointed" "lc_digest l = lc_digest m"
    using into_sleeping assms(2) by blast+
  show ?thesis
  proof (cases ops1 rule: rev_cases)
    case Nil
    with m(1) s(2) show ?thesis by auto
  next
    case (snoc ops2 op2)
    then obtain k where "lc_op k op2 = Inr m" using m(1) lc_run_snocD by blast
    then obtain d where "op2 = LcCheckpoint d" "trim_space d \<noteq> []" "lc_digest m = trim_space d"
      using into_checkpointed s(2) by blast
    with snoc \<open>ops = ops1 @ [op]\<close> s show ?thesis by auto
  qed
qed

theorem sleep_resumable_witness:
  "\<exists>pre d. [LcProvision, LcReady, LcActivate, LcCheckpoint ''d'', LcSleep] = pre @ [LcCheckpoint d, LcSleep] \<and>
     trim_space d \<noteq> [] \<and> lc_digest \<lparr>lc_state = LifecycleSleeping, lc_digest = ''d''\<rparr> = trim_space d"
  by (rule sleep_resumable [where ?d0.0 = "[]"]) (simp_all add: lc_defs lifecycle_next_def trim_space_plain plain_char_def)

text \<open>A terminated runtime accepts no call.\<close>

lemma terminated_final: "lc_state l = LifecycleTerminated \<Longrightarrow> \<exists>e. lc_op l op = Inl e"
  using lc_op_allowed [of l op] by (cases "lc_op l op") (auto simp: lifecycle_next_def)

text \<open>The table does not tell \<open>Wake\<close> and \<open>MarkReady\<close> apart: either is accepted where the other is.\<close>

lemma Wake_is_MarkReady: "Wake l = MarkReady l"
  by (simp add: Wake_def MarkReady_def)

section \<open>Runtime generation\<close>

text \<open>
  A rollout only ever moves tasks forward: raising the percentage keeps every task that ran on V2 on V2, as long as
  the other settings are unchanged.
\<close>

theorem rollout_monotone:
  assumes "SelectRuntimeGeneration G task r = Some RuntimeV2" and "ro_percent r \<le> q" and "q \<le> 100"
  shows "SelectRuntimeGeneration G task (r\<lparr>ro_percent := q\<rparr>) = Some RuntimeV2"
  using assms by (auto simp: SelectRuntimeGeneration_def Let_def split: if_splits)

lemma rollout_bucket_range: "0 \<le> rollout_bucket G t \<and> rollout_bucket G t < 100"
  by (simp add: rollout_bucket_def)

text \<open>Percentages 0 and 100 need no special case: the bucket comparison gives the same generation.\<close>

lemma SelectRuntimeGeneration_uniform:
  "SelectRuntimeGeneration G task r =
     (if trim_space task = [] \<or> ro_percent r < 0 \<or> ro_percent r > 100 \<or> (ro_force1 r \<and> ro_force2 r) then None
      else if ro_force2 r \<and> ro_enabled r \<or> ro_enabled r \<and> \<not> ro_force1 r \<and> rollout_bucket G (trim_space task) < ro_percent r
      then Some RuntimeV2 else Some RuntimeV1)"
  using rollout_bucket_range [of G "trim_space task"] by (auto simp: SelectRuntimeGeneration_def Let_def)

text \<open>A pinned generation stays: pinning again succeeds only with the same generation, and then changes nothing.\<close>

lemma PinRuntimeGeneration_stable:
  assumes "PinRuntimeGeneration b g = Some b'"
  shows "PinRuntimeGeneration b' g' = (if g' = g then Some b' else None) \<and> EffectiveRuntimeGeneration b' = g"
proof -
  have g: "g = RuntimeV1 \<or> g = RuntimeV2" and b': "b' = b\<lparr>eb_runtime := g\<rparr>"
    using assms by (simp_all add: PinRuntimeGeneration_def split: if_split_asm)
  have "eb_runtime b' = g" "b'\<lparr>eb_runtime := g\<rparr> = b'" using b' by simp_all
  then show ?thesis using g unfolding PinRuntimeGeneration_def EffectiveRuntimeGeneration_def by auto
qed

section \<open>Resume snapshots\<close>

lemma byte_range: "(0::int) \<le> of_char c"
  by (simp add: of_char_def)

lemma compare_loop_zero:
  "length a = length b \<Longrightarrow> 0 \<le> r \<Longrightarrow> compare_loop a b r = 0 \<longleftrightarrow> r = 0 \<and> a = b"
proof (induction a b r rule: compare_loop.induct)
  case (1 x xs y ys r)
  have z: "xor (of_char x) (of_char y) = (0::int) \<longleftrightarrow> x = y"
    by (metis xor_self_eq xor.left_neutral xor.assoc xor.right_neutral of_char_eq_iff)
  have o: "or r (xor (of_char x) (of_char y)) = 0 \<longleftrightarrow> r = 0 \<and> xor (of_char x) (of_char y) = (0::int)"
    by (rule or_eq_0_iff)
  have "0 \<le> or r (xor (of_char x) (of_char y))" using 1 by (simp add: byte_range)
  with 1 z o show ?case by auto
qed auto

text \<open>The constant-time comparison of digests decides equality.\<close>

theorem subtleCompare_eq: "subtleCompare a b \<longleftrightarrow> a = b"
  by (auto simp: subtleCompare_def compare_loop_zero)

text \<open>
  Import accepts exactly the snapshots of schema 1 with a task and a workspace that agree with the bundle and
  whose digest is that of the bundle and the high-water mark; then it returns these two.
\<close>

theorem ImportTaskResume_exact:
  "ImportTaskResume G mj s = Inr (b, hw) \<longleftrightarrow>
     rs_schema s = 1 \<and> trim_space (rs_task s) \<noteq> [] \<and> trim_space (rs_ws s) \<noteq> [] \<and>
     eb_task (rs_bundle s) = rs_task s \<and> eb_ws (rs_bundle s) = rs_ws s \<and>
     resumeDigest G mj (rs_bundle s) (rs_high s) = Inr (rs_digest s) \<and> b = rs_bundle s \<and> hw = rs_high s"
  by (auto simp: ImportTaskResume_def subtleCompare_eq split: sum.splits if_splits)

text \<open>
  C35. Resume round trip: a bundle whose texts are valid UTF-8, exported here and imported from the JSON text of the
  snapshot elsewhere, comes back unchanged (with its workspace and task trimmed) and with the same high-water mark,
  whatever text the JSON encoder writes for a bundle. (The digest is hexadecimal and so ASCII.) A bundle with invalid
  UTF-8 is not covered: the encoder writes an invalid byte as an escape but the character it decodes to as it is, so
  the digests differ.
\<close>

theorem resume_roundtrip:
  assumes "ExportTaskResume G mj now b hw = Inr s" and "coerce_bundle (rs_bundle s) = rs_bundle s"
    and "\<forall>x. is_ascii (sha256hex G x)"
  shows "ImportTaskResume G mj (coerce_snapshot s) =
    Inr (b\<lparr>eb_ws := trim_space (eb_ws b), eb_task := trim_space (eb_task b)\<rparr>, hw)"
proof -
  let ?b = "b\<lparr>eb_ws := trim_space (eb_ws b), eb_task := trim_space (eb_task b)\<rparr>"
  obtain raw where raw: "mj ?b hw = Inr raw" and s: "s = \<lparr>rs_schema = 1, rs_task = eb_task ?b, rs_ws = eb_ws ?b,
      rs_bundle = ?b, rs_high = hw, rs_exported = now, rs_digest = sha256hex G raw\<rparr>"
    and ne: "eb_task ?b \<noteq> []" "eb_ws ?b \<noteq> []"
    using assms(1) by (auto simp: ExportTaskResume_def resumeDigest_def Let_def split: if_splits sum.splits)
  have c: "coerce_bundle ?b = ?b" using assms(2) by (simp add: s)
  have "utf8_coerce (eb_task ?b) = eb_task ?b" "utf8_coerce (eb_ws ?b) = eb_ws ?b"
    using arg_cong [OF c, of eb_task] arg_cong [OF c, of eb_ws] by (simp_all add: coerce_bundle_def)
  then have "coerce_snapshot s = s" using assms(3) c by (simp add: s coerce_snapshot_def utf8_coerce_ascii)
  then show ?thesis using ne raw by (simp add: ImportTaskResume_exact) (simp add: s resumeDigest_def)
qed

section \<open>Example store\<close>

definition demo_bundle :: exec_bundle where
  "demo_bundle = \<lparr>eb_schema = 1, eb_id = ''e'', eb_rev = 1, eb_task = ''t'', eb_project = [], eb_wsid = [], eb_ws = ''w'',
     eb_provider = ProviderActiveCheckout, eb_runtime = [], eb_state = StateReady, eb_bindings = [],
     eb_lease = \<lparr>el_owner = ''a'', el_gen = 1, el_expires = 10\<rparr>, eb_created = 1, eb_updated = 1\<rparr>"

definition demo_fs :: exec_fs where
  "demo_fs = Map.empty(bundlePath demo_env ''w'' ''t'' \<mapsto> demo_bundle)"

lemma demo_read: "readBundle exec_ok_io (bundlePath demo_env ''w'' ''t'') demo_fs = Inr (Some demo_bundle)"
  by (simp add: readBundle_def exec_ok_io_def demo_fs_def demo_bundle_def normalizedRevision_def)

theorem lease_exclusive_witness:
  "run_ops demo_env [OpClaim 5 exec_ok_io ''w'' ''t'' ''b'' 0, OpRelease 6 exec_ok_io ''w'' ''t'' ''c'']
     demo_fs (bundlePath demo_env ''w'' ''t'') = Some demo_bundle"
  by (rule lease_exclusive) (simp_all add: demo_fs_def demo_bundle_def trim_space_plain plain_char_def)

theorem claim_fences_witness:
  "\<exists>e. Store_ReleaseLease demo_env 21 exec_ok_io ''w'' ''t'' ''a'' 1
     (run_ops demo_env [OpClaim 20 exec_ok_io ''w'' ''t'' ''b'' 0] demo_fs) =
     (run_ops demo_env [OpClaim 20 exec_ok_io ''w'' ''t'' ''b'' 0] demo_fs, Inl e)"
proof (rule claim_fences [where b = demo_bundle])
  show "demo_fs (bundlePath demo_env ''w'' ''t'') = Some demo_bundle" by (simp add: demo_fs_def)
  show "0 < claims_won demo_env (bundlePath demo_env ''w'' ''t'') [OpClaim 20 exec_ok_io ''w'' ''t'' ''b'' 0] demo_fs"
    by (simp add: Store_Claim_def Let_def demo_read trim_space_plain plain_char_def)
      (simp add: writeBundle_def demo_bundle_def exec_ok_io_def demo_fs_def coerce_bundle_def normalizedRevision_def)
qed (simp_all add: demo_bundle_def)

text \<open>A marshaller and a digest that depend on the bundle.\<close>

definition demo_marshal :: "exec_bundle \<Rightarrow> u64 \<Rightarrow> string + string" where
  "demo_marshal b hw = Inr (concat (map (\<lambda>t. t @ '','') [eb_id b, eb_task b, eb_ws b, eb_provider b, eb_state b,
     el_owner (eb_lease b)]) @ replicate (unat hw) (CHR ''1''))"

definition resume_env :: goenv where
  "resume_env = demo_env\<lparr>sha256hex := filter (\<lambda>c. of_char c < (128::int))\<rparr>"

theorem resume_roundtrip_witness:
  "\<exists>s. ExportTaskResume resume_env demo_marshal 3 (demo_bundle\<lparr>eb_ws := '' w''\<rparr>) 7 = Inr s \<and>
     ImportTaskResume resume_env demo_marshal (coerce_snapshot s) = Inr (demo_bundle, 7)"
proof -
  let ?b = "demo_bundle\<lparr>eb_ws := '' w''\<rparr>"
  have t: "trim_space '' w'' = ''w''" "trim_space ''t'' = ''t''" by code_simp+
  have "\<not> isl (ExportTaskResume resume_env demo_marshal 3 ?b 7)" by code_simp
  then obtain s where s: "ExportTaskResume resume_env demo_marshal 3 ?b 7 = Inr s" by (metis isl_def sum.exhaust_sel)
  then have "rs_bundle s = demo_bundle"
    by (auto simp: ExportTaskResume_def Let_def t demo_bundle_def split: sum.splits)
  moreover have "coerce_bundle demo_bundle = demo_bundle"
    by (simp add: coerce_bundle_def demo_bundle_def utf8_coerce_ascii is_ascii_def)
  ultimately have "coerce_bundle (rs_bundle s) = rs_bundle s" by simp
  from resume_roundtrip [OF s this] have "ImportTaskResume resume_env demo_marshal (coerce_snapshot s) =
      Inr (?b\<lparr>eb_ws := trim_space (eb_ws ?b), eb_task := trim_space (eb_task ?b)\<rparr>, 7)"
    by (simp add: resume_env_def is_ascii_def)
  then show ?thesis using s by (simp add: t demo_bundle_def)
qed

end
