(* ===== verification/ExecManager.thy ===== *)
theory ExecManager
  imports TaskExec GoText
begin

text \<open>
  The manager of task executions, \<open>internal/taskexecution/manager.go\<close>, \<open>active_checkout.go\<close>,
  \<open>local_worktree.go\<close> and \<open>worktree_retention.go\<close>: leases on live checkouts, the coverage of repositories,
  the worktree limit and the operations \<open>Ensure\<close>, \<open>SetState\<close> and \<open>Release\<close> that compose them with the store.

  Git is a program outside the repository: \<open>git_run E h dir args\<close> is its answer to a command in the directory
  \<open>dir\<close> after the commands \<open>h\<close>. The history \<open>h\<close> has every command the manager has run so far that may change a
  repository, in order and whether it succeeded or not, so what Git reads depends on what it was told to write.
  Changes by other processes in between are not modelled. Besides the history the state keeps which directories
  exist; the files copied by \<open>snapshotSourceChanges\<close> right after a \<open>worktree add\<close> are not part of the state, only
  whether the copying fails.
\<close>

section \<open>Types\<close>

record checkout =
  co_id :: string
  co_path :: string
  co_root :: string
  co_remote :: string
  co_lineage :: string
  co_source :: string

record prepare_request =
  pr_task :: string
  pr_project :: string
  pr_wsid :: string
  pr_ws :: string
  pr_repos :: "checkout list"

record source_state =
  ss_head :: string
  ss_dirty :: bool
  ss_fingerprint :: string

record checkout_lease =
  al_ws :: string
  al_task :: string
  al_owner :: string
  al_expires :: gotime

type_synonym git_log = "(string \<times> string list) list"

record exec_env = goenv +
  git_run :: "git_log \<Rightarrow> string \<Rightarrow> string list \<Rightarrow> string + string"
  real_path :: "string \<Rightarrow> string"
  stat_error :: "string \<Rightarrow> string option"
  plain_file :: "string \<Rightarrow> bool"
  mkdir_error :: "string \<Rightarrow> string option"
  snapshot_error :: "git_log \<Rightarrow> checkout \<Rightarrow> string \<Rightarrow> string option"
  worktree_base :: string
  worktree_in_use :: "string \<Rightarrow> bool"

text \<open>
  The bundle files, the directories that exist, the process-wide map of checkout leases, and the writing Git
  commands run so far.
\<close>

record exec_world =
  ew_fs :: exec_fs
  ew_dirs :: "string list"
  ew_leases :: "(string \<times> checkout_lease) list"
  ew_git :: git_log

definition gitCommand :: "('z) exec_env_scheme \<Rightarrow> git_log \<Rightarrow> string \<Rightarrow> string list \<Rightarrow> exec_error + string" where
  "gitCommand E h root args = (case git_run E h root args of Inl e \<Rightarrow> Inl (ExecIO e) | Inr out \<Rightarrow> Inr (trim_space out))"

definition gitCommandOK :: "('z) exec_env_scheme \<Rightarrow> git_log \<Rightarrow> string \<Rightarrow> string list \<Rightarrow> bool" where
  "gitCommandOK E h root args \<longleftrightarrow> (case git_run E h root args of Inl e \<Rightarrow> False | Inr out \<Rightarrow> True)"

text \<open>A call of \<open>gitCommand\<close> whose command may change a repository.\<close>

definition git_write ::
  "('z) exec_env_scheme \<Rightarrow> string \<Rightarrow> string list \<Rightarrow> exec_world \<Rightarrow> exec_world \<times> (exec_error + string)" where
  "git_write E root args w = (w\<lparr>ew_git := ew_git w @ [(root, args)]\<rparr>, gitCommand E (ew_git w) root args)"

section \<open>Preparing a bundle\<close>

definition taskBranch :: "('z) exec_env_scheme \<Rightarrow> string \<Rightarrow> string" where
  "taskBranch E task = ''codelocal/task/'' @ take 12 (digestKey E [''branch'', task])"

definition validatePrepareRequest :: "prepare_request \<Rightarrow> exec_error option" where
  "validatePrepareRequest r =
     (if trim_space (pr_task r) = [] \<or> trim_space (pr_ws r) = [] then Some ErrTaskRequired
      else if pr_repos r = [] then Some ErrRepositoryRequired else None)"

definition newBundle :: "('z) exec_env_scheme \<Rightarrow> prepare_request \<Rightarrow> exec_bundle" where
  "newBundle E r =
     \<lparr>eb_schema = 1, eb_id = ''exec_'' @ digestKey E [pr_ws r, pr_task r], eb_rev = 0, eb_task = pr_task r,
      eb_project = pr_project r, eb_wsid = pr_wsid r, eb_ws = pr_ws r, eb_provider = ProviderLocalWorktree,
      eb_runtime = [], eb_state = StatePreparing, eb_bindings = [],
      eb_lease = \<lparr>el_owner = [], el_gen = 0, el_expires = 0\<rparr>, eb_created = 0, eb_updated = 0\<rparr>"

definition sourceState :: "('z) exec_env_scheme \<Rightarrow> git_log \<Rightarrow> checkout \<Rightarrow> exec_error + source_state" where
  "sourceState E h repo =
     (case gitCommand E h (co_root repo) [''rev-parse'', ''HEAD''] of
        Inl e \<Rightarrow> Inl e
      | Inr head \<Rightarrow>
          (case gitCommand E h (co_root repo) [''status'', ''--porcelain=v1'', ''--untracked-files=all''] of
             Inl e \<Rightarrow> Inl e
           | Inr status \<Rightarrow>
               (case gitCommand E h (co_root repo) [''diff'', ''--binary'', ''HEAD''] of
                  Inl e \<Rightarrow> Inl e
                | Inr diff \<Rightarrow>
                    Inr \<lparr>ss_head = trim_space head, ss_dirty = (trim_space status \<noteq> []),
                         ss_fingerprint = sha256hex E (status @ [CHR 0x00] @ diff)\<rparr>)))"

definition activeCheckoutBranch :: "('z) exec_env_scheme \<Rightarrow> git_log \<Rightarrow> string \<Rightarrow> string" where
  "activeCheckoutBranch E h root =
     (case gitCommand E h root [''symbolic-ref'', ''--quiet'', ''--short'', ''HEAD''] of
        Inl e \<Rightarrow> [] | Inr b \<Rightarrow> trim_space b)"

definition repositoryBinding ::
  "('z) exec_env_scheme \<Rightarrow> prepare_request \<Rightarrow> checkout \<Rightarrow> string \<Rightarrow> source_state \<Rightarrow> string \<Rightarrow> repository_binding" where
  "repositoryBinding E r repo branch src path =
     \<lparr>rb_id = co_id repo, rb_path = co_path repo, rb_revision = ss_head src, rb_dirty = ss_dirty src,
      rb_fingerprint = ss_fingerprint src, rb_branch = branch,
      rb_binding = ''binding_'' @ digestKey E [pr_task r, co_id repo, co_path repo], rb_local = path\<rparr>"

fun active_bindings ::
  "('z) exec_env_scheme \<Rightarrow> git_log \<Rightarrow> prepare_request \<Rightarrow> checkout list \<Rightarrow> exec_error + repository_binding list" where
  "active_bindings E h r [] = Inr []"
| "active_bindings E h r (repo # repos) =
     (case sourceState E h repo of
        Inl e \<Rightarrow> Inl e
      | Inr src \<Rightarrow>
          (case active_bindings E h r repos of
             Inl e \<Rightarrow> Inl e
           | Inr bs \<Rightarrow> Inr (repositoryBinding E r repo (activeCheckoutBranch E h (co_root repo)) src (co_root repo) # bs)))"

definition Active_Prepare :: "('z) exec_env_scheme \<Rightarrow> git_log \<Rightarrow> prepare_request \<Rightarrow> exec_error + exec_bundle" where
  "Active_Prepare E h r =
     (case validatePrepareRequest r of
        Some e \<Rightarrow> Inl e
      | None \<Rightarrow>
          (case active_bindings E h r (pr_repos r) of
             Inl e \<Rightarrow> Inl e
           | Inr bs \<Rightarrow> Inr ((newBundle E r)\<lparr>eb_provider := ProviderActiveCheckout, eb_bindings := bs, eb_state := StateReady\<rparr>)))"

text \<open>\<open>git worktree remove\<close>, with \<open>--force\<close> or without, and the error, if any.\<close>

definition git_remove_worktree ::
  "('z) exec_env_scheme \<Rightarrow> string list \<Rightarrow> string \<Rightarrow> string \<Rightarrow> exec_world \<Rightarrow> exec_world \<times> exec_error option" where
  "git_remove_worktree E flags root path w =
     (case git_write E root ([''worktree'', ''remove''] @ flags @ [path]) w of
        (w1, Inl e) \<Rightarrow> (w1, Some e)
      | (w1, Inr out) \<Rightarrow> (w1\<lparr>ew_dirs := filter (\<lambda>d. d \<noteq> path) (ew_dirs w1)\<rparr>, None))"

definition worktreePath :: "('z) exec_env_scheme \<Rightarrow> string \<Rightarrow> string \<Rightarrow> checkout \<Rightarrow> string" where
  "worktreePath E ws task repo =
     worktree_base E @ ''/'' @ digestKey E [''workspace'', ws] @ ''/'' @ digestKey E [''task'', task] @ ''/'' @
     digestKey E [''repository'', co_id repo, co_path repo]"

text \<open>\<open>filepath.Dir\<close> of the path above.\<close>

definition worktreeDir :: "('z) exec_env_scheme \<Rightarrow> string \<Rightarrow> string \<Rightarrow> string" where
  "worktreeDir E ws task =
     worktree_base E @ ''/'' @ digestKey E [''workspace'', ws] @ ''/'' @ digestKey E [''task'', task]"

definition validExistingWorktree :: "('z) exec_env_scheme \<Rightarrow> string \<Rightarrow> exec_world \<Rightarrow> exec_error + bool" where
  "validExistingWorktree E path w =
     (case stat_error E path of
        Some e \<Rightarrow> Inl (ExecIO e)
      | None \<Rightarrow>
          if path \<notin> set (ew_dirs w) \<and> \<not> plain_file E path then Inr False
          else if path \<notin> set (ew_dirs w) \<or> \<not> gitCommandOK E (ew_git w) path [''rev-parse'', ''--is-inside-work-tree'']
          then Inl (ExecIO ''not a valid worktree'')
          else Inr True)"

definition worktreeAddArgs :: "('z) exec_env_scheme \<Rightarrow> git_log \<Rightarrow> checkout \<Rightarrow> string \<Rightarrow> string \<Rightarrow> string \<Rightarrow> string list" where
  "worktreeAddArgs E h repo path branch head =
     (if gitCommandOK E h (co_root repo) [''show-ref'', ''--verify'', ''--quiet'', ''refs/heads/'' @ branch]
      then [''worktree'', ''add'', path, branch]
      else [''worktree'', ''add'', ''-b'', branch, path, head])"

definition ensureWorktree ::
  "('z) exec_env_scheme \<Rightarrow> prepare_request \<Rightarrow> checkout \<Rightarrow> string \<Rightarrow> string \<Rightarrow> exec_world
     \<Rightarrow> exec_world \<times> (exec_error + string \<times> bool)" where
  "ensureWorktree E r repo branch head w =
     (let path = worktreePath E (pr_ws r) (pr_task r) repo in
      case mkdir_error E (worktreeDir E (pr_ws r) (pr_task r)) of
        Some e \<Rightarrow> (w, Inl (ExecIO e))
      | None \<Rightarrow>
          (case validExistingWorktree E path w of
             Inl e \<Rightarrow> (w, Inl e)
           | Inr True \<Rightarrow> (w, Inr (path, False))
           | Inr False \<Rightarrow>
               (case git_write E (co_root repo) (worktreeAddArgs E (ew_git w) repo path branch head) w of
                  (w1, Inl e) \<Rightarrow> (w1, Inl e)
                | (w1, Inr out) \<Rightarrow>
                    let w2 = w1\<lparr>ew_dirs := path # ew_dirs w1\<rparr> in
                    (case snapshot_error E (ew_git w2) repo path of
                       Some e \<Rightarrow> (fst (git_remove_worktree E [''--force''] (co_root repo) path w2), Inl (ExecIO e))
                     | None \<Rightarrow> (w2, Inr (path, True))))))"

fun rollbackWorktrees :: "('z) exec_env_scheme \<Rightarrow> (checkout \<times> string) list \<Rightarrow> exec_world \<Rightarrow> exec_world" where
  "rollbackWorktrees E [] w = w"
| "rollbackWorktrees E ((repo, path) # newer_first) w =
     rollbackWorktrees E newer_first (fst (git_remove_worktree E [''--force''] (co_root repo) path w))"

definition prepareRepository ::
  "('z) exec_env_scheme \<Rightarrow> prepare_request \<Rightarrow> checkout \<Rightarrow> string \<Rightarrow> exec_world
     \<Rightarrow> exec_world \<times> (exec_error + repository_binding \<times> bool)" where
  "prepareRepository E r repo branch w =
     (case sourceState E (ew_git w) repo of
        Inl e \<Rightarrow> (w, Inl e)
      | Inr src \<Rightarrow>
          (case ensureWorktree E r repo branch (ss_head src) w of
             (w1, Inl e) \<Rightarrow> (w1, Inl e)
           | (w1, Inr (path, created)) \<Rightarrow> (w1, Inr (repositoryBinding E r repo branch src path, created))))"

text \<open>The list of created worktrees has the newest first, the order in which the rollback removes them.\<close>

fun prepareRepositories ::
  "('z) exec_env_scheme \<Rightarrow> prepare_request \<Rightarrow> string \<Rightarrow> checkout list \<Rightarrow> (checkout \<times> string) list
     \<Rightarrow> repository_binding list \<Rightarrow> exec_world \<Rightarrow> exec_world \<times> (exec_error + repository_binding list)" where
  "prepareRepositories E r branch [] created bs w = (w, Inr bs)"
| "prepareRepositories E r branch (repo # repos) created bs w =
     (case prepareRepository E r repo branch w of
        (w1, Inl e) \<Rightarrow> (rollbackWorktrees E created w1, Inl e)
      | (w1, Inr (b, added)) \<Rightarrow>
          prepareRepositories E r branch repos (if added then (repo, rb_local b) # created else created) (bs @ [b]) w1)"

definition Local_Prepare ::
  "('z) exec_env_scheme \<Rightarrow> prepare_request \<Rightarrow> exec_world \<Rightarrow> exec_world \<times> (exec_error + exec_bundle)" where
  "Local_Prepare E r w =
     (case validatePrepareRequest r of
        Some e \<Rightarrow> (w, Inl e)
      | None \<Rightarrow>
          (case mkdir_error E (worktree_base E) of
             Some e \<Rightarrow> (w, Inl (ExecIO e))
           | None \<Rightarrow>
               (case prepareRepositories E r (taskBranch E (pr_task r)) (pr_repos r) [] [] w of
                  (w1, Inl e) \<Rightarrow> (w1, Inl e)
                | (w1, Inr bs) \<Rightarrow> (w1, Inr ((newBundle E r)\<lparr>eb_bindings := bs, eb_state := StateReady\<rparr>)))))"

text \<open>\<open>Manager.provider\<close> followed by \<open>Prepare\<close>; an unknown provider is a mismatch.\<close>

definition provider_prepare ::
  "('z) exec_env_scheme \<Rightarrow> string \<Rightarrow> prepare_request \<Rightarrow> exec_world \<Rightarrow> exec_world \<times> (exec_error + exec_bundle)" where
  "provider_prepare E p r w =
     (if p = ProviderLocalWorktree then Local_Prepare E r w
      else if p = ProviderActiveCheckout then (w, Active_Prepare E (ew_git w) r)
      else (w, Inl ErrExecutionProviderMismatch))"

section \<open>Archiving worktrees\<close>

definition DefaultMaxWorktrees :: int where "DefaultMaxWorktrees = 3"
definition MinMaxWorktrees :: int where "MinMaxWorktrees = 1"
definition MaxMaxWorktrees :: int where "MaxMaxWorktrees = 20"

definition NormalizeMaxWorktrees :: "int \<Rightarrow> int" where
  "NormalizeMaxWorktrees v = (if v < MinMaxWorktrees \<or> v > MaxMaxWorktrees then DefaultMaxWorktrees else v)"

definition bundleIsRunning :: "('z) exec_env_scheme \<Rightarrow> exec_bundle \<Rightarrow> bool" where
  "bundleIsRunning E b = list_ex (\<lambda>r. worktree_in_use E (rb_local r)) (eb_bindings b)"

definition existingBindingCount :: "('z) exec_env_scheme \<Rightarrow> exec_world \<Rightarrow> exec_bundle \<Rightarrow> int" where
  "existingBindingCount E w b =
     int (length (filter (\<lambda>r. stat_error E (rb_local r) = None \<and> rb_local r \<in> set (ew_dirs w)) (eb_bindings b)))"

definition bundleIsLeased :: "gotime \<Rightarrow> exec_bundle \<Rightarrow> bool" where
  "bundleIsLeased now b \<longleftrightarrow> trim_space (el_owner (eb_lease b)) \<noteq> [] \<and> now < el_expires (eb_lease b)"

definition oldestBundles :: "exec_bundle list \<Rightarrow> exec_bundle list" where
  "oldestBundles bs = sort_key (\<lambda>b. (eb_created b, eb_task b)) bs"

definition archiveBranch :: "('z) exec_env_scheme \<Rightarrow> string \<Rightarrow> string" where
  "archiveBranch E task = ''codelocal/archive/'' @ take 12 (digestKey E [''archive'', task])"

definition mainWorktreeRoot :: "('z) exec_env_scheme \<Rightarrow> git_log \<Rightarrow> string \<Rightarrow> exec_error + string" where
  "mainWorktreeRoot E h path =
     (case gitCommand E h path [''worktree'', ''list'', ''--porcelain''] of
        Inl e \<Rightarrow> Inl e
      | Inr out \<Rightarrow>
          (case find (\<lambda>line. has_prefix line ''worktree '') (split_on (CHR 0x0A) out) of
             Some line \<Rightarrow> Inr (trim_space (trim_prefix line ''worktree ''))
           | None \<Rightarrow> Inl (ExecIO ''authoritative worktree is unavailable'')))"

text \<open>The checkpoint commit of a dirty worktree.\<close>

definition checkpoint_args :: "string \<Rightarrow> string list" where
  "checkpoint_args task = [''-c'', ''user.name=CodeLocal'', ''-c'', ''user.email=codelocal@localhost'',
     ''commit'', ''-m'', ''chore(codelocal): checkpoint task '' @ trim_space task]"

definition archive_commit ::
  "('z) exec_env_scheme \<Rightarrow> string \<Rightarrow> string \<Rightarrow> string \<Rightarrow> exec_world \<Rightarrow> exec_world \<times> exec_error option" where
  "archive_commit E task path status w =
     (if trim_space status = [] then (w, None)
      else case git_write E path [''add'', ''-A''] w of
        (w1, Inl e) \<Rightarrow> (w1, Some e)
      | (w1, Inr out) \<Rightarrow>
          (case git_write E path (checkpoint_args task) w1 of
             (w2, Inl e) \<Rightarrow> (w2, Some e)
           | (w2, Inr out) \<Rightarrow> (w2, None)))"

text \<open>The rest of \<open>archive\<close>: push the head to the archive branch and compare it with what the remote then shows.\<close>

definition archive_push ::
  "('z) exec_env_scheme \<Rightarrow> string \<Rightarrow> string \<Rightarrow> exec_world \<Rightarrow> exec_world \<times> exec_error option" where
  "archive_push E ref path w =
     (case gitCommand E (ew_git w) path [''remote'', ''get-url'', ''origin''] of
        Inl e \<Rightarrow> (w, Some (ExecIO ''origin remote is required to archive an old worktree''))
      | Inr url \<Rightarrow>
          (case gitCommand E (ew_git w) path [''rev-parse'', ''HEAD''] of
             Inl e \<Rightarrow> (w, Some e)
           | Inr head \<Rightarrow>
               (case git_write E path [''push'', ''origin'', ''HEAD:'' @ ref] w of
                  (w1, Inl e) \<Rightarrow> (w1, Some e)
                | (w1, Inr out) \<Rightarrow>
                    (case gitCommand E (ew_git w1) path [''ls-remote'', ''--heads'', ''origin'', ref] of
                       Inl e \<Rightarrow> (w1, Some e)
                     | Inr remote \<Rightarrow>
                         let ws = str_fields [] remote in
                         (w1, if length ws < 2 \<or> ws ! 0 \<noteq> head \<or> ws ! 1 \<noteq> ref
                              then Some (ExecIO ''remote archive verification failed'') else None)))))"

text \<open>\<open>archive\<close>: a binding whose directory is gone needs nothing (\<open>Inr []\<close>); else the main checkout is returned.\<close>

definition archive ::
  "('z) exec_env_scheme \<Rightarrow> string \<Rightarrow> repository_binding \<Rightarrow> exec_world \<Rightarrow> exec_world \<times> (exec_error + string)" where
  "archive E task r w =
     (let path = rb_local r in
      case stat_error E path of
        Some e \<Rightarrow> (w, Inl (ExecIO e))
      | None \<Rightarrow>
          if path \<notin> set (ew_dirs w) \<and> \<not> plain_file E path then (w, Inr [])
          else if trim_space (rb_branch r) = [] then (w, Inl (ExecIO ''worktree branch is unknown''))
          else case mainWorktreeRoot E (ew_git w) path of
            Inl e \<Rightarrow> (w, Inl e)
          | Inr root \<Rightarrow>
              (case gitCommand E (ew_git w) path [''status'', ''--porcelain''] of
                 Inl e \<Rightarrow> (w, Inl e)
               | Inr status \<Rightarrow>
                   (case archive_commit E task path status w of
                      (w1, Some e) \<Rightarrow> (w1, Inl e)
                    | (w1, None) \<Rightarrow>
                        (case archive_push E (''refs/heads/'' @ archiveBranch E task) path w1 of
                           (w2, Some e) \<Rightarrow> (w2, Inl e)
                         | (w2, None) \<Rightarrow> (w2, Inr root)))))"

definition removeArchived ::
  "('z) exec_env_scheme \<Rightarrow> repository_binding \<times> string \<Rightarrow> exec_world \<Rightarrow> exec_world \<times> exec_error option" where
  "removeArchived E a w =
     (let r = fst a; root = snd a in
      if root = [] then (w, None)
      else case git_remove_worktree E [''--force''] root (rb_local r) w of
        (w1, Some e) \<Rightarrow> (w1, Some e)
      | (w1, None) \<Rightarrow>
          (case (if rb_branch r \<noteq> [] \<and> gitCommandOK E (ew_git w1) root [''show-ref'', ''--verify'', ''--quiet'', ''refs/heads/'' @ rb_branch r]
                 then git_write E root [''branch'', ''-D'', rb_branch r] w1 else (w1, Inr [])) of
             (w2, Inl e) \<Rightarrow> (w2, Some e)
           | (w2, Inr out) \<Rightarrow>
               (case git_write E root [''worktree'', ''prune''] w2 of
                  (w3, Inl e) \<Rightarrow> (w3, Some e)
                | (w3, Inr out) \<Rightarrow> (w3, None))))"

fun archive_all ::
  "('z) exec_env_scheme \<Rightarrow> string \<Rightarrow> repository_binding list \<Rightarrow> exec_world
     \<Rightarrow> exec_world \<times> (exec_error + (repository_binding \<times> string) list)" where
  "archive_all E task [] w = (w, Inr [])"
| "archive_all E task (r # rs) w =
     (case archive E task r w of
        (w1, Inl e) \<Rightarrow> (w1, Inl e)
      | (w1, Inr root) \<Rightarrow>
          (case archive_all E task rs w1 of
             (w2, Inl e) \<Rightarrow> (w2, Inl e)
           | (w2, Inr items) \<Rightarrow> (w2, Inr ((r, root) # items))))"

fun remove_all ::
  "('z) exec_env_scheme \<Rightarrow> (repository_binding \<times> string) list \<Rightarrow> exec_world \<Rightarrow> exec_world \<times> exec_error option" where
  "remove_all E [] w = (w, None)"
| "remove_all E (a # as) w =
     (case removeArchived E a w of
        (w1, Some e) \<Rightarrow> (w1, Some e)
      | (w1, None) \<Rightarrow> remove_all E as w1)"

definition archiveAndRemoveBundle ::
  "('z) exec_env_scheme \<Rightarrow> exec_bundle \<Rightarrow> exec_world \<Rightarrow> exec_world \<times> exec_error option" where
  "archiveAndRemoveBundle E b w =
     (case archive_all E (eb_task b) (eb_bindings b) w of
        (w1, Inl e) \<Rightarrow> (w1, Some e)
      | (w1, Inr items) \<Rightarrow> remove_all E items w1)"

section \<open>Cleaning up a merged worktree\<close>

definition CanCleanup :: "('z) exec_env_scheme \<Rightarrow> checkout \<Rightarrow> repository_binding \<Rightarrow> exec_world \<Rightarrow> exec_error + bool \<times> string" where
  "CanCleanup E repo r w =
     (case gitCommand E (ew_git w) (rb_local r) [''status'', ''--porcelain''] of
        Inl e \<Rightarrow> Inl e
      | Inr status \<Rightarrow>
          if trim_space status \<noteq> [] then Inr (False, ''worktree has uncommitted changes'')
          else if rb_branch r = [] then Inr (False, ''worktree branch is unknown'')
          else if \<not> gitCommandOK E (ew_git w) (co_root repo) [''merge-base'', ''--is-ancestor'', rb_branch r, ''HEAD'']
          then Inr (False, ''task branch contains commits not merged into the authoritative checkout'')
          else Inr (True, ''safe to remove''))"

definition Cleanup ::
  "('z) exec_env_scheme \<Rightarrow> checkout \<Rightarrow> repository_binding \<Rightarrow> exec_world \<Rightarrow> exec_world \<times> exec_error option" where
  "Cleanup E repo r w =
     (case CanCleanup E repo r w of
        Inl e \<Rightarrow> (w, Some e)
      | Inr (False, reason) \<Rightarrow> (w, Some (ExecIO reason))
      | Inr (True, reason) \<Rightarrow>
          (case git_remove_worktree E [] (co_root repo) (rb_local r) w of
             (w1, Some e) \<Rightarrow> (w1, Some e)
           | (w1, None) \<Rightarrow>
               if rb_branch r = [] then (w1, None)
               else case git_write E (co_root repo) [''branch'', ''-d'', rb_branch r] w1 of
                 (w2, Inl e) \<Rightarrow> (w2, Some e)
               | (w2, Inr out) \<Rightarrow> (w2, None)))"

section \<open>The worktree limit\<close>

text \<open>
  \<open>Store.ListWorkspace\<close>: \<open>names\<close> are the digests of the \<open>.json\<close> files \<open>os.ReadDir\<close> lists, in its order; \<open>Inl\<close> is a
  directory that cannot be read.
\<close>

fun list_bundles :: "exec_io \<Rightarrow> string \<Rightarrow> string list \<Rightarrow> exec_fs \<Rightarrow> exec_error + exec_bundle list" where
  "list_bundles io d [] fs = Inr []"
| "list_bundles io d (n # ns) fs =
     (case readBundle io (d, n) fs of
        Inl e \<Rightarrow> Inl e
      | Inr r \<Rightarrow>
          (case list_bundles io d ns fs of
             Inl e \<Rightarrow> Inl e
           | Inr bs \<Rightarrow> Inr (case r of None \<Rightarrow> bs | Some b \<Rightarrow> b # bs)))"

definition Store_ListWorkspace ::
  "('z) goenv_scheme \<Rightarrow> exec_io \<Rightarrow> (string + string list) \<Rightarrow> string \<Rightarrow> exec_fs \<Rightarrow> exec_error + exec_bundle list" where
  "Store_ListWorkspace G io names ws fs =
     (case names of
        Inl e \<Rightarrow> Inl (ExecIO e)
      | Inr ns \<Rightarrow> list_bundles io (digestKey G [''workspace'', ws]) ns fs)"

text \<open>
  The loop over the bundles, oldest first: \<open>current\<close> counts the worktrees, \<open>last\<close> is \<open>lastErr\<close>; the result is the
  final count and \<open>lastErr\<close>, or the error of a failed deletion. \<open>del\<close> gives the outcome of each \<open>os.Remove\<close>.
\<close>

fun limit_loop ::
  "('z) exec_env_scheme \<Rightarrow> gotime \<Rightarrow> (string \<Rightarrow> string option) \<Rightarrow> string \<Rightarrow> string \<Rightarrow> int \<Rightarrow> exec_bundle list
     \<Rightarrow> int \<Rightarrow> exec_error option \<Rightarrow> exec_world \<Rightarrow> exec_world \<times> (exec_error + int \<times> exec_error option)" where
  "limit_loop E now del ws protected target [] current le w = (w, Inr (current, le))"
| "limit_loop E now del ws protected target (b # bs) current le w =
     (if current \<le> target then (w, Inr (current, le))
      else if eb_provider b \<noteq> ProviderLocalWorktree \<or> eb_task b = protected
      then limit_loop E now del ws protected target bs current le w
      else if existingBindingCount E w b = 0 then
        (case Store_Delete E (del (eb_task b)) ws (eb_task b) (ew_fs w) of
           (fs, e) \<Rightarrow> limit_loop E now del ws protected target bs current (if e = None then le else e) (w\<lparr>ew_fs := fs\<rparr>))
      else if bundleIsLeased now b \<or> bundleIsRunning E b
      then limit_loop E now del ws protected target bs current le w
      else case archiveAndRemoveBundle E b w of
        (w1, Some e) \<Rightarrow> limit_loop E now del ws protected target bs current (Some e) w1
      | (w1, None) \<Rightarrow>
          (case Store_Delete E (del (eb_task b)) ws (eb_task b) (ew_fs w1) of
             (fs, Some e) \<Rightarrow> (w1\<lparr>ew_fs := fs\<rparr>, Inl e)
           | (fs, None) \<Rightarrow>
               limit_loop E now del ws protected target bs (current - existingBindingCount E w b) le (w1\<lparr>ew_fs := fs\<rparr>)))"

definition enforceWorktreeLimit ::
  "('z) exec_env_scheme \<Rightarrow> gotime \<Rightarrow> exec_io \<Rightarrow> (string + string list) \<Rightarrow> (string \<Rightarrow> string option) \<Rightarrow> int
     \<Rightarrow> string \<Rightarrow> string \<Rightarrow> int \<Rightarrow> exec_world \<Rightarrow> exec_world \<times> exec_error option" where
  "enforceWorktreeLimit E now io names del maxw ws protected required w =
     (let limit = NormalizeMaxWorktrees maxw in
      if required > limit then (w, Some ErrWorktreeLimitReached)
      else case Store_ListWorkspace E io names ws (ew_fs w) of
        Inl e \<Rightarrow> (w, Some e)
      | Inr bundles \<Rightarrow>
          let current = sum_list (map (existingBindingCount E w) (filter (\<lambda>b. eb_provider b = ProviderLocalWorktree) bundles));
              target = limit - required in
          if current \<le> target then (w, None)
          else case limit_loop E now del ws protected target (oldestBundles bundles) current None w of
            (w1, Inl e) \<Rightarrow> (w1, Some e)
          | (w1, Inr (c, le)) \<Rightarrow> (w1, if c > target then Some ErrWorktreeLimitReached else None))"

definition ReconcileLimit ::
  "('z) exec_env_scheme \<Rightarrow> gotime \<Rightarrow> exec_io \<Rightarrow> (string + string list) \<Rightarrow> (string \<Rightarrow> string option) \<Rightarrow> int
     \<Rightarrow> string \<Rightarrow> exec_world \<Rightarrow> exec_world \<times> exec_error option" where
  "ReconcileLimit E now io names del maxw ws w = enforceWorktreeLimit E now io names del maxw ws [] 0 w"

section \<open>Leases on live checkouts\<close>

definition activeCheckoutKey :: "('z) exec_env_scheme \<Rightarrow> string \<Rightarrow> string" where
  "activeCheckoutKey E path = (if trim_space path = [] then [] else real_path E (trim_space path))"

text \<open>The loop of both \<open>activeCheckoutPaths\<close> functions: blank keys are skipped, the first occurrence is kept.\<close>

definition checkout_paths :: "('z) exec_env_scheme \<Rightarrow> string list \<Rightarrow> string list" where
  "checkout_paths E ps = uniq_from [] (filter (\<lambda>k. k \<noteq> []) (map (activeCheckoutKey E) ps))"

definition activeCheckoutPathsFromRequest :: "('z) exec_env_scheme \<Rightarrow> prepare_request \<Rightarrow> string list" where
  "activeCheckoutPathsFromRequest E r = checkout_paths E (map co_root (pr_repos r))"

definition activeCheckoutPathsFromBundle :: "('z) exec_env_scheme \<Rightarrow> exec_bundle \<Rightarrow> string list" where
  "activeCheckoutPathsFromBundle E b = checkout_paths E (map rb_local (eb_bindings b))"

definition lease_is :: "string \<Rightarrow> string \<Rightarrow> string \<Rightarrow> checkout_lease \<Rightarrow> bool" where
  "lease_is ws task owner l \<longleftrightarrow> al_ws l = ws \<and> al_task l = task \<and> al_owner l = owner"

definition acquireActiveCheckoutLease ::
  "gotime \<Rightarrow> string list \<Rightarrow> string \<Rightarrow> string \<Rightarrow> string \<Rightarrow> int \<Rightarrow> (string \<times> checkout_lease) list
     \<Rightarrow> (string \<times> checkout_lease) list \<times> exec_error option" where
  "acquireActiveCheckoutLease now paths ws0 task0 owner0 ttl items =
     (let ws = trim_space ws0; task = trim_space task0; owner = trim_space owner0 in
      if paths = [] then (items, None)
      else if ws = [] \<or> task = [] \<or> owner = [] then (items, Some ErrCheckoutIdentity)
      else
        let live = filter (\<lambda>kl. now < al_expires (snd kl)) items in
        if list_ex (\<lambda>p. case map_of live p of None \<Rightarrow> False | Some l \<Rightarrow> \<not> lease_is ws task owner l) paths
        then (live, Some ErrActiveCheckoutBusy)
        else (fold (\<lambda>p m. AList.update p \<lparr>al_ws = ws, al_task = task, al_owner = owner,
                                           al_expires = now + default_ttl ttl\<rparr> m) paths live, None))"

definition releaseActiveCheckoutLease ::
  "string \<Rightarrow> string \<Rightarrow> string \<Rightarrow> (string \<times> checkout_lease) list \<Rightarrow> (string \<times> checkout_lease) list" where
  "releaseActiveCheckoutLease ws task owner items = filter (\<lambda>kl. \<not> lease_is ws task owner (snd kl)) items"

section \<open>Repository coverage\<close>

definition coverage_key :: "string \<Rightarrow> string \<Rightarrow> string" where
  "coverage_key i p = trim_space i @ [CHR 0x00] @ trim_space p"

text \<open>\<open>existingCoverage\<close>, of which the code only uses the keys, and the maps \<open>byPath\<close> and \<open>byID\<close>, in which later bindings win.\<close>

definition existingCoverage :: "repository_binding list \<Rightarrow> string list" where
  "existingCoverage bs = map (\<lambda>b. coverage_key (rb_id b) (rb_path b)) bs"

definition by_path :: "repository_binding list \<Rightarrow> string \<Rightarrow> string option" where
  "by_path bs = map_of (rev (map (\<lambda>b. (trim_space (rb_path b), trim_space (rb_id b))) bs))"

definition by_id :: "repository_binding list \<Rightarrow> string \<Rightarrow> string option" where
  "by_id bs = map_of (rev (map (\<lambda>b. (trim_space (rb_id b), trim_space (rb_path b))) bs))"

fun missing_loop :: "repository_binding list \<Rightarrow> checkout list \<Rightarrow> exec_error + checkout list" where
  "missing_loop bs [] = Inr []"
| "missing_loop bs (r # rs) =
     (let i = trim_space (co_id r); p = trim_space (co_path r) in
      if coverage_key i p \<in> set (existingCoverage bs) then missing_loop bs rs
      else if (case by_path bs p of Some k \<Rightarrow> k \<noteq> i | None \<Rightarrow> False) then Inl ErrRepositoryCoverageChanged
      else if (case by_id bs i of Some k \<Rightarrow> k \<noteq> p | None \<Rightarrow> False) then Inl ErrRepositoryCoverageChanged
      else case missing_loop bs rs of Inl e \<Rightarrow> Inl e | Inr ms \<Rightarrow> Inr (r # ms))"

definition missingRepositories :: "repository_binding list \<Rightarrow> checkout list \<Rightarrow> exec_error + checkout list" where
  "missingRepositories bs rs = missing_loop bs rs"

definition validateBindings :: "('z) exec_env_scheme \<Rightarrow> exec_world \<Rightarrow> exec_bundle \<Rightarrow> exec_error option" where
  "validateBindings E w b =
     (if list_all (\<lambda>r. stat_error E (rb_local r) = None \<and> rb_local r \<in> set (ew_dirs w) \<and>
           gitCommandOK E (ew_git w) (rb_local r) [''rev-parse'', ''--is-inside-work-tree'']) (eb_bindings b)
      then None else Some ErrBindingUnavailable)"

section \<open>Manager operations\<close>

text \<open>
  How the I/O of one \<open>Ensure\<close> goes: reading the bundle, listing and deleting for the limit, the two writes, the
  claim, and the release on an error path. \<open>en_now\<close> is the clock.
\<close>

record ensure_io =
  en_now :: gotime
  en_get :: exec_io
  en_list :: exec_io
  en_names :: "string + string list"
  en_del :: "string \<Rightarrow> string option"
  en_put :: exec_io
  en_claim :: exec_io
  en_release :: exec_io
  en_max :: int

definition drop_checkouts :: "bool \<Rightarrow> prepare_request \<Rightarrow> string \<Rightarrow> exec_world \<Rightarrow> exec_world" where
  "drop_checkouts held r owner w =
     (if held then w\<lparr>ew_leases := releaseActiveCheckoutLease (pr_ws r) (pr_task r) owner (ew_leases w)\<rparr> else w)"

definition take_checkouts ::
  "('z) exec_env_scheme \<Rightarrow> gotime \<Rightarrow> bool \<Rightarrow> string list \<Rightarrow> prepare_request \<Rightarrow> string \<Rightarrow> int \<Rightarrow> exec_world
     \<Rightarrow> exec_world \<times> exec_error option" where
  "take_checkouts E now held paths r owner ttl w =
     (if held
      then (case acquireActiveCheckoutLease now paths (pr_ws r) (pr_task r) owner ttl (ew_leases w) of
              (m, e) \<Rightarrow> (w\<lparr>ew_leases := m\<rparr>, e))
      else (w, None))"

definition limit_for ::
  "('z) exec_env_scheme \<Rightarrow> ensure_io \<Rightarrow> bool \<Rightarrow> prepare_request \<Rightarrow> nat \<Rightarrow> exec_world \<Rightarrow> exec_world \<times> exec_error option" where
  "limit_for E io enforced r n w =
     (if enforced
      then enforceWorktreeLimit E (en_now io) (en_list io) (en_names io) (en_del io) (en_max io) (pr_ws r) (pr_task r) (int n) w
      else (w, None))"

definition claim_for ::
  "('z) exec_env_scheme \<Rightarrow> ensure_io \<Rightarrow> prepare_request \<Rightarrow> string \<Rightarrow> int \<Rightarrow> exec_world
     \<Rightarrow> exec_world \<times> (exec_error + exec_bundle)" where
  "claim_for E io r owner ttl w =
     (case Store_Claim E (en_now io) (en_claim io) (pr_ws r) (pr_task r) owner ttl (ew_fs w) of
        (fs, c) \<Rightarrow> (w\<lparr>ew_fs := fs\<rparr>, c))"

definition release_for ::
  "('z) exec_env_scheme \<Rightarrow> ensure_io \<Rightarrow> prepare_request \<Rightarrow> string \<Rightarrow> exec_world \<Rightarrow> exec_world" where
  "release_for E io r owner w =
     w\<lparr>ew_fs := fst (Store_Release E (en_now io) (en_release io) (pr_ws r) (pr_task r) owner (ew_fs w))\<rparr>"

definition put_for ::
  "('z) exec_env_scheme \<Rightarrow> ensure_io \<Rightarrow> exec_bundle \<Rightarrow> exec_world \<Rightarrow> exec_world \<times> (exec_error + exec_bundle)" where
  "put_for E io b w =
     (case Store_Put E (en_now io) (en_put io) b (ew_fs w) of (fs, r) \<Rightarrow> (w\<lparr>ew_fs := fs\<rparr>, r))"

text \<open>The branch of \<open>Ensure\<close> for a task that has no bundle yet.\<close>

definition Ensure_new ::
  "('z) exec_env_scheme \<Rightarrow> ensure_io \<Rightarrow> prepare_request \<Rightarrow> string \<Rightarrow> string \<Rightarrow> int \<Rightarrow> exec_world
     \<Rightarrow> exec_world \<times> (exec_error + exec_bundle)" where
  "Ensure_new E io r requested owner ttl w =
     (let held = (requested = ProviderActiveCheckout) in
      case limit_for E io (requested = ProviderLocalWorktree) r (length (pr_repos r)) w of
        (w1, Some e) \<Rightarrow> (w1, Inl e)
      | (w1, None) \<Rightarrow>
          (case take_checkouts E (en_now io) held (activeCheckoutPathsFromRequest E r) r owner ttl w1 of
             (w2, Some e) \<Rightarrow> (w2, Inl e)
           | (w2, None) \<Rightarrow>
               (case provider_prepare E requested r w2 of
                  (w3, Inl e) \<Rightarrow> (drop_checkouts held r owner w3, Inl e)
                | (w3, Inr b) \<Rightarrow>
                    (case put_for E io b w3 of
                       (w4, Inl e) \<Rightarrow> (drop_checkouts held r owner w4, Inl e)
                     | (w4, Inr stored) \<Rightarrow>
                         (case claim_for E io r owner ttl w4 of
                            (w5, Inl e) \<Rightarrow> (drop_checkouts held r owner w5, Inl e)
                          | (w5, Inr c) \<Rightarrow> (w5, Inr c))))))"

text \<open>The expansion of a claimed bundle by the repositories it does not cover yet.\<close>

definition Ensure_expand ::
  "('z) exec_env_scheme \<Rightarrow> ensure_io \<Rightarrow> prepare_request \<Rightarrow> exec_bundle \<Rightarrow> exec_bundle \<Rightarrow> checkout list \<Rightarrow> string \<Rightarrow> int
     \<Rightarrow> exec_world \<Rightarrow> exec_world \<times> (exec_error + exec_bundle)" where
  "Ensure_expand E io r existing claimed missing owner ttl w =
     (let held = (eb_provider existing = ProviderActiveCheckout); r1 = r\<lparr>pr_repos := missing\<rparr> in
      case limit_for E io (eb_provider existing = ProviderLocalWorktree) r (length missing) w of
        (w1, Some e) \<Rightarrow> (release_for E io r owner w1, Inl e)
      | (w1, None) \<Rightarrow>
          if eb_provider existing \<noteq> ProviderLocalWorktree \<and> eb_provider existing \<noteq> ProviderActiveCheckout
          then (release_for E io r owner w1, Inl ErrExecutionProviderMismatch)
          else case take_checkouts E (en_now io) held (activeCheckoutPathsFromRequest E r1) r owner ttl w1 of
            (w2, Some e) \<Rightarrow> (drop_checkouts True r owner (release_for E io r owner w2), Inl e)
          | (w2, None) \<Rightarrow>
              (case provider_prepare E (eb_provider existing) r1 w2 of
                 (w3, Inl e) \<Rightarrow> (drop_checkouts held r owner (release_for E io r owner w3), Inl e)
               | (w3, Inr x) \<Rightarrow>
                   (case put_for E io (claimed\<lparr>eb_bindings := eb_bindings claimed @ eb_bindings x\<rparr>) w3 of
                      (w4, Inl e) \<Rightarrow> (drop_checkouts held r owner w4, Inl e)
                    | (w4, Inr updated) \<Rightarrow> (w4, Inr updated))))"

definition Ensure_existing ::
  "('z) exec_env_scheme \<Rightarrow> ensure_io \<Rightarrow> prepare_request \<Rightarrow> exec_bundle \<Rightarrow> string \<Rightarrow> int \<Rightarrow> exec_world
     \<Rightarrow> exec_world \<times> (exec_error + exec_bundle)" where
  "Ensure_existing E io r existing owner ttl w =
     (case validateBindings E w existing of
        Some e \<Rightarrow> (w, Inl e)
      | None \<Rightarrow>
          let held = (eb_provider existing = ProviderActiveCheckout) in
          (case take_checkouts E (en_now io) held (activeCheckoutPathsFromBundle E existing) r owner ttl w of
             (w1, Some e) \<Rightarrow> (w1, Inl e)
           | (w1, None) \<Rightarrow>
               (case missingRepositories (eb_bindings existing) (pr_repos r) of
                  Inl e \<Rightarrow> (drop_checkouts held r owner w1, Inl e)
                | Inr missing \<Rightarrow>
                    (case claim_for E io r owner ttl w1 of
                       (w2, Inl e) \<Rightarrow> (drop_checkouts held r owner w2, Inl e)
                     | (w2, Inr claimed) \<Rightarrow>
                         if missing = [] then (w2, Inr claimed)
                         else Ensure_expand E io r existing claimed missing owner ttl w2))))"

definition Ensure ::
  "('z) exec_env_scheme \<Rightarrow> ensure_io \<Rightarrow> prepare_request \<Rightarrow> string \<Rightarrow> string \<Rightarrow> int \<Rightarrow> exec_world
     \<Rightarrow> exec_world \<times> (exec_error + exec_bundle)" where
  "Ensure E io r requested owner ttl w =
     (case Store_Get E (en_get io) (pr_ws r) (pr_task r) (ew_fs w) of
        Inl e \<Rightarrow> (w, Inl e)
      | Inr None \<Rightarrow> Ensure_new E io r requested owner ttl w
      | Inr (Some existing) \<Rightarrow> Ensure_existing E io r existing owner ttl w)"

text \<open>
  \<open>SetState\<close> in its two steps, reading and writing: the store's lock is released in between. \<open>Inr b\<close> of the first step
  is the bundle it will write.
\<close>

definition SetState_read ::
  "('z) exec_env_scheme \<Rightarrow> exec_io \<Rightarrow> string \<Rightarrow> string \<Rightarrow> string \<Rightarrow> string \<Rightarrow> exec_fs \<Rightarrow> exec_error + exec_bundle" where
  "SetState_read E io ws task owner st fs =
     (case Store_Get E io ws task fs of
        Inl e \<Rightarrow> Inl e
      | Inr None \<Rightarrow> Inl ErrNotExist
      | Inr (Some b) \<Rightarrow>
          if el_owner (eb_lease b) \<noteq> [] \<and> trim_space (el_owner (eb_lease b)) \<noteq> trim_space owner
          then Inl ErrLeaseHeld else Inr (b\<lparr>eb_state := st\<rparr>))"

definition SetState ::
  "('z) exec_env_scheme \<Rightarrow> gotime \<Rightarrow> exec_io \<Rightarrow> exec_io \<Rightarrow> string \<Rightarrow> string \<Rightarrow> string \<Rightarrow> string \<Rightarrow> exec_fs
     \<Rightarrow> exec_fs \<times> (exec_error + exec_bundle)" where
  "SetState E now io io2 ws task owner st fs =
     (case SetState_read E io ws task owner st fs of
        Inl e \<Rightarrow> (fs, Inl e)
      | Inr b \<Rightarrow> Store_Put E now io2 b fs)"

definition Manager_Release ::
  "('z) exec_env_scheme \<Rightarrow> gotime \<Rightarrow> exec_io \<Rightarrow> string \<Rightarrow> string \<Rightarrow> string \<Rightarrow> exec_world
     \<Rightarrow> exec_world \<times> (exec_error + exec_bundle)" where
  "Manager_Release E now io ws task owner w =
     (case Store_Release E now io ws task owner (ew_fs w) of
        (fs, Inl e) \<Rightarrow> (w\<lparr>ew_fs := fs\<rparr>, Inl e)
      | (fs, Inr b) \<Rightarrow>
          (w\<lparr>ew_fs := fs,
             ew_leases := (if eb_provider b = ProviderActiveCheckout
                           then releaseActiveCheckoutLease ws task owner (ew_leases w) else ew_leases w)\<rparr>, Inr b))"

section \<open>Preparing is all or nothing\<close>

definition removal_works :: "('z) exec_env_scheme \<Rightarrow> bool" where
  "removal_works E \<longleftrightarrow> (\<forall>h root path. gitCommandOK E h root [''worktree'', ''remove'', ''--force'', path])"

text \<open>What every writing Git command leaves alone; the history only grows.\<close>

lemma git_write_world:
  "git_write E root args w = (w', r) \<Longrightarrow> w' = w\<lparr>ew_git := ew_git w @ [(root, args)]\<rparr> \<and> r = gitCommand E (ew_git w) root args"
  by (auto simp: git_write_def)

lemma git_remove_worktree_world:
  assumes "git_remove_worktree E flags root path w = (w', e)"
  shows "ew_fs w' = ew_fs w" and "ew_leases w' = ew_leases w"
    and "ew_git w' = ew_git w @ [(root, [''worktree'', ''remove''] @ flags @ [path])]"
    and "ew_dirs w' = (if e = None then filter (\<lambda>d. d \<noteq> path) (ew_dirs w) else ew_dirs w)"
  using assms by (auto simp: git_remove_worktree_def git_write_def split: sum.splits)

lemma git_remove_worktree_works:
  "removal_works E \<Longrightarrow> git_remove_worktree E [''--force''] root path w = (w', e) \<Longrightarrow> e = None"
  by (auto simp: git_remove_worktree_def git_write_def removal_works_def gitCommandOK_def gitCommand_def split: sum.splits)

lemma ensureWorktree_world:
  assumes "ensureWorktree E r repo branch head w = (w1, res)" and "removal_works E"
  shows "ew_fs w1 = ew_fs w \<and> ew_leases w1 = ew_leases w \<and> (case res of
            Inl e \<Rightarrow> ew_dirs w1 = ew_dirs w
          | Inr (path, True) \<Rightarrow> ew_dirs w1 = path # ew_dirs w \<and> path \<notin> set (ew_dirs w)
          | Inr (path, False) \<Rightarrow> ew_dirs w1 = ew_dirs w)"
proof -
  let ?p = "worktreePath E (pr_ws r) (pr_task r) repo"
  have p: "?p \<notin> set (ew_dirs w)" if "validExistingWorktree E ?p w = Inr False"
    using that by (auto simp: validExistingWorktree_def split: option.splits if_splits)
  then have f: "filter (\<lambda>d. d \<noteq> ?p) (ew_dirs w) = ew_dirs w" if "validExistingWorktree E ?p w = Inr False"
    using that by (auto simp: filter_id_conv)
  have rm: "ew_dirs (fst (git_remove_worktree E [''--force''] root ?p v)) = filter (\<lambda>d. d \<noteq> ?p) (ew_dirs v) \<and>
      ew_fs (fst (git_remove_worktree E [''--force''] root ?p v)) = ew_fs v \<and>
      ew_leases (fst (git_remove_worktree E [''--force''] root ?p v)) = ew_leases v" for root v
    using git_remove_worktree_world [of E "[''--force'']" root ?p v] git_remove_worktree_works [OF assms(2), of root ?p v]
    by (cases "git_remove_worktree E [''--force''] root ?p v") simp
  show ?thesis using assms p f rm
    by (auto simp: ensureWorktree_def Let_def git_write_def split: option.splits sum.splits bool.splits)
qed

lemma rollbackWorktrees_world:
  assumes "removal_works E"
  shows "ew_dirs (rollbackWorktrees E cs w) = filter (\<lambda>d. d \<notin> snd ` set cs) (ew_dirs w) \<and>
    ew_fs (rollbackWorktrees E cs w) = ew_fs w \<and> ew_leases (rollbackWorktrees E cs w) = ew_leases w"
  using assms
proof (induction E cs w rule: rollbackWorktrees.induct)
  case (2 E repo path cs w)
  obtain w1 e where g: "git_remove_worktree E [''--force''] (co_root repo) path w = (w1, e)" by fastforce
  from "2.IH" "2.prems" git_remove_worktree_world [OF g] git_remove_worktree_works [OF "2.prems" g]
  show ?case by (auto simp: g intro: filter_cong)
qed simp

lemma prepareRepositories_world:
  assumes "prepareRepositories E r branch repos created bs w = (w', res)" and "removal_works E"
    and "set (ew_dirs w) = D \<union> snd ` set created" and "D \<inter> snd ` set created = {}"
  shows "ew_fs w' = ew_fs w \<and> ew_leases w' = ew_leases w \<and>
    (case res of Inl e \<Rightarrow> set (ew_dirs w') = D | Inr bs' \<Rightarrow> D \<subseteq> set (ew_dirs w'))"
  using assms
proof (induction E r branch repos created bs w rule: prepareRepositories.induct)
  case (1 E r branch created bs w)
  then show ?case by auto
next
  case (2 E r branch repo repos created bs w)
  obtain w1 res1 where step: "prepareRepository E r repo branch w = (w1, res1)" by fastforce
  show ?case
  proof (cases res1)
    case (Inl e)
    have w1: "ew_dirs w1 = ew_dirs w \<and> ew_fs w1 = ew_fs w \<and> ew_leases w1 = ew_leases w"
    proof (cases "sourceState E (ew_git w) repo")
      case (Inl x)
      then show ?thesis using step by (simp add: prepareRepository_def)
    next
      case (Inr src)
      obtain v y where v: "ensureWorktree E r repo branch (ss_head src) w = (v, y)" by fastforce
      then show ?thesis using ensureWorktree_world [OF v "2.prems"(2)] Inr step \<open>res1 = Inl e\<close>
        by (cases y) (auto simp: prepareRepository_def)
    qed
    from Inl step "2.prems"(1) have "w' = rollbackWorktrees E created w1" "res = Inl e" by auto
    with w1 rollbackWorktrees_world [OF "2.prems"(2), of created w1] "2.prems"(3,4) show ?thesis by auto
  next
    case (Inr x)
    obtain b added where x: "x = (b, added)" by fastforce
    obtain src where src: "sourceState E (ew_git w) repo = Inr src"
      using step Inr by (cases "sourceState E (ew_git w) repo") (auto simp: prepareRepository_def)
    have "ensureWorktree E r repo branch (ss_head src) w = (w1, Inr (rb_local b, added))"
      using step Inr x src by (auto simp: prepareRepository_def repositoryBinding_def split: sum.splits prod.splits)
    from ensureWorktree_world [OF this "2.prems"(2)]
    have w1: "ew_dirs w1 = (if added then rb_local b # ew_dirs w else ew_dirs w)" "ew_fs w1 = ew_fs w"
        "ew_leases w1 = ew_leases w" "added \<Longrightarrow> rb_local b \<notin> set (ew_dirs w)"
      by (auto split: bool.splits)
    have "prepareRepositories E r branch repos (if added then (repo, rb_local b) # created else created) (bs @ [b]) w1 = (w', res)"
      using "2.prems"(1) step Inr x by simp
    from "2.IH" [OF step [symmetric] Inr x [symmetric] this "2.prems"(2)] w1 "2.prems"(3,4)
    show ?thesis by (cases added) auto
  qed
qed

text \<open>
  Preparing local worktrees is all or nothing: when it fails and Git can remove what it created, exactly the
  directories that existed before exist again, and the bundle files and checkout leases are untouched.
\<close>

theorem Local_Prepare_rollback:
  assumes "Local_Prepare E r w = (w', Inl e)" and "removal_works E"
  shows "set (ew_dirs w') = set (ew_dirs w) \<and> ew_fs w' = ew_fs w \<and> ew_leases w' = ew_leases w"
proof (cases "prepareRepositories E r (taskBranch E (pr_task r)) (pr_repos r) [] [] w")
  case (Pair w1 res)
  with prepareRepositories_world [OF Pair assms(2), of "set (ew_dirs w)"] assms(1) show ?thesis
    by (auto simp: Local_Prepare_def split: option.splits sum.splits)
qed

section \<open>Coverage\<close>

lemma missing_loop_covers:
  "missing_loop bs rs = Inr ms \<Longrightarrow> r \<in> set rs \<Longrightarrow> r \<in> set ms \<or> coverage_key (co_id r) (co_path r) \<in> set (existingCoverage bs)"
  by (induction bs rs arbitrary: ms rule: missing_loop.induct)
    (auto simp: Let_def coverage_key_def split: if_splits sum.splits option.splits)

text \<open>
  The expansion list is exactly the requested repositories that no binding covers, in the order of the request; and the request is
  refused as soon as one of them has the path or the id of a binding under another name.
\<close>

theorem missingRepositories_exact:
  "missingRepositories bs rs =
     (let new = filter (\<lambda>r. coverage_key (co_id r) (co_path r) \<notin> set (existingCoverage bs)) rs in
      if list_ex (\<lambda>r. by_path bs (trim_space (co_path r)) \<notin> {None, Some (trim_space (co_id r))} \<or>
                      by_id bs (trim_space (co_id r)) \<notin> {None, Some (trim_space (co_path r))}) new
      then Inl ErrRepositoryCoverageChanged else Inr new)"
  unfolding missingRepositories_def
  by (induction bs rs rule: missing_loop.induct)
    (auto simp: Let_def coverage_key_def split: option.splits)

section \<open>Nothing is removed before it is archived\<close>

text \<open>
  After the history \<open>h\<close> the worktree of a binding is archived: nothing in it is uncommitted, and the remote answers
  with its head on the archive branch of the task.
\<close>

definition archived_at :: "('z) exec_env_scheme \<Rightarrow> string \<Rightarrow> repository_binding \<Rightarrow> git_log \<Rightarrow> bool" where
  "archived_at E task r h \<longleftrightarrow>
     (let ref = ''refs/heads/'' @ archiveBranch E task in
      gitCommand E h (rb_local r) [''status'', ''--porcelain''] = Inr [] \<and>
      (case (gitCommand E h (rb_local r) [''rev-parse'', ''HEAD''],
             gitCommand E h (rb_local r) [''ls-remote'', ''--heads'', ''origin'', ref]) of
         (Inr head, Inr remote) \<Rightarrow> take 2 (str_fields [] remote) = [head, ref]
       | _ \<Rightarrow> False))"

text \<open>
  What Git documents of the commands that archive a worktree: when staging everything and committing both succeed,
  the status of the worktree is empty (in a worktree without changed submodules and without hooks that write to it),
  and a push changes neither the status nor the head of the worktree it runs in.
\<close>

definition git_commits_all :: "('z) exec_env_scheme \<Rightarrow> string \<Rightarrow> string \<Rightarrow> bool" where
  "git_commits_all E task path \<longleftrightarrow>
     (\<forall>h. gitCommandOK E h path [''add'', ''-A''] \<and> gitCommandOK E (h @ [(path, [''add'', ''-A''])]) path (checkpoint_args task) \<longrightarrow>
        gitCommand E (h @ [(path, [''add'', ''-A'']), (path, checkpoint_args task)]) path [''status'', ''--porcelain''] = Inr [])"

definition git_push_keeps :: "('z) exec_env_scheme \<Rightarrow> string \<Rightarrow> bool" where
  "git_push_keeps E path \<longleftrightarrow>
     (\<forall>h refspec. let h' = h @ [(path, [''push'', ''origin'', refspec])] in
        gitCommand E h' path [''status'', ''--porcelain''] = gitCommand E h path [''status'', ''--porcelain''] \<and>
        gitCommand E h' path [''rev-parse'', ''HEAD''] = gitCommand E h path [''rev-parse'', ''HEAD''])"

definition removes_worktree :: "string \<times> string list \<Rightarrow> bool" where
  "removes_worktree c \<longleftrightarrow> take 2 (snd c) = [''worktree'', ''remove'']"

lemma gitCommand_trimmed: "gitCommand E h root args = Inr out \<Longrightarrow> trim_space out = out"
  by (auto simp: gitCommand_def split: sum.splits)

lemma gitCommand_OK: "gitCommand E h root args = Inr out \<Longrightarrow> gitCommandOK E h root args"
  by (auto simp: gitCommand_def gitCommandOK_def split: sum.splits)

lemma archive_commit_world:
  assumes "archive_commit E task path status w = (w', e)"
  shows "\<exists>cs. w' = w\<lparr>ew_git := ew_git w @ cs\<rparr> \<and> (\<forall>c \<in> set cs. \<not> removes_worktree c)"
    and "e = None \<Longrightarrow> git_commits_all E task path \<Longrightarrow> gitCommand E (ew_git w) path [''status'', ''--porcelain''] = Inr status \<Longrightarrow>
      gitCommand E (ew_git w') path [''status'', ''--porcelain''] = Inr []"
proof -
  let ?add = "(path, [''add'', ''-A''])" and ?commit = "(path, checkpoint_args task)"
  consider "w' = w" "e = None" "trim_space status = []"
    | "w' = w\<lparr>ew_git := ew_git w @ [?add]\<rparr>" "e \<noteq> None"
    | "w' = w\<lparr>ew_git := ew_git w @ [?add, ?commit]\<rparr>" "e \<noteq> None"
    | "w' = w\<lparr>ew_git := ew_git w @ [?add, ?commit]\<rparr>" "e = None" "gitCommandOK E (ew_git w) path [''add'', ''-A'']"
        "gitCommandOK E (ew_git w @ [?add]) path (checkpoint_args task)"
    using assms by (auto simp: archive_commit_def git_write_def split: if_splits sum.splits dest: gitCommand_OK)
  note cases = this
  show "\<exists>cs. w' = w\<lparr>ew_git := ew_git w @ cs\<rparr> \<and> (\<forall>c \<in> set cs. \<not> removes_worktree c)"
  proof -
    have "\<not> removes_worktree ?add" "\<not> removes_worktree ?commit" by (simp_all add: removes_worktree_def checkpoint_args_def)
    then have l: "\<forall>c \<in> set []. \<not> removes_worktree c" "\<forall>c \<in> set [?add]. \<not> removes_worktree c"
      "\<forall>c \<in> set [?add, ?commit]. \<not> removes_worktree c" by simp_all
    have "w' = w\<lparr>ew_git := ew_git w @ []\<rparr> \<or> w' = w\<lparr>ew_git := ew_git w @ [?add]\<rparr> \<or> w' = w\<lparr>ew_git := ew_git w @ [?add, ?commit]\<rparr>"
      by (rule cases) simp_all
    with l show ?thesis by blast
  qed
  show "gitCommand E (ew_git w') path [''status'', ''--porcelain''] = Inr []"
    if "e = None" "git_commits_all E task path" "gitCommand E (ew_git w) path [''status'', ''--porcelain''] = Inr status"
  proof (rule cases)
    assume "w' = w" "trim_space status = []"
    then show ?thesis using that(3) gitCommand_trimmed [OF that(3)] by simp
  next
    assume "w' = w\<lparr>ew_git := ew_git w @ [?add, ?commit]\<rparr>" "gitCommandOK E (ew_git w) path [''add'', ''-A'']"
      "gitCommandOK E (ew_git w @ [?add]) path (checkpoint_args task)"
    then show ?thesis using that(2) by (simp add: git_commits_all_def)
  qed (use that(1) in simp_all)
qed

lemma archive_push_world:
  assumes "archive_push E ref path w = (w', e)"
  shows "w' = w \<or> w' = w\<lparr>ew_git := ew_git w @ [(path, [''push'', ''origin'', ''HEAD:'' @ ref])]\<rparr>"
    and "e = None \<Longrightarrow> \<exists>head remote. w' = w\<lparr>ew_git := ew_git w @ [(path, [''push'', ''origin'', ''HEAD:'' @ ref])]\<rparr> \<and>
      gitCommand E (ew_git w) path [''rev-parse'', ''HEAD''] = Inr head \<and>
      gitCommand E (ew_git w') path [''ls-remote'', ''--heads'', ''origin'', ref] = Inr remote \<and>
      take 2 (str_fields [] remote) = [head, ref]"
proof -
  have two: "take 2 ws = [a, b]" if "\<not> length ws < 2" "ws ! 0 = a" "ws ! 1 = b" for ws and a b :: string
    using that by (cases ws; cases "tl ws") auto
  show "w' = w \<or> w' = w\<lparr>ew_git := ew_git w @ [(path, [''push'', ''origin'', ''HEAD:'' @ ref])]\<rparr>"
    using assms by (auto simp: archive_push_def git_write_def Let_def split: sum.splits)
  show "\<exists>head remote. w' = w\<lparr>ew_git := ew_git w @ [(path, [''push'', ''origin'', ''HEAD:'' @ ref])]\<rparr> \<and>
      gitCommand E (ew_git w) path [''rev-parse'', ''HEAD''] = Inr head \<and>
      gitCommand E (ew_git w') path [''ls-remote'', ''--heads'', ''origin'', ref] = Inr remote \<and>
      take 2 (str_fields [] remote) = [head, ref]" if "e = None"
    using assms that by (auto simp: archive_push_def git_write_def Let_def intro!: two split: sum.splits if_splits)
qed

lemma archive_world:
  assumes "archive E task r w = (w', res)"
  shows "\<exists>cs. w' = w\<lparr>ew_git := ew_git w @ cs\<rparr> \<and> (\<forall>c \<in> set cs. \<not> removes_worktree c)"
    and "res = Inr root \<Longrightarrow> rb_local r \<in> set (ew_dirs w) \<Longrightarrow> git_commits_all E task (rb_local r) \<Longrightarrow>
      git_push_keeps E (rb_local r) \<Longrightarrow> archived_at E task r (ew_git w')"
proof -
  let ?path = "rb_local r" and ?ref = "''refs/heads/'' @ archiveBranch E task"
  consider (early) "w' = w" "\<not> isl res \<Longrightarrow> rb_local r \<notin> set (ew_dirs w)"
    | (commit) status w1 e where "gitCommand E (ew_git w) ?path [''status'', ''--porcelain''] = Inr status"
        "archive_commit E task ?path status w = (w1, Some e)" "w' = w1" "isl res"
    | (push) status w1 e where "gitCommand E (ew_git w) ?path [''status'', ''--porcelain''] = Inr status"
        "archive_commit E task ?path status w = (w1, None)" "archive_push E ?ref ?path w1 = (w', e)" "isl res \<longleftrightarrow> e \<noteq> None"
  proof (cases "\<exists>root status. stat_error E ?path = None \<and> (?path \<in> set (ew_dirs w) \<or> plain_file E ?path) \<and>
      trim_space (rb_branch r) \<noteq> [] \<and> mainWorktreeRoot E (ew_git w) ?path = Inr root \<and>
      gitCommand E (ew_git w) ?path [''status'', ''--porcelain''] = Inr status")
    case False
    have l: "Inl a = x \<Longrightarrow> isl x" for a :: exec_error and x :: "exec_error + string" by auto
    from False have "w' = w \<and> (isl res \<or> rb_local r \<notin> set (ew_dirs w))"
      using assms
      by (cases "stat_error E ?path"; cases "mainWorktreeRoot E (ew_git w) ?path";
          cases "gitCommand E (ew_git w) ?path [''status'', ''--porcelain'']")
        (auto simp: archive_def Let_def split: if_splits dest: l)
    then show thesis using early by blast
  next
    case True
    then obtain root status where t: "stat_error E ?path = None" "?path \<in> set (ew_dirs w) \<or> plain_file E ?path"
      "trim_space (rb_branch r) \<noteq> []" "mainWorktreeRoot E (ew_git w) ?path = Inr root"
      and st: "gitCommand E (ew_git w) ?path [''status'', ''--porcelain''] = Inr status" by blast
    obtain w1 f where c: "archive_commit E task ?path status w = (w1, f)" by fastforce
    have r: "Inr a = x \<Longrightarrow> \<not> isl x" for a :: string and x :: "exec_error + string" by auto
    show thesis
    proof (cases f)
      case None
      obtain w2 e where p: "archive_push E ?ref ?path w1 = (w2, e)" by fastforce
      have "w' = w2 \<and> (isl res \<longleftrightarrow> e \<noteq> None)" using assms t st c None p
        by (cases e) (auto simp: archive_def Let_def dest: r)
      with push [OF st, of w1 e] c None p show thesis by simp
    next
      case (Some e)
      have "w' = w1 \<and> isl res" using assms t st c Some by (auto simp: archive_def Let_def)
      with commit [OF st, of w1 e] c Some show thesis by simp
    qed
  qed
  note cases = this
  show "\<exists>cs. w' = w\<lparr>ew_git := ew_git w @ cs\<rparr> \<and> (\<forall>c \<in> set cs. \<not> removes_worktree c)"
  proof (rule cases)
    assume "w' = w" then show ?thesis by (intro exI [of _ "[]"]) simp
  next
    fix status w1 e assume "archive_commit E task ?path status w = (w1, Some e)" "w' = w1"
    then show ?thesis using archive_commit_world(1) by blast
  next
    fix status w1 e assume c: "archive_commit E task ?path status w = (w1, None)" and p: "archive_push E ?ref ?path w1 = (w', e)"
    obtain cs where cs: "w1 = w\<lparr>ew_git := ew_git w @ cs\<rparr>" "\<forall>c \<in> set cs. \<not> removes_worktree c"
      using archive_commit_world(1) [OF c] by blast
    from archive_push_world(1) [OF p] show ?thesis
    proof
      assume "w' = w1" with cs show ?thesis by blast
    next
      assume "w' = w1\<lparr>ew_git := ew_git w1 @ [(?path, [''push'', ''origin'', ''HEAD:'' @ ?ref])]\<rparr>"
      with cs show ?thesis
        by (intro exI [of _ "cs @ [(?path, [''push'', ''origin'', ''HEAD:'' @ ?ref])]"]) (simp add: removes_worktree_def)
    qed
  qed
  show "archived_at E task r (ew_git w')"
    if "res = Inr root" "rb_local r \<in> set (ew_dirs w)" "git_commits_all E task (rb_local r)" "git_push_keeps E (rb_local r)"
  proof (rule cases)
    fix status w1 e assume c: "gitCommand E (ew_git w) ?path [''status'', ''--porcelain''] = Inr status"
      "archive_commit E task ?path status w = (w1, None)" and p: "archive_push E ?ref ?path w1 = (w', e)" "isl res \<longleftrightarrow> e \<noteq> None"
    have clean: "gitCommand E (ew_git w1) ?path [''status'', ''--porcelain''] = Inr []"
      using archive_commit_world(2) [OF c(2) refl that(3) c(1)] .
    have e: "e = None" using p(2) that(1) by simp
    obtain head remote where pushed: "w' = w1\<lparr>ew_git := ew_git w1 @ [(?path, [''push'', ''origin'', ''HEAD:'' @ ?ref])]\<rparr>"
        "gitCommand E (ew_git w1) ?path [''rev-parse'', ''HEAD''] = Inr head"
        "gitCommand E (ew_git w') ?path [''ls-remote'', ''--heads'', ''origin'', ?ref] = Inr remote"
        "take 2 (str_fields [] remote) = [head, ?ref]"
      using archive_push_world(2) [OF p(1) e] by blast
    with clean that(4) show ?thesis by (simp add: archived_at_def git_push_keeps_def Let_def)
  qed (use that in auto)
qed

lemma archive_all_world:
  assumes "archive_all E task rs w = (w', res)"
  shows "\<exists>cs. w' = w\<lparr>ew_git := ew_git w @ cs\<rparr> \<and> (\<forall>c \<in> set cs. \<not> removes_worktree c)"
    and "res = Inr items \<Longrightarrow> map fst items = rs"
    and "res = Inr items \<Longrightarrow> r \<in> set rs \<Longrightarrow> rb_local r \<in> set (ew_dirs w) \<Longrightarrow> git_commits_all E task (rb_local r) \<Longrightarrow>
      git_push_keeps E (rb_local r) \<Longrightarrow>
      \<exists>cs. prefix (ew_git w @ cs) (ew_git w') \<and> (\<forall>c \<in> set cs. \<not> removes_worktree c) \<and> archived_at E task r (ew_git w @ cs)"
  using assms
proof (induction rs arbitrary: w w' res items)
  case Nil
  { case 1 then show ?case by (intro exI [of _ "[]"]) simp }
  { case 2 then show ?case by simp }
  { case 3 then show ?case by simp }
next
  case (Cons r0 rs)
  { case 1
    obtain w1 res1 where a: "archive E task r0 w = (w1, res1)" by fastforce
    obtain w2 res2 where b: "archive_all E task rs w1 = (w2, res2)" by fastforce
    obtain cs where cs: "w1 = w\<lparr>ew_git := ew_git w @ cs\<rparr>" "\<forall>c \<in> set cs. \<not> removes_worktree c"
      using archive_world(1) [OF a] by blast
    obtain ds where ds: "w2 = w1\<lparr>ew_git := ew_git w1 @ ds\<rparr>" "\<forall>c \<in> set ds. \<not> removes_worktree c"
      using Cons.IH(1) [OF b] by blast
    have "w' = w1 \<or> w' = w2" using 1 a b by (auto split: sum.splits)
    then show ?case
    proof
      assume "w' = w1" with cs show ?case by blast
    next
      assume "w' = w2" with cs ds show ?case by (intro exI [of _ "cs @ ds"]) auto
    qed }
  { case 2
    obtain w1 res1 where a: "archive E task r0 w = (w1, res1)" by fastforce
    obtain w2 res2 where b: "archive_all E task rs w1 = (w2, res2)" by fastforce
    from 2 a b show ?case using Cons.IH(2) [OF _ b] by (auto split: sum.splits) }
  { case 3
    obtain w1 res1 where a: "archive E task r0 w = (w1, res1)" by fastforce
    obtain w2 res2 where b: "archive_all E task rs w1 = (w2, res2)" by fastforce
    obtain root xs where ok: "res1 = Inr root" "res2 = Inr xs" "w' = w2"
      using 3(1,6) a b by (auto split: sum.splits)
    obtain cs where cs: "w1 = w\<lparr>ew_git := ew_git w @ cs\<rparr>" "\<forall>c \<in> set cs. \<not> removes_worktree c"
      using archive_world(1) [OF a] by blast
    obtain ds where ds: "w2 = w1\<lparr>ew_git := ew_git w1 @ ds\<rparr>" "\<forall>c \<in> set ds. \<not> removes_worktree c"
      using Cons.IH(1) [OF b] by blast
    show ?case
    proof (cases "r = r0")
      case True
      then have "archived_at E task r (ew_git w1)" using archive_world(2) [OF a ok(1)] 3(3-5) by simp
      then show ?thesis using cs ds ok(3) by (intro exI [of _ cs]) simp
    next
      case False
      then have "r \<in> set rs" "rb_local r \<in> set (ew_dirs w1)" using 3(2,3) cs(1) by simp_all
      from Cons.IH(3) [OF ok(2) this 3(4,5) b]
      obtain es where "prefix (ew_git w1 @ es) (ew_git w2)" "\<forall>c \<in> set es. \<not> removes_worktree c"
        "archived_at E task r (ew_git w1 @ es)" by blast
      then show ?thesis using cs ok(3) by (intro exI [of _ "cs @ es"]) auto
    qed }
qed

text \<open>What each world may do after a step: files and leases stay, directories only disappear, the history grows.\<close>

lemma removeArchived_world:
  assumes "removeArchived E a w = (w', e)"
  shows "ew_fs w' = ew_fs w \<and> ew_leases w' = ew_leases w \<and> set (ew_dirs w') \<subseteq> set (ew_dirs w) \<and>
     set (ew_dirs w) \<subseteq> insert (rb_local (fst a)) (set (ew_dirs w')) \<and> prefix (ew_git w) (ew_git w')"
proof (cases "snd a = []")
  case False
  obtain w1 f where g: "git_remove_worktree E [''--force''] (snd a) (rb_local (fst a)) w = (w1, f)" by fastforce
  have "ew_fs w' = ew_fs w1 \<and> ew_leases w' = ew_leases w1 \<and> ew_dirs w' = ew_dirs w1 \<and> prefix (ew_git w1) (ew_git w')"
    using assms False g by (auto simp: removeArchived_def git_write_def Let_def split: option.splits sum.splits if_splits)
  with git_remove_worktree_world [OF g] show ?thesis by (auto simp: prefix_def split: if_splits)
qed (use assms in \<open>simp add: removeArchived_def Let_def subset_insertI\<close>)

lemma remove_all_world:
  "remove_all E items w = (w', e) \<Longrightarrow>
     ew_fs w' = ew_fs w \<and> ew_leases w' = ew_leases w \<and> set (ew_dirs w') \<subseteq> set (ew_dirs w) \<and>
     set (ew_dirs w) \<subseteq> rb_local ` fst ` set items \<union> set (ew_dirs w') \<and> prefix (ew_git w) (ew_git w')"
proof (induction E items w rule: remove_all.induct)
  case (2 E a as w)
  obtain w1 e1 where step: "removeArchived E a w = (w1, e1)" by fastforce
  note one = removeArchived_world [OF step]
  show ?case
  proof (cases e1)
    case None
    then have "remove_all E as w1 = (w', e)" using "2.prems" step by simp
    from "2.IH" [OF step [symmetric] None this] one show ?thesis by (auto intro: prefix_order.trans)
  next
    case (Some x)
    with "2.prems" step one show ?thesis by auto
  qed
qed simp

lemma archiveAndRemoveBundle_world:
  assumes "archiveAndRemoveBundle E b w = (w', e)"
  shows "ew_fs w' = ew_fs w" and "ew_leases w' = ew_leases w" and "set (ew_dirs w') \<subseteq> set (ew_dirs w)"
    and "set (ew_dirs w) \<subseteq> rb_local ` set (eb_bindings b) \<union> set (ew_dirs w')"
proof -
  obtain w1 res where a: "archive_all E (eb_task b) (eb_bindings b) w = (w1, res)" by fastforce
  obtain cs where w1: "w1 = w\<lparr>ew_git := ew_git w @ cs\<rparr>" using archive_all_world(1) [OF a] by blast
  have *: "ew_fs w' = ew_fs w \<and> ew_leases w' = ew_leases w \<and> set (ew_dirs w') \<subseteq> set (ew_dirs w) \<and>
      set (ew_dirs w) \<subseteq> rb_local ` set (eb_bindings b) \<union> set (ew_dirs w')"
  proof (cases res)
    case (Inl x)
    then have "w' = w\<lparr>ew_git := ew_git w @ cs\<rparr>" using assms a w1 by (auto simp: archiveAndRemoveBundle_def)
    then show ?thesis by simp
  next
    case (Inr items)
    then have "remove_all E items w1 = (w', e)" using assms a by (simp add: archiveAndRemoveBundle_def)
    from remove_all_world [OF this] archive_all_world(2) [OF a Inr] w1 show ?thesis by (auto simp flip: set_map)
  qed
  then show "ew_fs w' = ew_fs w" "ew_leases w' = ew_leases w" "set (ew_dirs w') \<subseteq> set (ew_dirs w)"
    "set (ew_dirs w) \<subseteq> rb_local ` set (eb_bindings b) \<union> set (ew_dirs w')" by blast+
qed

text \<open>
  C22. The worktree limit loses no work: when \<open>archiveAndRemoveBundle\<close>, with which the limit removes worktrees, makes a
  directory disappear, the directory belonged to the bundle, and for every worktree of the bundle that existed there
  was a moment, before the first command of this run that removes a worktree, at which nothing in that worktree was
  uncommitted and the remote had its head on the archive branch of the task. Of Git it is assumed that staging
  everything and committing leaves an empty status, and that a push keeps the status and the head of the worktree.
  \<open>Cleanup\<close> of a merged worktree and the rollback of a failed preparation remove worktrees without an archive and are
  not covered.
\<close>

theorem archive_before_remove:
  assumes "archiveAndRemoveBundle E b w = (w', e)" and "d \<in> set (ew_dirs w)" and "d \<notin> set (ew_dirs w')"
    and "\<forall>r \<in> set (eb_bindings b). git_commits_all E (eb_task b) (rb_local r) \<and> git_push_keeps E (rb_local r)"
  shows "d \<in> rb_local ` set (eb_bindings b) \<and>
    (\<forall>r \<in> set (eb_bindings b). rb_local r \<in> set (ew_dirs w) \<longrightarrow>
       (\<exists>cs. prefix (ew_git w @ cs) (ew_git w') \<and> (\<forall>c \<in> set cs. \<not> removes_worktree c) \<and>
             archived_at E (eb_task b) r (ew_git w @ cs)))"
proof -
  obtain w1 res where a: "archive_all E (eb_task b) (eb_bindings b) w = (w1, res)" by fastforce
  obtain cs where w1: "w1 = w\<lparr>ew_git := ew_git w @ cs\<rparr>" using archive_all_world(1) [OF a] by blast
  obtain items where res: "res = Inr items" using assms(1-3) a w1 by (cases res) (auto simp: archiveAndRemoveBundle_def)
  then have "remove_all E items w1 = (w', e)" using assms(1) a by (simp add: archiveAndRemoveBundle_def)
  then have "prefix (ew_git w1) (ew_git w')" using remove_all_world by blast
  moreover have "d \<in> rb_local ` set (eb_bindings b)" using archiveAndRemoveBundle_world(4) [OF assms(1)] assms(2,3) by blast
  ultimately show ?thesis using archive_all_world(3) [OF a res] assms(4) by (blast intro: prefix_order.trans)
qed

text \<open>\<open>Cleanup\<close> removes only a worktree without uncommitted changes whose branch is merged into the main checkout.\<close>

lemma Cleanup_safe:
  assumes "Cleanup E repo r w = (w', e)" and "ew_dirs w' \<noteq> ew_dirs w"
  shows "gitCommand E (ew_git w) (rb_local r) [''status'', ''--porcelain''] = Inr [] \<and> rb_branch r \<noteq> [] \<and>
    gitCommandOK E (ew_git w) (co_root repo) [''merge-base'', ''--is-ancestor'', rb_branch r, ''HEAD''] \<and>
    ew_dirs w' = filter (\<lambda>d. d \<noteq> rb_local r) (ew_dirs w)"
  using assms
  by (auto simp: Cleanup_def CanCleanup_def git_remove_worktree_def git_write_def
      split: sum.splits option.splits if_splits bool.splits dest: gitCommand_trimmed)

section \<open>The worktree limit holds\<close>

definition task_path :: "('z) goenv_scheme \<Rightarrow> string \<Rightarrow> exec_bundle \<Rightarrow> exec_path" where
  "task_path G ws b = bundlePath G ws (eb_task b)"

text \<open>The worktrees of the bundle at one path.\<close>

definition path_count :: "('z) exec_env_scheme \<Rightarrow> exec_world \<Rightarrow> exec_path \<Rightarrow> int" where
  "path_count E w p =
     (case ew_fs w p of
        None \<Rightarrow> 0
      | Some b \<Rightarrow> if eb_provider b = ProviderLocalWorktree then existingBindingCount E w b else 0)"

text \<open>The bundles of the list are those of the store at these paths.\<close>

definition listed :: "('z) goenv_scheme \<Rightarrow> string \<Rightarrow> exec_world \<Rightarrow> exec_path set \<Rightarrow> exec_bundle list \<Rightarrow> bool" where
  "listed G ws w P bs \<longleftrightarrow> distinct (map (task_path G ws) bs) \<and>
     (\<forall>b \<in> set bs. task_path G ws b \<in> P \<and>
        (\<exists>b0. ew_fs w (task_path G ws b) = Some b0 \<and> eb_bindings b0 = eb_bindings b \<and> eb_provider b0 = eb_provider b))"

lemma length_filter_mono: "(\<And>x. P x \<Longrightarrow> Q x) \<Longrightarrow> length (filter P xs) \<le> length (filter Q xs)"
  by (induction xs) (auto simp: le_SucI)

lemma existingBindingCount_mono:
  "set (ew_dirs w') \<subseteq> set (ew_dirs w) \<Longrightarrow> existingBindingCount E w' b \<le> existingBindingCount E w b"
  by (auto simp: existingBindingCount_def intro!: length_filter_mono)

lemma existingBindingCount_nonneg: "0 \<le> existingBindingCount E w b"
  by (simp add: existingBindingCount_def)

lemma path_count_nonneg: "0 \<le> path_count E w p"
  by (simp add: path_count_def existingBindingCount_nonneg split: option.splits)


lemma existingBindingCount_cong:
  "eb_bindings b = eb_bindings c \<Longrightarrow> existingBindingCount E w b = existingBindingCount E w c"
  by (simp add: existingBindingCount_def)

lemma path_count_mono:
  "ew_fs w' = ew_fs w \<Longrightarrow> set (ew_dirs w') \<subseteq> set (ew_dirs w) \<Longrightarrow> path_count E w' p \<le> path_count E w p"
  by (auto simp: path_count_def existingBindingCount_mono split: option.splits)

lemma Store_Delete_fs:
  "Store_Delete G io ws task fs = (fs', e) \<Longrightarrow>
     (e = None \<longrightarrow> fs' = fs(bundlePath G ws task := None)) \<and> (e \<noteq> None \<longrightarrow> fs' = fs)"
  by (auto simp: Store_Delete_def split: option.splits)

text \<open>Forgetting the file of one listed bundle takes at least its worktrees off the sum.\<close>

lemma sum_path_count_delete:
  assumes "finite P" and "q \<in> P" and "ew_fs w' = (ew_fs w)(q := None)" and "set (ew_dirs w') \<subseteq> set (ew_dirs w)"
  shows "(\<Sum>p \<in> P. path_count E w' p) \<le> (\<Sum>p \<in> P. path_count E w p) - path_count E w q"
proof -
  have "path_count E w' q = 0" using assms(3) by (simp add: path_count_def)
  moreover have "path_count E w' p \<le> path_count E w p" if "p \<noteq> q" for p
    using assms(3,4) that by (auto simp: path_count_def existingBindingCount_mono split: option.splits)
  then have "(\<Sum>p \<in> P - {q}. path_count E w' p) \<le> (\<Sum>p \<in> P - {q}. path_count E w p)" by (intro sum_mono) auto
  ultimately show ?thesis using assms(1,2) by (simp add: sum.remove [of P q])
qed

lemma listed_tl:
  assumes "listed G ws w P (b # bs)" and "\<forall>p. p \<noteq> task_path G ws b \<longrightarrow> ew_fs w' p = ew_fs w p"
  shows "listed G ws w' P bs"
proof -
  have "task_path G ws c \<noteq> task_path G ws b" if "c \<in> set bs" for c
    using assms(1) that by (auto simp: listed_def image_iff)
  then have "ew_fs w' (task_path G ws c) = ew_fs w (task_path G ws c)" if "c \<in> set bs" for c
    using assms(2) that by blast
  then show ?thesis using assms(1) by (simp add: listed_def)
qed

lemma listed_hd:
  assumes "listed G ws w P (b # bs)" and "eb_provider b = ProviderLocalWorktree"
  shows "task_path G ws b \<in> P" and "path_count E w (task_path G ws b) = existingBindingCount E w b"
  using assms by (auto simp: listed_def path_count_def existingBindingCount_def)

lemma limit_loop_count:
  assumes "limit_loop E now del ws prot target bs cur le w = (w', Inr (cur', le'))" and "finite P"
    and "listed E ws w P bs" and "(\<Sum>p \<in> P. path_count E w p) \<le> cur"
  shows "(\<Sum>p \<in> P. path_count E w' p) \<le> cur'"
  using assms
proof (induction E now del ws prot target bs cur le w rule: limit_loop.induct)
  case (1 E now del ws prot target cur le w)
  then show ?case by simp
next
  case (2 E now del ws prot target b bs cur le w)
  let ?q = "task_path E ws b"
  note skip = listed_tl [OF "2.prems"(3)]
  consider (stop) "cur \<le> target" | (other) "\<not> cur \<le> target" "eb_provider b \<noteq> ProviderLocalWorktree \<or> eb_task b = prot"
    | (empty) "\<not> cur \<le> target" "\<not> (eb_provider b \<noteq> ProviderLocalWorktree \<or> eb_task b = prot)" "existingBindingCount E w b = 0"
    | (used) "\<not> cur \<le> target" "\<not> (eb_provider b \<noteq> ProviderLocalWorktree \<or> eb_task b = prot)" "existingBindingCount E w b \<noteq> 0"
        "bundleIsLeased now b \<or> bundleIsRunning E b"
    | (victim) "\<not> cur \<le> target" "\<not> (eb_provider b \<noteq> ProviderLocalWorktree \<or> eb_task b = prot)" "existingBindingCount E w b \<noteq> 0"
        "\<not> (bundleIsLeased now b \<or> bundleIsRunning E b)"
    by blast
  then show ?case
  proof cases
    case stop
    with "2.prems" show ?thesis by simp
  next
    case other
    with "2.prems"(1) have "limit_loop E now del ws prot target bs cur le w = (w', Inr (cur', le'))" by simp
    then show ?thesis using "2.IH"(1) other "2.prems"(2,4) skip [of w] by blast
  next
    case empty
    obtain fs e where d: "Store_Delete E (del (eb_task b)) ws (eb_task b) (ew_fs w) = (fs, e)" by fastforce
    let ?w = "w\<lparr>ew_fs := fs\<rparr>"
    have l: "listed E ws ?w P bs" using Store_Delete_fs [OF d] by (intro skip) (auto simp: task_path_def)
    have "(\<Sum>p \<in> P. path_count E ?w p) \<le> cur"
    proof (cases e)
      case None
      then have "ew_fs ?w = (ew_fs w)(?q := None)" using Store_Delete_fs [OF d] by (simp add: task_path_def)
      from sum_path_count_delete [OF "2.prems"(2) _ this, of E] listed_hd(1) [OF "2.prems"(3)] listed_hd(2) [OF "2.prems"(3), of E] empty "2.prems"(4)
      show ?thesis by simp
    next
      case (Some x)
      then have "?w = w" using Store_Delete_fs [OF d] by simp
      with "2.prems"(4) show ?thesis by simp
    qed
    moreover have "limit_loop E now del ws prot target bs cur (if e = None then le else e) ?w = (w', Inr (cur', le'))"
      using "2.prems"(1) empty d by simp
    ultimately show ?thesis using "2.IH"(2) [OF empty d [symmetric]] "2.prems"(2) l by blast
  next
    case used
    with "2.prems"(1) have "limit_loop E now del ws prot target bs cur le w = (w', Inr (cur', le'))" by simp
    then show ?thesis using "2.IH"(3) used "2.prems"(2,4) skip [of w] by blast
  next
    case victim
    obtain w1 e where a: "archiveAndRemoveBundle E b w = (w1, e)" by fastforce
    note a1 = archiveAndRemoveBundle_world [OF a]
    show ?thesis
    proof (cases e)
      case (Some x)
      have "(\<Sum>p \<in> P. path_count E w1 p) \<le> cur"
        using sum_mono [of P "path_count E w1" "path_count E w"] path_count_mono [OF a1(1,3)] "2.prems"(4) by fastforce
      moreover have "limit_loop E now del ws prot target bs cur (Some x) w1 = (w', Inr (cur', le'))"
        using "2.prems"(1) victim a Some by simp
      moreover have "listed E ws w1 P bs" using a1(1) by (intro skip) simp
      ultimately show ?thesis using "2.IH"(5) [OF victim a [symmetric] Some] "2.prems"(2) by blast
    next
      case None
      obtain fs d where d: "Store_Delete E (del (eb_task b)) ws (eb_task b) (ew_fs w1) = (fs, d)" by fastforce
      let ?w = "w1\<lparr>ew_fs := fs\<rparr>"
      from "2.prems"(1) victim a None d have dn: "d = None" by (auto split: option.splits)
      then have fs: "ew_fs ?w = (ew_fs w)(?q := None)" using Store_Delete_fs [OF d] a1(1) by (simp add: task_path_def)
      have "listed E ws ?w P bs" using fs by (intro skip) simp
      moreover have "(\<Sum>p \<in> P. path_count E ?w p) \<le> cur - existingBindingCount E w b"
        using sum_path_count_delete [OF "2.prems"(2) _ fs, of E] a1(3) listed_hd(1) [OF "2.prems"(3)] listed_hd(2) [OF "2.prems"(3), of E] victim(2) "2.prems"(4) by simp
      moreover have "limit_loop E now del ws prot target bs (cur - existingBindingCount E w b) le ?w = (w', Inr (cur', le'))"
        using "2.prems"(1) victim a None d dn by simp
      ultimately show ?thesis using "2.IH"(4) [OF victim a [symmetric] None d [symmetric] dn] "2.prems"(2) by blast
    qed
  qed
qed


text \<open>Every listed file is the file of the task it names.\<close>

definition keyed :: "('z) goenv_scheme \<Rightarrow> string \<Rightarrow> string list \<Rightarrow> exec_fs \<Rightarrow> bool" where
  "keyed G ws ns fs \<longleftrightarrow>
     (\<forall>n \<in> set ns. \<forall>b. fs (digestKey G [''workspace'', ws], n) = Some b \<longrightarrow>
        bundlePath G ws (eb_task b) = (digestKey G [''workspace'', ws], n))"

lemma keyed_listed:
  assumes "keyed G ws ns (ew_fs w)" and "distinct ns"
    and "list_bundles io (digestKey G [''workspace'', ws]) ns (ew_fs w) = Inr bs"
  shows "listed G ws w ((\<lambda>n. (digestKey G [''workspace'', ws], n)) ` set ns) bs"
  using assms
proof (induction ns arbitrary: bs)
  case Nil
  then show ?case by (simp add: listed_def)
next
  case (Cons n ns)
  let ?d = "digestKey G [''workspace'', ws]"
  obtain cs where cs: "list_bundles io ?d ns (ew_fs w) = Inr cs"
    using Cons.prems(3) by (auto split: sum.splits)
  have k: "keyed G ws ns (ew_fs w)" using Cons.prems(1) by (simp add: keyed_def)
  have ih: "listed G ws w ((\<lambda>n. (?d, n)) ` set ns) cs" using Cons.IH [OF k _ cs] Cons.prems(2) by simp
  show ?case
  proof (cases "ew_fs w (?d, n)")
    case None
    then have "bs = cs" using Cons.prems(3) cs by (auto simp: readBundle_def split: option.splits)
    with ih show ?thesis by (auto simp: listed_def)
  next
    case (Some b0)
    then have bs: "bs = b0\<lparr>eb_rev := normalizedRevision b0\<rparr> # cs"
      using Cons.prems(3) cs by (auto simp: readBundle_def split: option.splits)
    have p: "task_path G ws (b0\<lparr>eb_rev := normalizedRevision b0\<rparr>) = (?d, n)"
      using Cons.prems(1) Some by (simp add: keyed_def task_path_def)
    have "(?d, n) \<notin> task_path G ws ` set cs" using ih Cons.prems(2) by (auto simp: listed_def)
    with ih p bs Some show ?thesis by (auto simp: listed_def)
  qed
qed

lemma list_bundles_count:
  assumes "list_bundles io d ns (ew_fs w) = Inr bs" and "distinct ns"
  shows "sum_list (map (existingBindingCount E w) (filter (\<lambda>b. eb_provider b = ProviderLocalWorktree) bs)) =
    (\<Sum>p \<in> (\<lambda>n. (d, n)) ` set ns. path_count E w p)"
  using assms
proof (induction ns arbitrary: bs)
  case (Cons n ns)
  obtain cs where cs: "list_bundles io d ns (ew_fs w) = Inr cs"
    using Cons.prems(1) by (auto split: sum.splits)
  have "(\<Sum>p \<in> (\<lambda>n. (d, n)) ` set (n # ns). path_count E w p) =
      path_count E w (d, n) + (\<Sum>p \<in> (\<lambda>n. (d, n)) ` set ns. path_count E w p)"
    using Cons.prems(2) by (simp add: image_iff)
  with Cons.IH [OF cs] Cons.prems cs show ?case
    by (auto simp: readBundle_def path_count_def existingBindingCount_def split: option.splits)
qed simp

lemma listed_sort: "listed G ws w P bs \<Longrightarrow> listed G ws w P (oldestBundles bs)"
  by (simp add: listed_def oldestBundles_def distinct_map)

text \<open>
  C12. The worktree limit: after a run that reports success, the local worktrees of the workspace that its bundle
  files name and that \<open>os.Stat\<close> finds as directories leave room for the required ones under the configured limit,
  whatever Git and the deletions did on the way, provided every file is that of the task it names. A worktree whose
  \<open>os.Stat\<close> fails counts as missing, as in the code.
\<close>

theorem worktree_limit:
  assumes "enforceWorktreeLimit E now io (Inr ns) del maxw ws prot required w = (w', None)"
    and "distinct ns" and "keyed E ws ns (ew_fs w)"
  shows "(\<Sum>n \<in> set ns. path_count E w' (digestKey E [''workspace'', ws], n)) + required \<le> NormalizeMaxWorktrees maxw"
proof -
  let ?d = "digestKey E [''workspace'', ws]" and ?l = "NormalizeMaxWorktrees maxw"
  let ?P = "(\<lambda>n. (?d, n)) ` set ns"
  have sum: "(\<Sum>p \<in> ?P. path_count E v p) = (\<Sum>n \<in> set ns. path_count E v (?d, n))" for v
    by (simp add: sum.reindex inj_on_def o_def)
  obtain bs where bs: "list_bundles io ?d ns (ew_fs w) = Inr bs"
    using assms(1) by (auto simp: enforceWorktreeLimit_def Store_ListWorkspace_def Let_def split: if_splits sum.splits)
  let ?c = "\<Sum>p \<in> ?P. path_count E w p"
  note count = list_bundles_count [OF bs assms(2), of E]
  show ?thesis
  proof (cases "?c \<le> ?l - required")
    case True
    then have "w' = w" using assms(1) bs count
      by (auto simp: enforceWorktreeLimit_def Store_ListWorkspace_def Let_def split: if_splits)
    with True sum [of w] show ?thesis by simp
  next
    case False
    obtain c le where loop: "limit_loop E now del ws prot (?l - required) (oldestBundles bs) ?c None w = (w', Inr (c, le))"
      and c: "c \<le> ?l - required"
      using assms(1) bs count False
      by (auto simp: enforceWorktreeLimit_def Store_ListWorkspace_def Let_def split: if_splits sum.splits prod.splits)
    have "listed E ws w ?P (oldestBundles bs)" by (rule listed_sort [OF keyed_listed [OF assms(3,2) bs]])
    from limit_loop_count [OF loop _ this] c sum [of w'] show ?thesis by simp
  qed
qed

definition locals :: "exec_bundle \<Rightarrow> string set" where
  "locals b = rb_local ` set (eb_bindings b)"

text \<open>A bundle the loop may not touch while it has a worktree, and the other bundles have worktrees of their own.\<close>

definition spared ::
  "('z) exec_env_scheme \<Rightarrow> gotime \<Rightarrow> string \<Rightarrow> exec_bundle \<Rightarrow> bool" where
  "spared E now prot b \<longleftrightarrow> eb_task b = prot \<or> bundleIsLeased now b \<or> bundleIsRunning E b"

lemma existingBindingCount_pos: "\<exists>p \<in> locals b \<inter> set (ew_dirs w). stat_error E p = None \<Longrightarrow> existingBindingCount E w b \<noteq> 0"
  by (auto simp: existingBindingCount_def locals_def filter_empty_conv)

lemma limit_loop_spares:
  assumes "limit_loop E now del ws prot target bs cur le w = (w', res)"
    and "\<forall>c \<in> set bs. (task_path E ws c = q \<longrightarrow> spared E now prot c \<and> locals c = S) \<and>
           (task_path E ws c \<noteq> q \<longrightarrow> locals c \<inter> S = {})"
    and "\<exists>p \<in> S \<inter> set (ew_dirs w). stat_error E p = None"
  shows "ew_fs w' q = ew_fs w q \<and> S \<inter> set (ew_dirs w') = S \<inter> set (ew_dirs w)"
  using assms
proof (induction E now del ws prot target bs cur le w rule: limit_loop.induct)
  case (1 E now del ws prot target cur le w)
  then show ?case by simp
next
  case (2 E now del ws prot target b bs cur le w)
  have tl: "\<forall>c \<in> set bs. (task_path E ws c = q \<longrightarrow> spared E now prot c \<and> locals c = S) \<and>
           (task_path E ws c \<noteq> q \<longrightarrow> locals c \<inter> S = {})" using "2.prems"(2) by simp
  consider (stop) "cur \<le> target" | (other) "\<not> cur \<le> target" "eb_provider b \<noteq> ProviderLocalWorktree \<or> eb_task b = prot"
    | (empty) "\<not> cur \<le> target" "\<not> (eb_provider b \<noteq> ProviderLocalWorktree \<or> eb_task b = prot)" "existingBindingCount E w b = 0"
    | (used) "\<not> cur \<le> target" "\<not> (eb_provider b \<noteq> ProviderLocalWorktree \<or> eb_task b = prot)" "existingBindingCount E w b \<noteq> 0"
        "bundleIsLeased now b \<or> bundleIsRunning E b"
    | (victim) "\<not> cur \<le> target" "\<not> (eb_provider b \<noteq> ProviderLocalWorktree \<or> eb_task b = prot)" "existingBindingCount E w b \<noteq> 0"
        "\<not> (bundleIsLeased now b \<or> bundleIsRunning E b)"
    by blast
  then show ?case
  proof cases
    case stop
    with "2.prems" show ?thesis by simp
  next
    case other
    with "2.prems"(1) have "limit_loop E now del ws prot target bs cur le w = (w', res)" by simp
    then show ?thesis using "2.IH"(1) other "2.prems"(3) tl by blast
  next
    case empty
    obtain fs e where d: "Store_Delete E (del (eb_task b)) ws (eb_task b) (ew_fs w) = (fs, e)" by fastforce
    have "task_path E ws b \<noteq> q" using existingBindingCount_pos [of b w E] empty(3) "2.prems"(2,3) by auto
    then have "fs q = ew_fs w q" using Store_Delete_fs [OF d] by (cases e) (auto simp: task_path_def)
    moreover have "limit_loop E now del ws prot target bs cur (if e = None then le else e) (w\<lparr>ew_fs := fs\<rparr>) = (w', res)"
      using "2.prems"(1) empty d by simp
    ultimately show ?thesis using "2.IH"(2) [OF empty d [symmetric]] "2.prems"(3) tl by simp
  next
    case used
    with "2.prems"(1) have "limit_loop E now del ws prot target bs cur le w = (w', res)" by simp
    then show ?thesis using "2.IH"(3) used "2.prems"(3) tl by blast
  next
    case victim
    have q: "task_path E ws b \<noteq> q" "locals b \<inter> S = {}" using victim "2.prems"(2) by (auto simp: spared_def)
    obtain w1 e where a: "archiveAndRemoveBundle E b w = (w1, e)" by fastforce
    note a1 = archiveAndRemoveBundle_world [OF a]
    have dirs: "S \<inter> set (ew_dirs w1) = S \<inter> set (ew_dirs w)" using a1(3,4) q(2) by (auto simp: locals_def)
    show ?thesis
    proof (cases e)
      case (Some x)
      then have "limit_loop E now del ws prot target bs cur (Some x) w1 = (w', res)"
        using "2.prems"(1) victim a by simp
      then show ?thesis using "2.IH"(5) [OF victim a [symmetric] Some] "2.prems"(3) tl dirs a1(1) by simp
    next
      case None
      obtain fs d where d: "Store_Delete E (del (eb_task b)) ws (eb_task b) (ew_fs w1) = (fs, d)" by fastforce
      have fq: "fs q = ew_fs w q" using Store_Delete_fs [OF d] a1(1) q(1) by (cases d) (auto simp: task_path_def)
      show ?thesis
      proof (cases d)
        case (Some x)
        then have "w' = w1\<lparr>ew_fs := fs\<rparr>" using "2.prems"(1) victim a None d by simp
        with fq dirs show ?thesis by simp
      next
        case dn: None
        have "limit_loop E now del ws prot target bs (cur - existingBindingCount E w b) le (w1\<lparr>ew_fs := fs\<rparr>) = (w', res)"
          using "2.prems"(1) victim a None d dn by simp
        then show ?thesis
          using "2.IH"(4) [OF victim a [symmetric] None d [symmetric] dn] "2.prems"(3) tl dirs fq by simp
      qed
    qed
  qed
qed

text \<open>
  C17. What is in use is spared: whatever the outcome, a bundle that is the one of the task being prepared, or holds a
  live lease, or has a running process, keeps its file and all its worktrees, provided at least one of its worktrees is
  a directory that \<open>os.Stat\<close> finds, no two bundles of the workspace share a worktree, and every file is that of the task
  it names. A leased or running bundle none of whose worktrees can be found loses its file (\<open>limit_forgets_lost\<close>).
\<close>

theorem limit_spares:
  assumes "enforceWorktreeLimit E now io (Inr ns) del maxw ws prot required w = (w', res)"
    and "list_bundles io (digestKey E [''workspace'', ws]) ns (ew_fs w) = Inr bs" and "distinct ns"
    and "keyed E ws ns (ew_fs w)" and "b \<in> set bs" and "spared E now prot b"
    and "\<exists>p \<in> locals b \<inter> set (ew_dirs w). stat_error E p = None"
    and "\<forall>c \<in> set bs. c \<noteq> b \<longrightarrow> locals c \<inter> locals b = {}"
  shows "ew_fs w' (task_path E ws b) = ew_fs w (task_path E ws b) \<and>
    locals b \<inter> set (ew_dirs w') = locals b \<inter> set (ew_dirs w)"
proof (cases "w' = w")
  case False
  then obtain cur target res1 where loop: "limit_loop E now del ws prot target (oldestBundles bs) cur None w = (w', res1)"
    using assms(1,2)
    by (auto simp: enforceWorktreeLimit_def Store_ListWorkspace_def Let_def split: if_splits sum.splits prod.splits)
  have "distinct (map (task_path E ws) bs)" using keyed_listed [OF assms(4,3,2)] by (simp add: listed_def)
  then have "c = b" if "c \<in> set bs" "task_path E ws c = task_path E ws b" for c
    using that assms(5) by (auto simp: distinct_map dest: inj_onD)
  then have "\<forall>c \<in> set (oldestBundles bs). (task_path E ws c = task_path E ws b \<longrightarrow> spared E now prot c \<and> locals c = locals b) \<and>
      (task_path E ws c \<noteq> task_path E ws b \<longrightarrow> locals c \<inter> locals b = {})"
    using assms(6,8) by (auto simp: oldestBundles_def)
  from limit_loop_spares [OF loop this assms(7)] show ?thesis .
qed simp

text \<open>
  A bundle whose worktrees cannot be found, because they are gone or because \<open>os.Stat\<close> fails for another reason, is
  deleted before its lease and its processes are looked at.
\<close>

lemma limit_forgets_lost:
  assumes "target < current" and "eb_provider b = ProviderLocalWorktree" and "eb_task b \<noteq> prot"
    and "\<forall>r \<in> set (eb_bindings b). stat_error E (rb_local r) \<noteq> None \<or> rb_local r \<notin> set (ew_dirs w)"
    and "del (eb_task b) = None"
  shows "ew_fs (fst (limit_loop E now del ws prot target [b] current le w)) (task_path E ws b) = None"
proof -
  have "existingBindingCount E w b = 0" using assms(4) by (auto simp: existingBindingCount_def filter_empty_conv)
  then show ?thesis using assms(1-3,5)
    by (simp add: Store_Delete_def task_path_def split: prod.splits)
qed

section \<open>Leases on live checkouts exclude each other\<close>

datatype checkout_call =
    Acquire gotime "string list" string string string int
  | Drop string string string

fun checkout_by :: "checkout_call \<Rightarrow> string \<times> string \<times> string" where
  "checkout_by (Acquire now ps ws task owner ttl) = (trim_space ws, trim_space task, trim_space owner)"
| "checkout_by (Drop ws task owner) = (ws, task, owner)"

fun checkout_run ::
  "checkout_call \<Rightarrow> (string \<times> checkout_lease) list \<Rightarrow> (string \<times> checkout_lease) list \<times> exec_error option" where
  "checkout_run (Acquire now ps ws task owner ttl) m = acquireActiveCheckoutLease now ps ws task owner ttl m"
| "checkout_run (Drop ws task owner) m = (releaseActiveCheckoutLease ws task owner m, None)"

fun checkout_before :: "gotime \<Rightarrow> checkout_call \<Rightarrow> bool" where
  "checkout_before t (Acquire now ps ws task owner ttl) = (now < t)"
| "checkout_before t (Drop ws task owner) = True"

definition lease_by :: "checkout_lease \<Rightarrow> string \<times> string \<times> string" where
  "lease_by l = (al_ws l, al_task l, al_owner l)"

lemma lease_is_by: "lease_is ws task owner l \<longleftrightarrow> lease_by l = (ws, task, owner)"
  by (auto simp: lease_is_def lease_by_def)

lemma map_of_filter_keep:
  "map_of m p = Some l \<Longrightarrow> P l \<Longrightarrow> distinct (map fst m) \<Longrightarrow> map_of (filter (\<lambda>kl. P (snd kl)) m) p = Some l"
  by (induction m) (auto split: if_splits simp: map_of_eq_None_iff)

lemma map_of_filter_Some:
  "map_of (filter (\<lambda>kl. P (snd kl)) m) p = Some l \<Longrightarrow> distinct (map fst m) \<Longrightarrow> map_of m p = Some l \<and> P l"
  by (induction m) (auto split: if_splits dest: map_of_SomeD simp: rev_image_eqI)

lemma distinct_filter_fst: "distinct (map fst m) \<Longrightarrow> distinct (map fst (filter P m))"
  by (induction m) auto

lemma fold_update:
  "distinct (map fst m) \<Longrightarrow> distinct (map fst (fold (\<lambda>p m. AList.update p v m) ps m))"
  "map_of (fold (\<lambda>p m. AList.update p v m) ps m) q = (if q \<in> set ps then Some v else map_of m q)"
  by (induction ps arbitrary: m) (auto simp: distinct_update)

lemma checkout_run_distinct:
  "distinct (map fst m) \<Longrightarrow> distinct (map fst (fst (checkout_run c m)))"
  by (cases c) (auto simp: acquireActiveCheckoutLease_def releaseActiveCheckoutLease_def Let_def
      distinct_filter_fst fold_update(1))

lemma checkout_run_foreign:
  assumes "map_of m p = Some l" and "distinct (map fst m)" and "checkout_by c \<noteq> lease_by l"
    and "checkout_before (al_expires l) c"
  shows "map_of (fst (checkout_run c m)) p = Some l"
proof (cases c)
  case (Acquire now ps ws task owner ttl)
  have live: "map_of (filter (\<lambda>kl. now < al_expires (snd kl)) m) p = Some l"
    using assms(4) Acquire by (intro map_of_filter_keep [where P = "\<lambda>l. now < al_expires l"] assms(1,2)) simp
  then show ?thesis using assms Acquire
    by (auto simp: acquireActiveCheckoutLease_def Let_def fold_update(2) list_ex_iff lease_is_by split: option.splits)
next
  case (Drop ws task owner)
  then have "map_of (filter (\<lambda>kl. \<not> lease_is ws task owner (snd kl)) m) p = Some l"
    using assms(3) by (intro map_of_filter_keep [where P = "\<lambda>l. \<not> lease_is ws task owner l"] assms(1,2))
      (auto simp: lease_is_by)
  with Drop show ?thesis by (simp add: releaseActiveCheckoutLease_def)
qed

text \<open>
  C21. A live checkout has one task at a time: while a task's lease on a directory has not expired, no calls made for
  other tasks or owners take it away, and each attempt of theirs to acquire a set of directories that contains it is refused.
\<close>

theorem checkout_exclusive:
  assumes "map_of m p = Some l" and "distinct (map fst m)"
    and "list_all (\<lambda>c. checkout_by c \<noteq> lease_by l \<and> checkout_before (al_expires l) c) cs"
    and "now < al_expires l" and "p \<in> set ps" and "(trim_space ws, trim_space task, trim_space owner) \<noteq> lease_by l"
  shows "snd (acquireActiveCheckoutLease now ps ws task owner ttl (fold (\<lambda>c m. fst (checkout_run c m)) cs m)) \<noteq> None"
proof -
  let ?m = "fold (\<lambda>c m. fst (checkout_run c m)) cs m"
  have "map_of ?m p = Some l \<and> distinct (map fst ?m)" using assms(1-3)
    by (induction cs arbitrary: m) (auto simp: checkout_run_foreign checkout_run_distinct simp del: map_of_eq_Some_iff)
  then have "map_of (filter (\<lambda>kl. now < al_expires (snd kl)) ?m) p = Some l"
    using assms(4) by (blast intro: map_of_filter_keep [where P = "\<lambda>l. now < al_expires l"])
  then show ?thesis using assms(5,6)
    by (auto simp: acquireActiveCheckoutLease_def Let_def list_ex_iff lease_is_by split: option.splits if_splits)
qed

theorem checkout_exclusive_witness:
  "snd (acquireActiveCheckoutLease 5 [''/b'', ''/a''] ''w'' ''t2'' ''o'' 0
     (fold (\<lambda>c m. fst (checkout_run c m)) [Drop ''w'' ''t2'' ''o'', Acquire 4 [''/a''] ''w'' ''t2'' ''o'' 0]
       [(''/a'', \<lparr>al_ws = ''w'', al_task = ''t1'', al_owner = ''o'', al_expires = 10\<rparr>)])) \<noteq> None"
  by (rule checkout_exclusive [where l = "\<lparr>al_ws = ''w'', al_task = ''t1'', al_owner = ''o'', al_expires = 10\<rparr>" and p = "''/a''"])
    (simp_all add: lease_by_def trim_space_plain plain_char_def)

lemma acquire_holds:
  assumes "acquireActiveCheckoutLease now ps ws task owner ttl m = (m', None)" and "distinct (map fst m)"
  shows "distinct (map fst m')"
    and "p \<in> set ps \<Longrightarrow> map_of m' p = Some \<lparr>al_ws = trim_space ws, al_task = trim_space task,
           al_owner = trim_space owner, al_expires = now + default_ttl ttl\<rparr>"
    and "map_of m p = Some l \<Longrightarrow> now < al_expires l \<Longrightarrow> p \<notin> set ps \<Longrightarrow> map_of m' p = Some l"
  using assms map_of_filter_keep [of m p l "\<lambda>l. now < al_expires l"]
  by (auto simp: acquireActiveCheckoutLease_def Let_def fold_update distinct_filter_fst split: if_splits)

section \<open>Ensure\<close>

lemma default_ttl_pos: "0 < default_ttl ttl"
  by (simp add: default_ttl_def)

lemma claim_for_Inr:
  assumes "claim_for E io r owner ttl w = (w', Inr c)"
  shows "\<exists>b. ew_fs w (bundlePath E (pr_ws r) (pr_task r)) = Some b \<and>
    c = b\<lparr>eb_lease := eb_lease c, eb_rev := eb_rev c, eb_updated := eb_updated c\<rparr> \<and> trim_space owner \<noteq> [] \<and>
    el_owner (eb_lease c) = trim_space owner \<and> el_expires (eb_lease c) = en_now io + default_ttl ttl \<and>
    w' = w\<lparr>ew_fs := (ew_fs w)(bundlePath E (pr_ws r) (pr_task r) \<mapsto> coerce_bundle c)\<rparr>"
  using assms
  by (auto simp: claim_for_def Store_Claim_def Let_def readBundle_def writeBundle_def
      split: option.splits write_outcome.splits if_splits)

lemma put_for_Inr:
  assumes "put_for E io b w = (w', Inr c)"
  shows "c = b\<lparr>eb_schema := eb_schema c, eb_id := eb_id c, eb_rev := eb_rev c, eb_created := eb_created c,
      eb_updated := eb_updated c\<rparr> \<and>
    w' = w\<lparr>ew_fs := (ew_fs w)(bundlePath E (eb_ws b) (eb_task b) \<mapsto> coerce_bundle c)\<rparr>"
  using assms
  by (auto simp: put_for_def Store_Put_def Let_def readBundle_def writeBundle_def prepareBundle_def
      split: option.splits write_outcome.splits sum.splits if_splits)

definition repo_key :: "checkout \<Rightarrow> string" where
  "repo_key c = coverage_key (co_id c) (co_path c)"

lemma existingCoverage_append: "existingCoverage (bs @ cs) = existingCoverage bs @ existingCoverage cs"
  by (simp add: existingCoverage_def)

lemma active_bindings_spec:
  "active_bindings E h r repos = Inr bs \<Longrightarrow>
     map rb_id bs = map co_id repos \<and> map rb_path bs = map co_path repos \<and> map rb_local bs = map co_root repos"
  by (induction repos arbitrary: bs) (auto simp: repositoryBinding_def split: sum.splits)

lemma prepareRepositories_spec:
  assumes "prepareRepositories E r branch repos created bs w = (w', Inr bs')"
  shows "ew_fs w' = ew_fs w \<and> ew_leases w' = ew_leases w \<and>
    (\<exists>cs. bs' = bs @ cs \<and> map rb_id cs = map co_id repos \<and> map rb_path cs = map co_path repos)"
  using assms
proof (induction E r branch repos created bs w rule: prepareRepositories.induct)
  case (2 E r branch repo repos created bs w)
  obtain w1 res1 where step: "prepareRepository E r repo branch w = (w1, res1)" by fastforce
  with "2.prems" obtain b added where res1: "res1 = Inr (b, added)" by (cases res1) auto
  have "ew_fs w1 = ew_fs w \<and> ew_leases w1 = ew_leases w \<and> rb_id b = co_id repo \<and> rb_path b = co_path repo"
    using step res1
    by (auto simp: prepareRepository_def ensureWorktree_def repositoryBinding_def Let_def git_write_def
        split: sum.splits prod.splits option.splits bool.splits)
  moreover have "prepareRepositories E r branch repos (if added then (repo, rb_local b) # created else created) (bs @ [b]) w1 = (w', Inr bs')"
    using "2.prems" step res1 by simp
  ultimately show ?case using "2.IH" [OF step [symmetric] res1 refl] by auto
qed simp

lemma provider_prepare_spec:
  assumes "provider_prepare E p r w = (w', Inr b)"
  shows "ew_fs w' = ew_fs w" and "ew_leases w' = ew_leases w" and "eb_ws b = pr_ws r" and "eb_task b = pr_task r"
    and "eb_provider b = p" and "map rb_id (eb_bindings b) = map co_id (pr_repos r)"
    and "map rb_path (eb_bindings b) = map co_path (pr_repos r)"
    and "p = ProviderActiveCheckout \<Longrightarrow> map rb_local (eb_bindings b) = map co_root (pr_repos r)"
  using assms
  by (auto simp: provider_prepare_def Active_Prepare_def Local_Prepare_def newBundle_def active_bindings_spec
      split: if_splits option.splits sum.splits prod.splits dest!: active_bindings_spec
      prepareRepositories_spec [where bs = "[]" and created = "[]", simplified])


lemma coverage_of_maps:
  "map rb_id bs = map co_id rs \<Longrightarrow> map rb_path bs = map co_path rs \<Longrightarrow> existingCoverage bs = map repo_key rs"
proof (induction bs arbitrary: rs)
  case (Cons b bs)
  then show ?case by (cases rs) (auto simp: existingCoverage_def repo_key_def)
qed (simp add: existingCoverage_def)

definition valid_checkout :: "checkout \<Rightarrow> bool" where
  "valid_checkout c \<longleftrightarrow> valid_utf8 (co_id c) \<and> valid_utf8 (co_path c) \<and> valid_utf8 (co_root c)"

lemma map_coerce_valid: "map f bs = map g rs \<Longrightarrow> (\<And>r. r \<in> set rs \<Longrightarrow> utf8_coerce (g r) = g r) \<Longrightarrow>
   map (\<lambda>b. utf8_coerce (f b)) bs = map g rs"
proof (induction bs arbitrary: rs)
  case (Cons b bs)
  then show ?case by (cases rs) auto
qed simp

lemma take_checkouts_fs:
  "take_checkouts E now held ps r owner ttl w = (w', e) \<Longrightarrow> ew_fs w' = ew_fs w \<and> ew_dirs w' = ew_dirs w"
  by (auto simp: take_checkouts_def split: prod.splits if_splits)

definition own_checkout :: "ensure_io \<Rightarrow> prepare_request \<Rightarrow> string \<Rightarrow> int \<Rightarrow> checkout_lease" where
  "own_checkout io r owner ttl = \<lparr>al_ws = trim_space (pr_ws r), al_task = trim_space (pr_task r),
     al_owner = trim_space owner, al_expires = en_now io + default_ttl ttl\<rparr>"

lemma take_checkouts_holds:
  assumes "take_checkouts E (en_now io) True ps r owner ttl w = (w', None)" and "distinct (map fst (ew_leases w))"
  shows "distinct (map fst (ew_leases w'))" and "q \<in> set ps \<Longrightarrow> map_of (ew_leases w') q = Some (own_checkout io r owner ttl)"
    and "map_of (ew_leases w) q = Some (own_checkout io r owner ttl) \<Longrightarrow>
      map_of (ew_leases w') q = Some (own_checkout io r owner ttl)"
proof -
  obtain m where m: "acquireActiveCheckoutLease (en_now io) ps (pr_ws r) (pr_task r) owner ttl (ew_leases w) = (m, None)"
    and w': "ew_leases w' = m"
    using assms(1) by (auto simp: take_checkouts_def split: prod.splits)
  note a = acquire_holds [OF m assms(2)]
  show "distinct (map fst (ew_leases w'))" using a(1) w' by simp
  show in_ps: "map_of (ew_leases w') q = Some (own_checkout io r owner ttl)" if "q \<in> set ps" for q
    using a(2) [OF that] w' by (simp add: own_checkout_def)
  show "map_of (ew_leases w') q = Some (own_checkout io r owner ttl)"
    if "map_of (ew_leases w) q = Some (own_checkout io r owner ttl)"
  proof (cases "q \<in> set ps")
    case False
    then show ?thesis using a(3) [OF that] w' default_ttl_pos [of ttl] by (simp add: own_checkout_def)
  qed (rule in_ps)
qed

lemma set_checkout_paths: "set (checkout_paths E ps) = activeCheckoutKey E ` set ps - {[]}"
  by (auto simp: checkout_paths_def set_uniq_from)

text \<open>What \<open>Ensure\<close> promises its caller.\<close>

definition ensured ::
  "('z) exec_env_scheme \<Rightarrow> ensure_io \<Rightarrow> prepare_request \<Rightarrow> string \<Rightarrow> int \<Rightarrow> exec_world \<Rightarrow> exec_bundle \<Rightarrow> bool" where
  "ensured E io r owner ttl w b \<longleftrightarrow>
     trim_space owner \<noteq> [] \<and> el_owner (eb_lease b) = trim_space owner \<and>
     el_expires (eb_lease b) = en_now io + default_ttl ttl \<and>
     ew_fs w (bundlePath E (pr_ws r) (pr_task r)) = Some (coerce_bundle b) \<and>
     (\<forall>c \<in> set (pr_repos r). repo_key c \<in> set (existingCoverage (eb_bindings b))) \<and>
     (eb_provider b = ProviderActiveCheckout \<longrightarrow>
        (\<forall>q \<in> set (activeCheckoutPathsFromBundle E b). map_of (ew_leases w) q = Some (own_checkout io r owner ttl)))"

lemma paths_of_bundle: "set (activeCheckoutPathsFromBundle E b) = activeCheckoutKey E ` rb_local ` set (eb_bindings b) - {[]}"
  by (simp add: activeCheckoutPathsFromBundle_def set_checkout_paths image_image)

lemma paths_of_request: "set (activeCheckoutPathsFromRequest E r) = activeCheckoutKey E ` co_root ` set (pr_repos r) - {[]}"
  by (simp add: activeCheckoutPathsFromRequest_def set_checkout_paths image_image)

lemma limit_for_False [simp]: "limit_for E io False r n w = (w, None)"
  by (simp add: limit_for_def)

lemma take_checkouts_False [simp]: "take_checkouts E now False ps r owner ttl w = (w, None)"
  by (simp add: take_checkouts_def)

lemma Ensure_new_sound:
  assumes "Ensure_new E io r p owner ttl w = (w', Inr b)" and "distinct (map fst (ew_leases w))"
    and "list_all valid_checkout (pr_repos r)"
  shows "ensured E io r owner ttl w' b"
proof -
  let ?held = "p = ProviderActiveCheckout" and ?path = "bundlePath E (pr_ws r) (pr_task r)"
  obtain w1 w2 w3 w4 b0 st where
    lim: "limit_for E io (p = ProviderLocalWorktree) r (length (pr_repos r)) w = (w1, None)" and
    take: "take_checkouts E (en_now io) ?held (activeCheckoutPathsFromRequest E r) r owner ttl w1 = (w2, None)" and
    prep: "provider_prepare E p r w2 = (w3, Inr b0)" and
    put: "put_for E io b0 w3 = (w4, Inr st)" and
    claim: "claim_for E io r owner ttl w4 = (w', Inr b)"
    using assms(1) by (auto simp: Ensure_new_def Let_def split: prod.splits option.splits sum.splits)
  note pp = provider_prepare_spec [OF prep]
  from put_for_Inr [OF put] have st: "eb_bindings st = eb_bindings b0" "eb_provider st = eb_provider b0"
    and w4: "ew_fs w4 ?path = Some (coerce_bundle st)" "ew_leases w4 = ew_leases w3"
    using pp(3,4) by (auto dest: arg_cong [where f = eb_bindings] arg_cong [where f = eb_provider])
  obtain b1 where c: "ew_fs w4 ?path = Some b1" "b = b1\<lparr>eb_lease := eb_lease b, eb_rev := eb_rev b, eb_updated := eb_updated b\<rparr>"
    "trim_space owner \<noteq> []" "el_owner (eb_lease b) = trim_space owner"
    "el_expires (eb_lease b) = en_now io + default_ttl ttl"
    "w' = w4\<lparr>ew_fs := (ew_fs w4)(?path \<mapsto> coerce_bundle b)\<rparr>"
    using claim_for_Inr [OF claim] by blast
  from arg_cong [OF c(2), of eb_bindings] arg_cong [OF c(2), of eb_provider]
  have "eb_bindings b = eb_bindings b1" "eb_provider b = eb_provider b1" by simp_all
  moreover have "b1 = coerce_bundle st" using c(1) w4(1) by simp
  ultimately have b: "eb_bindings b = map coerce_binding (eb_bindings b0)" "eb_provider b = utf8_coerce p"
    using st pp(5) by (simp_all add: coerce_bundle_def)
  have v: "\<And>c. c \<in> set (pr_repos r) \<Longrightarrow> utf8_coerce (co_id c) = co_id c"
    "\<And>c. c \<in> set (pr_repos r) \<Longrightarrow> utf8_coerce (co_path c) = co_path c"
    "\<And>c. c \<in> set (pr_repos r) \<Longrightarrow> utf8_coerce (co_root c) = co_root c"
    using assms(3) by (auto simp: list_all_iff valid_checkout_def valid_utf8_def)
  have "existingCoverage (eb_bindings b) = map repo_key (pr_repos r)"
    using map_coerce_valid [OF pp(6) v(1)] map_coerce_valid [OF pp(7) v(2)]
    by (intro coverage_of_maps) (simp_all add: b coerce_binding_def o_def)
  moreover have "map_of (ew_leases w') q = Some (own_checkout io r owner ttl)"
    if "eb_provider b = ProviderActiveCheckout" "q \<in> set (activeCheckoutPathsFromBundle E b)" for q
  proof -
    have "p = ProviderLocalWorktree \<or> p = ProviderActiveCheckout"
      using prep by (auto simp: provider_prepare_def split: if_splits)
    then have p: "p = ProviderActiveCheckout" using that(1) b(2) by (auto simp: utf8_coerce_ascii is_ascii_def)
    then have "w1 = w" using lim by simp
    have "map rb_local (eb_bindings b) = map co_root (pr_repos r)"
      using map_coerce_valid [OF pp(8) [OF p] v(3)] by (simp add: b coerce_binding_def o_def)
    then have "rb_local ` set (eb_bindings b) = co_root ` set (pr_repos r)" by (metis set_map)
    then have "q \<in> set (activeCheckoutPathsFromRequest E r)" using that(2) by (simp add: paths_of_bundle paths_of_request)
    with take p have "map_of (ew_leases w2) q = Some (own_checkout io r owner ttl)"
      using take_checkouts_holds(2) [of E io "activeCheckoutPathsFromRequest E r" r owner ttl w1 w2 q] assms(2) \<open>w1 = w\<close> by simp
    then show ?thesis using pp(2) w4(2) c(6) by simp
  qed
  ultimately show ?thesis using c(3-6) by (auto simp: ensured_def)
qed


lemma Ensure_expand_sound:
  assumes "Ensure_expand E io r x claimed missing owner ttl w = (w', Inr b)" and "distinct (map fst (ew_leases w))"
    and "eb_bindings claimed = eb_bindings x" and "eb_provider claimed = eb_provider x"
    and "bundlePath E (eb_ws claimed) (eb_task claimed) = bundlePath E (pr_ws r) (pr_task r)"
    and "trim_space owner \<noteq> []" and "el_owner (eb_lease claimed) = trim_space owner"
    and "el_expires (eb_lease claimed) = en_now io + default_ttl ttl"
    and "\<forall>c \<in> set (pr_repos r). c \<in> set missing \<or> repo_key c \<in> set (existingCoverage (eb_bindings x))"
    and "eb_provider x = ProviderActiveCheckout \<longrightarrow>
      (\<forall>q \<in> set (activeCheckoutPathsFromBundle E x). map_of (ew_leases w) q = Some (own_checkout io r owner ttl))"
  shows "ensured E io r owner ttl w' b"
proof -
  let ?r = "r\<lparr>pr_repos := missing\<rparr>" and ?path = "bundlePath E (pr_ws r) (pr_task r)"
  let ?held = "eb_provider x = ProviderActiveCheckout"
  obtain w1 w2 w3 y where
    lim: "limit_for E io (eb_provider x = ProviderLocalWorktree) r (length missing) w = (w1, None)" and
    take: "take_checkouts E (en_now io) ?held (activeCheckoutPathsFromRequest E ?r) r owner ttl w1 = (w2, None)" and
    prep: "provider_prepare E (eb_provider x) ?r w2 = (w3, Inr y)" and
    put: "put_for E io (claimed\<lparr>eb_bindings := eb_bindings claimed @ eb_bindings y\<rparr>) w3 = (w', Inr b)"
    using assms(1) by (auto simp: Ensure_expand_def Let_def split: prod.splits option.splits sum.splits if_splits)
  note pp = provider_prepare_spec [OF prep]
  note pb = put_for_Inr [OF put, THEN conjunct1]
  from arg_cong [OF pb, of eb_bindings] arg_cong [OF pb, of eb_provider] arg_cong [OF pb, of eb_lease]
  have b: "eb_bindings b = eb_bindings x @ eb_bindings y" "eb_provider b = eb_provider x" "eb_lease b = eb_lease claimed"
    using assms(3,4) by simp_all
  have w': "ew_fs w' ?path = Some (coerce_bundle b)" "ew_leases w' = ew_leases w3"
    using put_for_Inr [OF put] assms(5) by auto
  have "existingCoverage (eb_bindings y) = map repo_key missing"
    using pp(6,7) by (intro coverage_of_maps) simp_all
  then have "\<forall>c \<in> set (pr_repos r). repo_key c \<in> set (existingCoverage (eb_bindings b))"
    using assms(9) by (auto simp: b existingCoverage_append)
  moreover have "map_of (ew_leases w') q = Some (own_checkout io r owner ttl)"
    if "eb_provider b = ProviderActiveCheckout" "q \<in> set (activeCheckoutPathsFromBundle E b)" for q
  proof -
    have p: ?held using that(1) b(2) by simp
    then have "w1 = w" using lim by simp
    note t = take_checkouts_holds [of E io "activeCheckoutPathsFromRequest E ?r" r owner ttl w1 w2]
    have "rb_local ` set (eb_bindings y) = co_root ` set missing" using pp(8) p by (metis prepare_request.select_convs(5) prepare_request.surjective prepare_request.update_convs(5) set_map)
    then have "q \<in> set (activeCheckoutPathsFromBundle E x) \<or> q \<in> set (activeCheckoutPathsFromRequest E ?r)"
      using that(2) by (auto simp: paths_of_bundle paths_of_request b image_Un)
    then have "map_of (ew_leases w2) q = Some (own_checkout io r owner ttl)"
      using t(2,3) take p assms(2,10) \<open>w1 = w\<close> by auto
    then show ?thesis using pp(2) w'(2) by simp
  qed
  ultimately show ?thesis using assms(6-8) w'(1) by (auto simp: ensured_def b(3))
qed

lemma Ensure_existing_sound:
  assumes "Ensure_existing E io r x owner ttl w = (w', Inr b)" and "distinct (map fst (ew_leases w))"
    and "ew_fs w (bundlePath E (pr_ws r) (pr_task r)) = Some b0" and "x = b0\<lparr>eb_rev := n\<rparr>"
    and "bundlePath E (eb_ws b0) (eb_task b0) = bundlePath E (pr_ws r) (pr_task r)"
  shows "ensured E io r owner ttl w' b"
proof -
  let ?path = "bundlePath E (pr_ws r) (pr_task r)" and ?held = "eb_provider x = ProviderActiveCheckout"
  obtain w1 w2 missing c where
    take: "take_checkouts E (en_now io) ?held (activeCheckoutPathsFromBundle E x) r owner ttl w = (w1, None)" and
    miss: "missingRepositories (eb_bindings x) (pr_repos r) = Inr missing" and
    claim: "claim_for E io r owner ttl w1 = (w2, Inr c)" and
    rest: "(if missing = [] then (w2, Inr c) else Ensure_expand E io r x c missing owner ttl w2) = (w', Inr b)"
    using assms(1) by (auto simp: Ensure_existing_def Let_def split: prod.splits option.splits sum.splits)
  obtain b1 where c: "ew_fs w1 ?path = Some b1" "c = b1\<lparr>eb_lease := eb_lease c, eb_rev := eb_rev c, eb_updated := eb_updated c\<rparr>"
    "trim_space owner \<noteq> []" "el_owner (eb_lease c) = trim_space owner"
    "el_expires (eb_lease c) = en_now io + default_ttl ttl"
    "w2 = w1\<lparr>ew_fs := (ew_fs w1)(?path \<mapsto> coerce_bundle c)\<rparr>"
    using claim_for_Inr [OF claim] by blast
  have "b1 = b0" using c(1) take_checkouts_fs [OF take] assms(3) by simp
  with arg_cong [OF c(2), of eb_bindings] arg_cong [OF c(2), of eb_provider] arg_cong [OF c(2), of eb_ws]
    arg_cong [OF c(2), of eb_task] assms(4)
  have cx: "eb_bindings c = eb_bindings x" "eb_provider c = eb_provider x" "eb_ws c = eb_ws b0" "eb_task c = eb_task b0"
    by simp_all
  have cover: "\<forall>k \<in> set (pr_repos r). k \<in> set missing \<or> repo_key k \<in> set (existingCoverage (eb_bindings x))"
    using missing_loop_covers miss by (auto simp: missingRepositories_def repo_key_def)
  have held: "\<forall>q \<in> set (activeCheckoutPathsFromBundle E x). map_of (ew_leases w2) q = Some (own_checkout io r owner ttl)" if ?held
    using take_checkouts_holds(2) [of E io "activeCheckoutPathsFromBundle E x" r owner ttl w w1] take assms(2) that c(6) by simp
  have dist: "distinct (map fst (ew_leases w2))"
    using take_checkouts_holds(1) [of E io "activeCheckoutPathsFromBundle E x" r owner ttl w w1] take assms(2) c(6)
    by (cases ?held) auto
  show ?thesis
  proof (cases "missing = []")
    case True
    then have "activeCheckoutPathsFromBundle E b = activeCheckoutPathsFromBundle E x" "b = c" "w' = w2"
      using rest cx by (auto simp: activeCheckoutPathsFromBundle_def)
    with True cover held c cx show ?thesis by (auto simp: ensured_def)
  next
    case False
    then have "Ensure_expand E io r x c missing owner ttl w2 = (w', Inr b)" using rest by simp
    then show ?thesis
      using cx c(3-5) cover held dist assms(5) by (intro Ensure_expand_sound) auto
  qed
qed

text \<open>
  C9. \<open>Ensure\<close> keeps its promise: when it succeeds, the caller's owner name is not blank, the returned bundle carries
  a lease of this owner until \<open>ttl\<close> after the clock, the file of the task holds that bundle as the decoder reads it, every requested
  repository is covered by a binding, and when the bundle works in the live checkout every directory of it is leased to
  this workspace, task and owner until the same instant. It is assumed that the ids, paths and roots of the repositories
  are valid text and that a bundle file found for the task names the task.
\<close>

theorem Ensure_sound:
  assumes "Ensure E io r p owner ttl w = (w', Inr b)" and "distinct (map fst (ew_leases w))"
    and "list_all valid_checkout (pr_repos r)"
    and "\<forall>b0. ew_fs w (bundlePath E (pr_ws r) (pr_task r)) = Some b0 \<longrightarrow>
      bundlePath E (eb_ws b0) (eb_task b0) = bundlePath E (pr_ws r) (pr_task r)"
  shows "trim_space owner \<noteq> [] \<and> el_owner (eb_lease b) = trim_space owner \<and>
    el_expires (eb_lease b) = en_now io + default_ttl ttl \<and>
    ew_fs w' (bundlePath E (pr_ws r) (pr_task r)) = Some (coerce_bundle b) \<and>
    (\<forall>c \<in> set (pr_repos r). repo_key c \<in> set (existingCoverage (eb_bindings b))) \<and>
    (eb_provider b = ProviderActiveCheckout \<longrightarrow>
       (\<forall>q \<in> set (activeCheckoutPathsFromBundle E b). map_of (ew_leases w') q = Some (own_checkout io r owner ttl)))"
proof -
  have "ensured E io r owner ttl w' b"
  proof (cases "ew_fs w (bundlePath E (pr_ws r) (pr_task r))")
    case None
    then have "Ensure_new E io r p owner ttl w = (w', Inr b)"
      using assms(1) by (auto simp: Ensure_def Store_Get_def readBundle_def split: option.splits)
    then show ?thesis using assms(2,3) by (rule Ensure_new_sound)
  next
    case (Some b0)
    then have "Ensure_existing E io r (b0\<lparr>eb_rev := normalizedRevision b0\<rparr>) owner ttl w = (w', Inr b)"
      using assms(1) by (auto simp: Ensure_def Store_Get_def readBundle_def split: option.splits)
    then show ?thesis using assms(2,4) Some by (intro Ensure_existing_sound) auto
  qed
  then show ?thesis by (simp add: ensured_def)
qed

text \<open>
  A failed \<open>Ensure\<close> gives up what an earlier one obtained: when the request of a task that works in the live checkout
  names a repository under a changed id or path, all checkout leases of the task and owner are dropped, while the bundle file still
  carries the owner's lease.
\<close>

lemma Ensure_error_drops_checkouts:
  assumes "ew_fs w (bundlePath E (pr_ws r) (pr_task r)) = Some b0" and "xi_read (en_get io) = None"
    and "eb_provider b0 = ProviderActiveCheckout" and "validateBindings E w (b0\<lparr>eb_rev := normalizedRevision b0\<rparr>) = None"
    and "snd (take_checkouts E (en_now io) True (activeCheckoutPathsFromBundle E (b0\<lparr>eb_rev := normalizedRevision b0\<rparr>)) r owner ttl w) = None"
    and "missingRepositories (eb_bindings b0) (pr_repos r) = Inl e"
  shows "Ensure E io r p owner ttl w = (fst (Ensure E io r p owner ttl w), Inl e) \<and>
    ew_fs (fst (Ensure E io r p owner ttl w)) = ew_fs w \<and>
    (\<forall>kl \<in> set (ew_leases (fst (Ensure E io r p owner ttl w))). \<not> lease_is (pr_ws r) (pr_task r) owner (snd kl))"
proof -
  obtain w1 where t: "take_checkouts E (en_now io) True (activeCheckoutPathsFromBundle E (b0\<lparr>eb_rev := normalizedRevision b0\<rparr>)) r owner ttl w = (w1, None)"
    using assms(5) by (metis prod.collapse)
  have "Ensure E io r p owner ttl w = (drop_checkouts True r owner w1, Inl e)"
    using assms(1-4,6) t by (simp add: Ensure_def Store_Get_def readBundle_def Ensure_existing_def)
  then show ?thesis using take_checkouts_fs [OF t] by (auto simp: drop_checkouts_def releaseActiveCheckoutLease_def)
qed

section \<open>SetState is not a compare-and-swap\<close>

lemma Store_Put_Inr:
  assumes "Store_Put G now io b fs = (fs', Inr b')"
  shows "\<exists>x. b' = prepareBundle G b x now"
  using assms by (auto simp: Store_Put_def writeBundle_def Let_def split: option.splits sum.splits write_outcome.splits)

lemma SetState_read_Inr:
  assumes "SetState_read E io ws task owner st fs = Inr b"
  shows "\<exists>b0. fs (bundlePath E ws task) = Some b0 \<and> b = (b0\<lparr>eb_rev := normalizedRevision b0\<rparr>)\<lparr>eb_state := st\<rparr> \<and>
    (el_owner (eb_lease b0) = [] \<or> trim_space (el_owner (eb_lease b0)) = trim_space owner)"
  using assms by (auto simp: SetState_read_def Store_Get_def readBundle_def split: sum.splits option.splits if_splits)

text \<open>Without interference \<open>SetState\<close> changes the state and nothing of the lease.\<close>

lemma SetState_alone:
  assumes "SetState E now io io2 ws task owner st fs = (fs', Inr b)"
  shows "\<exists>b0. fs (bundlePath E ws task) = Some b0 \<and> eb_state b = st \<and> eb_lease b = eb_lease b0 \<and>
    eb_bindings b = eb_bindings b0 \<and> (el_owner (eb_lease b0) = [] \<or> trim_space (el_owner (eb_lease b0)) = trim_space owner)"
proof -
  obtain b1 where r: "SetState_read E io ws task owner st fs = Inr b1" and p: "Store_Put E now io2 b1 fs = (fs', Inr b)"
    using assms by (auto simp: SetState_def split: sum.splits)
  obtain x where "b = prepareBundle E b1 x now" using Store_Put_Inr [OF p] by blast
  then have "eb_state b = eb_state b1" "eb_lease b = eb_lease b1" "eb_bindings b = eb_bindings b1" by (simp_all add: prepareBundle_def)
  then show ?thesis using SetState_read_Inr [OF r] by auto
qed

text \<open>
  The write of \<open>SetState\<close> restores the lease it read, whatever the store holds by then: a \<open>Claim\<close> that another owner
  won between the two steps is undone, the generation goes back, and the new owner's release is refused.
\<close>

theorem SetState_rolls_back_claim:
  assumes "SetState_read E io ws task owner st fs = Inr b" and "validateBundle b = None"
    and "xi_read io2 = None" and "xi_write io2 = WOk"
  shows "\<exists>b'. fst (Store_Put E now io2 b fs2) (bundlePath E (eb_ws b) (eb_task b)) = Some b' \<and>
    el_gen (eb_lease b') = el_gen (eb_lease b) \<and> el_expires (eb_lease b') = el_expires (eb_lease b) \<and>
    el_owner (eb_lease b') = utf8_coerce (el_owner (eb_lease b)) \<and> eb_state b' = utf8_coerce st"
proof -
  have "eb_state b = st"
    using assms(1) by (auto simp: SetState_read_def split: sum.splits option.splits if_splits)
  with assms(2-4) show ?thesis
    by (auto simp: Store_Put_def readBundle_def writeBundle_def Let_def prepareBundle_def coerce_bundle_def split: option.splits)
qed

section \<open>Example runs\<close>

text \<open>
  A small Git: the worktree \<open>/wt/1\<close> has uncommitted changes until a commit in it, every commit in a directory changes its
  head, and the remote shows the head a directory had when it pushed.
\<close>

definition demo_commits :: "git_log \<Rightarrow> string \<Rightarrow> string list" where
  "demo_commits h root = map fst (filter (\<lambda>c. fst c = root \<and> take 1 (drop 4 (snd c)) = [''commit'']) h)"

definition demo_head :: "git_log \<Rightarrow> string \<Rightarrow> string" where
  "demo_head h root = CHR ''c'' # map (\<lambda>_. CHR ''1'') (demo_commits h root)"

fun demo_remote :: "git_log \<Rightarrow> string \<Rightarrow> string" where
  "demo_remote [] ref = []"
| "demo_remote (c # newest_first) ref =
     (if snd c = [''push'', ''origin'', ''HEAD:'' @ ref] then demo_head newest_first (fst c) @ '' '' @ ref
      else demo_remote newest_first ref)"

definition demo_git :: "git_log \<Rightarrow> string \<Rightarrow> string list \<Rightarrow> string + string" where
  "demo_git h root args =
     (if hd args = ''worktree'' \<and> args ! 1 = ''list'' then Inr ''worktree /m''
      else if hd args = ''ls-remote'' then Inr (demo_remote (rev h) (last args))
      else if hd args = ''rev-parse'' then Inr (demo_head h root)
      else if hd args = ''status'' then Inr (if root = ''/wt/1'' \<and> demo_commits h root = [] then '' M a'' else [])
      else Inr ''x'')"

definition demo_xenv :: exec_env where
  "demo_xenv = \<lparr>sha256hex = (\<lambda>s. if CHR ''2'' \<in> set s then ''k'' else ''h''), lower_unicode = (\<lambda>s. s),
     json_big = (\<lambda>_. JNull), fmt_time = (\<lambda>_. ''t''),
     git_run = demo_git,
     real_path = (\<lambda>p. p), stat_error = (\<lambda>_. None), plain_file = (\<lambda>_. False), mkdir_error = (\<lambda>_. None),
     snapshot_error = (\<lambda>h c p. if co_id c = ''2'' then Some ''copy'' else None), worktree_base = ''/wt'',
     worktree_in_use = (\<lambda>_. False)\<rparr>"

definition demo_repo :: "string \<Rightarrow> checkout" where
  "demo_repo i = \<lparr>co_id = i, co_path = i, co_root = ''/'' @ i, co_remote = [], co_lineage = [], co_source = []\<rparr>"

definition demo_request :: "string \<Rightarrow> string \<Rightarrow> prepare_request" where
  "demo_request task repo = \<lparr>pr_task = task, pr_project = [], pr_wsid = [], pr_ws = ''w'', pr_repos = [demo_repo repo]\<rparr>"

definition demo_binding :: repository_binding where
  "demo_binding = \<lparr>rb_id = ''a'', rb_path = ''a'', rb_revision = ''c'', rb_dirty = False, rb_fingerprint = [],
     rb_branch = ''b'', rb_binding = [], rb_local = ''/wt/1''\<rparr>"

text \<open>Two bundles with a worktree each: the task t1 at digest h, the task t2 at digest k, leased.\<close>

definition demo_old :: exec_bundle where
  "demo_old = demo_bundle\<lparr>eb_task := ''t1'', eb_provider := ProviderLocalWorktree, eb_bindings := [demo_binding]\<rparr>"

definition demo_live :: exec_bundle where
  "demo_live = demo_bundle\<lparr>eb_task := ''t2'', eb_provider := ProviderLocalWorktree,
     eb_bindings := [demo_binding\<lparr>rb_local := ''/wt/2''\<rparr>], eb_lease := \<lparr>el_owner = ''a'', el_gen = 1, el_expires = 100\<rparr>\<rparr>"

definition demo_world :: exec_world where
  "demo_world = \<lparr>ew_fs = Map.empty((''h'', ''h'') \<mapsto> demo_old, (''h'', ''k'') \<mapsto> demo_live), ew_dirs = [''/wt/1'', ''/wt/2''],
     ew_leases = [], ew_git = []\<rparr>"

definition demo_limit :: "exec_world \<times> exec_error option" where
  "demo_limit = enforceWorktreeLimit demo_xenv 50 exec_ok_io (Inr [''h'', ''k'']) (\<lambda>_. None) 1 ''w'' ''new'' 0 demo_world"

lemma demo_limit_ok: "snd demo_limit = None"
  by code_simp

lemma demo_keyed: "keyed demo_xenv ''w'' [''h'', ''k''] (ew_fs demo_world)"
proof -
  have "bundlePath demo_xenv ''w'' ''t1'' = (''h'', ''h'')" "bundlePath demo_xenv ''w'' ''t2'' = (''h'', ''k'')"
    "digestKey demo_xenv [''workspace'', ''w''] = ''h''" by code_simp+
  then show ?thesis by (simp add: keyed_def demo_world_def demo_old_def demo_live_def demo_bundle_def)
qed

theorem worktree_limit_witness:
  "(\<Sum>n \<in> set [''h'', ''k'']. path_count demo_xenv (fst demo_limit) (digestKey demo_xenv [''workspace'', ''w''], n)) + 0
     \<le> NormalizeMaxWorktrees 1"
  using demo_limit_ok
  by (intro worktree_limit [where E = demo_xenv and now = 50 and io = exec_ok_io and del = "\<lambda>_. None" and
        prot = "''new''" and w = demo_world] demo_keyed)
    (simp_all add: demo_limit_def prod_eq_iff)

lemma demo_listed: "list_bundles exec_ok_io (digestKey demo_xenv [''workspace'', ''w'']) [''h'', ''k''] (ew_fs demo_world) = Inr [demo_old, demo_live]"
proof -
  have "digestKey demo_xenv [''workspace'', ''w''] = ''h''" by code_simp
  then show ?thesis
    by (simp add: readBundle_def exec_ok_io_def demo_world_def demo_old_def demo_live_def demo_bundle_def normalizedRevision_def)
qed

theorem limit_spares_witness:
  "ew_fs (fst demo_limit) (task_path demo_xenv ''w'' demo_live) = ew_fs demo_world (task_path demo_xenv ''w'' demo_live) \<and>
   locals demo_live \<inter> set (ew_dirs (fst demo_limit)) = locals demo_live \<inter> set (ew_dirs demo_world)"
proof (rule limit_spares [OF _ demo_listed _ demo_keyed])
  show "enforceWorktreeLimit demo_xenv 50 exec_ok_io (Inr [''h'', ''k'']) (\<lambda>_. None) 1 ''w'' ''new'' 0 demo_world =
      (fst demo_limit, snd demo_limit)" by (simp add: demo_limit_def)
  show "spared demo_xenv 50 ''new'' demo_live"
    by (simp add: spared_def bundleIsLeased_def demo_live_def trim_space_plain plain_char_def)
  show "\<exists>p \<in> locals demo_live \<inter> set (ew_dirs demo_world). stat_error demo_xenv p = None"
    by (simp add: locals_def demo_live_def demo_world_def demo_xenv_def)
  show "\<forall>c \<in> set [demo_old, demo_live]. c \<noteq> demo_live \<longrightarrow> locals c \<inter> locals demo_live = {}"
    by (simp add: locals_def demo_old_def demo_live_def demo_binding_def)
qed simp_all

definition demo_archive :: "exec_world \<times> exec_error option" where
  "demo_archive = archiveAndRemoveBundle demo_xenv demo_old demo_world"

lemma demo_git_ok: "git_commits_all demo_xenv task path" "git_push_keeps demo_xenv path"
proof -
  have g: "git_run demo_xenv = demo_git" by (simp add: demo_xenv_def)
  have t: "trim_space [] = []" by simp
  show "git_commits_all demo_xenv task path"
    by (simp add: git_commits_all_def gitCommand_def g demo_git_def demo_commits_def checkpoint_args_def)
  show "git_push_keeps demo_xenv path"
    by (simp add: git_push_keeps_def gitCommand_def g demo_git_def demo_commits_def demo_head_def)
qed

theorem archive_before_remove_witness:
  "''/wt/1'' \<in> rb_local ` set (eb_bindings demo_old) \<and> map (hd \<circ> snd) (ew_git (fst demo_archive)) =
     [''add'', ''-c'', ''push'', ''worktree'', ''branch'', ''worktree''] \<and>
   (\<exists>cs. prefix (ew_git demo_world @ cs) (ew_git (fst demo_archive)) \<and>
     archived_at demo_xenv (eb_task demo_old) demo_binding (ew_git demo_world @ cs))"
proof -
  have run: "archiveAndRemoveBundle demo_xenv demo_old demo_world = (fst demo_archive, snd demo_archive)"
    by (simp add: demo_archive_def)
  have d: "''/wt/1'' \<in> set (ew_dirs demo_world)" by (simp add: demo_world_def)
  have gone: "''/wt/1'' \<notin> set (ew_dirs (fst demo_archive))" by code_simp
  have log: "map (hd \<circ> snd) (ew_git (fst demo_archive)) = [''add'', ''-c'', ''push'', ''worktree'', ''branch'', ''worktree'']" by code_simp
  have b: "demo_binding \<in> set (eb_bindings demo_old)" "rb_local demo_binding \<in> set (ew_dirs demo_world)"
    by (simp_all add: demo_old_def demo_world_def demo_binding_def)
  from archive_before_remove [OF run d gone] demo_git_ok b log show ?thesis by blast
qed

definition demo_prepare :: "exec_world \<times> (exec_error + exec_bundle)" where
  "demo_prepare = Local_Prepare demo_xenv ((demo_request ''t'' ''a'')\<lparr>pr_repos := [demo_repo ''a'', demo_repo ''2'']\<rparr>)
     (demo_world\<lparr>ew_dirs := []\<rparr>)"

theorem Local_Prepare_rollback_witness:
  "set (ew_dirs (fst demo_prepare)) = set (ew_dirs (demo_world\<lparr>ew_dirs := []\<rparr>)) \<and>
   ew_fs (fst demo_prepare) = ew_fs (demo_world\<lparr>ew_dirs := []\<rparr>) \<and>
   ew_leases (fst demo_prepare) = ew_leases (demo_world\<lparr>ew_dirs := []\<rparr>)"
proof (rule Local_Prepare_rollback)
  have "snd demo_prepare = Inl (ExecIO ''copy'')" by code_simp
  then show "Local_Prepare demo_xenv ((demo_request ''t'' ''a'')\<lparr>pr_repos := [demo_repo ''a'', demo_repo ''2'']\<rparr>)
     (demo_world\<lparr>ew_dirs := []\<rparr>) = (fst demo_prepare, Inl (ExecIO ''copy''))"
    unfolding demo_prepare_def [symmetric] by (metis prod.collapse)
  have "git_run demo_xenv h root [''worktree'', ''remove'', ''--force'', path] = Inr ''x''" for h root path
    by (simp add: demo_xenv_def demo_git_def)
  then show "removal_works demo_xenv" by (simp add: removal_works_def gitCommandOK_def)
qed

definition demo_io :: ensure_io where
  "demo_io = \<lparr>en_now = 50, en_get = exec_ok_io, en_list = exec_ok_io, en_names = Inr [], en_del = (\<lambda>_. None),
     en_put = exec_ok_io, en_claim = exec_ok_io, en_release = exec_ok_io, en_max = 3\<rparr>"

definition demo_ensure :: "exec_world \<times> (exec_error + exec_bundle)" where
  "demo_ensure = Ensure demo_xenv demo_io (demo_request ''t'' ''a'') ProviderActiveCheckout ''o'' 7 (demo_world\<lparr>ew_fs := Map.empty\<rparr>)"

lemma demo_ensure_ok: "demo_ensure = (fst demo_ensure, Inr (projr (snd demo_ensure)))"
proof -
  have "\<not> isl (snd demo_ensure)" by code_simp
  then show ?thesis by (simp add: prod_eq_iff)
qed

lemma demo_ensure_local: "eb_provider (projr (snd demo_ensure)) = ProviderActiveCheckout"
  by code_simp

theorem Ensure_sound_witness:
  "el_owner (eb_lease (projr (snd demo_ensure))) = trim_space ''o'' \<and>
    ew_fs (fst demo_ensure) (bundlePath demo_xenv (pr_ws (demo_request ''t'' ''a'')) (pr_task (demo_request ''t'' ''a'')))
      = Some (coerce_bundle (projr (snd demo_ensure))) \<and>
    list_all (\<lambda>q. map_of (ew_leases (fst demo_ensure)) q = Some (own_checkout demo_io (demo_request ''t'' ''a'') ''o'' 7))
      (activeCheckoutPathsFromBundle demo_xenv (projr (snd demo_ensure)))"
proof -
  have run: "Ensure demo_xenv demo_io (demo_request ''t'' ''a'') ProviderActiveCheckout ''o'' 7 (demo_world\<lparr>ew_fs := Map.empty\<rparr>) =
      (fst demo_ensure, Inr (projr (snd demo_ensure)))"
    using demo_ensure_ok by (simp add: demo_ensure_def)
  have repos: "list_all valid_checkout (pr_repos (demo_request ''t'' ''a''))"
    by (simp add: demo_request_def demo_repo_def valid_checkout_def valid_utf8_ascii is_ascii_def)
  have none: "\<forall>b0. ew_fs (demo_world\<lparr>ew_fs := Map.empty\<rparr>) k = Some b0 \<longrightarrow> bundlePath demo_xenv (eb_ws b0) (eb_task b0) = k" for k
    by simp
  have keys: "distinct (map fst (ew_leases (demo_world\<lparr>ew_fs := Map.empty\<rparr>)))" by (simp add: demo_world_def)
  show ?thesis
    using Ensure_sound [OF run keys repos none] demo_ensure_local unfolding list_all_iff by blast
qed

end
