(* ===== verification/VerifyGate.thy ===== *)
theory VerifyGate
  imports Interfaces GoText
begin

text \<open>
  The verification of a task: the durable gate of \<open>internal/orchestration/verification_runtime.go\<close>, which
  requirements a plan gives (\<open>planner.go\<close>), and the lane summary of \<open>verification_graph.go\<close>. The gate
  writes a snapshot of its whole state to the event log of the task before it answers and is rebuilt from
  the last snapshot.
\<close>

section \<open>Types\<close>

abbreviation "VerificationPending \<equiv> ''pending''"
abbreviation "VerificationRunning \<equiv> ''running''"
abbreviation "VerificationPassed \<equiv> ''passed''"
abbreviation "VerificationFailed \<equiv> ''failed''"
abbreviation "VerificationSkipped \<equiv> ''skipped''"
abbreviation "eventVerificationPlan \<equiv> ''verification.plan_created''"
abbreviation "eventVerificationResult \<equiv> ''verification.result_recorded''"

datatype verification_error =
    ErrInvalidVerification | ErrVerificationCheckMissing | ErrStaleVerification | VerificationEvents ev_error

record verification_check =
  vc_key :: string
  vc_command :: string
  vc_cwd :: string
  vc_scope :: string
  vc_required :: bool
  vc_reason :: string

record verification_requirement =
  vr_id :: string
  vr_category :: string
  vr_scope :: string
  vr_required :: bool
  vr_reason :: string

record verification_evidence =
  ve_check :: string
  ve_status :: string
  ve_agent :: string
  ve_exit :: "int option"
  ve_artifact :: string
  ve_failure :: string
  ve_started :: gotime
  ve_finished :: gotime

record verification_snapshot =
  vs_rev :: u64
  vs_reqs :: "verification_requirement list"
  vs_results :: "verification_evidence list"

record verification_gate =
  vg_ws :: string
  vg_task :: string
  vg_rev :: u64
  vg_reqs :: "(string \<times> verification_requirement) list"
  vg_results :: "(string \<times> verification_evidence) list"

type_synonym gate_state = "verification_gate \<times> evstore option"

section \<open>Requirements of a plan\<close>

definition normalizeCheckCommand :: "('z) goenv_scheme \<Rightarrow> string \<Rightarrow> string" where
  "normalizeCheckCommand G c = to_lower G (collapse_space (trim_space c))"

definition CheckKey :: "('z) goenv_scheme \<Rightarrow> string \<Rightarrow> string" where
  "CheckKey G command =
     (let text = normalizeCheckCommand G command; has = (\<lambda>ps. list_ex (str_contains text) ps) in
      if text = [] then []
      else if has [''git diff --check''] then ''diff-check''
      else if has [''go test'', ''cargo test'', ''flutter test'', ''pytest'', ''npm test'', ''npm run test'', ''pnpm test'',
        ''yarn test'', ''bun test'', ''node --test''] then ''test''
      else if has [''go vet'', ''eslint'', ''biome check'', ''npm run lint'', ''pnpm lint'', ''yarn lint''] then ''lint''
      else if has [''typecheck'', ''tsc --noemit'', ''mypy'', ''pyright'', ''flutter analyze''] then ''typecheck''
      else if has [''go build'', ''cargo build'', ''npm run build'', ''pnpm build'', ''yarn build'', ''bun run build''] then ''build''
      else [])"

text \<open>The first six bytes of the digest are its first twelve hexadecimal digits.\<close>

definition ScopedCheckID :: "('z) goenv_scheme \<Rightarrow> string \<Rightarrow> string \<Rightarrow> string" where
  "ScopedCheckID G command cwd0 =
     (let category = CheckKey G command in
      if category = [] then []
      else
        let cwd1 = path_clean (trim_space cwd0); cwd = (if cwd1 = [] \<or> cwd1 = ''.'' then [] else cwd1);
            identity = normalizeCheckCommand G command @ (if cwd \<noteq> [] then CHR 0x00 # ''cwd:'' @ cwd else [])
        in category @ '':'' @ take 12 (sha256hex G identity))"

definition check_id :: "('z) goenv_scheme \<Rightarrow> verification_check \<Rightarrow> string" where
  "check_id G c =
     (let i = ScopedCheckID G (vc_command c) (vc_cwd c) in if i = [] then trim_space (vc_key c) else i)"

fun plan_loop :: "('z) goenv_scheme \<Rightarrow> string list \<Rightarrow> verification_check list \<Rightarrow> verification_requirement list option" where
  "plan_loop G seen [] = Some []"
| "plan_loop G seen (c # cs) =
     (let i = check_id G c in
      if i = [] then None
      else if i \<in> set seen then plan_loop G seen cs
      else case plan_loop G (i # seen) cs of
        None \<Rightarrow> None
      | Some rs \<Rightarrow> Some (\<lparr>vr_id = i, vr_category = CheckKey G (vc_command c), vr_scope = trim_space (vc_scope c),
                         vr_required = vc_required c, vr_reason = trim_space (vc_reason c)\<rparr> # rs))"

definition requirementsFromPlan :: "('z) goenv_scheme \<Rightarrow> verification_check list \<Rightarrow> verification_requirement list option" where
  "requirementsFromPlan G cs = map_option (sort_key vr_id) (plan_loop G [] cs)"

section \<open>Snapshots in JSON\<close>

definition requirement_json :: "verification_requirement \<Rightarrow> json" where
  "requirement_json r = JObj (
     [(''id'', enc_str (vr_id r))] @ omit_str ''category'' (vr_category r) @ omit_str ''scope'' (vr_scope r) @
     [(''required'', JBool (vr_required r))] @ omit_str ''reason'' (vr_reason r))"

definition evidence_json :: "('z) goenv_scheme \<Rightarrow> verification_evidence \<Rightarrow> json" where
  "evidence_json G e = JObj (
     [(''checkId'', enc_str (ve_check e)), (''status'', enc_str (ve_status e))] @ omit_str ''agentId'' (ve_agent e) @
     (case ve_exit e of None \<Rightarrow> [] | Some n \<Rightarrow> [(''exitCode'', enc_int G n)]) @
     omit_str ''artifactRef'' (ve_artifact e) @ omit_str ''failureSignature'' (ve_failure e) @
     [(''startedAt'', JTime (ve_started e)), (''finishedAt'', JTime (ve_finished e))])"

definition verificationPayload :: "('z) goenv_scheme \<Rightarrow> verification_snapshot \<Rightarrow> json" where
  "verificationPayload G s = JObj (
     [(''revision'', enc_u64 G (vs_rev s)), (''requirements'', JArr (map requirement_json (vs_reqs s)))] @
     (if vs_results s = [] then [] else [(''results'', JArr (map (evidence_json G) (vs_results s)))]))"

definition dec_bool :: "json \<Rightarrow> bool option" where
  "dec_bool j = (case j of JBool b \<Rightarrow> Some b | JNull \<Rightarrow> Some False | _ \<Rightarrow> None)"

definition dec_int_ptr :: "json \<Rightarrow> int option option" where
  "dec_int_ptr j = (if j = JNull then Some None else map_option Some (dec_int j))"

fun dec_all :: "(json \<Rightarrow> 'a option) \<Rightarrow> json list \<Rightarrow> 'a list option" where
  "dec_all f [] = Some []"
| "dec_all f (j # js) = Option.bind (f j) (\<lambda>x. Option.bind (dec_all f js) (\<lambda>xs. Some (x # xs)))"

definition dec_array :: "(json \<Rightarrow> 'a option) \<Rightarrow> json \<Rightarrow> 'a list option" where
  "dec_array f j = (case j of JArr js \<Rightarrow> dec_all f js | JNull \<Rightarrow> Some [] | _ \<Rightarrow> None)"

definition requirement_of :: "json \<Rightarrow> verification_requirement option" where
  "requirement_of j =
     Option.bind (Option.bind (jfield ''id'' j) dec_str) (\<lambda>i.
     Option.bind (Option.bind (jfield ''category'' j) dec_str) (\<lambda>c.
     Option.bind (Option.bind (jfield ''scope'' j) dec_str) (\<lambda>s.
     Option.bind (Option.bind (jfield ''required'' j) dec_bool) (\<lambda>r.
     Option.bind (Option.bind (jfield ''reason'' j) dec_str) (\<lambda>w.
       Some \<lparr>vr_id = i, vr_category = c, vr_scope = s, vr_required = r, vr_reason = w\<rparr>)))))"

definition evidence_of :: "json \<Rightarrow> verification_evidence option" where
  "evidence_of j =
     Option.bind (Option.bind (jfield ''checkId'' j) dec_str) (\<lambda>c.
     Option.bind (Option.bind (jfield ''status'' j) dec_str) (\<lambda>s.
     Option.bind (Option.bind (jfield ''agentId'' j) dec_str) (\<lambda>a.
     Option.bind (Option.bind (jfield ''exitCode'' j) dec_int_ptr) (\<lambda>x.
     Option.bind (Option.bind (jfield ''artifactRef'' j) dec_str) (\<lambda>r.
     Option.bind (Option.bind (jfield ''failureSignature'' j) dec_str) (\<lambda>f.
     Option.bind (Option.bind (jfield ''startedAt'' j) dec_time) (\<lambda>t1.
     Option.bind (Option.bind (jfield ''finishedAt'' j) dec_time) (\<lambda>t2.
       Some \<lparr>ve_check = c, ve_status = s, ve_agent = a, ve_exit = x, ve_artifact = r, ve_failure = f,
             ve_started = t1, ve_finished = t2\<rparr>))))))))"

definition verificationDecode :: "json \<Rightarrow> verification_snapshot option" where
  "verificationDecode j =
     Option.bind (Option.bind (jfield ''revision'' j) dec_u64) (\<lambda>r.
     Option.bind (Option.bind (jfield ''requirements'' j) (dec_array requirement_of)) (\<lambda>qs.
     Option.bind (Option.bind (jfield ''results'' j) (dec_array evidence_of)) (\<lambda>es.
       Some \<lparr>vs_rev = r, vs_reqs = qs, vs_results = es\<rparr>)))"

section \<open>The gate\<close>

definition snapshotLocked :: "verification_gate \<Rightarrow> verification_snapshot" where
  "snapshotLocked g = \<lparr>vs_rev = vg_rev g, vs_reqs = sort_key vr_id (map snd (vg_reqs g)),
     vs_results = sort_key ve_check (map snd (vg_results g))\<rparr>"

definition loadSnapshot :: "verification_snapshot \<Rightarrow> verification_gate \<Rightarrow> verification_gate" where
  "loadSnapshot s g = g\<lparr>vg_rev := vs_rev s,
     vg_reqs := fold (\<lambda>r m. AList.update (vr_id r) r m) (vs_reqs s) [],
     vg_results := fold (\<lambda>e m. AList.update (ve_check e) e m) (vs_results s) []\<rparr>"

definition gate_event :: "('z) goenv_scheme \<Rightarrow> verification_gate \<Rightarrow> string \<Rightarrow> string \<Rightarrow> event" where
  "gate_event G g ty key =
     zero_event\<lparr>ev_type := ty, ev_task := vg_task g, ev_idem := key,
       ev_payload := [(''verification'', verificationPayload G (snapshotLocked g))]\<rparr>"

definition persistLocked ::
  "('z) goenv_scheme \<Rightarrow> gotime \<Rightarrow> write_outcome \<Rightarrow> gate_state \<Rightarrow> string \<Rightarrow> string \<Rightarrow> evstore option \<times> ev_error option" where
  "persistLocked G now io s ty key =
     append_opt G now io (snd s) (vg_ws (fst s)) (vg_task (fst s)) (gate_event G (fst s) ty key)"

definition normalizeVerificationEvidence :: "verification_evidence \<Rightarrow> verification_evidence" where
  "normalizeVerificationEvidence e = e\<lparr>ve_check := trim_space (ve_check e), ve_agent := trim_space (ve_agent e),
     ve_artifact := trim_space (ve_artifact e), ve_failure := trim_space (ve_failure e)\<rparr>"

definition validVerificationStatus :: "string \<Rightarrow> bool" where
  "validVerificationStatus s \<longleftrightarrow>
     s \<in> {VerificationPending, VerificationRunning, VerificationPassed, VerificationFailed, VerificationSkipped}"

definition verificationTransitionAllowed :: "string \<Rightarrow> string \<Rightarrow> bool" where
  "verificationTransitionAllowed a b =
     (if a = b then True
      else if a = VerificationPending then b \<in> {VerificationRunning, VerificationPassed, VerificationFailed, VerificationSkipped}
      else if a = VerificationRunning then b \<in> {VerificationPassed, VerificationFailed, VerificationSkipped}
      else if a = VerificationFailed then b \<in> {VerificationRunning, VerificationPassed}
      else False)"

fun gate_replay :: "verification_gate \<Rightarrow> bool \<Rightarrow> event list \<Rightarrow> verification_error + verification_gate \<times> bool" where
  "gate_replay g found [] = Inr (g, found)"
| "gate_replay g found (e # es) =
     (if ev_type e = eventVerificationPlan \<or> ev_type e = eventVerificationResult then
        (case verificationDecode (case map_of (ev_payload e) ''verification'' of None \<Rightarrow> JNull | Some j \<Rightarrow> j) of
           None \<Rightarrow> Inl ErrInvalidVerification
         | Some s \<Rightarrow> gate_replay (loadSnapshot s g) (found \<or> ev_type e = eventVerificationPlan) es)
      else gate_replay g found es)"

text \<open>The branch of the constructor that creates and persists a plan.\<close>

definition gate_create ::
  "('z) goenv_scheme \<Rightarrow> gotime \<Rightarrow> write_outcome \<Rightarrow> verification_check list \<Rightarrow> gate_state
     \<Rightarrow> evstore option \<times> (verification_error + verification_gate)" where
  "gate_create G now io plan s =
     (case requirementsFromPlan G plan of
        None \<Rightarrow> (snd s, Inl ErrInvalidVerification)
      | Some rs \<Rightarrow>
          let g = (fst s)\<lparr>vg_rev := 1, vg_reqs := fold (\<lambda>r m. AList.update (vr_id r) r m) rs (vg_reqs (fst s))\<rparr> in
          (case persistLocked G now io (g, snd s) eventVerificationPlan ''verification:plan:1'' of
             (es, Some x) \<Rightarrow> (es, Inl (VerificationEvents x))
           | (es, None) \<Rightarrow> (es, Inr g)))"

definition NewVerificationGate ::
  "('z) goenv_scheme \<Rightarrow> gotime \<Rightarrow> write_outcome \<Rightarrow> evstore option \<Rightarrow> string \<Rightarrow> string \<Rightarrow> verification_check list
     \<Rightarrow> evstore option \<times> (verification_error + verification_gate)" where
  "NewVerificationGate G now io events ws0 task0 plan =
     (let ws = trim_space ws0; task = trim_space task0;
          g = \<lparr>vg_ws = ws, vg_task = task, vg_rev = 0, vg_reqs = [], vg_results = []\<rparr> in
      if ws = [] \<or> task = [] then (events, Inl ErrInvalidVerification)
      else case events of
        None \<Rightarrow> gate_create G now io plan (g, None)
      | Some es \<Rightarrow>
          (case ev_list G es ws task 0 5000 of
             Inl x \<Rightarrow> (events, Inl (VerificationEvents x))
           | Inr stored \<Rightarrow>
               (case gate_replay g False stored of
                  Inl x \<Rightarrow> (events, Inl x)
                | Inr (h, found) \<Rightarrow> if found then (events, Inr h) else gate_create G now io plan (h, events))))"

definition result_key :: "string \<Rightarrow> nat \<Rightarrow> string" where
  "result_key c r = ''verification:result:'' @ c @ '':'' @ itoa r"

definition gate_Record ::
  "('z) goenv_scheme \<Rightarrow> gotime \<Rightarrow> write_outcome \<Rightarrow> gate_state \<Rightarrow> u64 \<Rightarrow> verification_evidence
     \<Rightarrow> gate_state \<times> (verification_error + verification_snapshot)" where
  "gate_Record G now io s expected e0 =
     (let e = normalizeVerificationEvidence e0; g = fst s in
      if expected = 0 \<or> expected \<noteq> vg_rev g then (s, Inl ErrStaleVerification)
      else if map_of (vg_reqs g) (ve_check e) = None then (s, Inl ErrVerificationCheckMissing)
      else if \<not> validVerificationStatus (ve_status e) then (s, Inl ErrInvalidVerification)
      else if (case map_of (vg_results g) (ve_check e) of None \<Rightarrow> False
               | Some p \<Rightarrow> \<not> verificationTransitionAllowed (ve_status p) (ve_status e)) then (s, Inl ErrInvalidVerification)
      else
        let g1 = g\<lparr>vg_results := AList.update (ve_check e) e (vg_results g), vg_rev := vg_rev g + 1\<rparr> in
        (case persistLocked G now io (g1, snd s) eventVerificationResult (result_key (ve_check e) (unat (vg_rev g1))) of
           (es, Some x) \<Rightarrow> ((g, es), Inl (VerificationEvents x))
         | (es, None) \<Rightarrow> ((g1, es), Inr (snapshotLocked g1))))"

definition CanComplete :: "verification_gate \<Rightarrow> bool" where
  "CanComplete g = list_all (\<lambda>(i, r). \<not> vr_required r \<or>
     (case map_of (vg_results g) i of None \<Rightarrow> False | Some e \<Rightarrow> ve_status e = VerificationPassed)) (vg_reqs g)"

definition FailedRequired :: "verification_gate \<Rightarrow> verification_evidence list" where
  "FailedRequired g = sort_key ve_check
     (List.map_filter (\<lambda>(i, r). if \<not> vr_required r then None
        else case map_of (vg_results g) i of None \<Rightarrow> None
          | Some e \<Rightarrow> if ve_status e = VerificationFailed then Some e else None) (vg_reqs g))"

section \<open>The lane summary\<close>

record verification_lane =
  vl_lane :: string
  vl_required :: "string list"
  vl_passed :: "string list"
  vl_failed :: "string list"
  vl_pending :: "string list"
  vl_ready :: bool

record verification_graph =
  vgr_lanes :: "verification_lane list"
  vgr_ready :: bool

definition required_map :: "verification_requirement list \<Rightarrow> (string \<times> verification_requirement) list" where
  "required_map rs = fold (\<lambda>r m. if trim_space (vr_id r) = [] then m else AList.update (trim_space (vr_id r)) r m) rs []"

text \<open>A missing key of \<open>latest\<close> reads as the empty status.\<close>

definition latest_map ::
  "(string \<times> verification_requirement) list \<Rightarrow> verification_evidence list \<Rightarrow> (string \<times> string) list" where
  "latest_map req es = fold (\<lambda>e m. if map_of req (trim_space (ve_check e)) = None then m
                                   else AList.update (trim_space (ve_check e)) (ve_status e) m) es []"

definition latest_of :: "(string \<times> string) list \<Rightarrow> string \<Rightarrow> string" where
  "latest_of l i = (case map_of l i of None \<Rightarrow> [] | Some s \<Rightarrow> s)"

definition lane_name :: "verification_requirement \<Rightarrow> string" where
  "lane_name r = (if trim_space (vr_category r) = [] then ''general'' else trim_space (vr_category r))"

definition lane_add ::
  "(string \<times> string) list \<Rightarrow> string \<times> verification_requirement \<Rightarrow> (string \<times> verification_lane) list
     \<Rightarrow> (string \<times> verification_lane) list" where
  "lane_add latest ir lanes =
     (let i = fst ir; r = snd ir; name = lane_name r; st = latest_of latest i;
          l0 = (case map_of lanes name of Some l \<Rightarrow> l
                | None \<Rightarrow> \<lparr>vl_lane = name, vl_required = [], vl_passed = [], vl_failed = [], vl_pending = [], vl_ready = False\<rparr>);
          l1 = (if vr_required r then l0\<lparr>vl_required := vl_required l0 @ [i]\<rparr> else l0);
          l2 = (if st = VerificationPassed then l1\<lparr>vl_passed := vl_passed l1 @ [i]\<rparr>
                else if st = VerificationFailed then l1\<lparr>vl_failed := vl_failed l1 @ [i]\<rparr>
                else l1\<lparr>vl_pending := vl_pending l1 @ [i]\<rparr>)
      in AList.update name l2 lanes)"

definition lane_finish :: "(string \<times> string) list \<Rightarrow> verification_lane \<Rightarrow> verification_lane" where
  "lane_finish latest l = l\<lparr>vl_required := sort (vl_required l), vl_passed := sort (vl_passed l),
     vl_failed := sort (vl_failed l), vl_pending := sort (vl_pending l),
     vl_ready := list_all (\<lambda>i. latest_of latest i = VerificationPassed) (vl_required l)\<rparr>"

definition SummarizeVerification :: "verification_requirement list \<Rightarrow> verification_evidence list \<Rightarrow> verification_graph" where
  "SummarizeVerification rs es =
     (let req = required_map rs; latest = latest_map req es;
          lanes = map (\<lambda>kl. lane_finish latest (snd kl)) (fold (lane_add latest) req [])
      in \<lparr>vgr_lanes = sort_key vl_lane lanes, vgr_ready = (req \<noteq> [] \<and> list_all vl_ready lanes)\<rparr>)"


section \<open>Snapshots survive the log\<close>

definition req_stable :: "verification_requirement \<Rightarrow> bool" where
  "req_stable r \<longleftrightarrow> valid_utf8 (vr_id r) \<and> valid_utf8 (vr_category r) \<and> valid_utf8 (vr_scope r) \<and> valid_utf8 (vr_reason r)"

definition ev_stable :: "verification_evidence \<Rightarrow> bool" where
  "ev_stable e \<longleftrightarrow> valid_utf8 (ve_check e) \<and> valid_utf8 (ve_status e) \<and> valid_utf8 (ve_agent e) \<and>
     valid_utf8 (ve_artifact e) \<and> valid_utf8 (ve_failure e) \<and> (case ve_exit e of None \<Rightarrow> True | Some n \<Rightarrow> small_int n)"

definition snap_stable :: "verification_snapshot \<Rightarrow> bool" where
  "snap_stable s \<longleftrightarrow> small_u64 (vs_rev s) \<and> list_all req_stable (vs_reqs s) \<and> list_all ev_stable (vs_results s)"

lemma map_of_omit_last: "map_of (omit_str k s) k' = (if s \<noteq> [] \<and> k' = k then Some (enc_str s) else None)"
  by (simp add: omit_str_def)

lemma requirement_codec:
  "req_stable r \<Longrightarrow> coerce_json (requirement_json r) = requirement_json r"
  "req_stable r \<Longrightarrow> requirement_of (requirement_json r) = Some r"
  unfolding requirement_json_def coerce_json_JObj requirement_of_def jfield_JObj
  by (simp_all add: req_stable_def coerce_omit utf8_coerce_ascii is_ascii_def json_codec dec_omit dec_bool_def
      map_of_omit_last del: map_of_append cong: if_cong split del: if_split)

lemma evidence_codec:
  assumes "ev_stable e"
  shows "coerce_json (evidence_json G e) = evidence_json G e" "evidence_of (evidence_json G e) = Some e"
proof -
  have "dec_int_ptr (enc_int G n) = Some (Some n)" if "small_int n" for n
    using dec_int_enc [OF that, of G] that by (auto simp: dec_int_ptr_def enc_int_def small_int_def)
  then show "coerce_json (evidence_json G e) = evidence_json G e" "evidence_of (evidence_json G e) = Some e"
    using assms unfolding evidence_json_def coerce_json_JObj evidence_of_def jfield_JObj ev_stable_def
    by (cases "ve_exit e"; simp add: coerce_omit utf8_coerce_ascii is_ascii_def json_codec dec_omit dec_int_ptr_def
        del: map_of_append cong: if_cong split del: if_split)+
qed

lemma dec_all_map: "(\<And>x. x \<in> set xs \<Longrightarrow> f (g x) = Some x) \<Longrightarrow> dec_all f (map g xs) = Some xs"
  by (induction xs) auto

lemma verificationPayload_codec:
  assumes "snap_stable s"
  shows "coerce_json (verificationPayload G s) = verificationPayload G s"
    and "verificationDecode (verificationPayload G s) = Some s"
proof -
  have q: "\<And>r. r \<in> set (vs_reqs s) \<Longrightarrow> req_stable r" "\<And>e. e \<in> set (vs_results s) \<Longrightarrow> ev_stable e" "small_u64 (vs_rev s)"
    using assms by (auto simp: snap_stable_def list_all_iff)
  show "coerce_json (verificationPayload G s) = verificationPayload G s"
    using q by (auto simp: verificationPayload_def coerce_json_JObj utf8_coerce_ascii is_ascii_def requirement_codec evidence_codec)
  have d: "dec_array requirement_of (JArr (map requirement_json (vs_reqs s))) = Some (vs_reqs s)"
    "dec_array evidence_of (JArr (map (evidence_json G) (vs_results s))) = Some (vs_results s)"
    using q by (auto simp: dec_array_def requirement_codec evidence_codec intro!: dec_all_map)
  show "verificationDecode (verificationPayload G s) = Some s"
    using d q(3) by (cases "vs_results s = []")
      (simp_all add: verificationDecode_def verificationPayload_def jfield_JObj json_codec, simp_all add: dec_array_def)
qed

section \<open>The gate and its log agree\<close>

definition gate_wf :: "verification_gate \<Rightarrow> bool" where
  "gate_wf g \<longleftrightarrow> distinct (map fst (vg_reqs g)) \<and> (\<forall>(k, r) \<in> set (vg_reqs g). vr_id r = k \<and> k \<noteq> []) \<and>
     distinct (map fst (vg_results g)) \<and>
     (\<forall>(k, e) \<in> set (vg_results g). ve_check e = k \<and> map_of (vg_reqs g) k \<noteq> None)"

definition same_gate :: "verification_gate \<Rightarrow> verification_gate \<Rightarrow> bool" where
  "same_gate g h \<longleftrightarrow> vg_ws g = vg_ws h \<and> vg_task g = vg_task h \<and> vg_rev g = vg_rev h \<and>
     map_of (vg_reqs g) = map_of (vg_reqs h) \<and> map_of (vg_results g) = map_of (vg_results h)"

lemma map_of_fold_update:
  "map_of (fold (\<lambda>r m. AList.update (f r) r m) rs m) =
     (\<lambda>k. case find (\<lambda>r. f r = k) (rev rs) of None \<Rightarrow> map_of m k | Some r \<Rightarrow> Some r)"
  by (induction rs arbitrary: m) (auto simp: fun_eq_iff find_append_case split: option.splits)

lemma distinct_fold_update:
  "distinct (map fst m) \<Longrightarrow> distinct (map fst (fold (\<lambda>r m. AList.update (f r) r m) rs m))"
  by (induction rs arbitrary: m) (auto simp: distinct_update)

lemma map_of_index_values:
  assumes "distinct (map fst m)" and "\<forall>(k, v) \<in> set m. f v = k" and "set vs = set (map snd m)"
  shows "map_of (fold (\<lambda>r m. AList.update (f r) r m) vs []) = map_of m"
proof
  fix k
  show "map_of (fold (\<lambda>r m. AList.update (f r) r m) vs []) k = map_of m k"
  proof (cases "map_of m k")
    case None
    have "f v \<noteq> k" if "v \<in> set vs" for v
      using that assms(2,3) None by (auto simp: map_of_eq_None_iff rev_image_eqI)
    then have "find (\<lambda>r. f r = k) (rev vs) = None" by (simp add: find_None_iff)
    with None show ?thesis by (simp add: map_of_fold_update)
  next
    case (Some v)
    then have "(k, v) \<in> set m" by (rule map_of_SomeD)
    then have v: "v \<in> set vs" "f v = k" using assms(2,3) by (auto simp: rev_image_eqI)
    have uniq: "u = v" if "u \<in> set vs" "f u = k" for u
    proof -
      from that(1) assms(3) obtain k' where "(k', u) \<in> set m" by auto
      moreover from this assms(2) that(2) have "k' = k" by auto
      ultimately have "map_of m k = Some u" using assms(1) by simp
      with Some show ?thesis by simp
    qed
    have "find (\<lambda>r. f r = k) (rev vs) \<noteq> None" using v by (auto simp: find_None_iff)
    then obtain u where "find (\<lambda>r. f r = k) (rev vs) = Some u" by auto
    moreover from this uniq have "u = v" by (auto simp: find_Some_iff) (metis nth_mem set_rev length_rev)
    ultimately show ?thesis using Some by (simp add: map_of_fold_update)
  qed
qed

lemma loadSnapshot_same:
  assumes "gate_wf g" and "vg_ws h = vg_ws g" and "vg_task h = vg_task g"
  shows "same_gate (loadSnapshot (snapshotLocked g) h) g"
  using assms map_of_index_values [of "vg_reqs g" vr_id "sort_key vr_id (map snd (vg_reqs g))"]
    map_of_index_values [of "vg_results g" ve_check "sort_key ve_check (map snd (vg_results g))"]
  by (auto simp: same_gate_def loadSnapshot_def snapshotLocked_def gate_wf_def)

lemma values_inj:
  assumes "distinct (map fst m)" and "\<forall>(k, v) \<in> set m. f v = k"
  shows "distinct (map snd m) \<and> inj_on f (set (map snd m))"
proof -
  have e: "map f (map snd m) = map fst m" using assms(2) by (induction m) auto
  have "distinct (map f (map snd m))" unfolding e by (rule assms(1))
  then show ?thesis by (simp only: distinct_map)
qed

lemma sort_values_cong:
  fixes f :: "'v \<Rightarrow> 'k::linorder"
  assumes "distinct (map fst m)" "\<forall>(k, v) \<in> set m. f v = k" "distinct (map fst n)" "\<forall>(k, v) \<in> set n. f v = k"
    and "map_of m = map_of n"
  shows "sort_key f (map snd m) = sort_key f (map snd n)"
proof -
  have "set m = set n" using assms(1,3,5) by (metis map_of_inject_set)
  then show ?thesis
    using values_inj [OF assms(1,2)] values_inj [OF assms(3,4)] by (intro sort_key_set_eq) auto
qed

text \<open>
  A log agrees with a gate when replaying it gives the gate, and every result key in it names a revision
  the gate has reached.
\<close>

definition new_gate :: "string \<Rightarrow> string \<Rightarrow> verification_gate" where
  "new_gate ws task = \<lparr>vg_ws = ws, vg_task = task, vg_rev = 0, vg_reqs = [], vg_results = []\<rparr>"

definition vsync :: "string \<Rightarrow> string \<Rightarrow> event list \<Rightarrow> verification_gate \<Rightarrow> bool" where
  "vsync ws task evs g \<longleftrightarrow> gate_wf g \<and> vg_ws g = ws \<and> vg_task g = task \<and>
     (\<exists>h. gate_replay (new_gate ws task) False evs = Inr (h, True) \<and> same_gate h g) \<and>
     (\<forall>e \<in> set evs. \<forall>c n. ev_idem e = result_key c n \<longrightarrow> n \<le> unat (vg_rev g))"

text \<open>Events of the other components.\<close>

definition gate_foreign :: "event \<Rightarrow> bool" where
  "gate_foreign e \<longleftrightarrow> ev_type e \<noteq> eventVerificationPlan \<and> ev_type e \<noteq> eventVerificationResult \<and>
     ev_idem e \<noteq> ''verification:plan:1'' \<and> (\<forall>c n. ev_idem e \<noteq> result_key c n)"

lemma gate_replay_append:
  "gate_replay g f (es @ fs) = (case gate_replay g f es of Inl x \<Rightarrow> Inl x | Inr (h, b) \<Rightarrow> gate_replay h b fs)"
  by (induction es arbitrary: g f) (auto split: option.splits)

lemma gate_replay_foreign: "list_all gate_foreign es \<Longrightarrow> gate_replay g f es = Inr (g, f)"
  by (induction es) (auto simp: gate_foreign_def)

lemma gate_replay_scope:
  "gate_replay g f es = Inr (h, b) \<Longrightarrow> vg_ws h = vg_ws g \<and> vg_task h = vg_task g"
  by (induction g f es rule: gate_replay.induct) (auto simp: loadSnapshot_def split: if_splits option.splits)

lemma result_key_inject: "result_key c n = result_key d m \<longleftrightarrow> c = d \<and> n = m"
  using key_number_inject [of c n d m] by (simp add: result_key_def)

lemma plan_key_no_result: "''verification:plan:1'' \<noteq> result_key c n"
  by (simp add: result_key_def)

lemma gate_replay_snoc:
  assumes "gate_replay g0 False es = Inr (h0, f)" and "snap_stable (snapshotLocked g)" and "gate_wf g"
    and "vg_ws g0 = vg_ws g" "vg_task g0 = vg_task g"
    and "ev_type e = eventVerificationPlan \<or> ev_type e = eventVerificationResult"
    and "map_of (ev_payload e) ''verification'' = Some (verificationPayload G (snapshotLocked g))"
  shows "\<exists>h. gate_replay g0 False (es @ [e]) = Inr (h, f \<or> ev_type e = eventVerificationPlan) \<and> same_gate h g"
proof -
  have "same_gate (loadSnapshot (snapshotLocked g) h0) g"
    using gate_replay_scope [OF assms(1)] assms(4,5) by (intro loadSnapshot_same [OF assms(3)]) simp_all
  moreover have "gate_replay h0 f [e] = Inr (loadSnapshot (snapshotLocked g) h0, f \<or> ev_type e = eventVerificationPlan)"
    using assms(6,7) verificationPayload_codec(2) [OF assms(2), of G] by auto
  ultimately show ?thesis using assms(1) by (simp add: gate_replay_append)
qed

text \<open>One durable append of a gate: the stored event carries the snapshot.\<close>

lemma gate_append:
  assumes "validateScope ws task" and "trimmed task" and "vg_ws g = ws" "vg_task g = task"
    and "p = eventPath G ws task" and "log_inv (ev_files es p)" and "length (ev_files es p) < 2 ^ 64 - 1"
    and "snap_stable (snapshotLocked g)" and "io_clean io"
    and "persistLocked G now io (g, Some es) ty key = (Some es', None)"
    and "ty = eventVerificationPlan \<or> ty = eventVerificationResult"
    and "trimmed key" "valid_utf8 key" "key \<noteq> []" "\<forall>e \<in> set (log_events (ev_files es p)). ev_idem e \<noteq> key"
  shows "\<exists>e. ev_files es' p = ev_files es p @ [Line e] \<and> log_inv (ev_files es' p) \<and> ev_type e = ty \<and> ev_idem e = key \<and>
    map_of (ev_payload e) ''verification'' = Some (verificationPayload G (snapshotLocked g))"
proof -
  let ?in = "gate_event G g ty key"
  have tr: "trimmed eventVerificationPlan" "trimmed eventVerificationResult" by code_simp+
  obtain e1 where norm: "normalizeEvent now ?in task = Inr e1"
    using assms(1,2,4,11) tr unfolding normalizeEvent_def gate_event_def zero_event_def validateScope_def
    by (auto simp: Let_def trim_space_of_trimmed)
  note n = normalizeEvent_Inr [OF norm]
  have ty: "ev_type e1 = ty" "ev_idem e1 = key" "ev_payload e1 = [(''verification'', verificationPayload G (snapshotLocked g))]"
    using n assms(11,12) tr by (auto simp: gate_event_def trim_space_of_trimmed)
  have fresh: "find_idem (ev_idem e1) (log_events (ev_files es p)) = None"
    using assms(15) ty by (auto simp: find_idem_def find_None_iff)
  have wf: "wf_from 0 (ev_files es p)" using assms(6) by (simp add: log_inv_def)
  have app: "ev_append G now io es ws task ?in = (es', r) \<and> (\<exists>x. r = Inr x)" if "r = snd (ev_append G now io es ws task ?in)" for r
    using assms(3,4,10) that by (auto simp: persistLocked_def append_opt_def split: prod.splits sum.splits)
  have "io = WOk"
  proof (rule ccontr)
    assume "io \<noteq> WOk"
    then obtain x where "io = WLost x" using assms(9) by (auto simp: io_clean_def)
    then have "snd (ev_append G now io es ws task ?in) = Inl (EvIO x)"
      using assms(1,5) norm fresh wf by (simp add: ev_append_def write_line_def Let_def readEvents_wf)
    with app show False by fastforce
  qed
  let ?e = "coerce_event (stored_event G task (log_events (ev_files es p)) e1)"
  have files: "ev_files es' p = ev_files es p @ [Line ?e]"
    using ev_append_fresh [of ws task now ?in e1 es G] assms(1,5) norm wf fresh app \<open>io = WOk\<close>
    by (auto simp: Let_def)
  have "is_ascii ty" using assms(11) by (auto simp: is_ascii_def)
  then have "ev_type ?e = ty" "ev_idem ?e = key"
    "map_of (ev_payload ?e) ''verification'' = Some (verificationPayload G (snapshotLocked g))"
    using ty assms(13) verificationPayload_codec(1) [OF assms(8), of G]
    by (simp_all add: utf8_coerce_ascii valid_utf8_def is_ascii_def)
  moreover have "log_inv (ev_files es' p)"
    using log_inv_snoc [OF assms(6,7) norm _ fresh] ty assms(13) files by simp
  ultimately show ?thesis using files by blast
qed


lemma vsync_cong:
  "vsync ws task evs g \<Longrightarrow> gate_wf h \<Longrightarrow> same_gate g h \<Longrightarrow> vsync ws task evs h"
  unfolding vsync_def same_gate_def by metis

text \<open>What creation and recording keep.\<close>

lemma plan_loop_wf:
  "plan_loop G seen cs = Some rs \<Longrightarrow> distinct (map vr_id rs) \<and> set (map vr_id rs) \<inter> set seen = {} \<and> (\<forall>r \<in> set rs. vr_id r \<noteq> [])"
  by (induction G seen cs arbitrary: rs rule: plan_loop.induct) (fastforce simp: Let_def split: if_splits option.splits)+

lemma fold_update_values:
  "(k, v) \<in> set (fold (\<lambda>r m. AList.update (f r) r m) rs m) \<Longrightarrow> (k, v) \<in> set m \<or> f v = k \<and> v \<in> set rs"
  by (induction rs arbitrary: m) (auto dest!: set_update_subset [THEN subsetD])

lemma gate_create_wf:
  assumes "gate_create G now io plan (g0, oes) = (oes', Inr g)" and "vg_results g0 = []" and "vg_reqs g0 = []"
  shows "gate_wf g \<and> vg_ws g = vg_ws g0 \<and> vg_task g = vg_task g0 \<and> vg_rev g = 1 \<and>
    persistLocked G now io (g, oes) eventVerificationPlan ''verification:plan:1'' = (oes', None)"
proof -
  obtain rs where rs: "requirementsFromPlan G plan = Some rs"
    using assms(1) by (auto simp: gate_create_def split: option.splits)
  then have ne: "\<forall>r \<in> set rs. vr_id r \<noteq> []"
    using plan_loop_wf [of G "[]" plan] by (auto simp: requirementsFromPlan_def)
  let ?reqs = "fold (\<lambda>r m. AList.update (vr_id r) r m) rs []"
  have "vr_id r = k \<and> k \<noteq> []" if "(k, r) \<in> set ?reqs" for k r
    using fold_update_values [OF that] ne by auto
  then have v: "\<forall>(k, r) \<in> set ?reqs. vr_id r = k \<and> k \<noteq> []" by blast
  have d: "distinct (map fst ?reqs)" by (rule distinct_fold_update) simp
  have "g = g0\<lparr>vg_rev := 1, vg_reqs := ?reqs\<rparr> \<and>
    persistLocked G now io (g0\<lparr>vg_rev := 1, vg_reqs := ?reqs\<rparr>, oes) eventVerificationPlan ''verification:plan:1'' = (oes', None)"
    using assms(1,3) rs by (simp add: gate_create_def Let_def split: prod.split_asm option.split_asm)
  then show ?thesis using v d assms(2) by (simp add: gate_wf_def)
qed

lemma gate_wf_record:
  assumes "gate_wf g" and "map_of (vg_reqs g) (ve_check e) \<noteq> None"
  shows "gate_wf (g\<lparr>vg_results := AList.update (ve_check e) e (vg_results g), vg_rev := r\<rparr>)"
proof -
  have "ve_check x = k \<and> map_of (vg_reqs g) k \<noteq> None"
    if "(k, x) \<in> set (AList.update (ve_check e) e (vg_results g))" for k x
  proof -
    from that consider "k = ve_check e" "x = e" | "(k, x) \<in> set (vg_results g)"
      using set_update_subset [of "ve_check e" e "vg_results g"] by blast
    then show ?thesis using assms by cases (simp, simp only: gate_wf_def, blast)
  qed
  then have v: "\<forall>(k, x) \<in> set (AList.update (ve_check e) e (vg_results g)). ve_check x = k \<and> map_of (vg_reqs g) k \<noteq> None"
    by blast
  have d: "distinct (map fst (AList.update (ve_check e) e (vg_results g)))"
    using assms(1) by (simp add: gate_wf_def distinct_update)
  show ?thesis using v d assms(1) by (simp add: gate_wf_def del: not_None_eq)
qed

lemma gate_Record_ok:
  assumes "gate_Record G now io (g, oes) r e0 = ((g', oes'), Inr s)" and "gate_wf g"
  shows "gate_wf g' \<and> s = snapshotLocked g' \<and> vg_ws g' = vg_ws g \<and> vg_task g' = vg_task g \<and> vg_rev g' = vg_rev g + 1 \<and>
    vg_rev g \<noteq> 0 \<and> (\<exists>x. map_of (vg_results g') (trim_space (ve_check e0)) = Some x) \<and>
    persistLocked G now io (g', oes) eventVerificationResult (result_key (trim_space (ve_check e0)) (unat (vg_rev g'))) = (oes', None)"
proof -
  let ?e = "normalizeVerificationEvidence e0"
  let ?g = "g\<lparr>vg_results := AList.update (ve_check ?e) ?e (vg_results g), vg_rev := vg_rev g + 1\<rparr>"
  have c: "map_of (vg_reqs g) (ve_check ?e) \<noteq> None" "r \<noteq> 0" "r = vg_rev g"
    using assms(1) by (auto simp: gate_Record_def Let_def split: if_splits)
  have "g' = ?g \<and> s = snapshotLocked ?g \<and>
    persistLocked G now io (?g, oes) eventVerificationResult (result_key (ve_check ?e) (unat (vg_rev ?g))) = (oes', None)"
    using assms(1) by (auto simp: gate_Record_def Let_def split: if_split_asm option.split_asm prod.split_asm)
  then show ?thesis
    using gate_wf_record [OF assms(2) c(1)] c(2,3) by (simp add: normalizeVerificationEvidence_def)
qed

lemma gate_Record_error:
  assumes "gate_Record G now io (g, oes) r e0 = (s', Inl x)" and "io_clean io"
  shows "s' = (g, oes)"
  using assms append_opt_error
  by (auto simp: gate_Record_def persistLocked_def Let_def split: if_splits option.splits prod.splits) blast+


text \<open>
  The life of a gate: it is created on a log that holds only events of other components, records evidence
  (accepted or refused), while the other components append to the same store.
\<close>

definition foreign_raw :: "event \<Rightarrow> bool" where
  "foreign_raw e \<longleftrightarrow> utf8_coerce (trim_space (ev_type e)) \<notin> {eventVerificationPlan, eventVerificationResult} \<and>
     valid_utf8 (trim_space (ev_idem e)) \<and> trim_space (ev_idem e) \<noteq> ''verification:plan:1'' \<and>
     (\<forall>c n. trim_space (ev_idem e) \<noteq> result_key c n)"

inductive gate_run :: "('z) goenv_scheme \<Rightarrow> string \<Rightarrow> string \<Rightarrow> evstore \<Rightarrow> verification_gate \<Rightarrow> bool"
  for G ws task where
  created: "log_inv (ev_files es (eventPath G ws task)) \<Longrightarrow> length (ev_files es (eventPath G ws task)) < 2 ^ 64 - 1 \<Longrightarrow>
    list_all gate_foreign (log_events (ev_files es (eventPath G ws task))) \<Longrightarrow> io_clean io \<Longrightarrow>
    NewVerificationGate G now io (Some es) ws task plan = (Some es', Inr g) \<Longrightarrow> snap_stable (snapshotLocked g) \<Longrightarrow>
    gate_run G ws task es' g"
| recorded: "gate_run G ws task es g \<Longrightarrow> length (ev_files es (eventPath G ws task)) < 2 ^ 64 - 1 \<Longrightarrow> io_clean io \<Longrightarrow>
    gate_Record G now io (g, Some es) r e = ((g', Some es'), res) \<Longrightarrow> snap_stable (snapshotLocked g') \<Longrightarrow>
    gate_run G ws task es' g'"
| other: "gate_run G ws task es g \<Longrightarrow> length (ev_files es (eventPath G ws task)) < 2 ^ 64 - 1 \<Longrightarrow> io_clean io \<Longrightarrow>
    ev_append G now io es ws task e = (es', res) \<Longrightarrow> foreign_raw e \<Longrightarrow> gate_run G ws task es' g"

inductive_cases gate_runE: "gate_run G ws task es g"

lemma NewVerificationGate_fresh:
  assumes "NewVerificationGate G now io (Some es) ws task plan = (oes, Inr g)" and "trimmed ws" "trimmed task"
    and "wf_from 0 (ev_files es (eventPath G ws task))"
    and "list_all gate_foreign (log_events (ev_files es (eventPath G ws task)))"
  shows "gate_create G now io plan (new_gate ws task, Some es) = (oes, Inr g)" "validateScope ws task"
proof -
  let ?evs = "log_events (ev_files es (eventPath G ws task))"
  have ne: "ws \<noteq> []" "task \<noteq> []" using assms(1-3) by (auto simp: NewVerificationGate_def trim_space_of_trimmed)
  then show v: "validateScope ws task" using assms(2,3) by (simp add: validateScope_def trim_space_of_trimmed)
  define xs where "xs = take 5000 (filter (\<lambda>e. \<not> ev_seq e \<le> 0) ?evs)"
  have l: "ev_list G es ws task 0 5000 = Inr xs"
    using v assms(4) by (simp add: ev_list_def readEvents_wf xs_def clamp_limit_def)
  have "list_all gate_foreign xs" using assms(5) by (auto simp: xs_def list_all_iff dest!: in_set_takeD)
  then have r: "gate_replay (new_gate ws task) False xs = Inr (new_gate ws task, False)" by (rule gate_replay_foreign)
  show "gate_create G now io plan (new_gate ws task, Some es) = (oes, Inr g)"
    using assms(1) ne l r assms(2,3) unfolding NewVerificationGate_def
    by (simp add: trim_space_of_trimmed new_gate_def [symmetric])
qed

lemma result_key_text:
  "trimmed (result_key c n)" "valid_utf8 c \<Longrightarrow> valid_utf8 (result_key c n)" "result_key c n \<noteq> []"
  using trimmed_number_key [of "CHR ''v''" "''erification:result:'' @ c @ '':''" n]
  by (simp_all add: result_key_def plain_char_def valid_utf8_Cons valid_utf8_append valid_utf8_itoa)

lemma stable_result_key:
  assumes "gate_wf g" and "snap_stable (snapshotLocked g)" and "map_of (vg_results g) c = Some x"
  shows "valid_utf8 c"
proof -
  have m: "(c, x) \<in> set (vg_results g)" using assms(3) by (rule map_of_SomeD)
  then have "ve_check x = c" using assms(1) by (auto simp: gate_wf_def)
  moreover have "\<forall>x \<in> set (vg_results g). ev_stable (snd x)"
    using assms(2) by (simp add: snap_stable_def snapshotLocked_def list_all_iff)
  then have "ev_stable x" using m by auto
  ultimately show ?thesis by (auto simp: ev_stable_def)
qed

lemma unat_Suc_small: "uint (r :: u64) < 2 ^ 53 \<Longrightarrow> unat (r + 1) = Suc (unat r)"
  unfolding unat_eq_nat_uint by (subst uint_plus_if') (auto simp: nat_add_distrib)

lemma gate_run_sync:
  assumes "gate_run G ws task es g" and "trimmed ws" "trimmed task"
  shows "log_inv (ev_files es (eventPath G ws task)) \<and> validateScope ws task \<and> snap_stable (snapshotLocked g) \<and>
    vsync ws task (log_events (ev_files es (eventPath G ws task))) g"
  using assms(1)
proof (induction rule: gate_run.induct)
  case (created es io now plan es' g)
  let ?p = "eventPath G ws task"
  have wf: "wf_from 0 (ev_files es ?p)" using created(1) by (simp add: log_inv_def)
  note c = NewVerificationGate_fresh [OF created(5) assms(2,3) wf created(3)]
  have g: "gate_wf g" "vg_ws g = ws" "vg_task g = task" "vg_rev g = 1"
    "persistLocked G now io (g, Some es) eventVerificationPlan ''verification:plan:1'' = (Some es', None)"
    using gate_create_wf [OF c(1)] by (simp_all add: new_gate_def)
  have k: "trimmed ''verification:plan:1''" "valid_utf8 ''verification:plan:1''" by code_simp+
  have f: "\<forall>e \<in> set (log_events (ev_files es ?p)). ev_idem e \<noteq> ''verification:plan:1''"
    using created(3) by (auto simp: list_all_iff gate_foreign_def)
  obtain e where e: "ev_files es' ?p = ev_files es ?p @ [Line e]" "log_inv (ev_files es' ?p)"
      "ev_type e = eventVerificationPlan" "ev_idem e = ''verification:plan:1''"
      "map_of (ev_payload e) ''verification'' = Some (verificationPayload G (snapshotLocked g))"
    using gate_append [OF c(2) assms(3) g(2,3) refl created(1,2,6,4) g(5) _ k _ f] by auto
  obtain h where "gate_replay (new_gate ws task) False (log_events (ev_files es ?p) @ [e]) = Inr (h, True)" "same_gate h g"
    using gate_replay_snoc [OF gate_replay_foreign [OF created(3), of "new_gate ws task" False] created(6) g(1) _ _ _ e(5)] e(3) g(2,3)
    by (auto simp: new_gate_def)
  moreover have "ev_idem d \<noteq> result_key c n" if "d \<in> set (log_events (ev_files es ?p) @ [e])" for d c n
    using that created(3) e(4) plan_key_no_result [of c n] by (auto simp: list_all_iff gate_foreign_def)
  ultimately show ?case using e g(1-3) c(2) created(6) by (auto simp: vsync_def)
next
  case (recorded es g io now r e g' es' res)
  let ?p = "eventPath G ws task"
  show ?case
  proof (cases res)
    case (Inl x)
    with gate_Record_error recorded show ?thesis by fastforce
  next
    case (Inr s)
    from recorded.IH have ih: "log_inv (ev_files es ?p)" "validateScope ws task" "snap_stable (snapshotLocked g)"
      "gate_wf g" "vg_ws g = ws" "vg_task g = task"
      "\<forall>e \<in> set (log_events (ev_files es ?p)). \<forall>c n. ev_idem e = result_key c n \<longrightarrow> n \<le> unat (vg_rev g)"
      by (auto simp: vsync_def)
    from recorded.IH obtain h where h: "gate_replay (new_gate ws task) False (log_events (ev_files es ?p)) = Inr (h, True)"
      by (auto simp: vsync_def)
    let ?c = "trim_space (ve_check e)" let ?k = "result_key ?c (unat (vg_rev g'))"
    have g: "gate_wf g'" "vg_ws g' = ws" "vg_task g' = task" "vg_rev g' = vg_rev g + 1"
      using gate_Record_ok [OF recorded(4) [unfolded Inr] ih(4)] ih(5,6) by simp_all
    have put: "persistLocked G now io (g', Some es) eventVerificationResult ?k = (Some es', None)"
      using gate_Record_ok [OF recorded(4) [unfolded Inr] ih(4)] by blast
    have "unat (vg_rev g') = Suc (unat (vg_rev g))"
      using ih(3) g(4) by (simp add: snap_stable_def small_u64_def snapshotLocked_def unat_Suc_small)
    then have f: "\<forall>d \<in> set (log_events (ev_files es ?p)). ev_idem d \<noteq> ?k" using ih(7) by fastforce
    obtain x where "map_of (vg_results g') ?c = Some x"
      using gate_Record_ok [OF recorded(4) [unfolded Inr] ih(4)] by blast
    then have "valid_utf8 ?c" using stable_result_key [OF g(1) recorded(5)] by blast
    then have k: "trimmed ?k" "valid_utf8 ?k" "?k \<noteq> []" using result_key_text by blast+
    obtain d where d: "ev_files es' ?p = ev_files es ?p @ [Line d]" "log_inv (ev_files es' ?p)"
        "ev_type d = eventVerificationResult" "ev_idem d = ?k"
        "map_of (ev_payload d) ''verification'' = Some (verificationPayload G (snapshotLocked g'))"
      using gate_append [OF ih(2) assms(3) g(2,3) refl ih(1) recorded(2,5,3) put _ k f] by auto
    obtain h' where "gate_replay (new_gate ws task) False (log_events (ev_files es ?p) @ [d]) = Inr (h', True)" "same_gate h' g'"
      using gate_replay_snoc [OF h recorded(5) g(1) _ _ _ d(5)] d(3) g(2,3) by (auto simp: new_gate_def)
    moreover have "n \<le> unat (vg_rev g')" if "x \<in> set (log_events (ev_files es ?p) @ [d])" "ev_idem x = result_key c n" for x c n
      using that ih(7) d(4) \<open>unat (vg_rev g') = _\<close> by (auto simp: result_key_inject le_Suc_eq)
    ultimately show ?thesis using d g ih(2) recorded(5) by (auto simp: vsync_def)
  qed
next
  case (other es g io now e es' res)
  let ?p = "eventPath G ws task"
  from other.IH have ih: "log_inv (ev_files es ?p)" "validateScope ws task" "snap_stable (snapshotLocked g)"
    "vsync ws task (log_events (ev_files es ?p)) g" by blast+
  have s': "es' = fst (ev_append G now io es ws task e)" using other(4) by simp
  show ?case
  proof (cases rule: ev_append_files_cases [of G now io es ws task e])
    case same
    with ih s' show ?thesis by simp
  next
    case (torn x)
    with other(3) show ?thesis by (simp add: io_clean_def)
  next
    case (added e1 evs)
    note n = normalizeEvent_Inr [OF added(1)]
    let ?e = "coerce_event (stored_event G task evs e1)"
    have evs: "evs = log_events (ev_files es ?p)"
      using added(2) ih(1) by (simp add: readEvents_wf log_inv_def)
    have v: "valid_utf8 (ev_idem e1)" using other(5) n(6) by (simp add: foreign_raw_def)
    have "gate_foreign ?e" using other(5) n(2,6) by (auto simp: gate_foreign_def foreign_raw_def valid_utf8_def)
    then have "vsync ws task (evs @ [?e]) g"
      using ih(4) evs by (auto simp: vsync_def gate_replay_append gate_foreign_def)
    moreover have "log_inv (ev_files es ?p @ [Line ?e])"
      using log_inv_snoc [OF ih(1) other(2) added(1) v] added(3) evs by simp
    ultimately show ?thesis using added(4) s' evs ih(2,3) by simp
  qed
qed


definition gate_keyed :: "verification_gate \<Rightarrow> bool" where
  "gate_keyed g \<longleftrightarrow> distinct (map fst (vg_reqs g)) \<and> (\<forall>(k, r) \<in> set (vg_reqs g). vr_id r = k) \<and>
     distinct (map fst (vg_results g)) \<and> (\<forall>(k, e) \<in> set (vg_results g). ve_check e = k)"

lemma gate_wf_keyed: "gate_wf g \<Longrightarrow> gate_keyed g"
  by (auto simp: gate_wf_def gate_keyed_def)

lemma fold_update_keyed: "\<forall>(k, v) \<in> set (fold (\<lambda>r m. AList.update (f r) r m) vs []). f v = k"
  using fold_update_values [of _ _ f vs "[]"] by fastforce

lemma loadSnapshot_keyed: "gate_keyed (loadSnapshot s g)"
  using fold_update_keyed [of vr_id "vs_reqs s"] fold_update_keyed [of ve_check "vs_results s"]
  by (simp add: gate_keyed_def loadSnapshot_def distinct_fold_update)

lemma gate_replay_keyed: "gate_replay g f es = Inr (h, b) \<Longrightarrow> gate_keyed g \<Longrightarrow> gate_keyed h"
  by (induction g f es rule: gate_replay.induct) (auto simp: loadSnapshot_keyed split: if_splits option.splits)

lemma same_gate_views:
  assumes "same_gate h g" and "gate_keyed h" "gate_keyed g"
  shows "snapshotLocked h = snapshotLocked g" "CanComplete h = CanComplete g"
proof -
  have k: "distinct (map fst (vg_reqs x)) \<and> (\<forall>(k, r) \<in> set (vg_reqs x). vr_id r = k)"
    "distinct (map fst (vg_results x)) \<and> (\<forall>(k, e) \<in> set (vg_results x). ve_check e = k)" if "gate_keyed x" for x
    using that by (simp_all add: gate_keyed_def)
  show "snapshotLocked h = snapshotLocked g"
    using sort_values_cong [where f = vr_id and m = "vg_reqs h" and n = "vg_reqs g"]
      sort_values_cong [where f = ve_check and m = "vg_results h" and n = "vg_results g"]
      k [OF assms(2)] k [OF assms(3)] assms(1) unfolding snapshotLocked_def same_gate_def by presburger
  have "set (vg_reqs h) = set (vg_reqs g)"
    using map_of_inject_set [of "vg_reqs h" "vg_reqs g"] k(1) [OF assms(2)] k(1) [OF assms(3)] assms(1)
    unfolding same_gate_def by blast
  then show "CanComplete h = CanComplete g" using assms(1) by (simp add: CanComplete_def list_all_iff same_gate_def)
qed

text \<open>
  C33. A restart loses nothing: after any run of creating the gate, recording evidence (accepted or refused) and
  appends of other components, with writes that happen durably or not at all, \<open>NewVerificationGate\<close> rebuilds from
  the log a gate with the same snapshot and the same completion verdict, whatever plan it is given.
\<close>

theorem gate_restores:
  assumes "gate_run G ws task es g" and "trimmed ws" "trimmed task"
    and "length (ev_files es (eventPath G ws task)) \<le> 5000"
  shows "\<exists>h. NewVerificationGate G now io (Some es) ws task plan = (Some es, Inr h) \<and>
    snapshotLocked h = snapshotLocked g \<and> CanComplete h = CanComplete g"
proof -
  let ?ls = "ev_files es (eventPath G ws task)"
  note inv = gate_run_sync [OF assms(1-3)]
  obtain h where h: "gate_replay (new_gate ws task) False (log_events ?ls) = Inr (h, True)" "same_gate h g"
    using inv by (auto simp: vsync_def)
  have wf: "wf_from 0 ?ls" using inv by (simp add: log_inv_def)
  have l: "ev_list G es ws task 0 5000 = Inr (log_events ?ls)"
    using ev_list_wf [of ws task es G 0 5000] inv wf assms(4) length_log_events [OF wf] by (simp add: clamp_limit_def)
  have "NewVerificationGate G now io (Some es) ws task plan = (Some es, Inr h)"
    using l h(1) inv assms(2,3) unfolding NewVerificationGate_def
    by (simp add: trim_space_of_trimmed new_gate_def [symmetric] validateScope_def)
  moreover have "gate_keyed h" using gate_replay_keyed [OF h(1)] by (simp add: gate_keyed_def new_gate_def)
  moreover have "gate_keyed g" using inv gate_wf_keyed by (auto simp: vsync_def)
  ultimately show ?thesis using same_gate_views [OF h(2)] by blast
qed

section \<open>Completion and the lane summary\<close>

definition lane_reqs :: "(string \<times> verification_lane) list \<Rightarrow> string set" where
  "lane_reqs lanes = (\<Union>kl \<in> set lanes. set (vl_required (snd kl)))"

lemma set_update_distinct:
  "distinct (map fst m) \<Longrightarrow> set (AList.update k v m) = insert (k, v) {x \<in> set m. fst x \<noteq> k}"
proof (induction m)
  case (Cons x m)
  have "\<forall>y \<in> set m. fst y \<noteq> fst x" using Cons.prems by (auto simp: image_iff)
  then have "fst x = k \<Longrightarrow> {y \<in> set m. fst y \<noteq> k} = set m" by auto
  with Cons show ?case by (cases x) auto
qed simp

lemma lane_reqs_update:
  assumes "distinct (map fst lanes)"
  shows "lane_reqs (AList.update k l lanes) = (\<Union>kl \<in> {x \<in> set lanes. fst x \<noteq> k}. set (vl_required (snd kl))) \<union> set (vl_required l)"
  unfolding lane_reqs_def set_update_distinct [OF assms] by auto

lemma lane_reqs_split:
  assumes "distinct (map fst lanes)"
  shows "lane_reqs lanes = (\<Union>kl \<in> {x \<in> set lanes. fst x \<noteq> k}. set (vl_required (snd kl))) \<union>
    (case map_of lanes k of None \<Rightarrow> {} | Some l \<Rightarrow> set (vl_required l))"
proof (cases "map_of lanes k")
  case None
  then have "{x \<in> set lanes. fst x \<noteq> k} = set lanes" by (auto simp: map_of_eq_None_iff rev_image_eqI)
  with None show ?thesis by (simp add: lane_reqs_def)
next
  case (Some l)
  then have m: "(k, l) \<in> set lanes" by (rule map_of_SomeD)
  have "set lanes = insert (k, l) {x \<in> set lanes. fst x \<noteq> k}"
    using m Some set_update_distinct [OF assms, of k l] assms by (auto dest: eq_key_imp_eq_value)
  then have "lane_reqs lanes = (\<Union>kl \<in> insert (k, l) {x \<in> set lanes. fst x \<noteq> k}. set (vl_required (snd kl)))"
    unfolding lane_reqs_def by metis
  with Some show ?thesis by auto
qed

lemma lane_reqs_add:
  assumes "distinct (map fst lanes)"
  shows "lane_reqs (lane_add latest ir lanes) = lane_reqs lanes \<union> (if vr_required (snd ir) then {fst ir} else {})"
  using lane_reqs_split [OF assms, of "lane_name (snd ir)"]
  by (auto simp: lane_add_def Let_def lane_reqs_update [OF assms] split: option.splits)

lemma lane_add_distinct: "distinct (map fst lanes) \<Longrightarrow> distinct (map fst (lane_add latest ir lanes))"
  by (simp add: lane_add_def Let_def distinct_update)

lemma lane_reqs_fold:
  "distinct (map fst lanes) \<Longrightarrow>
     lane_reqs (fold (lane_add latest) rs lanes) = lane_reqs lanes \<union> {i. \<exists>r. (i, r) \<in> set rs \<and> vr_required r}"
  by (induction rs arbitrary: lanes) (auto simp: lane_reqs_add lane_add_distinct)

lemma Summarize_ready:
  "vgr_ready (SummarizeVerification rs es) \<longleftrightarrow> required_map rs \<noteq> [] \<and>
     (\<forall>(i, r) \<in> set (required_map rs). vr_required r \<longrightarrow> latest_of (latest_map (required_map rs) es) i = VerificationPassed)"
proof -
  let ?req = "required_map rs" let ?l = "latest_map ?req es"
  let ?lanes = "fold (lane_add ?l) ?req []"
  have "list_all vl_ready (map (\<lambda>kl. lane_finish ?l (snd kl)) ?lanes) \<longleftrightarrow> (\<forall>i \<in> lane_reqs ?lanes. latest_of ?l i = VerificationPassed)"
    by (auto simp: list_all_iff lane_finish_def lane_reqs_def)
  then show ?thesis by (auto simp: SummarizeVerification_def Let_def lane_reqs_fold) (auto simp: lane_reqs_def)
qed

text \<open>On the snapshot of a gate the maps of the summary are the maps of the gate.\<close>

definition gate_ids :: "verification_gate \<Rightarrow> bool" where
  "gate_ids g \<longleftrightarrow> (\<forall>k \<in> fst ` set (vg_reqs g). trimmed k)"

lemma required_map_index:
  assumes "\<forall>r \<in> set rs. trimmed (vr_id r) \<and> vr_id r \<noteq> []"
  shows "required_map rs = fold (\<lambda>r m. AList.update (vr_id r) r m) rs []"
  unfolding required_map_def using assms by (intro fold_cong) (auto simp: trim_space_of_trimmed)

lemma latest_map_index:
  assumes "\<forall>e \<in> set es. trimmed (ve_check e) \<and> map_of req (ve_check e) \<noteq> None"
  shows "latest_map req es = fold (\<lambda>e m. AList.update (ve_check e) (ve_status e) m) es []"
  unfolding latest_map_def using assms by (intro fold_cong) (auto simp: trim_space_of_trimmed)

lemma latest_of_fold:
  "map_of (fold (\<lambda>e m. AList.update (ve_check e) (ve_status e) m) es m) i =
     (case map_of (fold (\<lambda>e m. AList.update (ve_check e) e m) es []) i of None \<Rightarrow> map_of m i | Some e \<Rightarrow> Some (ve_status e))"
proof -
  have "map_of (fold (\<lambda>e m. AList.update (ve_check e) (ve_status e) m) es m) i =
     (case find (\<lambda>e. ve_check e = i) (rev es) of None \<Rightarrow> map_of m i | Some e \<Rightarrow> Some (ve_status e))"
    by (induction es arbitrary: m) (auto simp: find_append_case split: option.splits)
  then show ?thesis by (auto simp: map_of_fold_update split: option.splits)
qed

lemma CanComplete_ready:
  assumes "gate_wf g" and "gate_ids g" and "vg_reqs g \<noteq> []"
  shows "CanComplete g \<longleftrightarrow>
    vgr_ready (SummarizeVerification (vs_reqs (snapshotLocked g)) (vs_results (snapshotLocked g)))"
proof -
  let ?rs = "vs_reqs (snapshotLocked g)" let ?es = "vs_results (snapshotLocked g)"
  have wf: "distinct (map fst (vg_reqs g))" "\<forall>(k, r) \<in> set (vg_reqs g). vr_id r = k"
    "distinct (map fst (vg_results g))" "\<forall>(k, e) \<in> set (vg_results g). ve_check e = k"
    using assms(1) by (auto simp: gate_wf_def)
  have rs: "\<forall>r \<in> set ?rs. trimmed (vr_id r) \<and> vr_id r \<noteq> []"
    using assms(1,2) by (fastforce simp: snapshotLocked_def gate_wf_def gate_ids_def)
  have req: "map_of (required_map ?rs) = map_of (vg_reqs g)"
    unfolding required_map_index [OF rs] by (rule map_of_index_values [OF wf(1,2)]) (simp add: snapshotLocked_def)
  have es: "\<forall>e \<in> set ?es. trimmed (ve_check e) \<and> map_of (required_map ?rs) (ve_check e) \<noteq> None"
  proof
    fix e assume "e \<in> set ?es"
    then obtain k where "(k, e) \<in> set (vg_results g)" by (auto simp: snapshotLocked_def)
    then have "ve_check e = k" "map_of (vg_reqs g) k \<noteq> None" using assms(1) by (auto simp: gate_wf_def)
    then show "trimmed (ve_check e) \<and> map_of (required_map ?rs) (ve_check e) \<noteq> None"
      using assms(2) unfolding req gate_ids_def by (auto dest!: map_of_SomeD)
  qed
  have lat: "latest_of (latest_map (required_map ?rs) ?es) i =
      (case map_of (vg_results g) i of None \<Rightarrow> [] | Some e \<Rightarrow> ve_status e)" for i
    unfolding latest_map_index [OF es] latest_of_def latest_of_fold
    using map_of_index_values [OF wf(3,4), of ?es] by (simp add: snapshotLocked_def split: option.splits)
  have d: "distinct (map fst (required_map ?rs))"
    unfolding required_map_index [OF rs] by (rule distinct_fold_update) simp
  have s: "set (required_map ?rs) = set (vg_reqs g)" by (rule map_of_inject_set [OF d wf(1), THEN iffD1, OF req])
  then have "required_map ?rs \<noteq> []" using assms(3) by auto
  then show ?thesis
    unfolding Summarize_ready s lat CanComplete_def list_all_iff by (auto split: option.splits)
qed

text \<open>
  C34. Two routines decide whether a task may be completed: \<open>CanComplete\<close> on the maps of the gate and
  \<open>SummarizeVerification\<close> on its snapshot. For a well-formed gate with trimmed check ids and at least one required
  check they agree, and both say yes exactly when every required check has evidence, the latest of which is passed.
\<close>

theorem CanComplete_iff_ready:
  assumes "gate_wf g" and "gate_ids g" and "\<exists>(i, r) \<in> set (vg_reqs g). vr_required r"
  shows "(CanComplete g \<longleftrightarrow>
      vgr_ready (SummarizeVerification (vs_reqs (snapshotLocked g)) (vs_results (snapshotLocked g)))) \<and>
    (CanComplete g \<longleftrightarrow> (\<forall>i r. map_of (vg_reqs g) i = Some r \<and> vr_required r \<longrightarrow>
       (\<exists>e. map_of (vg_results g) i = Some e \<and> ve_status e = VerificationPassed)))"
proof -
  have "distinct (map fst (vg_reqs g))" using assms(1) by (simp add: gate_wf_def)
  moreover have "vg_reqs g \<noteq> []" using assms(3) by auto
  ultimately show ?thesis using CanComplete_ready [OF assms(1,2)]
    by (auto simp: CanComplete_def list_all_iff map_of_eq_Some_iff split: option.splits)
qed

text \<open>
  A known divergence: the comment at \<open>SummarizeVerification\<close> promises that a graph without a required check is never
  ready; with optional checks only it is, without any evidence.
\<close>

lemma optional_checks_ready:
  "vgr_ready (SummarizeVerification [\<lparr>vr_id = ''c'', vr_category = [], vr_scope = [], vr_required = False, vr_reason = []\<rparr>] [])"
  by code_simp

section \<open>Recorded evidence\<close>

interpretation verification_status: status_machine verificationTransitionAllowed "\<lambda>s. s \<in> {VerificationPassed, VerificationSkipped}"
  by unfold_locales (auto simp: verificationTransitionAllowed_def split: if_splits)

lemma gate_Record_history:
  assumes "gate_Record G now io (g, oes) r e = ((g', oes'), res)" and "map_of (vg_results g) c = Some x"
  shows "\<exists>y. map_of (vg_results g') c = Some y \<and> verificationTransitionAllowed (ve_status x) (ve_status y)"
proof -
  let ?e = "normalizeVerificationEvidence e"
  let ?g = "g\<lparr>vg_results := AList.update (ve_check ?e) ?e (vg_results g), vg_rev := vg_rev g + 1\<rparr>"
  obtain es io_err where p: "persistLocked G now io (?g, oes) eventVerificationResult (result_key (ve_check ?e) (unat (vg_rev ?g))) = (es, io_err)"
    by fastforce
  have "g' = g \<or> vg_results g' = AList.update (ve_check ?e) ?e (vg_results g) \<and>
      \<not> (case map_of (vg_results g) (ve_check ?e) of None \<Rightarrow> False
         | Some p \<Rightarrow> \<not> verificationTransitionAllowed (ve_status p) (ve_status ?e))"
    using assms(1) p by (cases io_err) (auto simp: gate_Record_def Let_def simp del: map_of_eq_Some_iff split: if_split_asm)
  then show ?thesis
    using assms(2) by (elim disjE conjE) (auto simp: verificationTransitionAllowed_def [of "ve_status x" "ve_status x"] update_conv)
qed

lemma gate_Record_final:
  assumes "gate_Record G now io (g, oes) r e = ((g', oes'), res)" and "map_of (vg_results g) c = Some x"
    and "ve_status x = VerificationPassed \<or> ve_status x = VerificationSkipped"
  shows "\<exists>y. map_of (vg_results g') c = Some y \<and> ve_status y = ve_status x"
  using gate_Record_history [OF assms(1,2)] verification_status.terminal_stuck assms(3) by blast

section \<open>Concrete runs\<close>

definition demo_check :: verification_check where
  "demo_check = \<lparr>vc_key = [], vc_command = ''Go  test ./...'', vc_cwd = ''.'', vc_scope = ''repo'', vc_required = True, vc_reason = []\<rparr>"

definition demo_evidence :: "string \<Rightarrow> verification_evidence" where
  "demo_evidence st = \<lparr>ve_check = ''test:h'', ve_status = st, ve_agent = ''a'', ve_exit = Some 0, ve_artifact = [],
     ve_failure = [], ve_started = 3, ve_finished = 4\<rparr>"

definition demo_gate0 :: "evstore option \<times> (verification_error + verification_gate)" where
  "demo_gate0 = NewVerificationGate demo_env 5 WOk (Some empty_evstore) ''w'' ''t'' [demo_check]"

definition demo_record :: "write_outcome \<Rightarrow> string \<Rightarrow> gate_state \<Rightarrow> gate_state \<times> (verification_error + verification_snapshot)" where
  "demo_record io st s = gate_Record demo_env 6 io s 1 (demo_evidence st)"

definition demo_start :: gate_state where
  "demo_start = (projr (snd demo_gate0), fst demo_gate0)"

lemma demo_gate_created:
  "vg_reqs (fst demo_start) = [(''test:h'', \<lparr>vr_id = ''test:h'', vr_category = ''test'', vr_scope = ''repo'', vr_required = True, vr_reason = []\<rparr>)]"
  by code_simp

text \<open>
  A write that reaches the log but is reported as failed leaves hot gate and log apart, and the retry, which
  has the same idempotency key, is answered with the old event: the gate reports the failed check, a
  restarted gate the passed one.
\<close>

definition demo_retry :: "gate_state" where
  "demo_retry = fst (demo_record WOk VerificationFailed (fst (demo_record (WUnsynced []) VerificationPassed demo_start)))"

lemma gate_retry_diverges:
  "isl (snd (demo_record (WUnsynced []) VerificationPassed demo_start)) \<and> \<not> CanComplete (fst demo_retry) \<and>
   CanComplete (projr (snd (NewVerificationGate demo_env 9 WOk (snd demo_retry) ''w'' ''t'' [])))"
proof -
  have "isl (snd (demo_record (WUnsynced []) VerificationPassed demo_start))" by code_simp
  moreover have "\<not> CanComplete (fst demo_retry)" by code_simp
  moreover have "CanComplete (projr (snd (NewVerificationGate demo_env 9 WOk (snd demo_retry) ''w'' ''t'' [])))" by code_simp
  ultimately show ?thesis by blast
qed

definition demo_after :: gate_state where
  "demo_after = fst (demo_record WOk VerificationPassed demo_start)"

text \<open>The two calls, evaluated once.\<close>

lemma demo_run_facts:
  "case demo_gate0 of (Some es, Inr g) \<Rightarrow>
      length (ev_files es (eventPath demo_env ''w'' ''t'')) = 1 \<and> snap_stable (snapshotLocked g) \<and>
      (case fst (demo_record WOk VerificationPassed (g, Some es)) of (h, Some fs) \<Rightarrow>
          length (ev_files fs (eventPath demo_env ''w'' ''t'')) = 2 \<and> snap_stable (snapshotLocked h) \<and> CanComplete h \<and>
          gate_ids h \<and> list_ex (\<lambda>x. vr_required (snd x)) (vg_reqs h)
        | _ \<Rightarrow> False)
    | _ \<Rightarrow> False"
  by code_simp

lemma demo_run:
  obtains es g fs h where "fst demo_gate0 = Some es" "snd demo_gate0 = Inr g" "fst demo_start = g" "snd demo_start = Some es"
    "fst demo_after = h" "snd demo_after = Some fs"
    "length (ev_files es (eventPath demo_env ''w'' ''t'')) = 1" "snap_stable (snapshotLocked g)"
    "length (ev_files fs (eventPath demo_env ''w'' ''t'')) = 2" "snap_stable (snapshotLocked h)" "CanComplete h" "gate_ids h" "list_ex (\<lambda>x. vr_required (snd x)) (vg_reqs h)"
proof -
  obtain es where es: "fst demo_gate0 = Some es" using demo_run_facts by (cases "fst demo_gate0") (simp_all add: split_beta)
  obtain g where g: "snd demo_gate0 = Inr g" using demo_run_facts by (cases "snd demo_gate0") (simp_all add: split_beta es)
  have s: "demo_start = (g, Some es)" by (simp add: demo_start_def es g)
  obtain h u where h: "fst (demo_record WOk VerificationPassed (g, Some es)) = (h, u)" by fastforce
  then have a: "demo_after = (h, u)" by (simp add: demo_after_def s)
  obtain fs where u: "u = Some fs" using demo_run_facts by (cases u) (simp_all add: split_beta es g h)
  show thesis using that [OF es g] demo_run_facts unfolding s a by (simp add: split_beta es g h u)
qed

lemma demo_start_ok:
  "NewVerificationGate demo_env 5 WOk (Some empty_evstore) ''w'' ''t'' [demo_check] = (Some (the (snd demo_start)), Inr (fst demo_start))"
  by (rule demo_run) (simp add: demo_gate0_def [symmetric] prod_eq_iff)

lemma demo_after_ok:
  "gate_Record demo_env 6 WOk (fst demo_start, Some (the (snd demo_start))) 1 (demo_evidence VerificationPassed) =
     ((fst demo_after, Some (the (snd demo_after))), snd (demo_record WOk VerificationPassed demo_start))"
proof -
  have "snd demo_start \<noteq> None \<and> snd demo_after \<noteq> None" by (rule demo_run) simp
  then show ?thesis by (simp add: demo_after_def demo_record_def prod_eq_iff)
qed

lemma demo_gate_run: "gate_run demo_env ''w'' ''t'' (the (snd demo_after)) (fst demo_after)"
proof (rule gate_run.recorded [OF gate_run.created [OF _ _ _ _ demo_start_ok] _ _ demo_after_ok])
  show "log_inv (ev_files empty_evstore (eventPath demo_env ''w'' ''t''))" by (simp add: log_inv_def idem_keys_def)
  show "length (ev_files (the (snd demo_start)) (eventPath demo_env ''w'' ''t'')) < 2 ^ 64 - 1" by (rule demo_run) simp
  show "snap_stable (snapshotLocked (fst demo_start))" by (rule demo_run) simp
  show "snap_stable (snapshotLocked (fst demo_after))" by (rule demo_run) simp
qed (simp_all add: io_clean_def)

theorem gate_restores_witness:
  "\<exists>h. NewVerificationGate demo_env 9 WOk (Some (the (snd demo_after))) ''w'' ''t'' [] = (Some (the (snd demo_after)), Inr h) \<and>
     snapshotLocked h = snapshotLocked (fst demo_after) \<and> CanComplete h = CanComplete (fst demo_after)"
proof (rule gate_restores [OF demo_gate_run])
  show "trimmed ''w''" "trimmed ''t''" by code_simp+
  show "length (ev_files (the (snd demo_after)) (eventPath demo_env ''w'' ''t'')) \<le> 5000" by (rule demo_run) simp
qed

theorem CanComplete_iff_ready_witness:
  "CanComplete (fst demo_after) \<and> list_ex (\<lambda>x. vr_required (snd x)) (vg_reqs (fst demo_after)) \<and>
   vgr_ready (SummarizeVerification (vs_reqs (snapshotLocked (fst demo_after))) (vs_results (snapshotLocked (fst demo_after))))"
proof -
  have w: "gate_wf (fst demo_after)"
    using gate_run_sync [OF demo_gate_run] trim_space_plain [of "''w''"] trim_space_plain [of "''t''"]
    by (auto simp: vsync_def trimmed_def plain_char_def)
  have d: "CanComplete (fst demo_after) \<and> gate_ids (fst demo_after) \<and> list_ex (\<lambda>x. vr_required (snd x)) (vg_reqs (fst demo_after))"
    by (rule demo_run) simp
  then have "\<exists>(i, r) \<in> set (vg_reqs (fst demo_after)). vr_required r" by (auto simp: list_ex_iff)
  with d show ?thesis using CanComplete_iff_ready [OF w] by blast
qed

end
