(* ===== verification/Editing.thy ===== *)
theory Editing
  imports GoText Policy "HOL-Library.Multiset"
begin

text \<open>
  Edits of workspace files, \<open>internal/editing\<close>: ranged edits of several files at once (\<open>editing.go\<close>) and patch
  sets with optimistic concurrency (\<open>patchset.go\<close>), with the path checks of \<open>internal/localfs/fs.go\<close> they go
  through. The workspace is a map from real paths to files and directories. Symbolic links are a parameter
  (\<open>ed_real\<close>, the path the links of a path lead to, which these operations do not change), as are the order
  \<open>sort.Slice\<close> gives equal keys, the three-way merge of Git and \<open>git apply\<close>. A call is atomic; which of its
  system calls fail is an argument.
\<close>

section \<open>Types\<close>

datatype edit_error =
    EditMsg string | PathMissing string
  | ErrInvalidPatchSet string | ErrPatchStaleBase string | ErrPatchConflict string
  | ErrInvalidReconcileInput | ErrReconcileTooLarge | ErrReconcileTool string | ErrReconcileNotApplicable
  | ErrInvalidSavepoint | ErrSavepointMissing | ErrSavepointStale | ErrSavepointState | ErrSavepointBlob

text \<open>\<open>err.Error()\<close>; a wrapped text is kept behind the text of its sentinel.\<close>

fun err_text :: "edit_error \<Rightarrow> string" where
  "err_text (EditMsg s) = s"
| "err_text (PathMissing s) = s"
| "err_text (ErrInvalidPatchSet s) = ''invalid patch set'' @ s"
| "err_text (ErrPatchStaleBase s) = ''patch set has a stale base'' @ s"
| "err_text (ErrPatchConflict s) = ''patch set conflicts with current workspace state'' @ s"
| "err_text ErrInvalidReconcileInput = ''invalid reconciliation input''"
| "err_text ErrReconcileTooLarge = ''reconciliation input exceeds size limit''"
| "err_text (ErrReconcileTool s) = ''three-way merge tool failed'' @ s"
| "err_text ErrReconcileNotApplicable = ''reconciliation result has no agent mutation to apply''"
| "err_text ErrInvalidSavepoint = ''invalid savepoint''"
| "err_text ErrSavepointMissing = ''savepoint not found''"
| "err_text ErrSavepointStale = ''stale savepoint revision or workspace state''"
| "err_text ErrSavepointState = ''invalid savepoint state''"
| "err_text ErrSavepointBlob = ''savepoint blob is corrupt''"

record edit =
  ed_start :: "int option"
  ed_end :: "int option"
  ed_sline :: "int option"
  ed_scol :: "int option"
  ed_eline :: "int option"
  ed_ecol :: "int option"
  ed_repl :: string

record file_edit =
  fe_path :: string
  fe_hash :: string
  fe_edits :: "edit list"

type_synonym norm_edit = "int \<times> int \<times> string"

abbreviation ne_start :: "norm_edit \<Rightarrow> int" where "ne_start \<equiv> fst"
abbreviation ne_end :: "norm_edit \<Rightarrow> int" where "ne_end e \<equiv> fst (snd e)"
abbreviation ne_repl :: "norm_edit \<Rightarrow> string" where "ne_repl e \<equiv> snd (snd e)"

datatype ws_node = RegularFile string int | Directory

type_synonym ws_state = "string \<Rightarrow> ws_node option"

record edenv = goenv +
  ed_root :: string
  ed_real :: "string \<Rightarrow> edit_error + string"
  ed_sort :: "norm_edit list \<Rightarrow> norm_edit list"
  ed_merge :: "string \<Rightarrow> string \<Rightarrow> string \<Rightarrow> edit_error + string \<times> bool"
  ed_git_check :: "ws_state \<Rightarrow> string \<Rightarrow> string option"
  ed_git_apply :: "ws_state \<Rightarrow> string \<Rightarrow> ws_state \<times> string option"

text \<open>Which system calls fail, and the text of the error, by the path they work on.\<close>

record edit_io =
  io_read :: "string \<Rightarrow> string option"
  io_mkdir :: "string \<Rightarrow> string option"
  io_write :: "string \<Rightarrow> string option"
  io_undo :: "string \<Rightarrow> string option"
  io_open :: "string \<Rightarrow> string option"
  io_fill :: "string \<Rightarrow> string option"
  io_remove :: "string \<Rightarrow> string option"
  io_restore :: "string \<Rightarrow> string option"

section \<open>Paths of the workspace\<close>

definition fs_inside :: "('z) edenv_scheme \<Rightarrow> string \<Rightarrow> bool" where
  "fs_inside E c =
     (if c = ed_root E then True
      else case path_rel (ed_root E) c of
        None \<Rightarrow> False
      | Some r \<Rightarrow> r \<noteq> ''..'' \<and> \<not> has_prefix r ''../'' \<and> \<not> is_abs r)"

definition fs_Rel :: "('z) edenv_scheme \<Rightarrow> string \<Rightarrow> string" where
  "fs_Rel E p = (case path_rel (ed_root E) p of None \<Rightarrow> ''.'' | Some r \<Rightarrow> if r = [] then ''.'' else r)"

definition fs_lexical :: "('z) edenv_scheme \<Rightarrow> string \<Rightarrow> edit_error + string" where
  "fs_lexical E rel =
     (if is_abs rel then Inl (EditMsg ''absolute paths are not allowed'')
      else let c = path_clean (path_join (ed_root E) rel) in
        if \<not> fs_inside E c then Inl (EditMsg ''path escapes PROJECT_ROOT'') else Inr c)"

text \<open>\<open>filepath.Dir\<close>, and \<open>filepath.EvalSymlinks\<close>, which fails on a path that does not exist.\<close>

definition path_dir :: "string \<Rightarrow> string" where
  "path_dir p = path_clean (rev (dropWhile (\<lambda>c. c \<noteq> slash) (rev p)))"

definition eval_links :: "('z) edenv_scheme \<Rightarrow> ws_state \<Rightarrow> string \<Rightarrow> edit_error + string" where
  "eval_links E w c = (case ed_real E c of
      Inl x \<Rightarrow> Inl x
    | Inr r \<Rightarrow> if w r = None then Inl (PathMissing c) else Inr r)"

definition sensitive_error :: "string \<Rightarrow> edit_error" where
  "sensitive_error p = EditMsg (''access blocked by sensitive-path policy: '' @ p)"

definition fs_Existing :: "('z) edenv_scheme \<Rightarrow> ws_state \<Rightarrow> string \<Rightarrow> edit_error + string" where
  "fs_Existing E w rel =
     (if IsSensitivePath E rel then Inl (sensitive_error rel)
      else case fs_lexical E rel of
        Inl x \<Rightarrow> Inl x
      | Inr c \<Rightarrow> (case eval_links E w c of
          Inl x \<Rightarrow> Inl x
        | Inr r \<Rightarrow> if \<not> fs_inside E r
            then Inl (EditMsg ''resolved path escapes PROJECT_ROOT (possible symlink traversal)'') else Inr r))"

text \<open>\<open>os.MkdirAll\<close> on a cleaned absolute path, given by its components, outermost first.\<close>

fun mkdir_from :: "('z) edenv_scheme \<Rightarrow> edit_io \<Rightarrow> string list \<Rightarrow> string list \<Rightarrow> ws_state \<Rightarrow> ws_state \<times> edit_error option" where
  "mkdir_from E io pre [] w = (w, None)"
| "mkdir_from E io pre (c # cs) w =
     (let a = slash # str_join [slash] (pre @ [c]) in
      case ed_real E a of
        Inl x \<Rightarrow> (w, Some x)
      | Inr r \<Rightarrow> (case w r of
          Some Directory \<Rightarrow> mkdir_from E io (pre @ [c]) cs w
        | Some (RegularFile d m) \<Rightarrow> (w, Some (EditMsg ''not a directory''))
        | None \<Rightarrow> (case io_mkdir io a of
            Some t \<Rightarrow> (w, Some (EditMsg t))
          | None \<Rightarrow> mkdir_from E io (pre @ [c]) cs (w(r \<mapsto> Directory)))))"

definition mkdir_all :: "('z) edenv_scheme \<Rightarrow> edit_io \<Rightarrow> string \<Rightarrow> ws_state \<Rightarrow> ws_state \<times> edit_error option" where
  "mkdir_all E io d w =
     (case ed_real E d of
        Inl x \<Rightarrow> (w, Some x)
      | Inr r \<Rightarrow> if w r = Some Directory then (w, None) else mkdir_from E io [] (path_comps d) w)"

definition fs_WritePath :: "('z) edenv_scheme \<Rightarrow> edit_io \<Rightarrow> ws_state \<Rightarrow> string \<Rightarrow> ws_state \<times> (edit_error + string)" where
  "fs_WritePath E io w rel =
     (if IsSensitivePath E rel then (w, Inl (sensitive_error rel))
      else case fs_lexical E rel of
        Inl x \<Rightarrow> (w, Inl x)
      | Inr c \<Rightarrow> (case mkdir_all E io (path_dir c) w of
          (w1, Some x) \<Rightarrow> (w1, Inl x)
        | (w1, None) \<Rightarrow> (w1,
            case eval_links E w1 (path_dir c) of
              Inl x \<Rightarrow> Inl x
            | Inr parent \<Rightarrow>
                if \<not> fs_inside E parent then Inl (EditMsg ''parent directory escapes PROJECT_ROOT'')
                else (case eval_links E w1 c of
                    Inr r \<Rightarrow> if \<not> fs_inside E r then Inl (EditMsg ''existing file escapes PROJECT_ROOT'') else Inr r
                  | Inl (PathMissing _) \<Rightarrow> Inr (path_join parent (path_base c))
                  | Inl x \<Rightarrow> Inl x))))"

text \<open>Opening a path follows its links.\<close>

definition read_file :: "('z) edenv_scheme \<Rightarrow> edit_io \<Rightarrow> ws_state \<Rightarrow> string \<Rightarrow> edit_error + string" where
  "read_file E io w p = (case ed_real E p of Inl x \<Rightarrow> Inl x | Inr r \<Rightarrow> (case w r of
      None \<Rightarrow> Inl (PathMissing p)
    | Some Directory \<Rightarrow> Inl (EditMsg ''is a directory'')
    | Some (RegularFile d m) \<Rightarrow> (case io_read io p of Some t \<Rightarrow> Inl (EditMsg t) | None \<Rightarrow> Inr d)))"

definition file_mode :: "('z) edenv_scheme \<Rightarrow> ws_state \<Rightarrow> string \<Rightarrow> int" where
  "file_mode E w p = (case ed_real E p of Inl x \<Rightarrow> 420 | Inr r \<Rightarrow> (case w r of Some (RegularFile d m) \<Rightarrow> m | _ \<Rightarrow> 420))"

section \<open>Ranged edits\<close>

definition index_byte :: "string \<Rightarrow> char \<Rightarrow> nat option" where
  "index_byte s c = (if c \<in> set s then Some (length (takeWhile (\<lambda>x. x \<noteq> c) s)) else None)"

text \<open>The offset at which a line starts: the loop skips as many newlines as there are lines before it.\<close>

fun line_start :: "string \<Rightarrow> nat \<Rightarrow> nat \<Rightarrow> nat option" where
  "line_start text off 0 = Some off"
| "line_start text off (Suc n) =
     (case index_byte (drop off text) (CHR 0x0A) of None \<Rightarrow> None | Some i \<Rightarrow> line_start text (off + i + 1) n)"

definition lineOffset :: "string \<Rightarrow> int \<Rightarrow> int \<Rightarrow> edit_error + int" where
  "lineOffset text line column =
     (if line < 1 \<or> column < 1 then Inl (EditMsg ''line and column must be >= 1'')
      else if line = 1 then
        (if column - 1 > int (length text) then Inl (EditMsg ''column exceeds line'') else Inr (column - 1))
      else case line_start text 0 (nat (line - 1)) of
        None \<Rightarrow> Inl (EditMsg ''line exceeds file'')
      | Some off \<Rightarrow>
          let lineEnd = (case index_byte (drop off text) (CHR 0x0A) of None \<Rightarrow> length text - off | Some i \<Rightarrow> i) in
          if column - 1 > int lineEnd then Inl (EditMsg ''column exceeds line'')
          else Inr (int off + column - 1))"

definition edit_range :: "string \<Rightarrow> edit \<Rightarrow> edit_error + int \<times> int" where
  "edit_range text e =
     (if ed_start e \<noteq> None \<or> ed_end e \<noteq> None then
        (case (ed_start e, ed_end e) of
           (Some s, Some t) \<Rightarrow> Inr (s, t)
         | _ \<Rightarrow> Inl (EditMsg ''startOffset and endOffset must be supplied together''))
      else
        (case (ed_sline e, ed_scol e, ed_eline e, ed_ecol e) of
           (Some sl, Some sc, Some el, Some ec) \<Rightarrow>
             (case lineOffset text sl sc of
                Inl x \<Rightarrow> Inl x
              | Inr s \<Rightarrow> (case lineOffset text el ec of Inl x \<Rightarrow> Inl x | Inr t \<Rightarrow> Inr (s, t)))
         | _ \<Rightarrow> Inl (EditMsg ''edit needs offsets or line/column range'')))"

definition normalizeEdit :: "string \<Rightarrow> edit \<Rightarrow> edit_error + int \<times> int" where
  "normalizeEdit text e =
     (case edit_range text e of
        Inl x \<Rightarrow> Inl x
      | Inr (s, t) \<Rightarrow> if s < 0 \<or> t < s \<or> t > int (length text) then Inl (EditMsg ''edit range is outside file'') else Inr (s, t))"

fun normalize_all :: "string \<Rightarrow> edit list \<Rightarrow> edit_error + norm_edit list" where
  "normalize_all text [] = Inr []"
| "normalize_all text (e # es) =
     (case normalizeEdit text e of
        Inl x \<Rightarrow> Inl x
      | Inr (s, t) \<Rightarrow> (case normalize_all text es of Inl x \<Rightarrow> Inl x | Inr ns \<Rightarrow> Inr ((s, t, ed_repl e) # ns)))"

fun overlapping :: "norm_edit list \<Rightarrow> bool" where
  "overlapping (a # b # es) = (ne_start b < ne_end a \<or> overlapping (b # es))"
| "overlapping es = False"

fun render :: "string \<Rightarrow> int \<Rightarrow> norm_edit list \<Rightarrow> string" where
  "render text cursor [] = drop (nat cursor) text"
| "render text cursor (e # es) =
     take (nat (ne_start e - cursor)) (drop (nat cursor) text) @ ne_repl e @ render text (ne_end e) es"

section \<open>Engine.Apply\<close>

record prepared =
  pf_input :: file_edit
  pf_path :: string
  pf_before :: string
  pf_after :: string
  pf_mode :: int

record file_result =
  fr_path :: string
  fr_before :: string
  fr_after :: string
  fr_bytes :: nat
  fr_edits :: nat

definition prepare_file :: "('z) edenv_scheme \<Rightarrow> edit_io \<Rightarrow> ws_state \<Rightarrow> string list \<Rightarrow> file_edit \<Rightarrow> edit_error + prepared" where
  "prepare_file E io w seen f =
     (if IsSensitivePath E (fe_path f) then Inl (sensitive_error (fe_path f))
      else case fs_Existing E w (fe_path f) of
        Inl x \<Rightarrow> Inl x
      | Inr p \<Rightarrow>
          if p \<in> set seen then Inl (EditMsg (''duplicate file: '' @ fe_path f))
          else case read_file E io w p of
            Inl x \<Rightarrow> Inl x
          | Inr before \<Rightarrow>
              if fe_hash f \<noteq> [] \<and> sha256hex E before \<noteq> fe_hash f
              then Inl (EditMsg (fe_path f @ '' changed since read; hash mismatch''))
              else case normalize_all before (fe_edits f) of
                Inl x \<Rightarrow> Inl (EditMsg (fe_path f @ '': '' @ err_text x))
              | Inr ns \<Rightarrow>
                  let es = ed_sort E ns in
                  if overlapping es then Inl (EditMsg (fe_path f @ '' has overlapping edits''))
                  else Inr \<lparr>pf_input = f, pf_path = p, pf_before = before, pf_after = render before 0 es, pf_mode = file_mode E w p\<rparr>)"

fun prepare_all :: "('z) edenv_scheme \<Rightarrow> edit_io \<Rightarrow> ws_state \<Rightarrow> string list \<Rightarrow> file_edit list \<Rightarrow> edit_error + prepared list" where
  "prepare_all E io w seen [] = Inr []"
| "prepare_all E io w seen (f # fs) =
     (case prepare_file E io w seen f of
        Inl x \<Rightarrow> Inl x
      | Inr p \<Rightarrow> (case prepare_all E io w (pf_path p # seen) fs of Inl x \<Rightarrow> Inl x | Inr ps \<Rightarrow> Inr (p # ps)))"

text \<open>\<open>writeAtomic\<close> replaces the file by a rename: it happens or it fails and changes nothing.\<close>

definition writeAtomic :: "(string \<Rightarrow> string option) \<Rightarrow> string \<Rightarrow> string \<Rightarrow> int \<Rightarrow> ws_state \<Rightarrow> ws_state \<times> edit_error option" where
  "writeAtomic fails p d m w = (case fails p of Some t \<Rightarrow> (w, Some (EditMsg t)) | None \<Rightarrow> (w(p \<mapsto> RegularFile d m), None))"

text \<open>\<open>written\<close> holds the files written so far, the last one first, which is the order of the rollback.\<close>

definition undo_writes :: "edit_io \<Rightarrow> prepared list \<Rightarrow> ws_state \<Rightarrow> ws_state" where
  "undo_writes io written w = fold (\<lambda>f w. fst (writeAtomic (io_undo io) (pf_path f) (pf_before f) (pf_mode f) w)) written w"

fun write_all :: "edit_io \<Rightarrow> prepared list \<Rightarrow> prepared list \<Rightarrow> ws_state \<Rightarrow> ws_state \<times> edit_error option" where
  "write_all io written [] w = (w, None)"
| "write_all io written (f # fs) w =
     (case writeAtomic (io_write io) (pf_path f) (pf_after f) (pf_mode f) w of
        (w1, Some x) \<Rightarrow> (undo_writes io written w1, Some x)
      | (w1, None) \<Rightarrow> write_all io (f # written) fs w1)"

definition file_result_of :: "('z) goenv_scheme \<Rightarrow> prepared \<Rightarrow> file_result" where
  "file_result_of G f = \<lparr>fr_path = fe_path (pf_input f), fr_before = sha256hex G (pf_before f), fr_after = sha256hex G (pf_after f),
     fr_bytes = length (pf_after f), fr_edits = length (fe_edits (pf_input f))\<rparr>"

definition Engine_Apply ::
  "('z) edenv_scheme \<Rightarrow> edit_io \<Rightarrow> ws_state \<Rightarrow> file_edit list \<Rightarrow> ws_state \<times> (edit_error + file_result list)" where
  "Engine_Apply E io w files =
     (if files = [] then (w, Inl (EditMsg ''files required''))
      else if length files > 100 then (w, Inl (EditMsg ''too many files''))
      else case prepare_all E io w [] files of
        Inl x \<Rightarrow> (w, Inl x)
      | Inr ps \<Rightarrow> (case write_all io [] ps w of
          (w1, Some x) \<Rightarrow> (w1, Inl x)
        | (w1, None) \<Rightarrow> (w1, Inr (map (file_result_of E) ps))))"


section \<open>Patch sets\<close>

abbreviation "PatchProposed \<equiv> ''proposed''"
abbreviation "PatchValidated \<equiv> ''validated''"
abbreviation "PatchStale \<equiv> ''stale''"
abbreviation "PatchApplied \<equiv> ''applied''"
abbreviation "PatchReverted \<equiv> ''reverted''"
abbreviation "PatchConflicted \<equiv> ''conflicted''"
abbreviation "PatchRejected \<equiv> ''rejected''"

record patch_file =
  pa_path :: string
  pa_hash :: string
  pa_absent :: bool
  pa_edits :: "edit list"
  pa_content :: "string option"

record patch_provenance =
  pp_task :: string
  pp_agent :: string
  pp_activation :: string
  pp_worktree :: string
  pp_trace :: string

record patch_set =
  ps_id :: string
  ps_base :: string
  ps_prov :: patch_provenance
  ps_files :: "patch_file list"
  ps_state :: string
  ps_created :: gotime
  ps_updated :: gotime
  ps_refs :: "string list"
  ps_failure :: string

definition unsafe_path :: "string \<Rightarrow> bool" where
  "unsafe_path p \<longleftrightarrow> p = [] \<or> is_abs p \<or> p = ''..'' \<or> has_prefix p ''../'' \<or> str_contains p ''/../''"

text \<open>The checks of one file, after path and hash are trimmed.\<close>

definition check_patch_file :: "('z) goenv_scheme \<Rightarrow> string list \<Rightarrow> patch_file \<Rightarrow> edit_error option" where
  "check_patch_file G seen f =
     (if unsafe_path (pa_path f) then Some (ErrInvalidPatchSet '': unsafe path'')
      else if IsSensitivePath G (pa_path f) then Some (ErrInvalidPatchSet ('': sensitive path '' @ pa_path f))
      else if pa_path f \<in> set seen then Some (ErrInvalidPatchSet ('': duplicate path '' @ pa_path f))
      else if pa_absent f = (pa_hash f \<noteq> [])
        then Some (ErrInvalidPatchSet ('': '' @ pa_path f @ '' must specify exactly one of expectedHash or expectedAbsent''))
      else if pa_content f \<noteq> None \<and> pa_edits f \<noteq> []
        then Some (ErrInvalidPatchSet ('': '' @ pa_path f @ '' cannot use content and edits together''))
      else if pa_absent f \<and> pa_content f = None
        then Some (ErrInvalidPatchSet ('': new file '' @ pa_path f @ '' requires content''))
      else if \<not> pa_absent f \<and> pa_content f = None \<and> pa_edits f = []
        then Some (ErrInvalidPatchSet ('': existing file '' @ pa_path f @ '' requires edits or content''))
      else None)"

fun normalize_files :: "('z) goenv_scheme \<Rightarrow> string list \<Rightarrow> patch_file list \<Rightarrow> edit_error + patch_file list" where
  "normalize_files G seen [] = Inr []"
| "normalize_files G seen (f0 # fs) =
     (let f = f0\<lparr>pa_path := trim_space (pa_path f0), pa_hash := trim_space (pa_hash f0)\<rparr> in
      case check_patch_file G seen f of
        Some x \<Rightarrow> Inl x
      | None \<Rightarrow> (case normalize_files G (pa_path f # seen) fs of Inl x \<Rightarrow> Inl x | Inr gs \<Rightarrow> Inr (f # gs)))"

definition trim_provenance :: "patch_provenance \<Rightarrow> patch_provenance" where
  "trim_provenance p = \<lparr>pp_task = trim_space (pp_task p), pp_agent = trim_space (pp_agent p),
     pp_activation = trim_space (pp_activation p), pp_worktree = trim_space (pp_worktree p), pp_trace = trim_space (pp_trace p)\<rparr>"

definition normalizePatchSet :: "('z) goenv_scheme \<Rightarrow> gotime \<Rightarrow> patch_set \<Rightarrow> edit_error + patch_set" where
  "normalizePatchSet G now set0 =
     (let s = set0\<lparr>ps_id := trim_space (ps_id set0), ps_base := trim_space (ps_base set0), ps_prov := trim_provenance (ps_prov set0),
                   ps_state := (if ps_state set0 = [] then PatchProposed else ps_state set0)\<rparr> in
      if ps_id s = [] \<or> pp_task (ps_prov s) = [] \<or> ps_files s = [] \<or> length (ps_files s) > 100
      then Inl (ErrInvalidPatchSet [])
      else case normalize_files G [] (ps_files s) of
        Inl x \<Rightarrow> Inl x
      | Inr fs \<Rightarrow> Inr (s\<lparr>ps_files := fs, ps_created := at_or_now now (ps_created s), ps_updated := now\<rparr>))"

text \<open>
  The loop trims the files in place, in the array the caller's patch set shares: this is what the array holds when
  \<open>normalizePatchSet\<close> has failed.
\<close>

fun trim_files :: "('z) goenv_scheme \<Rightarrow> string list \<Rightarrow> patch_file list \<Rightarrow> patch_file list" where
  "trim_files G seen [] = []"
| "trim_files G seen (f0 # fs) =
     (let f = f0\<lparr>pa_path := trim_space (pa_path f0), pa_hash := trim_space (pa_hash f0)\<rparr> in
      f # (if check_patch_file G seen f = None then trim_files G (pa_path f # seen) fs else fs))"

definition array_after :: "('z) goenv_scheme \<Rightarrow> patch_set \<Rightarrow> patch_file list" where
  "array_after G s =
     (if trim_space (ps_id s) = [] \<or> trim_space (pp_task (ps_prov s)) = [] \<or> length (ps_files s) > 100 then ps_files s
      else trim_files G [] (ps_files s))"

definition patchFail :: "gotime \<Rightarrow> patch_set \<Rightarrow> string \<Rightarrow> edit_error \<Rightarrow> patch_set" where
  "patchFail now s st x = s\<lparr>ps_state := st, ps_updated := now, ps_failure := err_text x\<rparr>"

text \<open>The check of one file against the workspace: the state and the error of a refusal.\<close>

definition validate_file ::
  "('z) edenv_scheme \<Rightarrow> edit_io \<Rightarrow> ws_state \<Rightarrow> patch_file \<Rightarrow> ws_state \<times> (string \<times> edit_error) option" where
  "validate_file E io w f =
     (case fs_WritePath E io w (pa_path f) of
        (w1, Inl x) \<Rightarrow> (w1, Some (PatchRejected, x))
      | (w1, Inr p) \<Rightarrow> (w1,
          if pa_absent f then
            (case read_file E io w1 p of
               Inr d \<Rightarrow> Some (PatchConflicted, ErrPatchConflict ('': '' @ pa_path f @ '' now exists''))
             | Inl (PathMissing _) \<Rightarrow> None
             | Inl x \<Rightarrow> Some (PatchRejected, x))
          else
            (case read_file E io w1 p of
               Inl (PathMissing _) \<Rightarrow> Some (PatchStale, ErrPatchStaleBase ('': '' @ pa_path f @ '' no longer exists''))
             | Inl x \<Rightarrow> Some (PatchRejected, x)
             | Inr d \<Rightarrow> if sha256hex E d \<noteq> pa_hash f
                 then Some (PatchStale, ErrPatchStaleBase ('': '' @ pa_path f @ '' hash mismatch'')) else None)))"

fun validate_files ::
  "('z) edenv_scheme \<Rightarrow> edit_io \<Rightarrow> ws_state \<Rightarrow> patch_file list \<Rightarrow> ws_state \<times> (string \<times> edit_error) option" where
  "validate_files E io w [] = (w, None)"
| "validate_files E io w (f # fs) =
     (case validate_file E io w f of (w1, Some x) \<Rightarrow> (w1, Some x) | (w1, None) \<Rightarrow> validate_files E io w1 fs)"

definition ValidatePatchSet ::
  "('z) edenv_scheme \<Rightarrow> edit_io \<Rightarrow> gotime \<Rightarrow> ws_state \<Rightarrow> patch_set \<Rightarrow> ws_state \<times> patch_set \<times> edit_error option" where
  "ValidatePatchSet E io now w input0 =
     (case normalizePatchSet E now input0 of
        Inl x \<Rightarrow> (w, patchFail now (input0\<lparr>ps_files := array_after E input0\<rparr>) PatchRejected x, Some x)
      | Inr s \<Rightarrow> (case validate_files E io w (ps_files s) of
          (w1, Some (st, x)) \<Rightarrow> (w1, patchFail now s st x, Some x)
        | (w1, None) \<Rightarrow> (w1, s\<lparr>ps_state := PatchValidated, ps_failure := [], ps_updated := now\<rparr>, None)))"

text \<open>The plan of the mutation: the guarded edits, the backups and the files to create.\<close>

record patch_plan =
  pl_edits :: "file_edit list"
  pl_backups :: "(string \<times> string \<times> int) list"
  pl_creates :: "(string \<times> string) list"

definition fullReplacementEdit :: "nat \<Rightarrow> string \<Rightarrow> edit" where
  "fullReplacementEdit n content = \<lparr>ed_start = Some 0, ed_end = Some (int n), ed_sline = None, ed_scol = None,
     ed_eline = None, ed_ecol = None, ed_repl = content\<rparr>"

fun plan_files ::
  "('z) edenv_scheme \<Rightarrow> edit_io \<Rightarrow> ws_state \<Rightarrow> patch_file list \<Rightarrow> ws_state \<times> (string \<times> edit_error + patch_plan)" where
  "plan_files E io w [] = (w, Inr \<lparr>pl_edits = [], pl_backups = [], pl_creates = []\<rparr>)"
| "plan_files E io w (f # fs) =
     (case fs_WritePath E io w (pa_path f) of
        (w1, Inl x) \<Rightarrow> (w1, Inl (PatchRejected, x))
      | (w1, Inr p) \<Rightarrow>
          let stale = ErrPatchStaleBase ('': '' @ pa_path f @ '' changed before apply'') in
          if pa_absent f then
            (case plan_files E io w1 fs of
               (w2, Inl x) \<Rightarrow> (w2, Inl x)
             | (w2, Inr pl) \<Rightarrow> (w2, Inr (pl\<lparr>pl_creates := (p, case pa_content f of None \<Rightarrow> [] | Some c \<Rightarrow> c) # pl_creates pl\<rparr>)))
          else
            (case read_file E io w1 p of
               Inl _ \<Rightarrow> (w1, Inl (PatchStale, stale))
             | Inr before \<Rightarrow>
                 if sha256hex E before \<noteq> pa_hash f then (w1, Inl (PatchStale, stale))
                 else
                   let es = (case pa_content f of Some c \<Rightarrow> [fullReplacementEdit (length before) c] | None \<Rightarrow> pa_edits f) in
                   (case plan_files E io w1 fs of
                      (w2, Inl x) \<Rightarrow> (w2, Inl x)
                    | (w2, Inr pl) \<Rightarrow> (w2, Inr (pl\<lparr>
                        pl_backups := (p, before, file_mode E w1 p) # pl_backups pl,
                        pl_edits := \<lparr>fe_path = pa_path f, fe_hash = pa_hash f, fe_edits = es\<rparr> # pl_edits pl\<rparr>)))))"

definition apply_error :: "edit_error \<Rightarrow> string \<times> edit_error" where
  "apply_error x =
     (if str_contains (err_text x) ''hash mismatch'' \<or> str_contains (err_text x) ''changed since read''
      then (PatchStale, ErrPatchStaleBase ('': '' @ err_text x)) else (PatchRejected, x))"

text \<open>\<open>O_EXCL\<close>: an existing path, be it a link that leads nowhere, is a conflict; a file that cannot be filled is removed again.\<close>

definition writeNewExclusive :: "('z) edenv_scheme \<Rightarrow> edit_io \<Rightarrow> string \<Rightarrow> string \<Rightarrow> ws_state \<Rightarrow> ws_state \<times> edit_error option" where
  "writeNewExclusive E io p d w =
     (if ed_real E p \<noteq> Inr p \<or> w p \<noteq> None then (w, Some (ErrPatchConflict []))
      else case io_open io p of
        Some t \<Rightarrow> (w, Some (EditMsg t))
      | None \<Rightarrow> (case io_fill io p of
          Some t \<Rightarrow> (if io_remove io p = None then w else w(p \<mapsto> RegularFile d 420), Some (EditMsg t))
        | None \<Rightarrow> (w(p \<mapsto> RegularFile d 420), None)))"

definition remove_file :: "edit_io \<Rightarrow> string \<Rightarrow> ws_state \<Rightarrow> ws_state" where
  "remove_file io p w = (if io_remove io p = None then w(p := None) else w)"

text \<open>\<open>created\<close> holds the paths created so far, the last one first.\<close>

definition revert_patch :: "edit_io \<Rightarrow> string list \<Rightarrow> (string \<times> string \<times> int) list \<Rightarrow> ws_state \<Rightarrow> ws_state" where
  "revert_patch io created backups w =
     fold (\<lambda>b w. fst (writeAtomic (io_restore io) (fst b) (fst (snd b)) (snd (snd b)) w)) (rev backups)
       (fold (remove_file io) created w)"

fun create_files ::
  "('z) edenv_scheme \<Rightarrow> edit_io \<Rightarrow> (string \<times> string \<times> int) list \<Rightarrow> string list \<Rightarrow> (string \<times> string) list \<Rightarrow> ws_state
     \<Rightarrow> ws_state \<times> edit_error option" where
  "create_files E io backups created [] w = (w, None)"
| "create_files E io backups created (c # cs) w =
     (case writeNewExclusive E io (fst c) (snd c) w of
        (w1, Some x) \<Rightarrow> (revert_patch io created backups w1, Some x)
      | (w1, None) \<Rightarrow> create_files E io backups (fst c # created) cs w1)"

definition create_error :: "edit_error \<Rightarrow> string \<times> edit_error" where
  "create_error x = (case x of ErrPatchConflict _ \<Rightarrow> (PatchConflicted, ErrPatchConflict '': path appeared during apply'') | _ \<Rightarrow> (PatchReverted, x))"

record apply_result =
  ar_existing :: "file_result list option"
  ar_created :: "string list"

text \<open>
  \<open>user1\<close> and \<open>user2\<close> are what other processes do to the workspace between the validation and the second
  reading and before the new files are created.
\<close>

definition ApplyPatchSet ::
  "('z) edenv_scheme \<Rightarrow> edit_io \<Rightarrow> gotime \<Rightarrow> (ws_state \<Rightarrow> ws_state) \<Rightarrow> (ws_state \<Rightarrow> ws_state) \<Rightarrow> ws_state \<Rightarrow> patch_set
     \<Rightarrow> ws_state \<times> patch_set \<times> (edit_error + apply_result)" where
  "ApplyPatchSet E io now user1 user2 w0 input0 =
     (case ValidatePatchSet E io now w0 input0 of
        (w1, s, Some x) \<Rightarrow> (w1, s, Inl x)
      | (w1, s, None) \<Rightarrow> (case plan_files E io (user1 w1) (ps_files s) of
          (w2, Inl (st, x)) \<Rightarrow> (w2, patchFail now s st x, Inl x)
        | (w2, Inr pl) \<Rightarrow>
            (case (if pl_edits pl = [] then (w2, Inr None)
                   else case Engine_Apply E io w2 (pl_edits pl) of (w, Inl x) \<Rightarrow> (w, Inl x) | (w, Inr rs) \<Rightarrow> (w, Inr (Some rs))) of
               (w3, Inl x) \<Rightarrow> (let (st, y) = apply_error x in (w3, patchFail now s st y, Inl y))
             | (w3, Inr rs) \<Rightarrow> (case create_files E io (pl_backups pl) [] (pl_creates pl) (user2 w3) of
                 (w4, Some x) \<Rightarrow> (let (st, y) = create_error x in (w4, patchFail now s st y, Inl y))
               | (w4, None) \<Rightarrow> (w4, s\<lparr>ps_state := PatchApplied, ps_failure := [], ps_updated := now\<rparr>,
                   Inr \<lparr>ar_existing = rs, ar_created = map (\<lambda>c. fs_Rel E (fst c)) (pl_creates pl)\<rparr>)))))"

section \<open>Engine.ApplyPatch\<close>

text \<open>The lines \<open>bufio.Scanner\<close> delivers, and whether it gives up on a line of 64 KiB or more.\<close>

fun scan_lines :: "string list \<Rightarrow> string list \<times> bool" where
  "scan_lines [] = ([], False)"
| "scan_lines (l # ls) =
     (if int (length l) \<ge> 65536 then ([], True)
      else if ls = [] \<and> l = [] then ([], False)
      else let (ks, long) = scan_lines ls in
        ((if l \<noteq> [] \<and> last l = CHR 0x0D then butlast l else l) # ks, long))"

definition patch_raw :: "string \<Rightarrow> string" where
  "patch_raw line = trim_char (CHR 0x22) (hd (split_on (CHR 0x09)
     (trim_prefix (trim_prefix (trim_space (drop 4 line)) ''a/'') ''b/'')))"

fun patch_lines :: "('z) goenv_scheme \<Rightarrow> string list \<Rightarrow> edit_error + string list" where
  "patch_lines G [] = Inr []"
| "patch_lines G (line # ls) =
     (if (has_prefix line ''+++ '' \<or> has_prefix line ''--- '') \<and> trim_space (drop 4 line) \<noteq> ''/dev/null'' then
        let raw = patch_raw line in
        if is_abs raw \<or> raw = ''..'' \<or> has_prefix raw ''../'' \<or> str_contains raw ''/../'' then Inl (EditMsg ''unsafe patch path'')
        else if IsSensitivePath G raw then Inl (EditMsg ''patch touches sensitive path'')
        else (case patch_lines G ls of Inl x \<Rightarrow> Inl x | Inr ps \<Rightarrow> Inr (raw # ps))
      else patch_lines G ls)"

definition patchPaths :: "('z) goenv_scheme \<Rightarrow> string \<Rightarrow> edit_error + string list" where
  "patchPaths G patch =
     (let (ls, long) = scan_lines (split_on (CHR 0x0A) patch) in
      case patch_lines G ls of
        Inl x \<Rightarrow> Inl x
      | Inr ps \<Rightarrow> if long then Inl (EditMsg ''bufio.Scanner: token too long'') else Inr ps)"

definition Engine_ApplyPatch :: "('z) edenv_scheme \<Rightarrow> ws_state \<Rightarrow> string \<Rightarrow> ws_state \<times> (edit_error + string list)" where
  "Engine_ApplyPatch E w patch =
     (if trim_space patch = [] then (w, Inl (EditMsg ''patch required''))
      else case patchPaths E patch of
        Inl x \<Rightarrow> (w, Inl x)
      | Inr ps \<Rightarrow>
          if ps = [] then (w, Inl (EditMsg ''patch contains no file paths''))
          else case ed_git_check E w patch of
            Some t \<Rightarrow> (w, Inl (EditMsg (''patch validation failed: '' @ trim_space t)))
          | None \<Rightarrow> (case ed_git_apply E w patch of
              (w1, Some t) \<Rightarrow> (w1, Inl (EditMsg (''patch apply failed: '' @ trim_space t)))
            | (w1, None) \<Rightarrow> (w1, Inr (sort (remdups ps)))))"

section \<open>Edits are independent of each other\<close>

text \<open>The reference: one replacement, and a list of them carried out from the last to the first.\<close>

definition splice :: "norm_edit \<Rightarrow> string \<Rightarrow> string" where
  "splice e t = take (nat (ne_start e)) t @ ne_repl e @ drop (nat (ne_end e)) t"

fun spans :: "int \<Rightarrow> int \<Rightarrow> norm_edit list \<Rightarrow> bool" where
  "spans n c [] \<longleftrightarrow> 0 \<le> c \<and> c \<le> n"
| "spans n c (e # es) \<longleftrightarrow> 0 \<le> c \<and> c \<le> ne_start e \<and> ne_start e \<le> ne_end e \<and> spans n (ne_end e) es"

lemma spans_bounds: "spans n c es \<Longrightarrow> 0 \<le> c \<and> c \<le> n"
  by (induction es arbitrary: c) fastforce+

lemma splice_take:
  assumes "nat c \<le> nat (ne_start e)" and "nat (ne_start e) \<le> length x"
  shows "take (nat c) (splice e x) = take (nat c) x" "nat c \<le> length (splice e x)"
  using assms by (simp_all add: splice_def min_def)

lemma splice_prefix:
  "spans (int (length text)) c es \<Longrightarrow>
     take (nat c) (foldr splice es text) = take (nat c) text \<and> nat c \<le> length (foldr splice es text)"
proof (induction es arbitrary: c)
  case (Cons e es)
  let ?x = "foldr splice es text"
  have b: "0 \<le> c" "c \<le> ne_start e" "ne_start e \<le> ne_end e" using Cons.prems by simp_all
  have ih: "take (nat (ne_end e)) ?x = take (nat (ne_end e)) text" "nat (ne_end e) \<le> length ?x"
    using Cons by simp_all
  have "take (nat c) ?x = take (nat c) (take (nat (ne_end e)) ?x)" using b by (simp add: min_def)
  also have "\<dots> = take (nat c) text" unfolding ih(1) using b by (simp add: min_def)
  finally show ?case using b ih(2) splice_take [of c e ?x] by simp
qed auto

lemma render_splice:
  "spans (int (length text)) c es \<Longrightarrow> render text c es = drop (nat c) (foldr splice es text)"
proof (induction es arbitrary: c)
  case (Cons e es)
  let ?x = "foldr splice es text"
  have b: "0 \<le> c" "c \<le> ne_start e" "ne_start e \<le> ne_end e" "spans (int (length text)) (ne_end e) es"
    using Cons.prems by simp_all
  have pre: "take (nat (ne_end e)) ?x = take (nat (ne_end e)) text" "nat (ne_end e) \<le> length ?x"
    using splice_prefix [OF b(4)] by simp_all
  have "take (nat (ne_start e)) ?x = take (nat (ne_start e)) (take (nat (ne_end e)) ?x)" using b by (simp add: min_def)
  also have "\<dots> = take (nat (ne_start e)) text" unfolding pre(1) using b by (simp add: min_def)
  finally have t: "take (nat (ne_start e)) ?x = take (nat (ne_start e)) text" .
  have "nat c \<le> length (take (nat (ne_start e)) text)"
    using b spans_bounds [OF b(4)] by simp
  then have "drop (nat c) (foldr splice (e # es) text) =
      drop (nat c) (take (nat (ne_start e)) text) @ ne_repl e @ drop (nat (ne_end e)) ?x"
    by (simp add: splice_def t)
  moreover have "drop (nat c) (take (nat (ne_start e)) text) = take (nat (ne_start e - c)) (drop (nat c) text)"
    using b by (simp add: drop_take nat_diff_distrib)
  ultimately show ?case using Cons.IH [OF b(4)] by simp
qed simp

lemma spans_of_sorted:
  assumes "\<forall>e \<in> set es. 0 \<le> ne_start e \<and> ne_start e \<le> ne_end e \<and> ne_end e \<le> n" and "\<not> overlapping es" and "0 \<le> n"
    and "0 \<le> c" "c \<le> n" "es \<noteq> [] \<longrightarrow> c \<le> ne_start (hd es)"
  shows "spans n c es"
  using assms by (induction es arbitrary: c rule: overlapping.induct) auto

lemma normalizeEdit_bounds:
  "normalizeEdit text e = Inr (s, t) \<Longrightarrow> 0 \<le> s \<and> s \<le> t \<and> t \<le> int (length text)"
  by (auto simp: normalizeEdit_def split: sum.splits if_splits)

lemma normalize_all_bounds:
  "normalize_all text es = Inr ns \<Longrightarrow> e \<in> set ns \<Longrightarrow> 0 \<le> ne_start e \<and> ne_start e \<le> ne_end e \<and> ne_end e \<le> int (length text)"
proof (induction es arbitrary: ns)
  case (Cons a es)
  from Cons.prems(1) obtain s t ms where n: "normalizeEdit text a = Inr (s, t)" "normalize_all text es = Inr ms"
      "ns = (s, t, ed_repl a) # ms"
    by (auto split: sum.splits)
  then show ?case using Cons.IH [OF n(2)] Cons.prems(2) normalizeEdit_bounds [OF n(1)] by auto
qed simp

text \<open>What \<open>sort.Slice\<close> promises: an arrangement of the same edits by their start.\<close>

definition sorts_edits :: "('z) edenv_scheme \<Rightarrow> bool" where
  "sorts_edits E \<longleftrightarrow> (\<forall>es. mset (ed_sort E es) = mset es \<and> sorted (map ne_start (ed_sort E es)))"

definition edits_render :: "string \<Rightarrow> norm_edit list \<Rightarrow> string \<Rightarrow> bool" where
  "edits_render text ns out \<longleftrightarrow>
     (\<exists>es. mset es = mset ns \<and> sorted (map ne_start es) \<and> \<not> overlapping es \<and> out = foldr splice es text)"

text \<open>
  C24. All ranges of a file edit refer to the text as it was read, whatever the order in which they are listed: an
  accepted edit is the original text with the replacements carried out one after the other from the back, and
  with distinct starting points every such sequence gives the same text.
\<close>

theorem prepare_file_edits:
  assumes "prepare_file E io w seen f = Inr p" and "sorts_edits E"
  shows "\<exists>ns. normalize_all (pf_before p) (fe_edits f) = Inr ns \<and> edits_render (pf_before p) ns (pf_after p) \<and>
    (distinct (map ne_start ns) \<longrightarrow> (\<forall>out. edits_render (pf_before p) ns out \<longrightarrow> out = pf_after p))"
proof -
  obtain ns where ns: "normalize_all (pf_before p) (fe_edits f) = Inr ns" "\<not> overlapping (ed_sort E ns)"
      "pf_after p = render (pf_before p) 0 (ed_sort E ns)"
    using assms(1) by (auto simp: prepare_file_def Let_def split: if_splits sum.splits)
  let ?es = "ed_sort E ns" let ?n = "int (length (pf_before p))"
  have m: "mset ?es = mset ns" "sorted (map ne_start ?es)" using assms(2) by (simp_all add: sorts_edits_def)
  have b: "\<forall>e \<in> set ?es. 0 \<le> ne_start e \<and> ne_start e \<le> ne_end e \<and> ne_end e \<le> ?n"
    using normalize_all_bounds [OF ns(1)] mset_eq_setD [OF m(1)] by blast
  then have "spans ?n 0 ?es" using ns(2) by (intro spans_of_sorted) (auto dest: hd_in_set)
  then have out: "pf_after p = foldr splice ?es (pf_before p)" using render_splice [of "pf_before p" 0 ?es] ns(3) by simp
  have uniq: "es = ?es" if "distinct (map ne_start ns)" "mset es = mset ns" "sorted (map ne_start es)" for es
  proof -
    have "distinct (map ne_start ?es)" "distinct (map ne_start es)"
      using that(1,2) m(1) mset_eq_imp_distinct_iff [of "map ne_start ?es" "map ne_start ns"]
        mset_eq_imp_distinct_iff [of "map ne_start es" "map ne_start ns"] by simp_all
    moreover have "set es = set ?es" using mset_eq_setD [OF m(1)] mset_eq_setD [OF that(2)] by simp
    ultimately show ?thesis
      using m(2) that(3) by (intro map_sorted_distinct_set_unique [of ne_start]) (simp_all add: distinct_map)
  qed
  have "edits_render (pf_before p) ns (pf_after p)"
    unfolding edits_render_def using m ns(2) out by (intro exI [of _ ?es]) simp
  moreover have "x = pf_after p" if d: "distinct (map ne_start ns)" and x: "edits_render (pf_before p) ns x" for x
  proof -
    obtain es where "mset es = mset ns" "sorted (map ne_start es)" "x = foldr splice es (pf_before p)"
      using x by (auto simp: edits_render_def)
    with uniq [OF d] out show ?thesis by simp
  qed
  ultimately show ?thesis using ns(1) by blast
qed

text \<open>A workspace \<open>/w\<close> with one file, no links, and no system call that fails.\<close>

definition demo_hash :: "string \<Rightarrow> string" where
  "demo_hash x = replicate 63 (CHR ''h'') @ [if x = ''one two'' then CHR ''o'' else if x = ''1 2'' then CHR ''n'' else CHR ''x'']"

definition demo_real :: "string \<Rightarrow> edit_error + string" where
  "demo_real c = (if is_abs c then Inr (path_clean c) else Inl (EditMsg ''relative path''))"

definition demo_edenv :: edenv where
  "demo_edenv = \<lparr>sha256hex = demo_hash, lower_unicode = id, json_big = JNum, fmt_time = (\<lambda>_. ''t''), ed_root = ''/w'',
     ed_real = demo_real, ed_sort = sort_key fst,
     ed_merge = (\<lambda>l b a. Inr ([], True)), ed_git_check = (\<lambda>w p. None), ed_git_apply = (\<lambda>w p. (w, None))\<rparr>"

definition no_faults :: edit_io where
  "no_faults = \<lparr>io_read = (\<lambda>_. None), io_mkdir = (\<lambda>_. None), io_write = (\<lambda>_. None), io_undo = (\<lambda>_. None), io_open = (\<lambda>_. None),
     io_fill = (\<lambda>_. None), io_remove = (\<lambda>_. None), io_restore = (\<lambda>_. None)\<rparr>"

definition demo_ws :: ws_state where
  "demo_ws p = (if p \<in> {''/'', ''/w''} then Some Directory else if p = ''/w/a'' then Some (RegularFile ''one two'' 420) else None)"

definition offset_edit :: "int \<Rightarrow> int \<Rightarrow> string \<Rightarrow> edit" where
  "offset_edit s t r = \<lparr>ed_start = Some s, ed_end = Some t, ed_sline = None, ed_scol = None, ed_eline = None, ed_ecol = None, ed_repl = r\<rparr>"

definition demo_edits :: file_edit where
  "demo_edits = \<lparr>fe_path = ''a'', fe_hash = [], fe_edits = [offset_edit 4 7 ''2'', offset_edit 0 3 ''1'']\<rparr>"

lemma demo_sorts: "sorts_edits demo_edenv"
  by (simp add: sorts_edits_def demo_edenv_def)

theorem prepare_file_edits_witness:
  "\<exists>p ns. prepare_file demo_edenv no_faults demo_ws [] demo_edits = Inr p \<and> pf_after p = ''1 2'' \<and>
     edits_render (pf_before p) ns (pf_after p)"
proof -
  let ?r = "prepare_file demo_edenv no_faults demo_ws [] demo_edits"
  have a: "map_sum id pf_after ?r = Inr ''1 2''" by code_simp
  then obtain p where p: "?r = Inr p" "pf_after p = ''1 2''" by (cases ?r) auto
  from prepare_file_edits [OF p(1) demo_sorts] p show ?thesis by blast
qed

text \<open>
  Known faults. A column of the first line is checked against the length of the file, not of the line, so it can name a
  position in a later line.
\<close>

lemma lineOffset_first_line:
  "lineOffset (''ab'' @ [CHR 0x0A] @ ''cd'') 1 5 = Inr 4 \<and>
   lineOffset (''ab'' @ [CHR 0x0A] @ ''cd'' @ [CHR 0x0A] @ ''ef'') 2 5 = Inl (EditMsg ''column exceeds line'')"
  by code_simp

end
