(* ===== verification/EditingProps.thy ===== *)
theory EditingProps
  imports Editing
begin

text \<open>
  What the edits of \<open>Editing\<close> guarantee: \<open>Engine.Apply\<close> and \<open>ApplyPatchSet\<close> change everything they were asked to
  or nothing, only what had the expected content, and only inside the workspace.
\<close>

section \<open>Paths below the root\<close>

text \<open>The root is a cleaned absolute path, and so is what \<open>filepath.EvalSymlinks\<close> returns for an absolute path.\<close>

definition root_ok :: "('z) edenv_scheme \<Rightarrow> bool" where
  "root_ok E \<longleftrightarrow> is_abs (ed_root E) \<and> path_clean (ed_root E) = ed_root E \<and>
     (\<forall>c r. ed_real E c = Inr r \<longrightarrow> is_abs r \<and> path_clean r = r)"

lemma fs_inside_stays: "fs_inside E c = stays_inside (ed_root E) c"
  by (simp add: fs_inside_def stays_inside_def)

lemma fs_inside_prefix:
  "root_ok E \<Longrightarrow> is_abs c \<Longrightarrow> path_clean c = c \<Longrightarrow> fs_inside E c \<longleftrightarrow> prefix (path_comps (ed_root E)) (path_comps c)"
  using stays_inside_prefix [of "ed_root E" c] by (simp add: root_ok_def fs_inside_stays)

lemma clean_comps_step: "clean_comps r out (w # ws) = clean_comps r (rev (clean_comps r out [w])) ws"
  by (cases out) simp_all

lemma clean_comps_append: "clean_comps r out (ws @ [b]) = clean_comps r (rev (clean_comps r out ws)) [b]"
proof (induction ws arbitrary: out)
  case (Cons w ws)
  have "clean_comps r out (w # ws @ [b]) = clean_comps r (rev (clean_comps r out [w])) (ws @ [b])" by (rule clean_comps_step)
  also have "\<dots> = clean_comps r (rev (clean_comps r (rev (clean_comps r out [w])) ws)) [b]" by (rule Cons.IH)
  also have "clean_comps r (rev (clean_comps r out [w])) ws = clean_comps r out (w # ws)" by (rule clean_comps_step [symmetric])
  finally show ?case by simp
qed simp

lemma split_on_both: "split_on x (a @ x # b) = split_on x a @ split_on x b"
  by (induction a) (auto split: list.splits)

lemma abs_base:
  assumes "is_abs c" and "path_clean c = c"
  shows "path_base c = [slash] \<or> path_base c \<notin> {[], ''.'', ''..''} \<and> slash \<notin> set (path_base c)"
proof (cases "path_comps c = []")
  case True
  have "c = [slash]" using assms True by (simp add: path_clean_def)
  moreover have "path_base [slash] = [slash]" by code_simp
  ultimately show ?thesis by simp
next
  case False
  let ?cs = "path_comps c" let ?s = "str_join [slash] ?cs"
  have c: "c = slash # ?s" using assms by (simp add: path_clean_def)
  have sp: "split_on slash ?s = ?cs" using split_on_join False abs_comps(4) [OF assms(1)] by blast
  have l: "last ?cs \<in> set ?cs" using False by simp
  have "last c \<noteq> slash"
  proof
    assume "last c = slash"
    then have "c = butlast c @ [slash]" using c by (metis append_butlast_last_id list.distinct(1))
    have "?s \<noteq> []" using sp False l abs_comps(1) [OF assms(1), of "[]"] by (metis last.simps list.set_intros(1) split_on.simps(1))
    with \<open>last c = slash\<close> c have "last ?s = slash" by (metis last_ConsR)
    then have "?s = butlast ?s @ [slash]" using \<open>?s \<noteq> []\<close> by (metis append_butlast_last_id)
    then have "last (split_on slash ?s) = []" using split_on_both [of slash "butlast ?s" "[]"] by simp
    with sp l abs_comps(1) [OF assms(1)] show False by auto
  qed
  then have "dropWhile (\<lambda>x. x = slash) (rev c) = rev c" using c by (cases "rev c") (auto simp: last_rev simp flip: hd_rev)
  moreover have "split_on slash (slash # ?s) = [] # ?cs" using sp by simp
  then have "split_on slash c = [] # ?cs" using c by metis
  moreover have "c \<noteq> []" using assms(1) by (auto simp: is_abs_def has_prefix_def)
  ultimately have "path_base c = last ?cs" using False by (simp add: path_base_def)
  with abs_comps [OF assms(1) l] show ?thesis by auto
qed

lemma lexical_abs:
  assumes "root_ok E" and "fs_lexical E rel = Inr c"
  shows "is_abs c \<and> path_clean c = c"
proof -
  have c: "c = path_clean (path_join (ed_root E) rel)" using assms(2) by (auto simp: fs_lexical_def Let_def split: if_splits)
  have r: "is_abs (ed_root E)" "ed_root E \<noteq> []" using assms(1) by (auto simp: root_ok_def is_abs_def has_prefix_def)
  then have "\<exists>x. path_join (ed_root E) rel = path_clean x \<and> is_abs x"
    by (cases "ed_root E"; cases "rel = []") (auto simp: path_join_def is_abs_def has_prefix_def)
  then show ?thesis using abs_clean c by metis
qed

text \<open>Directory and base name of a cleaned absolute path make up the path.\<close>

lemma clean_last:
  assumes "is_abs c" and "path_clean c = c" and "path_comps c \<noteq> []"
  shows "last c \<noteq> slash"
proof
  let ?s = "str_join [slash] (path_comps c)"
  assume l: "last c = slash"
  have c: "c = slash # ?s" using assms by (simp add: path_clean_def)
  have sp: "split_on slash ?s = path_comps c" using split_on_join assms(3) abs_comps(4) [OF assms(1)] by blast
  have ne: "w \<noteq> []" if "w \<in> set (path_comps c)" for w using abs_comps(1) [OF assms(1) that] .
  have "?s \<noteq> []" using sp ne assms(3) by (metis last_in_set list.set_intros(1) split_on.simps(1))
  with l c have "last ?s = slash" by (metis last_ConsR)
  with \<open>?s \<noteq> []\<close> have "?s = butlast ?s @ [slash]" by (metis append_butlast_last_id)
  then have "last (split_on slash ?s) = []" using split_on_both [of slash "butlast ?s" "[]"] by simp
  with sp ne assms(3) show False by auto
qed

text \<open>The part of a path after its last slash.\<close>

lemma last_slash:
  assumes "slash \<in> set c"
  obtains y b where "c = y @ slash # b" and "slash \<notin> set b" and "path_dir c = path_clean (y @ [slash])"
proof -
  obtain y b where c: "c = y @ slash # b" "slash \<notin> set b" using split_list_last [OF assms] by blast
  have "dropWhile (\<lambda>x. x \<noteq> slash) (rev b @ slash # rev y) = slash # rev y"
    using c(2) dropWhile_append2 [of "rev b" "\<lambda>x. x \<noteq> slash" "slash # rev y"] by auto
  then have "path_dir c = path_clean (y @ [slash])" by (simp add: path_dir_def c(1))
  with c that show thesis by blast
qed

lemma dir_base_join:
  assumes "is_abs c" and "path_clean c = c"
  shows "path_join (path_dir c) (path_base c) = c"
proof (cases "path_comps c = []")
  case True
  then have "c = [slash]" using assms by (simp add: path_clean_def)
  moreover have "path_join (path_dir [slash]) (path_base [slash]) = [slash]" by code_simp
  ultimately show ?thesis by simp
next
  case False
  have "slash \<in> set c" using assms(1) by (auto simp: is_abs_def has_prefix_def) (cases c; simp)
  then obtain y b where c: "c = y @ slash # b" and b: "slash \<notin> set b" and dir: "path_dir c = path_clean (y @ [slash])"
    by (rule last_slash)
  let ?x = "y @ [slash]"
  have lb: "last c \<noteq> slash" by (rule clean_last [OF assms False])
  then have bne: "b \<noteq> []" using c by auto
  have ax: "is_abs ?x" using assms(1) c by (cases y) (auto simp: is_abs_def has_prefix_def)
  have split: "split_on slash c = split_on slash y @ [b]" using c split_on_both split_on_word [OF b] by simp
  have lc: "last c = last b" using c bne by simp
  then have "dropWhile (\<lambda>x. x = slash) (rev c) = rev c" using lb bne unfolding c
    by (cases b rule: rev_cases) auto
  then have base: "path_base c = b" using c split by (simp add: path_base_def)
  let ?D = "clean_comps True [] (split_on slash y)"
  have px: "path_comps ?x = ?D" using ax by (simp add: path_comps_def split_on_both clean_comps_append)
  note d = abs_clean [OF ax]
  have dne: "path_clean ?x \<noteq> []" using d(1) by (auto simp: is_abs_def has_prefix_def)
  let ?z = "path_clean ?x @ slash # b"
  have az: "is_abs ?z" using d(1) dne by (cases "path_clean ?x") (auto simp: is_abs_def has_prefix_def)
  have sz: "split_on slash ?z = split_on slash (path_clean ?x) @ [b]" by (simp add: split_on_both split_on_word [OF b])
  have "path_comps ?z = clean_comps True (rev (path_comps (path_clean ?x))) [b]"
    using az d(1) by (simp only: path_comps_def sz clean_comps_append)
  also have "\<dots> = clean_comps True (rev ?D) [b]" by (simp only: d(2) px)
  also have "\<dots> = path_comps c" using assms(1) by (simp only: path_comps_def split clean_comps_append)
  finally have "path_clean ?z = c" using az assms by (simp add: path_clean_def)
  then show ?thesis using dir base bne dne by (simp add: path_join_def)
qed

section \<open>All or nothing\<close>

text \<open>
  What \<open>filepath.EvalSymlinks\<close> documents: its result has no links left, and links on the way to a path do not
  depend on how far the way is resolved already.
\<close>

definition links_ok :: "('z) edenv_scheme \<Rightarrow> bool" where
  "links_ok E \<longleftrightarrow> root_ok E \<and> (\<forall>c r. ed_real E c = Inr r \<longrightarrow> ed_real E r = Inr r) \<and>
     (\<forall>c d. is_abs c \<and> path_clean c = c \<and> ed_real E (path_dir c) = Inr d \<longrightarrow> ed_real E (path_join d (path_base c)) = ed_real E c)"

lemma links_idem: "links_ok E \<Longrightarrow> ed_real E c = Inr r \<Longrightarrow> ed_real E r = Inr r"
  by (simp add: links_ok_def)

lemma eval_links_Inr: "eval_links E w c = Inr r \<longleftrightarrow> ed_real E c = Inr r \<and> w r \<noteq> None"
  by (auto simp: eval_links_def split: sum.splits)

lemma fs_Existing_Inr:
  "fs_Existing E w rel = Inr r \<Longrightarrow> \<exists>c. fs_lexical E rel = Inr c \<and> ed_real E c = Inr r \<and> w r \<noteq> None \<and> fs_inside E r
     \<and> \<not> IsSensitivePath E rel"
  by (auto simp: fs_Existing_def eval_links_Inr split: if_splits sum.splits)

lemma prepare_file_Inr:
  assumes "prepare_file E io w seen f = Inr p" and "links_ok E"
  shows "\<exists>c. fs_lexical E (fe_path f) = Inr c \<and> ed_real E c = Inr (pf_path p) \<and> fs_inside E (pf_path p)
    \<and> pf_path p \<notin> set seen \<and> w (pf_path p) = Some (RegularFile (pf_before p) (pf_mode p)) \<and> pf_input p = f
    \<and> (fe_hash f = [] \<or> sha256hex E (pf_before p) = fe_hash f)"
proof -
  obtain r b where r: "fs_Existing E w (fe_path f) = Inr r" "r \<notin> set seen" "read_file E io w r = Inr b"
      "fe_hash f = [] \<or> sha256hex E b = fe_hash f" "pf_path p = r" "pf_before p = b" "pf_mode p = file_mode E w r" "pf_input p = f"
    using assms(1) by (auto simp: prepare_file_def Let_def split: if_splits sum.splits)
  obtain c where c: "fs_lexical E (fe_path f) = Inr c" "ed_real E c = Inr r" "fs_inside E r"
    using fs_Existing_Inr [OF r(1)] by blast
  have "ed_real E r = Inr r" using links_idem [OF assms(2) c(2)] .
  then have "\<exists>m. w r = Some (RegularFile b m) \<and> file_mode E w r = m"
    using r(3) by (auto simp: read_file_def file_mode_def split: option.splits ws_node.splits)
  with r c show ?thesis by auto
qed

lemma prepare_all_Inr:
  assumes "prepare_all E io w seen fs = Inr ps" and "links_ok E"
  shows "distinct (map pf_path ps) \<and> set (map pf_path ps) \<inter> set seen = {} \<and> map pf_input ps = fs \<and>
    (\<forall>p \<in> set ps. w (pf_path p) = Some (RegularFile (pf_before p) (pf_mode p)) \<and> fs_inside E (pf_path p) \<and>
      (\<exists>c. fs_lexical E (fe_path (pf_input p)) = Inr c \<and> ed_real E c = Inr (pf_path p)))"
  using assms(1)
proof (induction fs arbitrary: seen ps)
  case (Cons f fs)
  then obtain p qs where p: "prepare_file E io w seen f = Inr p" "prepare_all E io w (pf_path p # seen) fs = Inr qs" "ps = p # qs"
    by (auto split: sum.splits)
  show ?case using Cons.IH [OF p(2)] prepare_file_Inr [OF p(1) assms(2)] p(3) by auto
qed simp

text \<open>The workspace after all files of a list are written.\<close>

definition put_files :: "(string \<times> string \<times> int) list \<Rightarrow> ws_state \<Rightarrow> ws_state" where
  "put_files bs w = (\<lambda>p. case map_of bs p of None \<Rightarrow> w p | Some (d, m) \<Rightarrow> Some (RegularFile d m))"

definition after_of :: "prepared \<Rightarrow> string \<times> string \<times> int" where "after_of p = (pf_path p, pf_after p, pf_mode p)"
definition before_of :: "prepared \<Rightarrow> string \<times> string \<times> int" where "before_of p = (pf_path p, pf_before p, pf_mode p)"

lemma fold_write:
  "\<forall>b \<in> set bs. fails (fst b) = None \<Longrightarrow> fold (\<lambda>b w. fst (writeAtomic fails (fst b) (fst (snd b)) (snd (snd b)) w)) bs w = put_files (rev bs) w"
proof (induction bs arbitrary: w)
  case (Cons b bs)
  then show ?case
    by (auto simp: fun_eq_iff put_files_def writeAtomic_def map_add_def split: option.splits prod.splits)
qed (simp add: put_files_def)

lemma put_files_Cons: "put_files (b # bs) w = (put_files bs w)(fst b \<mapsto> RegularFile (fst (snd b)) (snd (snd b)))"
  by (auto simp: put_files_def fun_eq_iff split: prod.splits)

lemma put_files_id:
  "\<forall>b \<in> set bs. w (fst b) = Some (RegularFile (fst (snd b)) (snd (snd b))) \<Longrightarrow> put_files bs w = w"
  by (induction bs) (auto simp: put_files_Cons put_files_def fun_eq_iff)

lemma put_files_other: "p \<notin> fst ` set bs \<Longrightarrow> put_files bs w p = w p"
  by (auto simp: put_files_def split: option.splits dest!: map_of_SomeD) force

lemma put_files_overwrite:
  assumes "\<forall>p. p \<notin> fst ` set bs \<longrightarrow> v p = w p"
  shows "put_files bs v = put_files bs w"
proof
  fix p
  show "put_files bs v p = put_files bs w p"
  proof (cases "map_of bs p")
    case None
    then have "p \<notin> fst ` set bs" by (simp add: map_of_eq_None_iff)
    with assms None show ?thesis by (simp add: put_files_def)
  qed (simp add: put_files_def split: prod.splits)
qed

lemma write_all_cases:
  assumes "write_all io written ps w = (w', r)" and "\<forall>p. io_undo io p = None"
    and "\<forall>p \<in> set written \<union> set ps. w0 (pf_path p) = Some (RegularFile (pf_before p) (pf_mode p))"
    and "\<forall>q. q \<notin> pf_path ` set written \<longrightarrow> w q = w0 q"
  shows "(case r of Some x \<Rightarrow> w' = w0 | None \<Rightarrow> w' = put_files (rev (map after_of ps)) w)"
  using assms
proof (induction ps arbitrary: written w)
  case Nil
  then show ?case by (auto simp: put_files_def)
next
  case (Cons p ps)
  show ?case
  proof (cases "io_write io (pf_path p)")
    case (Some t)
    have u: "undo_writes io written w = put_files (rev (map before_of written)) w"
      using Cons.prems(2) fold_write [of "map before_of written" "io_undo io" w]
      by (simp add: undo_writes_def fold_map o_def before_of_def)
    have "put_files (rev (map before_of written)) w = put_files (rev (map before_of written)) w0"
      using Cons.prems(4) by (intro put_files_overwrite) (auto simp: before_of_def image_iff)
    also have "\<dots> = w0" using Cons.prems(3) by (intro put_files_id) (auto simp: before_of_def)
    finally show ?thesis using Cons.prems(1) Some u by (auto simp: writeAtomic_def)
  next
    case None
    let ?w = "w(pf_path p \<mapsto> RegularFile (pf_after p) (pf_mode p))"
    have "write_all io (p # written) ps ?w = (w', r)" using Cons.prems(1) None by (simp add: writeAtomic_def)
    moreover have "\<forall>q \<in> set (p # written) \<union> set ps. w0 (pf_path q) = Some (RegularFile (pf_before q) (pf_mode q))"
      using Cons.prems(3) by simp
    moreover have "\<forall>q. q \<notin> pf_path ` set (p # written) \<longrightarrow> ?w q = w0 q" using Cons.prems(4) by simp
    ultimately have "case r of Some x \<Rightarrow> w' = w0 | None \<Rightarrow> w' = put_files (rev (map after_of ps)) ?w"
      using Cons.IH Cons.prems(2) by blast
    moreover have "put_files (rev (map after_of ps)) ?w = put_files (rev (map after_of (p # ps))) w"
      by (auto simp: put_files_def fun_eq_iff after_of_def map_add_def split: option.splits)
    ultimately show ?thesis by (simp split: option.splits)
  qed
qed

lemma put_files_mem:
  assumes "distinct (map fst bs)" and "b \<in> set bs"
  shows "put_files (rev bs) w (fst b) = Some (RegularFile (fst (snd b)) (snd (snd b)))"
proof -
  have "map_of (rev bs) (fst b) = Some (snd b)"
    using assms by (intro map_of_is_SomeI) (simp_all add: rev_map [symmetric])
  then show ?thesis by (simp add: put_files_def split: prod.splits)
qed

lemma Engine_Apply_cases:
  assumes "Engine_Apply E io w files = (w', r)" and "links_ok E" and "\<forall>p. io_undo io p = None"
  shows "(case r of Inl x \<Rightarrow> w' = w
    | Inr rs \<Rightarrow> \<exists>ps. prepare_all E io w [] files = Inr ps \<and> rs = map (file_result_of E) ps \<and> w' = put_files (rev (map after_of ps)) w)"
proof (cases "files = [] \<or> length files > 100 \<or> isl (prepare_all E io w [] files)")
  case True
  then show ?thesis using assms(1) by (auto simp: Engine_Apply_def split: sum.splits if_splits)
next
  case False
  then obtain ps where ps: "prepare_all E io w [] files = Inr ps" by (cases "prepare_all E io w [] files") auto
  obtain v x where v: "write_all io [] ps w = (v, x)" by fastforce
  have "case x of Some y \<Rightarrow> v = w | None \<Rightarrow> v = put_files (rev (map after_of ps)) w"
    using prepare_all_Inr [OF ps assms(2)] assms(3) by (intro write_all_cases [OF v]) auto
  then show ?thesis using assms(1) ps v False by (auto simp: Engine_Apply_def split: option.splits)
qed

text \<open>
  \<open>Engine.Apply\<close> changes all files or none: when it fails, and the rollback can write, the workspace is what
  it was, and when it succeeds exactly the named files, each inside the workspace, have their new text and
  their old mode.
\<close>

theorem Engine_Apply_all_or_nothing:
  assumes "Engine_Apply E io w files = (w', r)" and "links_ok E" and "\<forall>p. io_undo io p = None"
  shows "(case r of
      Inl x \<Rightarrow> w' = w
    | Inr rs \<Rightarrow> \<exists>ps. prepare_all E io w [] files = Inr ps \<and> distinct (map pf_path ps) \<and>
        (\<forall>p \<in> set ps. w' (pf_path p) = Some (RegularFile (pf_after p) (pf_mode p)) \<and> fs_inside E (pf_path p)) \<and>
        (\<forall>q. q \<notin> pf_path ` set ps \<longrightarrow> w' q = w q))"
proof (cases r)
  case (Inl x)
  then show ?thesis using Engine_Apply_cases [OF assms] by simp
next
  case (Inr rs)
  then obtain ps where ps: "prepare_all E io w [] files = Inr ps" "w' = put_files (rev (map after_of ps)) w"
    using Engine_Apply_cases [OF assms] by auto
  note q = prepare_all_Inr [OF ps(1) assms(2)]
  have d: "distinct (map fst (map after_of ps))" using q by (simp add: after_of_def o_def)
  have a: "w' (pf_path p) = Some (RegularFile (pf_after p) (pf_mode p))" if "p \<in> set ps" for p
    using put_files_mem [OF d, of "after_of p" w] that ps(2) by (simp add: after_of_def)
  have o: "w' x = w x" if "x \<notin> pf_path ` set ps" for x
    using put_files_other [of x "rev (map after_of ps)" w] that ps(2) by (simp add: after_of_def image_image)
  show ?thesis using Inr ps(1) q a o by simp
qed

section \<open>Patch sets are applied completely or not at all\<close>

text \<open>Directories may be added on the way; nothing else changes.\<close>

definition dirs_added :: "ws_state \<Rightarrow> ws_state \<Rightarrow> bool" where
  "dirs_added w w' \<longleftrightarrow> (\<forall>p. w' p = w p \<or> w p = None \<and> w' p = Some Directory)"

lemma dirs_added_refl [simp]: "dirs_added w w"
  by (simp add: dirs_added_def)

lemma dirs_added_trans: "dirs_added u v \<Longrightarrow> dirs_added v w \<Longrightarrow> dirs_added u w"
  unfolding dirs_added_def by (metis option.distinct(1))

lemma dirs_added_file: "dirs_added w w' \<Longrightarrow> w p = Some (RegularFile d m) \<longleftrightarrow> w' p = Some (RegularFile d m)"
  unfolding dirs_added_def by (metis option.distinct(1) option.inject ws_node.distinct(1))

lemma dirs_added_step: "dirs_added w w1 \<Longrightarrow> w1 r = None \<Longrightarrow> dirs_added w (w1(r \<mapsto> Directory))"
  unfolding dirs_added_def by (metis fun_upd_apply option.distinct(1))

lemma mkdir_from_dirs: "dirs_added w0 w \<Longrightarrow> dirs_added w0 (fst (mkdir_from E io pre cs w))"
  by (induction pre cs w rule: mkdir_from.induct)
    (auto simp: Let_def dirs_added_step split: sum.splits option.splits ws_node.splits)

lemma mkdir_all_dirs: "mkdir_all E io d w = (w', x) \<Longrightarrow> dirs_added w w'"
  using mkdir_from_dirs [of w w E io "[]" "path_comps d"]
  by (auto simp: mkdir_all_def split: sum.splits if_splits)

lemma WritePath_dirs: "fs_WritePath E io w rel = (w', r) \<Longrightarrow> dirs_added w w'"
  by (auto simp: fs_WritePath_def split: if_splits sum.splits prod.splits option.splits dest: mkdir_all_dirs)

text \<open>The path a write goes to: the real path of an existing file, or a new name in a directory of the workspace.\<close>

definition new_name :: "('z) edenv_scheme \<Rightarrow> string \<Rightarrow> string \<Rightarrow> bool" where
  "new_name E c p \<longleftrightarrow> (\<exists>d. ed_real E (path_dir c) = Inr d \<and> fs_inside E d \<and> p = path_join d (path_base c))"

lemma WritePath_Inr:
  assumes "fs_WritePath E io w rel = (w', Inr p)"
  shows "\<exists>c. fs_lexical E rel = Inr c \<and>
    (ed_real E c = Inr p \<and> w' p \<noteq> None \<and> fs_inside E p \<or>
     new_name E c p \<and> (\<forall>r. ed_real E c = Inr r \<longrightarrow> w' r = None))"
proof -
  obtain c x where c: "fs_lexical E rel = Inr c" "mkdir_all E io (path_dir c) w = (w', x)" "x = None"
    using assms by (auto simp: fs_WritePath_def split: if_splits sum.splits prod.splits option.splits)
  then obtain d where d: "eval_links E w' (path_dir c) = Inr d" "fs_inside E d"
    using assms by (auto simp: fs_WritePath_def split: if_splits sum.splits)
  show ?thesis
  proof (cases "eval_links E w' c")
    case (Inr r)
    then have "p = r" "fs_inside E r" using assms c d by (simp_all add: fs_WritePath_def split: if_splits)
    then show ?thesis using Inr c(1) by (auto simp: eval_links_Inr)
  next
    case (Inl y)
    then have "p = path_join d (path_base c)"
      using assms c d by (simp add: fs_WritePath_def split: if_splits edit_error.splits)
    moreover have "w' r = None" if "ed_real E c = Inr r" for r
      using Inl that by (auto simp: eval_links_def split: if_splits)
    ultimately show ?thesis using c(1) d by (auto simp: new_name_def eval_links_Inr)
  qed
qed

lemma links_root: "links_ok E \<Longrightarrow> root_ok E"
  by (simp add: links_ok_def)

lemma new_name_real: "links_ok E \<Longrightarrow> fs_lexical E rel = Inr c \<Longrightarrow> new_name E c p \<Longrightarrow> ed_real E p = ed_real E c"
  using lexical_abs [of E rel c] by (auto simp: new_name_def links_ok_def)

lemma new_name_inside:
  assumes "root_ok E" and "is_abs c" "path_clean c = c" and "new_name E c p"
  shows "fs_inside E p"
proof -
  obtain d where d: "is_abs d" "path_clean d = d" "fs_inside E d" "p = path_join d (path_base c)"
    using assms(1,4) unfolding new_name_def root_ok_def by blast
  let ?b = "path_base c"
  have ne: "d \<noteq> []" "?b \<noteq> []" using d(1) abs_base [OF assms(2,3)] by (auto simp: is_abs_def has_prefix_def)
  have p: "p = path_clean (d @ slash # ?b)" using d(4) ne by (simp add: path_join_def)
  have ab: "is_abs (d @ slash # ?b)" using d(1) by (cases d) (simp_all add: is_abs_def has_prefix_def)
  have "path_comps (d @ slash # ?b) = path_comps d @ (if ?b = [slash] then [] else [?b])"
  proof (cases "?b = [slash]")
    case True
    have "split_on slash (d @ slash # ?b) = (split_on slash d @ [[]]) @ [[]]"
      unfolding True by (simp add: split_on_both)
    then show ?thesis using True d(1) ab by (simp only: path_comps_def clean_comps_append) simp
  next
    case False
    then have b: "?b \<notin> {[], ''.'', ''..''}" "slash \<notin> set ?b" using abs_base [OF assms(2,3)] by auto
    have "split_on slash (d @ slash # ?b) = split_on slash d @ [?b]" using b(2) by (simp add: split_on_both split_on_word)
    then show ?thesis using b False d(1) ab by (simp add: path_comps_def clean_comps_append)
  qed
  then have "prefix (path_comps d) (path_comps (d @ slash # ?b))" by simp
  moreover have "prefix (path_comps (ed_root E)) (path_comps d)" using fs_inside_prefix [OF assms(1) d(1,2)] d(3) by simp
  ultimately have "prefix (path_comps (ed_root E)) (path_comps p)"
    unfolding p abs_clean(2) [OF ab] by (rule prefix_order.trans [rotated])
  then show ?thesis using fs_inside_prefix [OF assms(1)] abs_clean [OF ab] p by simp
qed


text \<open>Reading the path of a write reaches a file only when the path itself is one.\<close>

lemma WritePath_read:
  assumes "fs_WritePath E io w rel = (w', Inr p)" and "links_ok E" and "read_file E io w' p = Inr b"
  shows "\<exists>c. fs_lexical E rel = Inr c \<and> ed_real E c = Inr p \<and> fs_inside E p \<and>
    w' p = Some (RegularFile b (file_mode E w' p))"
proof -
  obtain c where c: "fs_lexical E rel = Inr c" "ed_real E c = Inr p \<and> w' p \<noteq> None \<and> fs_inside E p \<or>
     new_name E c p \<and> (\<forall>r. ed_real E c = Inr r \<longrightarrow> w' r = None)"
    using WritePath_Inr [OF assms(1)] by blast
  have "\<exists>r m. ed_real E p = Inr r \<and> w' r = Some (RegularFile b m) \<and> file_mode E w' p = m"
    using assms(3) by (auto simp: read_file_def file_mode_def split: sum.splits option.splits ws_node.splits)
  then obtain r where r: "ed_real E p = Inr r" "w' r = Some (RegularFile b (file_mode E w' p))" by blast
  have "\<not> new_name E c p \<or> w' r \<noteq> None" using r(2) by simp
  then have a: "ed_real E c = Inr p" "fs_inside E p" using c(2) new_name_real [OF assms(2) c(1)] r(1) r(2) by auto
  then have "r = p" using links_idem [OF assms(2) a(1)] r(1) by simp
  with a r(2) c(1) show ?thesis by blast
qed

lemma validate_file_dirs: "validate_file E io w f = (w', x) \<Longrightarrow> dirs_added w w'"
  by (auto simp: validate_file_def split: prod.splits sum.splits dest: WritePath_dirs)

lemma validate_files_dirs: "validate_files E io w fs = (w', x) \<Longrightarrow> dirs_added w w'"
  by (induction fs arbitrary: w)
    (auto split: prod.splits option.splits dest: validate_file_dirs dirs_added_trans)

lemma Validate_dirs: "ValidatePatchSet E io now w s0 = (w', s, x) \<Longrightarrow> dirs_added w w'"
  by (auto simp: ValidatePatchSet_def split: sum.splits prod.splits option.splits dest: validate_files_dirs)

text \<open>
  The plan of a patch: guarded edits, their backups and the files to create, each at the place its path leads to.
\<close>

definition leads_to :: "('z) edenv_scheme \<Rightarrow> string \<Rightarrow> string \<Rightarrow> bool" where
  "leads_to E rel p \<longleftrightarrow> (\<exists>c. fs_lexical E rel = Inr c \<and> ed_real E c = Inr p)"

lemma leads_to_code [code]:
  "leads_to E rel p = (case fs_lexical E rel of Inl x \<Rightarrow> False | Inr c \<Rightarrow> ed_real E c = Inr p)"
  by (auto simp: leads_to_def split: sum.splits)

lemma leads_to_unique: "leads_to E rel p \<Longrightarrow> leads_to E rel q \<Longrightarrow> p = q"
  by (auto simp: leads_to_def)

lemma plan_files_dirs: "plan_files E io w fs = (w', r) \<Longrightarrow> dirs_added w w'"
proof (induction fs arbitrary: w w' r)
  case (Cons f fs)
  obtain w1 x where wp: "fs_WritePath E io w (pa_path f) = (w1, x)" by fastforce
  obtain w2 y where rest: "plan_files E io w1 fs = (w2, y)" by fastforce
  have "w' = w1 \<or> w' = w2"
    using Cons.prems wp rest by (auto simp: Let_def split: sum.splits if_splits)
  with WritePath_dirs [OF wp] Cons.IH [OF rest] show ?case by (auto intro: dirs_added_trans)
qed simp

definition create_at :: "('z) edenv_scheme \<Rightarrow> ws_state \<Rightarrow> patch_file \<Rightarrow> string \<Rightarrow> bool" where
  "create_at E w f p \<longleftrightarrow>
     (\<exists>c. fs_lexical E (pa_path f) = Inr c \<and> (ed_real E c = Inr p \<and> w p \<noteq> None \<or> new_name E c p))"

definition planned :: "('z) edenv_scheme \<Rightarrow> ws_state \<Rightarrow> patch_file \<Rightarrow> patch_plan \<Rightarrow> bool" where
  "planned E w f pl \<longleftrightarrow>
     (if pa_absent f then \<exists>p. (p, case pa_content f of None \<Rightarrow> [] | Some d \<Rightarrow> d) \<in> set (pl_creates pl) \<and> create_at E w f p
      else \<exists>b p m es. leads_to E (pa_path f) p \<and> sha256hex E b = pa_hash f \<and> (p, b, m) \<in> set (pl_backups pl) \<and>
         es = (case pa_content f of Some c \<Rightarrow> [fullReplacementEdit (length b) c] | None \<Rightarrow> pa_edits f) \<and>
         \<lparr>fe_path = pa_path f, fe_hash = pa_hash f, fe_edits = es\<rparr> \<in> set (pl_edits pl))"

lemma planned_mono:
  assumes "planned E w f pr" and "set (pl_creates pr) \<subseteq> set (pl_creates pl)"
    and "set (pl_backups pr) \<subseteq> set (pl_backups pl)" and "set (pl_edits pr) \<subseteq> set (pl_edits pl)"
  shows "planned E w f pl"
  using assms unfolding planned_def by (cases "pa_absent f") (simp_all, blast+)

lemma plan_files_Inr:
  assumes "plan_files E io w fs = (w', Inr pl)" and "links_ok E"
  shows "list_all2 (\<lambda>e b. leads_to E (fe_path e) (fst b)) (pl_edits pl) (pl_backups pl) \<and>
    (\<forall>(p, b, m) \<in> set (pl_backups pl). w' p = Some (RegularFile b m) \<and> fs_inside E p) \<and>
    (\<forall>f \<in> set fs. planned E w' f pl) \<and>
    (\<forall>b \<in> set (pl_backups pl). \<exists>f \<in> set fs. leads_to E (pa_path f) (fst b)) \<and>
    (\<forall>c \<in> set (pl_creates pl). \<exists>f \<in> set fs. create_at E w' f (fst c))"
  using assms(1)
proof (induction fs arbitrary: w pl)
  case (Cons f fs)
  obtain w1 p where wp: "fs_WritePath E io w (pa_path f) = (w1, Inr p)"
    using Cons.prems by (auto split: prod.splits sum.splits)
  show ?case
  proof (cases "pa_absent f")
    case True
    then obtain pr where rest: "plan_files E io w1 fs = (w', Inr pr)"
      and pl: "pl = pr\<lparr>pl_creates := (p, case pa_content f of None \<Rightarrow> [] | Some c \<Rightarrow> c) # pl_creates pr\<rparr>"
      using Cons.prems wp by (auto split: prod.splits sum.splits)
    have d: "dirs_added w1 w'" by (rule plan_files_dirs [OF rest])
    obtain c where c: "fs_lexical E (pa_path f) = Inr c" "ed_real E c = Inr p \<and> w1 p \<noteq> None \<or> new_name E c p"
      using WritePath_Inr [OF wp] by blast
    then have "ed_real E c = Inr p \<and> w' p \<noteq> None \<or> new_name E c p" using d unfolding dirs_added_def by metis
    then have at: "create_at E w' f p" using c(1) unfolding create_at_def by blast
    then have "planned E w' f pl" using True pl by (auto simp: planned_def)
    moreover have "planned E w' g pr \<Longrightarrow> planned E w' g pl" for g using pl by (auto intro: planned_mono)
    ultimately show ?thesis using Cons.IH [OF rest] pl at by simp
  next
    case False
    then obtain b where b: "read_file E io w1 p = Inr b" using Cons.prems wp by (auto simp: Let_def split: prod.splits sum.splits)
    have h: "sha256hex E b = pa_hash f" using Cons.prems wp b False by (auto simp: Let_def split: if_splits)
    define es where "es = (case pa_content f of Some c \<Rightarrow> [fullReplacementEdit (length b) c] | None \<Rightarrow> pa_edits f)"
    obtain pr where rest: "plan_files E io w1 fs = (w', Inr pr)"
      and pl: "pl = pr\<lparr>pl_backups := (p, b, file_mode E w1 p) # pl_backups pr,
        pl_edits := \<lparr>fe_path = pa_path f, fe_hash = pa_hash f, fe_edits = es\<rparr> # pl_edits pr\<rparr>"
      using Cons.prems wp b h False by (auto simp: Let_def es_def split: prod.splits sum.splits)
    obtain c where c: "fs_lexical E (pa_path f) = Inr c" "ed_real E c = Inr p" "w1 p = Some (RegularFile b (file_mode E w1 p))"
        "fs_inside E p"
      using WritePath_read [OF wp assms(2) b] by blast
    have l: "leads_to E (pa_path f) p" using c by (auto simp: leads_to_def)
    have "w' p = Some (RegularFile b (file_mode E w1 p))"
      using dirs_added_file [OF plan_files_dirs [OF rest]] c(3) by blast
    moreover have "planned E w' f pl" using l h False pl es_def by (auto simp: planned_def)
    moreover have "planned E w' g pr \<Longrightarrow> planned E w' g pl" for g using pl by (auto intro: planned_mono)
    ultimately show ?thesis using Cons.IH [OF rest] pl l c(4) by simp
  qed
qed simp


lemma fold_remove:
  "\<forall>p. io_remove io p = None \<Longrightarrow> fold (remove_file io) ps w = (\<lambda>q. if q \<in> set ps then None else w q)"
  by (induction ps arbitrary: w) (auto simp: remove_file_def fun_eq_iff)

definition created :: "string \<times> string \<Rightarrow> string \<times> string \<times> int" where "created c = (fst c, snd c, 420)"

lemma create_files_cases:
  assumes "create_files E io backups made cs w = (w', x)" and "\<forall>p. io_remove io p = None" "\<forall>p. io_restore io p = None"
    and "\<forall>q \<in> set made. v q = None" and "\<forall>q. q \<notin> set made \<longrightarrow> w q = v q"
  shows "(case x of Some y \<Rightarrow> w' = put_files backups v
    | None \<Rightarrow> distinct (map fst cs) \<and> (\<forall>c \<in> set cs. ed_real E (fst c) = Inr (fst c) \<and> w (fst c) = None) \<and>
        w' = put_files (map created cs) w)"
  using assms
proof (induction cs arbitrary: made w)
  case Nil
  then show ?case by (auto simp: put_files_def)
next
  case (Cons c cs)
  obtain w1 y where n: "writeNewExclusive E io (fst c) (snd c) w = (w1, y)" by fastforce
  show ?case
  proof (cases y)
    case (Some e)
    then have "w1 = w" using n Cons.prems(2) by (auto simp: writeNewExclusive_def split: if_splits option.splits)
    moreover have "fold (remove_file io) made w = v"
      using fold_remove [OF Cons.prems(2)] Cons.prems(4,5) by (auto simp: fun_eq_iff)
    ultimately have "w' = put_files (rev (rev backups)) v" "x = Some e"
      using Cons.prems(1,3) n Some fold_write [of "rev backups" "io_restore io" v] by (simp_all add: revert_patch_def)
    then show ?thesis by simp
  next
    case None
    then have o: "ed_real E (fst c) = Inr (fst c)" "w (fst c) = None" "w1 = w(fst c \<mapsto> RegularFile (snd c) 420)"
      using n by (auto simp: writeNewExclusive_def split: if_splits option.splits)
    have run: "create_files E io backups (fst c # made) cs w1 = (w', x)" using Cons.prems(1) n None by simp
    have v: "v (fst c) = None" using Cons.prems(4,5) o(2) by metis
    have "\<forall>q \<in> set (fst c # made). v q = None" "\<forall>q. q \<notin> set (fst c # made) \<longrightarrow> w1 q = v q"
      using v Cons.prems(4,5) o(3) by simp_all
    note ih = Cons.IH [OF run Cons.prems(2,3) this]
    show ?thesis
    proof (cases x)
      case (Some z)
      with ih show ?thesis by simp
    next
      case None
      with ih have i: "distinct (map fst cs)" "\<forall>d \<in> set cs. ed_real E (fst d) = Inr (fst d) \<and> w1 (fst d) = None"
        "w' = put_files (map created cs) w1" by simp_all
      have nc: "fst c \<notin> fst ` set cs" using i(2) o(3) by auto
      have "w (fst d) = None" if "d \<in> set cs" for d
        using i(2) that o(3) by (metis fun_upd_apply option.distinct(1))
      moreover have "put_files (map created cs) w1 = put_files (map created (c # cs)) w"
        using nc o(3) put_files_other [of "fst c" "map created cs" w]
        by (auto simp: put_files_Cons created_def put_files_def fun_eq_iff image_image split: option.splits dest!: map_of_SomeD)
      ultimately show ?thesis using None i o nc by simp
    qed
  qed
qed

lemma existing_written:
  assumes "plan_files E io w fs = (w2, Inr pl)" and "links_ok E" and "\<forall>p. io_undo io p = None"
    and "Engine_Apply E io w2 (pl_edits pl) = (w3, Inr rs)"
  obtains ps where "prepare_all E io w2 [] (pl_edits pl) = Inr ps" "pf_path ` set ps = fst ` set (pl_backups pl)"
    "\<forall>p \<in> set ps. w3 (pf_path p) = Some (RegularFile (pf_after p) (pf_mode p))"
    "\<forall>q. q \<notin> pf_path ` set ps \<longrightarrow> w3 q = w2 q"
proof -
  obtain ps where ps: "prepare_all E io w2 [] (pl_edits pl) = Inr ps" "w3 = put_files (rev (map after_of ps)) w2"
    using Engine_Apply_cases [OF assms(4,2,3)] by auto
  note q = prepare_all_Inr [OF ps(1) assms(2)]
  have two: "list_all2 (\<lambda>e b. leads_to E (fe_path e) (fst b)) (pl_edits pl) (pl_backups pl)"
    using plan_files_Inr [OF assms(1,2)] by blast
  have "list_all2 (\<lambda>p e. leads_to E (fe_path e) (pf_path p)) ps (map pf_input ps)"
    unfolding list.rel_map list_all2_same leads_to_def using q by blast
  then have "list_all2 (\<lambda>p e. leads_to E (fe_path e) (pf_path p)) ps (pl_edits pl)" using q by simp
  then have "list_all2 (\<lambda>p b. pf_path p = fst b) ps (pl_backups pl)"
    by (rule list_all2_trans [OF _ _ two, rotated]) (rule leads_to_unique)
  then have "map pf_path ps = map fst (pl_backups pl)" by (simp add: list_all2_conv_all_nth list_eq_iff_nth_eq)
  then have s: "pf_path ` set ps = fst ` set (pl_backups pl)" by (metis list.set_map)
  have d: "distinct (map fst (map after_of ps))" using q by (simp add: after_of_def o_def)
  have mem: "w3 (pf_path p) = Some (RegularFile (pf_after p) (pf_mode p))" if "p \<in> set ps" for p
    using put_files_mem [OF d, of "after_of p" w2] that ps(2) by (simp add: after_of_def)
  have other: "w3 x = w2 x" if "x \<notin> pf_path ` set ps" for x
    using put_files_other [of x "rev (map after_of ps)" w2] that ps(2) by (simp add: after_of_def image_image)
  show ?thesis using that [OF ps(1) s] mem other by blast
qed

definition apply_existing ::
  "('z) edenv_scheme \<Rightarrow> edit_io \<Rightarrow> ws_state \<Rightarrow> patch_plan \<Rightarrow> ws_state \<times> (edit_error + file_result list option)" where
  "apply_existing E io w pl = (if pl_edits pl = [] then (w, Inr None)
     else case Engine_Apply E io w (pl_edits pl) of (v, Inl x) \<Rightarrow> (v, Inl x) | (v, Inr rs) \<Rightarrow> (v, Inr (Some rs)))"

lemma apply_existing_only:
  assumes "plan_files E io w fs = (w2, Inr pl)" and "links_ok E" and "\<forall>p. io_undo io p = None"
    and "apply_existing E io w2 pl = (w3, r)"
  shows "(case r of Inl x \<Rightarrow> w3 = w2 | Inr rs \<Rightarrow> \<forall>q. q \<notin> fst ` set (pl_backups pl) \<longrightarrow> w3 q = w2 q)"
proof (cases "pl_edits pl = []")
  case True
  then show ?thesis using assms(4) by (auto simp: apply_existing_def)
next
  case False
  obtain v x where a: "Engine_Apply E io w2 (pl_edits pl) = (v, x)" by fastforce
  show ?thesis
  proof (cases x)
    case (Inl y)
    with a assms(4) False have "w3 = v" "r = Inl y" by (simp_all add: apply_existing_def)
    with Engine_Apply_cases [OF a assms(2,3)] Inl show ?thesis by simp
  next
    case (Inr rs)
    with a assms(4) False have "w3 = v" "r = Inr (Some rs)" by (simp_all add: apply_existing_def)
    then show ?thesis using existing_written [OF assms(1-3) a [unfolded Inr]] by auto
  qed
qed

text \<open>
  C23. \<open>ApplyPatchSet\<close> is atomic and yields to the user: when it refuses or fails, and the rollback can write, no file
  differs from what other processes left there between validation and application; at most directories were
  added.
\<close>

theorem ApplyPatchSet_failure:
  assumes "ApplyPatchSet E io now user id w0 s0 = (w', s, Inl x)" and "links_ok E"
    and "\<forall>p. io_undo io p = None \<and> io_remove io p = None \<and> io_restore io p = None"
  shows "dirs_added w0 w' \<or> dirs_added (user (fst (ValidatePatchSet E io now w0 s0))) w'"
proof -
  obtain w1 t y where v: "ValidatePatchSet E io now w0 s0 = (w1, t, y)" by (metis prod_cases3)
  obtain w2 r where p: "plan_files E io (user w1) (ps_files t) = (w2, r)" by fastforce
  have d1: "dirs_added w0 w1" by (rule Validate_dirs [OF v])
  have d2: "dirs_added (user w1) w2" by (rule plan_files_dirs [OF p])
  consider (refused) e where "y = Some e" | (unplanned) st e where "y = None" "r = Inl (st, e)" | (plan) pl where "y = None" "r = Inr pl"
    by (cases y; cases r) auto
  then show ?thesis
  proof cases
    case refused
    then show ?thesis using assms(1) v d1 by (simp add: ApplyPatchSet_def)
  next
    case unplanned
    then show ?thesis using assms(1) v p d2 by (simp add: ApplyPatchSet_def)
  next
    case plan
    note p' = p [unfolded plan(2)]
    obtain w3 q where a: "apply_existing E io w2 pl = (w3, q)" by fastforce
    have u: "\<forall>p. io_undo io p = None" using assms(3) by simp
    note only = apply_existing_only [OF p' assms(2) u a]
    have "w' = w2"
    proof (cases q)
      case (Inl e)
      then show ?thesis using assms(1) v p plan a only
        by (simp add: ApplyPatchSet_def apply_existing_def [symmetric] split: prod.splits)
    next
      case (Inr rs)
      obtain w4 z where c: "create_files E io (pl_backups pl) [] (pl_creates pl) w3 = (w4, z)" by fastforce
      have "w' = w4 \<and> z \<noteq> None" using assms(1) v p plan a Inr c
        by (auto simp: ApplyPatchSet_def apply_existing_def [symmetric] split: prod.splits option.splits)
      moreover have "case z of Some y \<Rightarrow> w4 = put_files (pl_backups pl) w3 | None \<Rightarrow> True"
        using create_files_cases [OF c, of w3] assms(3) by (auto split: option.splits)
      moreover have "put_files (pl_backups pl) w3 = put_files (pl_backups pl) w2"
        using only Inr by (intro put_files_overwrite) simp
      moreover have "put_files (pl_backups pl) w2 = w2"
        using plan_files_Inr [OF p' assms(2)] by (intro put_files_id) auto
      ultimately show ?thesis by auto
    qed
    then show ?thesis using d2 v by simp
  qed
qed


definition patched :: "('z) edenv_scheme \<Rightarrow> ws_state \<Rightarrow> ws_state \<Rightarrow> patch_file \<Rightarrow> string \<Rightarrow> bool" where
  "patched E w w' f p \<longleftrightarrow>
     (if pa_absent f then w p = None \<and> w' p = Some (RegularFile (case pa_content f of None \<Rightarrow> [] | Some d \<Rightarrow> d) 420)
      else \<exists>b m t. w p = Some (RegularFile b m) \<and> sha256hex E b = pa_hash f \<and> w' p = Some (RegularFile t m) \<and>
        (\<forall>c. pa_content f = Some c \<longrightarrow> t = c))"

lemma sort_single: "sorts_edits E \<Longrightarrow> ed_sort E [e] = [e]"
  unfolding sorts_edits_def by (metis mset_single_iff_right mset.simps add_mset_add_single)

lemma full_replacement:
  assumes "prepare_file E io w seen f = Inr p" and "sorts_edits E"
    and "fe_edits f = [fullReplacementEdit (length (pf_before p)) c]"
  shows "pf_after p = c"
proof -
  have "normalize_all (pf_before p) (fe_edits f) = Inr [(0, int (length (pf_before p)), c)]"
    using assms(3) by (simp add: normalizeEdit_def edit_range_def fullReplacementEdit_def)
  then show ?thesis
    using assms(1) sort_single [OF assms(2)] by (auto simp: prepare_file_def Let_def split: if_splits sum.splits)
qed

lemma prepare_all_each:
  "prepare_all E io w seen fs = Inr ps \<Longrightarrow> p \<in> set ps \<Longrightarrow> \<exists>sn. prepare_file E io w sn (pf_input p) = Inr p"
proof (induction fs arbitrary: seen ps)
  case (Cons f fs)
  then obtain q qs where q: "prepare_file E io w seen f = Inr q" "prepare_all E io w (pf_path q # seen) fs = Inr qs" "ps = q # qs"
    by (auto split: sum.splits)
  have "pf_input q = f" using q(1) by (auto simp: prepare_file_def Let_def split: if_splits sum.splits)
  with q Cons show ?case by auto
qed simp

text \<open>The plan, carried out: every file of the patch has its new text, every other path is as it was.\<close>

lemma plan_carried_out:
  assumes "plan_files E io w fs = (w2, Inr pl)" and "links_ok E" and "sorts_edits E"
    and "\<forall>p. io_undo io p = None \<and> io_remove io p = None \<and> io_restore io p = None"
    and "apply_existing E io w2 pl = (w3, Inr rs)"
    and "create_files E io (pl_backups pl) [] (pl_creates pl) w3 = (w', None)"
  shows "\<forall>f \<in> set fs. \<exists>p. leads_to E (pa_path f) p \<and> fs_inside E p \<and> patched E w2 w' f p"
    and "\<forall>q. (\<forall>f \<in> set fs. \<not> leads_to E (pa_path f) q) \<longrightarrow> w' q = w2 q"
proof -
  note P = plan_files_Inr [OF assms(1,2)]
  have u: "\<forall>p. io_undo io p = None" using assms(4) by simp
  have only: "\<forall>q. q \<notin> fst ` set (pl_backups pl) \<longrightarrow> w3 q = w2 q"
    using apply_existing_only [OF assms(1,2) u assms(5)] by simp
  have bak: "w2 p = Some (RegularFile b m) \<and> fs_inside E p" if "(p, b, m) \<in> set (pl_backups pl)" for p b m using P that by auto
  have C: "distinct (map fst (pl_creates pl))" "\<forall>c \<in> set (pl_creates pl). ed_real E (fst c) = Inr (fst c) \<and> w3 (fst c) = None"
    "w' = put_files (map created (pl_creates pl)) w3"
    using create_files_cases [OF assms(6), of w3] assms(4) by simp_all
  have bk: "w3 p \<noteq> None" if "p \<in> fst ` set (pl_backups pl)" for p
  proof (cases "pl_edits pl = []")
    case True
    then show ?thesis using assms(5) that bak by (auto simp: apply_existing_def)
  next
    case False
    then obtain rs' where e: "Engine_Apply E io w2 (pl_edits pl) = (w3, Inr rs')"
      using assms(5) by (auto simp: apply_existing_def split: prod.splits sum.splits)
    obtain ps where "prepare_all E io w2 [] (pl_edits pl) = Inr ps" and b: "pf_path ` set ps = fst ` set (pl_backups pl)"
        and m: "\<forall>p \<in> set ps. w3 (pf_path p) = Some (RegularFile (pf_after p) (pf_mode p))"
        and "\<forall>q. q \<notin> pf_path ` set ps \<longrightarrow> w3 q = w2 q"
      by (rule existing_written [OF assms(1,2) u e])
    from b that obtain x where "x \<in> set ps" "p = pf_path x" by blast
    with m show ?thesis by simp
  qed
  have new: "leads_to E (pa_path f) p \<and> w2 p = None \<and> fs_inside E p" if c: "(p, d) \<in> set (pl_creates pl)" and f: "create_at E w2 f p" for p d f
  proof -
    have r: "ed_real E p = Inr p" "w3 p = None" using C(2) c by auto
    then have n: "w2 p = None" using only bk by metis
    obtain cc where cc: "fs_lexical E (pa_path f) = Inr cc" "new_name E cc p" using f n by (auto simp: create_at_def)
    have "ed_real E cc = Inr p" using new_name_real [OF assms(2) cc] r(1) by simp
    moreover have "fs_inside E p" using new_name_inside [OF links_root [OF assms(2)] _ _ cc(2)] lexical_abs [OF links_root [OF assms(2)] cc(1)] by blast
    ultimately show ?thesis using n cc(1) by (auto simp: leads_to_def)
  qed
  have other: "w' q = w3 q" if "q \<notin> fst ` set (pl_creates pl)" for q
    using put_files_other [of q "map created (pl_creates pl)" w3] that C(3) by (simp add: created_def image_image)
  show "\<forall>f \<in> set fs. \<exists>p. leads_to E (pa_path f) p \<and> fs_inside E p \<and> patched E w2 w' f p"
  proof
    fix f assume "f \<in> set fs"
    then have pl: "planned E w2 f pl" using P by blast
    show "\<exists>p. leads_to E (pa_path f) p \<and> fs_inside E p \<and> patched E w2 w' f p"
    proof (cases "pa_absent f")
      case True
      let ?d = "case pa_content f of None \<Rightarrow> [] | Some d \<Rightarrow> d"
      obtain p where p: "(p, ?d) \<in> set (pl_creates pl)" "create_at E w2 f p"
        using pl True by (auto simp: planned_def)
      have "distinct (map fst (map created (pl_creates pl)))" using C(1) by (simp add: created_def o_def)
      then have "map_of (map created (pl_creates pl)) p = Some (?d, 420)"
        using p(1) by (intro map_of_is_SomeI) (force simp: created_def)+
      then have "w' p = Some (RegularFile ?d 420)" using C(3) by (simp add: put_files_def)
      then show ?thesis using new [OF p] True by (intro exI [of _ p]) (simp add: patched_def)
    next
      case False
      then obtain p b m es where p: "leads_to E (pa_path f) p" "sha256hex E b = pa_hash f" "(p, b, m) \<in> set (pl_backups pl)"
          "es = (case pa_content f of Some c \<Rightarrow> [fullReplacementEdit (length b) c] | None \<Rightarrow> pa_edits f)"
          "\<lparr>fe_path = pa_path f, fe_hash = pa_hash f, fe_edits = es\<rparr> \<in> set (pl_edits pl)"
        using pl by (auto simp: planned_def)
      then obtain rs' where a: "Engine_Apply E io w2 (pl_edits pl) = (w3, Inr rs')"
        using assms(5) by (auto simp: apply_existing_def split: prod.splits sum.splits if_splits)
      obtain ps where ps: "prepare_all E io w2 [] (pl_edits pl) = Inr ps" "pf_path ` set ps = fst ` set (pl_backups pl)"
          "\<forall>p \<in> set ps. w3 (pf_path p) = Some (RegularFile (pf_after p) (pf_mode p))"
          "\<forall>q. q \<notin> pf_path ` set ps \<longrightarrow> w3 q = w2 q"
        by (rule existing_written [OF assms(1,2) u a])
      have q: "map pf_input ps = pl_edits pl" "\<forall>p \<in> set ps. w2 (pf_path p) = Some (RegularFile (pf_before p) (pf_mode p)) \<and>
          (\<exists>c. fs_lexical E (fe_path (pf_input p)) = Inr c \<and> ed_real E c = Inr (pf_path p))"
        using prepare_all_Inr [OF ps(1) assms(2)] by blast+
      obtain x where x: "x \<in> set ps" "pf_input x = \<lparr>fe_path = pa_path f, fe_hash = pa_hash f, fe_edits = es\<rparr>"
        using p(5) unfolding q(1) [symmetric] by auto
      have "leads_to E (pa_path f) (pf_path x)" using q(2) x by (auto simp: leads_to_def)
      then have xp: "pf_path x = p" using p(1) leads_to_unique by blast
      have bm: "pf_before x = b" "pf_mode x = m" using q(2) x(1) xp bak [OF p(3)] by auto
      have "p \<notin> fst ` set (pl_creates pl)" using C(2) bk p(3) by force
      then have w': "w' p = Some (RegularFile (pf_after x) m)" using other ps(3) x(1) xp bm by force
      obtain sn where sn: "prepare_file E io w2 sn (pf_input x) = Inr x" using prepare_all_each [OF ps(1) x(1)] by blast
      have "pf_after x = c" if "pa_content f = Some c" for c
        by (rule full_replacement [OF sn assms(3)]) (use x(2) p(4) that bm in simp)
      then show ?thesis using p(1,2) bak [OF p(3)] w' False by (intro exI [of _ p]) (auto simp: patched_def)
    qed
  qed
  show "\<forall>q. (\<forall>f \<in> set fs. \<not> leads_to E (pa_path f) q) \<longrightarrow> w' q = w2 q"
  proof (intro allI impI)
    fix q assume n: "\<forall>f \<in> set fs. \<not> leads_to E (pa_path f) q"
    have "q \<notin> fst ` set (pl_backups pl)" using P n by blast
    moreover have "q \<notin> fst ` set (pl_creates pl)"
    proof
      assume "q \<in> fst ` set (pl_creates pl)"
      then obtain d where d: "(q, d) \<in> set (pl_creates pl)" by auto
      then obtain f where "f \<in> set fs" "create_at E w2 f q" using P by fastforce
      with new [OF d] n show False by blast
    qed
    ultimately show "w' q = w2 q" using only other by metis
  qed
qed


text \<open>
  C5. A patch set that is applied has been applied as a whole: each file it names was, at that moment, absent or
  had exactly the expected hash, lies in the workspace whatever links there are, now has the new text (and its
  old mode), and no other path differs. An edit the
  user makes after the patch was prepared is never overwritten.
\<close>

theorem ApplyPatchSet_success:
  assumes "ApplyPatchSet E io now user id w0 s0 = (w', s, Inr res)" and "links_ok E" and "sorts_edits E"
    and "\<forall>p. io_undo io p = None \<and> io_remove io p = None \<and> io_restore io p = None"
  shows "ps_state s = PatchApplied \<and> (\<exists>w2. dirs_added (user (fst (ValidatePatchSet E io now w0 s0))) w2 \<and>
    (\<forall>f \<in> set (ps_files s). \<exists>p. leads_to E (pa_path f) p \<and> fs_inside E p \<and> patched E w2 w' f p) \<and>
    (\<forall>q. (\<forall>f \<in> set (ps_files s). \<not> leads_to E (pa_path f) q) \<longrightarrow> w' q = w2 q))"
proof -
  obtain w1 t y where v: "ValidatePatchSet E io now w0 s0 = (w1, t, y)" by (metis prod_cases3)
  obtain w2 r where p: "plan_files E io (user w1) (ps_files t) = (w2, r)" by fastforce
  have y: "y = None" using assms(1) v by (auto simp: ApplyPatchSet_def split: option.splits)
  then obtain pl where pl: "r = Inr pl" using assms(1) v p by (cases r) (auto simp: ApplyPatchSet_def)
  obtain w3 q where a: "apply_existing E io w2 pl = (w3, q)" by fastforce
  obtain rs where q: "q = Inr rs"
    using assms(1) v y p pl a by (cases q) (auto simp: ApplyPatchSet_def apply_existing_def [symmetric] split: prod.splits)
  obtain w4 z where c: "create_files E io (pl_backups pl) [] (pl_creates pl) w3 = (w4, z)" by fastforce
  have z: "z = None \<and> w4 = w' \<and> ps_files s = ps_files t \<and> ps_state s = PatchApplied"
    using assms(1) v y p pl a q c
    by (auto simp: ApplyPatchSet_def apply_existing_def [symmetric] split: prod.splits option.splits)
  note co = plan_carried_out [OF p [unfolded pl] assms(2,3,4) a [unfolded q], of w']
  show ?thesis using co c z v plan_files_dirs [OF p] by auto
qed

section \<open>The theorems at work\<close>

lemma path_dir_clean:
  assumes "is_abs c"
  shows "is_abs (path_dir c) \<and> path_clean (path_dir c) = path_dir c"
proof -
  have "slash \<in> set c" using assms by (auto simp: is_abs_def has_prefix_def) (cases c; simp)
  then obtain y b where c: "c = y @ slash # b" "path_dir c = path_clean (y @ [slash])" by (rule last_slash)
  have "is_abs (y @ [slash])" using assms c(1) by (cases y) (auto simp: is_abs_def has_prefix_def)
  then show ?thesis using abs_clean c(2) by metis
qed

lemma demo_links: "links_ok demo_edenv"
proof -
  have r: "root_ok demo_edenv"
  proof -
    have "is_abs ''/w''" "path_clean ''/w'' = ''/w''" by code_simp+
    then show ?thesis using abs_clean by (auto simp: root_ok_def demo_edenv_def demo_real_def split: if_splits)
  qed
  have "ed_real demo_edenv (path_join d (path_base c)) = ed_real demo_edenv c"
    if c: "is_abs c" "path_clean c = c" "ed_real demo_edenv (path_dir c) = Inr d" for c d
  proof -
    have "d = path_dir c" using c(3) path_dir_clean [OF c(1)] by (simp add: demo_edenv_def demo_real_def)
    then show ?thesis using dir_base_join [OF c(1,2)] by simp
  qed
  moreover have "ed_real demo_edenv c = Inr r \<Longrightarrow> ed_real demo_edenv r = Inr r" for c r
    using abs_clean by (auto simp: demo_edenv_def demo_real_def split: if_splits)
  ultimately show ?thesis using r unfolding links_ok_def by blast
qed

text \<open>Two files, the second of which cannot be written.\<close>

definition two_files :: ws_state where "two_files = demo_ws(''/w/b'' \<mapsto> RegularFile ''one two'' 493)"

definition no_write_b :: edit_io where
  "no_write_b = no_faults\<lparr>io_write := (\<lambda>p. if p = ''/w/b'' then Some ''disk full'' else None)\<rparr>"

lemma no_undo_faults: "\<forall>p. io_undo no_write_b p = None" "\<forall>p. io_undo no_faults p = None"
  by (simp_all add: no_write_b_def no_faults_def)

theorem Engine_Apply_all_or_nothing_witness:
  "Engine_Apply demo_edenv no_write_b two_files [demo_edits, demo_edits\<lparr>fe_path := ''b''\<rparr>] = (two_files, Inl (EditMsg ''disk full''))"
proof -
  let ?r = "Engine_Apply demo_edenv no_write_b two_files [demo_edits, demo_edits\<lparr>fe_path := ''b''\<rparr>]"
  have "snd ?r = Inl (EditMsg ''disk full'')" by code_simp
  then obtain w' where r: "?r = (w', Inl (EditMsg ''disk full''))" by (cases ?r) auto
  from Engine_Apply_all_or_nothing [OF r demo_links no_undo_faults(1)] r show ?thesis by simp
qed

text \<open>A patch set with an edit, a replacement and a new file.\<close>

definition demo_provenance :: patch_provenance where
  "demo_provenance = \<lparr>pp_task = ''t'', pp_agent = ''g'', pp_activation = [], pp_worktree = [], pp_trace = []\<rparr>"

definition demo_patch :: patch_set where
  "demo_patch = \<lparr>ps_id = ''p'', ps_base = [], ps_prov = demo_provenance, ps_files = [
     \<lparr>pa_path = ''a'', pa_hash = demo_hash ''one two'', pa_absent = False, pa_edits = [offset_edit 0 3 ''1''], pa_content = None\<rparr>,
     \<lparr>pa_path = ''sub/c'', pa_hash = [], pa_absent = True, pa_edits = [], pa_content = Some ''text''\<rparr>],
     ps_state = [], ps_created = 0, ps_updated = 0, ps_refs = [], ps_failure = []\<rparr>"

definition no_fill :: edit_io where "no_fill = no_faults\<lparr>io_fill := (\<lambda>_. Some ''disk full'')\<rparr>"

lemma patch_io:
  "\<forall>p. io_undo no_fill p = None \<and> io_remove no_fill p = None \<and> io_restore no_fill p = None"
  "\<forall>p. io_undo no_faults p = None \<and> io_remove no_faults p = None \<and> io_restore no_faults p = None"
  by (simp_all add: no_fill_def no_faults_def)

theorem ApplyPatchSet_failure_witness:
  "\<exists>w' s. ApplyPatchSet demo_edenv no_fill 9 id id demo_ws demo_patch = (w', s, Inl (EditMsg ''disk full'')) \<and>
     w' ''/w/a'' = Some (RegularFile ''one two'' 420)"
proof -
  let ?r = "ApplyPatchSet demo_edenv no_fill 9 id id demo_ws demo_patch"
  let ?v = "fst (ValidatePatchSet demo_edenv no_fill 9 demo_ws demo_patch)"
  have "snd (snd ?r) = Inl (EditMsg ''disk full'')" by code_simp
  then obtain w' s where r: "?r = (w', s, Inl (EditMsg ''disk full''))" by (metis prod.collapse)
  have v: "?v ''/w/a'' = Some (RegularFile ''one two'' 420)" "demo_ws ''/w/a'' = Some (RegularFile ''one two'' 420)" by code_simp+
  from ApplyPatchSet_failure [OF r demo_links patch_io(1)] have "dirs_added demo_ws w' \<or> dirs_added ?v w'" by simp
  then have "w' ''/w/a'' = Some (RegularFile ''one two'' 420)"
    using dirs_added_file [of demo_ws w'] dirs_added_file [of ?v w'] v by blast
  with r show ?thesis by blast
qed

theorem ApplyPatchSet_success_witness:
  "\<exists>w' s res. ApplyPatchSet demo_edenv no_faults 9 id id demo_ws demo_patch = (w', s, Inr res) \<and> ps_state s = PatchApplied \<and>
     (\<exists>p. leads_to demo_edenv ''a'' p \<and> fs_inside demo_edenv p \<and> w' p \<noteq> demo_ws p) \<and> w' ''/'' = Some Directory"
proof -
  let ?r = "ApplyPatchSet demo_edenv no_faults 9 id id demo_ws demo_patch"
  have "\<not> isl (snd (snd ?r)) \<and> map pa_path (ps_files (fst (snd ?r))) = [''a'', ''sub/c'']" by code_simp
  then obtain w' s res where r: "?r = (w', s, Inr res)" "map pa_path (ps_files s) = [''a'', ''sub/c'']"
    by (metis isl_def prod.collapse sum.exhaust_sel fst_conv snd_conv)
  have w': "w' ''/w/a'' = Some (RegularFile ''1 two'' 420) \<and> w' ''/'' = Some Directory"
  proof -
    have "fst ?r ''/w/a'' = Some (RegularFile ''1 two'' 420)" "fst ?r ''/'' = Some Directory" by code_simp+
    with r(1) show ?thesis by simp
  qed
  obtain f where "f \<in> set (ps_files s)" "pa_path f = ''a''" using r(2) by (cases "ps_files s") auto
  with ApplyPatchSet_success [OF r(1) demo_links demo_sorts patch_io(2)]
  obtain p where st: "ps_state s = PatchApplied" and p: "leads_to demo_edenv ''a'' p" "fs_inside demo_edenv p" by metis
  have "fs_lexical demo_edenv ''a'' = Inr ''/w/a''" "ed_real demo_edenv ''/w/a'' = Inr ''/w/a''" by code_simp+
  with p(1) have "p = ''/w/a''" by (auto simp: leads_to_def)
  then have "w' p \<noteq> demo_ws p" using w' by (simp add: demo_ws_def)
  with r(1) st p w' show ?thesis by blast
qed

text \<open>
  Known faults. Directories are created before the links of the path are checked, so a refused path has left a
  directory outside the workspace; and validating a patch set, said to be without mutation, creates the
  directories of its new files.
\<close>

definition link_real :: "string \<Rightarrow> edit_error + string" where
  "link_real c = (if has_prefix c ''/w/link'' then Inr (''/out'' @ drop 7 c) else demo_real c)"

definition link_env :: edenv where "link_env = demo_edenv\<lparr>ed_real := link_real\<rparr>"

lemma WritePath_escapes:
  "case fs_WritePath link_env no_faults (demo_ws(''/out'' \<mapsto> Directory)) ''link/x/f'' of
     (w', r) \<Rightarrow> w' ''/out/x'' = Some Directory \<and> r = Inl (EditMsg ''parent directory escapes PROJECT_ROOT'') \<and> \<not> fs_inside link_env ''/out/x''"
  by code_simp

lemma Validate_mutates:
  "case ValidatePatchSet demo_edenv no_faults 9 demo_ws demo_patch of
     (w', s, r) \<Rightarrow> r = None \<and> demo_ws ''/w/sub'' = None \<and> w' ''/w/sub'' = Some Directory"
  by code_simp

end
