(* ===== verification/Savepoint.thy ===== *)
theory Savepoint
  imports EditingProps EventLog
begin

text \<open>
  Savepoints of agent edits, \<open>internal/editing\<close>: the three-way reconciliation (\<open>reconcile.go\<close>,
  \<open>reconcile_patch.go\<close>), the store that captures the files before and after the edits of an agent
  (\<open>savepoint.go\<close>), the plan that undoes them (\<open>savepoint_rewind.go\<close>) and the review of a batch of changes
  (\<open>review.go\<close>). A manifest is a JSON file that is replaced by a rename, a blob a file named by its hash; both
  are maps from the digests in their paths.
\<close>

section \<open>Reconciliation\<close>

abbreviation "ReconcileAgentOnly \<equiv> ''agent_only''"
abbreviation "ReconcileUserOnly \<equiv> ''user_only''"
abbreviation "ReconcileConverged \<equiv> ''converged''"
abbreviation "ReconcileMerged \<equiv> ''merged''"
abbreviation "ReconcileConflict \<equiv> ''conflict''"

definition maxReconcileFileBytes :: int where "maxReconcileFileBytes = 8388608"

record reconcile_result =
  rr_path :: string
  rr_state :: string
  rr_can :: bool
  rr_base :: string
  rr_latest :: string
  rr_agent :: string
  rr_result :: string
  rr_content :: string
  rr_preview :: string

definition normalizeReconcilePath :: "string \<Rightarrow> edit_error + string" where
  "normalizeReconcilePath p0 =
     (let p1 = trim_space p0 in
      if p1 = [] \<or> is_abs p1 then Inl ErrInvalidReconcileInput
      else let p = path_clean p1 in
        if p = ''.'' \<or> p = ''..'' \<or> has_prefix p ''../'' \<or> str_contains p ''/../'' then Inl ErrInvalidReconcileInput else Inr p)"

definition reconcileBinary :: "string \<Rightarrow> bool" where "reconcileBinary d = (CHR 0x00 \<in> set d)"

text \<open>The closing line of a cut preview, with the ellipsis in UTF-8.\<close>

definition preview_end :: string where
  "preview_end = [CHR 0x0A, CHR 0xE2, CHR 0x80, CHR 0xA6] @ '' conflict preview truncated '' @ [CHR 0xE2, CHR 0x80, CHR 0xA6, CHR 0x0A]"

definition boundConflictPreview :: "string \<Rightarrow> string" where
  "boundConflictPreview d = (if int (length d) \<le> 65536 then d else take (nat 65536) d @ preview_end)"

definition too_large :: "string \<Rightarrow> bool" where "too_large d = (int (length d) > maxReconcileFileBytes)"

definition Reconcile :: "('z) edenv_scheme \<Rightarrow> string \<Rightarrow> string \<Rightarrow> string \<Rightarrow> string \<Rightarrow> edit_error + reconcile_result" where
  "Reconcile E path0 base latest agent =
     (case normalizeReconcilePath path0 of
        Inl x \<Rightarrow> Inl x
      | Inr path \<Rightarrow>
          if too_large base \<or> too_large latest \<or> too_large agent then Inl ErrReconcileTooLarge
          else
            let r = \<lparr>rr_path = path, rr_state = [], rr_can = False, rr_base = sha256hex E base, rr_latest = sha256hex E latest,
                     rr_agent = sha256hex E agent, rr_result = [], rr_content = [], rr_preview = []\<rparr>;
                latestChanged = (latest \<noteq> base); agentChanged = (agent \<noteq> base) in
            if \<not> latestChanged \<and> \<not> agentChanged then Inr (r\<lparr>rr_state := ReconcileConverged, rr_result := rr_latest r\<rparr>)
            else if \<not> latestChanged \<and> agentChanged
              then Inr (r\<lparr>rr_state := ReconcileAgentOnly, rr_can := True, rr_content := agent, rr_result := rr_agent r\<rparr>)
            else if latestChanged \<and> \<not> agentChanged then Inr (r\<lparr>rr_state := ReconcileUserOnly, rr_result := rr_latest r\<rparr>)
            else if latest = agent then Inr (r\<lparr>rr_state := ReconcileConverged, rr_result := rr_latest r\<rparr>)
            else if reconcileBinary base \<or> reconcileBinary latest \<or> reconcileBinary agent
              then Inr (r\<lparr>rr_state := ReconcileConflict\<rparr>)
            else (case ed_merge E latest base agent of
                Inl x \<Rightarrow> Inl x
              | Inr (merged, conflict) \<Rightarrow>
                  if conflict then Inr (r\<lparr>rr_state := ReconcileConflict, rr_preview := boundConflictPreview merged\<rparr>)
                  else Inr (r\<lparr>rr_state := ReconcileMerged, rr_can := True, rr_content := merged, rr_result := sha256hex E merged\<rparr>)))"

definition PatchFileFromReconcile :: "reconcile_result \<Rightarrow> edit_error + patch_file" where
  "PatchFileFromReconcile r =
     (if \<not> rr_can r \<or> rr_result r = [] \<or> rr_latest r = [] then Inl ErrReconcileNotApplicable
      else Inr \<lparr>pa_path = rr_path r, pa_hash = rr_latest r, pa_absent = False, pa_edits = [], pa_content = Some (rr_content r)\<rparr>)"

section \<open>Savepoints\<close>

abbreviation "SavepointCaptured \<equiv> ''captured''"
abbreviation "SavepointSealed \<equiv> ''sealed''"

record savepoint_provenance =
  sv_task :: string
  sv_agent :: string
  sv_activation :: string
  sv_trace :: string
  sv_seq :: u64

record savepoint_entry =
  se_path :: string
  se_before :: bool
  se_bhash :: string
  se_bblob :: string
  se_bmode :: int
  se_after :: bool
  se_ahash :: string
  se_ablob :: string
  se_amode :: int

record savepoint =
  sp_id :: string
  sp_ws :: string
  sp_rev :: u64
  sp_state :: string
  sp_prov :: savepoint_provenance
  sp_entries :: "savepoint_entry list"
  sp_created :: gotime
  sp_updated :: gotime

text \<open>Manifests by the digests of workspace and id, blobs by the digest of the workspace and their hash.\<close>

record savepoint_store =
  st_points :: "string \<times> string \<Rightarrow> savepoint option"
  st_blobs :: "string \<times> string \<Rightarrow> string option"

record savepoint_io =
  sio_load :: "string option"
  sio_ws :: "string \<Rightarrow> string option"
  sio_blob :: "string \<Rightarrow> string option"
  sio_write :: write_outcome

definition savepointDigest :: "('z) goenv_scheme \<Rightarrow> string \<Rightarrow> string" where
  "savepointDigest G v = take 24 (sha256hex G (trim_space v))"

definition manifest_key :: "('z) goenv_scheme \<Rightarrow> string \<Rightarrow> string \<Rightarrow> string \<times> string" where
  "manifest_key G ws i = (savepointDigest G ws, savepointDigest G i)"

definition coerce_entry :: "savepoint_entry \<Rightarrow> savepoint_entry" where
  "coerce_entry e = e\<lparr>se_path := utf8_coerce (se_path e), se_bhash := utf8_coerce (se_bhash e), se_bblob := utf8_coerce (se_bblob e),
     se_ahash := utf8_coerce (se_ahash e), se_ablob := utf8_coerce (se_ablob e)\<rparr>"

definition coerce_savepoint :: "savepoint \<Rightarrow> savepoint" where
  "coerce_savepoint p = p\<lparr>sp_id := utf8_coerce (sp_id p), sp_ws := utf8_coerce (sp_ws p), sp_state := utf8_coerce (sp_state p),
     sp_prov := (sp_prov p)\<lparr>sv_task := utf8_coerce (sv_task (sp_prov p)), sv_agent := utf8_coerce (sv_agent (sp_prov p)),
       sv_activation := utf8_coerce (sv_activation (sp_prov p)), sv_trace := utf8_coerce (sv_trace (sp_prov p))\<rparr>,
     sp_entries := map coerce_entry (sp_entries p)\<rparr>"

definition bad_entry :: "savepoint \<Rightarrow> savepoint_entry \<Rightarrow> bool" where
  "bad_entry p e \<longleftrightarrow> isl (normalizeReconcilePath (se_path e)) \<or> (se_before e \<and> (se_bhash e = [] \<or> se_bblob e = [])) \<or>
     (sp_state p = SavepointSealed \<and> se_after e \<and> (se_ahash e = [] \<or> se_ablob e = []))"

definition validateSavepoint :: "savepoint \<Rightarrow> string \<Rightarrow> string \<Rightarrow> bool" where
  "validateSavepoint p ws i \<longleftrightarrow> \<not> (sp_id p \<noteq> i \<or> sp_ws p \<noteq> ws \<or> sp_rev p = 0 \<or> sp_created p = 0 \<or> sp_updated p = 0 \<or>
     sv_task (sp_prov p) = [] \<or> sp_entries p = []) \<and> (sp_state p = SavepointCaptured \<or> sp_state p = SavepointSealed) \<and>
     \<not> list_ex (bad_entry p) (sp_entries p)"

text \<open>\<open>Load\<close>: \<open>Inr None\<close> is a savepoint that does not exist.\<close>

definition Savepoint_Load :: "('z) goenv_scheme \<Rightarrow> savepoint_io \<Rightarrow> savepoint_store \<Rightarrow> string \<Rightarrow> string \<Rightarrow> edit_error + savepoint option" where
  "Savepoint_Load G io st ws0 i0 =
     (let ws = trim_space ws0; i = trim_space i0 in
      if ws = [] \<or> i = [] then Inl ErrInvalidSavepoint
      else case sio_load io of
        Some t \<Rightarrow> Inl (EditMsg t)
      | None \<Rightarrow> (case st_points st (manifest_key G ws i) of
          None \<Rightarrow> Inr None
        | Some p \<Rightarrow> if validateSavepoint p ws i then Inr (Some p) else Inl ErrInvalidSavepoint))"

definition writeManifest :: "('z) goenv_scheme \<Rightarrow> savepoint_io \<Rightarrow> savepoint \<Rightarrow> savepoint_store \<Rightarrow> savepoint_store \<times> edit_error option" where
  "writeManifest G io p st =
     (let st1 = st\<lparr>st_points := (st_points st)(manifest_key G (sp_ws p) (sp_id p) \<mapsto> coerce_savepoint p)\<rparr> in
      case sio_write io of
        WOk \<Rightarrow> (st1, None)
      | WUnsynced t \<Rightarrow> (st1, Some (EditMsg t))
      | WLost t \<Rightarrow> (st, Some (EditMsg t))
      | WTorn t \<Rightarrow> (st, Some (EditMsg t)))"

definition storeBlob :: "('z) goenv_scheme \<Rightarrow> savepoint_io \<Rightarrow> string \<Rightarrow> string \<Rightarrow> savepoint_store \<Rightarrow> savepoint_store \<times> (edit_error + string)" where
  "storeBlob G io ws d st =
     (let h = sha256hex G d; k = (savepointDigest G ws, h) in
      case st_blobs st k of
        Some old \<Rightarrow> if sha256hex G old \<noteq> h then (st, Inl ErrSavepointBlob) else (st, Inr h)
      | None \<Rightarrow> (case sio_blob io h of
          Some t \<Rightarrow> (st, Inl (EditMsg t))
        | None \<Rightarrow> (st\<lparr>st_blobs := (st_blobs st)(k \<mapsto> d)\<rparr>, Inr h)))"

definition loadBlob :: "('z) goenv_scheme \<Rightarrow> string \<Rightarrow> string \<Rightarrow> savepoint_store \<Rightarrow> edit_error + string" where
  "loadBlob G ws h0 st =
     (let h = trim_space h0 in
      if length h \<noteq> 64 then Inl ErrSavepointBlob
      else case st_blobs st (savepointDigest G ws, h) of
        None \<Rightarrow> Inl (PathMissing h)
      | Some d \<Rightarrow> if sha256hex G d \<noteq> h then Inl ErrSavepointBlob else Inr d)"

text \<open>
  The ancestors of a path that does not exist, from the inside out: the first one that exists must lie in the
  workspace. The candidate is a cleaned absolute path, given by its components, innermost first.
\<close>

fun absent_loop :: "('z) edenv_scheme \<Rightarrow> ws_state \<Rightarrow> string list \<Rightarrow> edit_error option" where
  "absent_loop E w cs =
     (case eval_links E w (slash # str_join [slash] (rev cs)) of
        Inr r \<Rightarrow> if fs_inside E r then None else Some ErrInvalidSavepoint
      | Inl (PathMissing _) \<Rightarrow> (case cs of [] \<Rightarrow> Some ErrInvalidSavepoint | c # ds \<Rightarrow> absent_loop E w ds)
      | Inl x \<Rightarrow> Some x)"

declare absent_loop.simps [simp del]

definition validateAbsentWorkspacePath :: "('z) edenv_scheme \<Rightarrow> ws_state \<Rightarrow> string \<Rightarrow> edit_error option" where
  "validateAbsentWorkspacePath E w rel0 =
     (let rel = trim_space rel0 in
      if unsafe_path rel then Some ErrInvalidSavepoint
      else let c = path_clean (path_join (ed_root E) rel) in
        if \<not> fs_inside E c then Some ErrInvalidSavepoint
        else absent_loop E w (tl (rev (path_comps c))))"

text \<open>\<open>readWorkspace\<close>: the bytes and the mode of a file, or \<open>None\<close> when there is none.\<close>

definition readWorkspace :: "('z) edenv_scheme \<Rightarrow> savepoint_io \<Rightarrow> ws_state \<Rightarrow> string \<Rightarrow> edit_error + (string \<times> int) option" where
  "readWorkspace E io w rel =
     (if IsSensitivePath E rel then Inl (sensitive_error rel)
      else case fs_Existing E w rel of
        Inl (PathMissing _) \<Rightarrow> (case validateAbsentWorkspacePath E w rel of Some x \<Rightarrow> Inl x | None \<Rightarrow> Inr None)
      | Inl x \<Rightarrow> Inl x
      | Inr p \<Rightarrow> (case w p of
          None \<Rightarrow> Inl (PathMissing p)
        | Some Directory \<Rightarrow> Inl ErrInvalidSavepoint
        | Some (RegularFile d m) \<Rightarrow>
            (case sio_ws io p of
               Some t \<Rightarrow> Inl (EditMsg t)
             | None \<Rightarrow> if too_large d then Inl ErrReconcileTooLarge else Inr (Some (d, m)))))"

fun normalize_paths :: "('z) goenv_scheme \<Rightarrow> string list \<Rightarrow> string list \<Rightarrow> string list option" where
  "normalize_paths G out [] = Some out"
| "normalize_paths G out (p0 # ps) =
     (case normalizeReconcilePath p0 of
        Inl x \<Rightarrow> None
      | Inr p \<Rightarrow> if IsSensitivePath G p then None
          else if p \<in> set out then normalize_paths G out ps else normalize_paths G (out @ [p]) ps)"

definition normalizeSavepointPaths :: "('z) goenv_scheme \<Rightarrow> string list \<Rightarrow> edit_error + string list" where
  "normalizeSavepointPaths G ps = (case normalize_paths G [] ps of
      None \<Rightarrow> Inl ErrInvalidSavepoint
    | Some out \<Rightarrow> if out = [] then Inl ErrInvalidSavepoint else Inr (sort out))"

definition new_entry :: "string \<Rightarrow> savepoint_entry" where
  "new_entry p = \<lparr>se_path = p, se_before = False, se_bhash = [], se_bblob = [], se_bmode = 0, se_after = False, se_ahash = [],
     se_ablob = [], se_amode = 0\<rparr>"

definition capture_entry ::
  "('z) edenv_scheme \<Rightarrow> savepoint_io \<Rightarrow> ws_state \<Rightarrow> string \<Rightarrow> string \<Rightarrow> savepoint_store
     \<Rightarrow> savepoint_store \<times> (edit_error + savepoint_entry)" where
  "capture_entry E io w ws p st =
     (case readWorkspace E io w p of
        Inl x \<Rightarrow> (st, Inl x)
      | Inr None \<Rightarrow> (st, Inr (new_entry p))
      | Inr (Some (d, m)) \<Rightarrow> (case storeBlob E io ws d st of
          (st1, Inl x) \<Rightarrow> (st1, Inl x)
        | (st1, Inr h) \<Rightarrow> (st1, Inr ((new_entry p)\<lparr>se_before := True, se_bhash := sha256hex E d, se_bblob := h, se_bmode := m\<rparr>))))"

fun capture_all ::
  "('z) edenv_scheme \<Rightarrow> savepoint_io \<Rightarrow> ws_state \<Rightarrow> string \<Rightarrow> string list \<Rightarrow> savepoint_store
     \<Rightarrow> savepoint_store \<times> (edit_error + savepoint_entry list)" where
  "capture_all E io w ws [] st = (st, Inr [])"
| "capture_all E io w ws (p # ps) st =
     (case capture_entry E io w ws p st of
        (st1, Inl x) \<Rightarrow> (st1, Inl x)
      | (st1, Inr e) \<Rightarrow> (case capture_all E io w ws ps st1 of (st2, Inl x) \<Rightarrow> (st2, Inl x) | (st2, Inr es) \<Rightarrow> (st2, Inr (e # es))))"

record capture_request =
  cq_id :: string
  cq_ws :: string
  cq_prov :: savepoint_provenance
  cq_paths :: "string list"

definition Capture ::
  "('z) edenv_scheme \<Rightarrow> savepoint_io \<Rightarrow> gotime \<Rightarrow> ws_state \<Rightarrow> savepoint_store \<Rightarrow> capture_request
     \<Rightarrow> savepoint_store \<times> (edit_error + savepoint)" where
  "Capture E io now w st q =
     (let i = trim_space (cq_id q); ws = trim_space (cq_ws q); prov = (cq_prov q)\<lparr>sv_task := trim_space (sv_task (cq_prov q))\<rparr> in
      if i = [] \<or> ws = [] \<or> sv_task prov = [] \<or> cq_paths q = [] \<or> length (cq_paths q) > 100 then (st, Inl ErrInvalidSavepoint)
      else case Savepoint_Load E io st ws i of
        Inl x \<Rightarrow> (st, Inl x)
      | Inr (Some _) \<Rightarrow> (st, Inl ErrInvalidSavepoint)
      | Inr None \<Rightarrow> (case normalizeSavepointPaths E (cq_paths q) of
          Inl x \<Rightarrow> (st, Inl x)
        | Inr ps \<Rightarrow> (case capture_all E io w ws ps st of
            (st1, Inl x) \<Rightarrow> (st1, Inl x)
          | (st1, Inr es) \<Rightarrow>
              let p = \<lparr>sp_id = i, sp_ws = ws, sp_rev = 1, sp_state = SavepointCaptured, sp_prov = prov, sp_entries = es,
                       sp_created = now, sp_updated = now\<rparr> in
              (case writeManifest E io p st1 of (st2, Some x) \<Rightarrow> (st2, Inl x) | (st2, None) \<Rightarrow> (st2, Inr p)))))"

definition seal_entry ::
  "('z) edenv_scheme \<Rightarrow> savepoint_io \<Rightarrow> ws_state \<Rightarrow> string \<Rightarrow> (string \<times> string) list \<Rightarrow> savepoint_entry \<Rightarrow> savepoint_store
     \<Rightarrow> savepoint_store \<times> (edit_error + savepoint_entry)" where
  "seal_entry E io w ws expected e st =
     (case map_of expected (se_path e) of
        None \<Rightarrow> (st, Inl ErrInvalidSavepoint)
      | Some h0 \<Rightarrow>
          let h = trim_space h0 in
          (case readWorkspace E io w (se_path e) of
             Inl x \<Rightarrow> (st, Inl x)
           | Inr cur \<Rightarrow>
               if (cur \<noteq> None) \<noteq> (h \<noteq> []) then (st, Inl ErrSavepointStale)
               else (case cur of
                   None \<Rightarrow> (st, Inr (e\<lparr>se_after := False\<rparr>))
                 | Some (d, m) \<Rightarrow>
                     if sha256hex E d \<noteq> h then (st, Inl ErrSavepointStale)
                     else (case storeBlob E io ws d st of
                         (st1, Inl x) \<Rightarrow> (st1, Inl x)
                       | (st1, Inr b) \<Rightarrow> (st1, Inr (e\<lparr>se_after := True, se_ahash := h, se_ablob := b, se_amode := m\<rparr>))))))"

fun seal_all ::
  "('z) edenv_scheme \<Rightarrow> savepoint_io \<Rightarrow> ws_state \<Rightarrow> string \<Rightarrow> (string \<times> string) list \<Rightarrow> savepoint_entry list \<Rightarrow> savepoint_store
     \<Rightarrow> savepoint_store \<times> (edit_error + savepoint_entry list)" where
  "seal_all E io w ws expected [] st = (st, Inr [])"
| "seal_all E io w ws expected (e # es) st =
     (case seal_entry E io w ws expected e st of
        (st1, Inl x) \<Rightarrow> (st1, Inl x)
      | (st1, Inr f) \<Rightarrow> (case seal_all E io w ws expected es st1 of (st2, Inl x) \<Rightarrow> (st2, Inl x) | (st2, Inr fs) \<Rightarrow> (st2, Inr (f # fs))))"

text \<open>\<open>expected\<close> is the map of the caller, an association list with distinct keys.\<close>

definition Seal ::
  "('z) edenv_scheme \<Rightarrow> savepoint_io \<Rightarrow> gotime \<Rightarrow> ws_state \<Rightarrow> savepoint_store \<Rightarrow> string \<Rightarrow> string \<Rightarrow> u64 \<Rightarrow> (string \<times> string) list
     \<Rightarrow> savepoint_store \<times> (edit_error + savepoint)" where
  "Seal E io now w st ws i rv expected =
     (case Savepoint_Load E io st ws i of
        Inl x \<Rightarrow> (st, Inl x)
      | Inr None \<Rightarrow> (st, Inl ErrSavepointMissing)
      | Inr (Some p) \<Rightarrow>
          if rv = 0 \<or> sp_rev p \<noteq> rv then (st, Inl ErrSavepointStale)
          else if sp_state p \<noteq> SavepointCaptured then (st, Inl ErrSavepointState)
          else if length expected \<noteq> length (sp_entries p) then (st, Inl ErrInvalidSavepoint)
          else (case seal_all E io w (sp_ws p) expected (sp_entries p) st of
              (st1, Inl x) \<Rightarrow> (st1, Inl x)
            | (st1, Inr es) \<Rightarrow>
                let p1 = p\<lparr>sp_rev := sp_rev p + 1, sp_state := SavepointSealed, sp_entries := es, sp_updated := now\<rparr> in
                (case writeManifest E io p1 st1 of (st2, Some x) \<Rightarrow> (st2, Inl x) | (st2, None) \<Rightarrow> (st2, Inr p1))))"


section \<open>The rewind plan\<close>

record guarded_delete =
  gd_path :: string
  gd_hash :: string

record savepoint_conflict =
  sc_path :: string
  sc_reason :: string
  sc_hash :: string

record rewind_plan =
  rp_id :: string
  rp_rev :: u64
  rp_patch :: patch_set
  rp_deletes :: "guarded_delete list"
  rp_conflicts :: "savepoint_conflict list"
  rp_noops :: "string list"
  rp_can :: bool

definition sameSavepointState :: "savepoint_entry \<Rightarrow> bool" where
  "sameSavepointState e =
     (if se_before e \<noteq> se_after e then False
      else if \<not> se_before e then True
      else trim_space (se_bhash e) \<noteq> [] \<and> se_bhash e = se_ahash e)"

text \<open>What one entry contributes to the plan.\<close>

datatype rewind_item = RwNoop string | RwConflict savepoint_conflict | RwPatch patch_file | RwDelete guarded_delete

definition rewind_conflict :: "string \<Rightarrow> string \<Rightarrow> string \<Rightarrow> rewind_item" where
  "rewind_conflict p reason h = RwConflict \<lparr>sc_path = p, sc_reason = reason, sc_hash = h\<rparr>"

definition rewind_modified ::
  "('z) edenv_scheme \<Rightarrow> savepoint_store \<Rightarrow> string \<Rightarrow> savepoint_entry \<Rightarrow> string \<Rightarrow> edit_error + rewind_item" where
  "rewind_modified E st ws e cur =
     (if sha256hex E cur = se_bhash e then Inr (RwNoop (se_path e))
      else case loadBlob E ws (se_bblob e) st of
        Inl x \<Rightarrow> Inl x
      | Inr before \<Rightarrow> (case loadBlob E ws (se_ablob e) st of
          Inl x \<Rightarrow> Inl x
        | Inr after \<Rightarrow> (case Reconcile E (se_path e) after cur before of
            Inl x \<Rightarrow> Inl x
          | Inr r \<Rightarrow>
              if rr_state r = ReconcileConflict then Inr (rewind_conflict (se_path e) ''overlapping_user_change'' (sha256hex E cur))
              else if rr_can r then map_sum id RwPatch (PatchFileFromReconcile r)
              else Inr (RwNoop (se_path e)))))"

definition rewind_entry ::
  "('z) edenv_scheme \<Rightarrow> savepoint_io \<Rightarrow> ws_state \<Rightarrow> savepoint_store \<Rightarrow> string \<Rightarrow> savepoint_entry \<Rightarrow> edit_error + rewind_item" where
  "rewind_entry E io w st ws e =
     (if sameSavepointState e then Inr (RwNoop (se_path e))
      else case readWorkspace E io w (se_path e) of
        Inl x \<Rightarrow> Inl x
      | Inr cur \<Rightarrow>
          if se_before e \<and> se_after e then
            (case cur of
               None \<Rightarrow> Inr (rewind_conflict (se_path e) ''current_file_missing'' [])
             | Some (d, m) \<Rightarrow> rewind_modified E st ws e d)
          else if se_before e \<and> \<not> se_after e then
            (case cur of
               Some (d, m) \<Rightarrow>
                 if sha256hex E d = se_bhash e then Inr (RwNoop (se_path e))
                 else Inr (rewind_conflict (se_path e) ''path_recreated_after_agent_delete'' (sha256hex E d))
             | None \<Rightarrow> (case loadBlob E ws (se_bblob e) st of
                 Inl x \<Rightarrow> Inl x
               | Inr before \<Rightarrow> Inr (RwPatch \<lparr>pa_path = se_path e, pa_hash = [], pa_absent = True, pa_edits = [], pa_content = Some before\<rparr>)))
          else if \<not> se_before e \<and> se_after e then
            (case cur of
               None \<Rightarrow> Inr (RwNoop (se_path e))
             | Some (d, m) \<Rightarrow>
                 if sha256hex E d \<noteq> se_ahash e
                 then Inr (rewind_conflict (se_path e) ''agent_created_file_changed_by_user'' (sha256hex E d))
                 else Inr (RwDelete \<lparr>gd_path = se_path e, gd_hash = sha256hex E d\<rparr>))
          else Inr (RwNoop (se_path e)))"

fun rewind_items ::
  "('z) edenv_scheme \<Rightarrow> savepoint_io \<Rightarrow> ws_state \<Rightarrow> savepoint_store \<Rightarrow> string \<Rightarrow> savepoint_entry list \<Rightarrow> edit_error + rewind_item list" where
  "rewind_items E io w st ws [] = Inr []"
| "rewind_items E io w st ws (e # es) =
     (case rewind_entry E io w st ws e of
        Inl x \<Rightarrow> Inl x
      | Inr i \<Rightarrow> (case rewind_items E io w st ws es of Inl x \<Rightarrow> Inl x | Inr is \<Rightarrow> Inr (i # is)))"

definition item_patches :: "rewind_item list \<Rightarrow> patch_file list" where
  "item_patches is = List.map_filter (\<lambda>i. case i of RwPatch f \<Rightarrow> Some f | _ \<Rightarrow> None) is"
definition item_deletes :: "rewind_item list \<Rightarrow> guarded_delete list" where
  "item_deletes is = List.map_filter (\<lambda>i. case i of RwDelete d \<Rightarrow> Some d | _ \<Rightarrow> None) is"
definition item_conflicts :: "rewind_item list \<Rightarrow> savepoint_conflict list" where
  "item_conflicts is = List.map_filter (\<lambda>i. case i of RwConflict c \<Rightarrow> Some c | _ \<Rightarrow> None) is"
definition item_noops :: "rewind_item list \<Rightarrow> string list" where
  "item_noops is = List.map_filter (\<lambda>i. case i of RwNoop p \<Rightarrow> Some p | _ \<Rightarrow> None) is"

definition rewind_patch :: "savepoint \<Rightarrow> patch_file list \<Rightarrow> patch_set" where
  "rewind_patch p fs = \<lparr>ps_id = ''rewind:'' @ sp_id p, ps_base = [],
     ps_prov = \<lparr>pp_task = sv_task (sp_prov p), pp_agent = sv_agent (sp_prov p), pp_activation = sv_activation (sp_prov p),
       pp_worktree = [], pp_trace = sv_trace (sp_prov p)\<rparr>,
     ps_files = fs, ps_state = PatchProposed, ps_created = 0, ps_updated = 0, ps_refs = [], ps_failure = []\<rparr>"

definition PlanRewind ::
  "('z) edenv_scheme \<Rightarrow> savepoint_io \<Rightarrow> ws_state \<Rightarrow> savepoint_store \<Rightarrow> string \<Rightarrow> string \<Rightarrow> u64 \<Rightarrow> edit_error + rewind_plan" where
  "PlanRewind E io w st ws i rv =
     (case Savepoint_Load E io st ws i of
        Inl x \<Rightarrow> Inl x
      | Inr None \<Rightarrow> Inl ErrSavepointMissing
      | Inr (Some p) \<Rightarrow>
          if rv = 0 \<or> sp_rev p \<noteq> rv then Inl ErrSavepointStale
          else if sp_state p \<noteq> SavepointSealed then Inl ErrSavepointState
          else (case rewind_items E io w st (sp_ws p) (sp_entries p) of
              Inl x \<Rightarrow> Inl x
            | Inr is \<Rightarrow> Inr \<lparr>rp_id = sp_id p, rp_rev = sp_rev p, rp_patch = rewind_patch p (item_patches is),
                rp_deletes = item_deletes is, rp_conflicts = item_conflicts is, rp_noops = item_noops is,
                rp_can = (item_conflicts is = [] \<and> (item_patches is \<noteq> [] \<or> item_deletes is \<noteq> []))\<rparr>))"

section \<open>Review batches\<close>

abbreviation "ReviewPending \<equiv> ''pending''"
abbreviation "ReviewKeep \<equiv> ''keep''"
abbreviation "ReviewRevert \<equiv> ''revert''"

datatype review_error = ErrInvalidReview | ErrStaleReviewRevision | ErrReviewItemNotFound

record review_change =
  rc_path :: string
  rc_before :: string
  rc_after :: string
  rc_created :: bool
  rc_disposition :: string

text \<open>
  A batch is passed by value, but its changes are a slice: every copy refers to the same array. So the array is a
  separate argument and result, and a batch holds only the rest.
\<close>

record review_batch =
  rvb_id :: string
  rvb_patch :: string
  rvb_rev :: u64
  rvb_created :: gotime
  rvb_updated :: gotime

fun review_changes :: "string list \<Rightarrow> review_change list \<Rightarrow> review_change list option" where
  "review_changes seen [] = Some []"
| "review_changes seen (c # cs) =
     (let p = trim_space (rc_path c) in
      if p = [] \<or> p \<in> set seen then None
      else map_option (\<lambda>ds. c\<lparr>rc_path := p, rc_disposition := ReviewPending\<rparr> # ds) (review_changes (p # seen) cs))"

definition NewReviewBatch ::
  "gotime \<Rightarrow> string \<Rightarrow> string \<Rightarrow> review_change list \<Rightarrow> review_error + review_batch \<times> review_change list" where
  "NewReviewBatch now i0 p0 changes =
     (let i = trim_space i0; p = trim_space p0 in
      if i = [] \<or> p = [] \<or> changes = [] then Inl ErrInvalidReview
      else case review_changes [] changes of
        None \<Rightarrow> Inl ErrInvalidReview
      | Some cs \<Rightarrow> Inr (\<lparr>rvb_id = i, rvb_patch = p, rvb_rev = 1, rvb_created = now, rvb_updated = now\<rparr>, sort_key rc_path cs))"

fun decide_change :: "string \<Rightarrow> string \<Rightarrow> review_change list \<Rightarrow> review_change list option" where
  "decide_change p d [] = None"
| "decide_change p d (c # cs) =
     (if rc_path c = p then Some (c\<lparr>rc_disposition := d\<rparr> # cs) else map_option ((#) c) (decide_change p d cs))"

definition Decide ::
  "gotime \<Rightarrow> review_batch \<Rightarrow> review_change list \<Rightarrow> string \<Rightarrow> u64 \<Rightarrow> string
     \<Rightarrow> review_batch \<times> review_change list \<times> review_error option" where
  "Decide now b cs p rv d =
     (if rvb_rev b \<noteq> rv then (b, cs, Some ErrStaleReviewRevision)
      else if d \<noteq> ReviewKeep \<and> d \<noteq> ReviewRevert then (b, cs, Some ErrInvalidReview)
      else case decide_change (trim_space p) d cs of
        None \<Rightarrow> (b, cs, Some ErrReviewItemNotFound)
      | Some ds \<Rightarrow> (b\<lparr>rvb_rev := rvb_rev b + 1, rvb_updated := now\<rparr>, ds, None))"

definition Review_Complete :: "review_change list \<Rightarrow> bool" where
  "Review_Complete cs \<longleftrightarrow> cs \<noteq> [] \<and> list_all (\<lambda>c. rc_disposition c \<noteq> ReviewPending) cs"

section \<open>Undoing an agent restores the files\<close>













































section \<open>The theorem at work\<close>


definition no_store_faults :: savepoint_io where
  "no_store_faults = \<lparr>sio_load = None, sio_ws = (\<lambda>_. None), sio_blob = (\<lambda>_. None), sio_write = WOk\<rparr>"

definition demo_capture :: capture_request where
  "demo_capture = \<lparr>cq_id = ''i'', cq_ws = ''w'', cq_prov = \<lparr>sv_task = ''t'', sv_agent = [], sv_activation = [], sv_trace = [], sv_seq = 0\<rparr>,
     cq_paths = [''a'', ''b'']\<rparr>"









text \<open>
  Known faults. A copy of a review batch taken before a decision keeps the old revision but shares the decided changes,
  so it passes the revision check and overwrites the decision. And the recorded modes are not used: a file the
  agent deleted comes back with its text but as 0644, whatever mode it had.
\<close>

definition demo_change :: review_change where
  "demo_change = \<lparr>rc_path = ''a'', rc_before = ''h'', rc_after = ''k'', rc_created = False, rc_disposition = []\<rparr>"

lemma Decide_stale_copy:
  "(case NewReviewBatch 1 ''r'' ''p'' [demo_change] of Inl x \<Rightarrow> False
    | Inr (b, cs) \<Rightarrow> (case Decide 2 b cs ''a'' 1 ReviewKeep of (b1, cs1, r1) \<Rightarrow>
        (case Decide 3 b cs1 ''a'' 1 ReviewRevert of (b2, cs2, r2) \<Rightarrow>
           r1 = None \<and> r2 = None \<and> rvb_rev b1 = 2 \<and> map rc_disposition cs1 = [ReviewKeep] \<and> map rc_disposition cs2 = [ReviewRevert])))"
  by code_simp

lemma rewind_forgets_mode:
  "(let before = demo_ws(''/w/a'' \<mapsto> RegularFile ''one two'' 493); after = demo_ws(''/w/a'' := None);
        st0 = \<lparr>st_points = Map.empty, st_blobs = Map.empty\<rparr>;
        (st1, r1) = Capture demo_edenv no_store_faults 5 before st0 (demo_capture\<lparr>cq_paths := [''a'']\<rparr>);
        (st2, r2) = Seal demo_edenv no_store_faults 6 after st1 ''w'' ''i'' 1 [(''a'', [])] in
    case PlanRewind demo_edenv no_store_faults after st2 ''w'' ''i'' 2 of Inl x \<Rightarrow> False
    | Inr plan \<Rightarrow> (case ApplyPatchSet demo_edenv no_faults 7 id id after (rp_patch plan) of (w', _, r) \<Rightarrow>
        \<not> isl r \<and> before ''/w/a'' = Some (RegularFile ''one two'' 493) \<and> w' ''/w/a'' = Some (RegularFile ''one two'' 420)))"
  by code_simp

end
