(* ===== verification/Spec2Isabelle.thy ===== *)
theory Spec2Isabelle
  imports TaskDagProps Mailbox Activation CapabilityLease Approval Journal Fallback TeamPlan ExecManager VerifyGate Savepoint
begin

text \<open>
  A verification library for the durable orchestration core of CodeLocal: the Go packages under
  \<open>src/internal\<close> that decide what an agent may do, keep the state of its task over restarts and change
  the files of the workspace.

  \<^bold>\<open>The program and its parts.\<close> A task is worked on by agents. What happens to it is written to an append-only
  event log (\<open>runtimeevents\<close>); the task DAG, the mailbox and the verification gate (\<open>orchestration\<close>) and the agent
  graph and the activation manager (\<open>agentruntime\<close>) append their changes to it and rebuild their state from it. Each
  of them fences concurrent callers by a revision that a call must name. A command or a tool call passes the classifier
  and the policy kernel (\<open>security\<close>), then the broker and the mode of the workspace (\<open>approval\<close>), and may consume a
  one-shot capability lease. Teams are admitted against a budget ledger (\<open>usage\<close>), engines are exchanged when
  they fail (\<open>agentruntime/fallback.go\<close>), and a request that was carried out, or may have been when the process died, is not
  executed again while its key is in the journal (\<open>idempotency\<close>). A task
  runs in worktrees or checkouts that \<open>taskexecution\<close> prepares, leases, limits and archives. Files are changed by
  \<open>editing\<close>, which checks every path against the workspace root and can undo what an agent did.

  \<^bold>\<open>Theories.\<close> A theory has the name of its component; the manifest names the lines of every definition. Go's functions keep
  their names, with a prefix where two packages use the same one (\<open>ev_append\<close>, \<open>dag_Add\<close>, \<open>Store_Put\<close>).

  \<^item> \<open>Prelude\<close>, \<open>GoText\<close>, \<open>GoNum\<close>: the language and the standard library. Strings are byte lists, \<open>strings.TrimSpace\<close>
    and UTF-8 are computed on bytes, \<open>regexp\<close> is a leftmost-first matcher on expressions, \<open>int64\<close> wraps, \<open>uint64\<close> is a
    64-bit word, \<open>filepath.Clean\<close>, \<open>Join\<close> and \<open>Rel\<close> work on components, a map with an iteration order is an
    association list, JSON is a datatype with the coercion of invalid UTF-8.
  \<^item> \<open>Interfaces\<close>: the contracts several components share, as locales. \<open>status_machine\<close> (terminal states cannot be left;
    interpreted for agents, activations, DAG nodes, verification results and the host lifecycle), \<open>cas_store\<close> (of several calls that name
    the same revision at most one takes effect; agent graph, task DAG, execution store) and \<open>entity_log\<close> (the last event of a key is
    its state, whatever other components append in between; task DAG, mailbox).
  \<^item> \<open>EventLog\<close> (\<open>runtimeevents/store.go\<close>, \<open>types.go\<close>): \<open>evstore\<close> maps a path to the lines of the file. Appending, listing and
    snapshots, with torn, lost and unsynced writes as outcomes.
  \<^item> \<open>TaskDag\<close>, \<open>TaskDagProps\<close> (\<open>orchestration/taskdag.go\<close>), \<open>Mailbox\<close> (\<open>mailbox.go\<close>), \<open>VerifyGate\<close>
    (\<open>verification_runtime.go\<close>, \<open>verification_graph.go\<close>), \<open>TeamPlan\<close> (\<open>adaptive_scheduler.go\<close>, \<open>specialists.go\<close>): the
    state is a pair of the structure in memory and the log; an operation returns both and its error.
  \<^item> \<open>AgentGraph\<close>, \<open>AgentGraphProps\<close> (\<open>agentruntime/identity.go\<close>, \<open>graph.go\<close>), \<open>Activation\<close> (\<open>activation_manager.go\<close>), \<open>Fallback\<close>
    (\<open>fallback.go\<close>, \<open>featureflag\<close>): the same for agents and their incarnations.
  \<^item> \<open>Policy\<close> (\<open>security/policy.go\<close>), \<open>PolicyKernel\<close> (\<open>policy_kernel.go\<close>, \<open>policy_dsl.go\<close>, \<open>capability_projection.go\<close>),
    \<open>CapabilityLease\<close> (\<open>capability_lease.go\<close>, \<open>capability_lending.go\<close>), \<open>Approval\<close> (\<open>approval/broker.go\<close>, \<open>mode.go\<close>).
  \<^item> \<open>Usage\<close> (\<open>usage\<close>), \<open>Journal\<close> (\<open>idempotency/journal.go\<close> and the entry point of \<open>localclient/engine.go\<close>).
  \<^item> \<open>TaskExec\<close>, \<open>ExecManager\<close> (\<open>taskexecution\<close>): bundles are files under path digests; a world holds the files, the
    worktree directories, the table of checkout leases and the Git commands run so far.
  \<^item> \<open>Editing\<close>, \<open>EditingProps\<close>, \<open>Savepoint\<close> (\<open>editing\<close>, with the path checks of \<open>localfs/fs.go\<close>): the workspace is a
    map from real paths to files and directories.

  \<^bold>\<open>What the lemmas show.\<close> The invariants hold in every state that steps of the model reach, by rule induction on the
  step relations: logs number their events from 1 without gaps, the DAG and the agent graph have no cycle, ledgers stay
  within the limit for amounts below \<open>2 ^ 62\<close> in one currency, an agent has at most one live activation as long as no finished one is transitioned again. Restart lemmas say that rebuilding from the log gives back the state in memory; they exclude exactly the
  writes that were torn or whose error hides a write that happened, and lemmas beside them show what these do. Refinements compare an operation with its specification: the strictest
  rule that applies, the last message not yet delivered, the splices of an edit one after the other. Effects are
  bounded: a lease and a token are used at most once, a request again only after a reported error or a provisional answer; a path
  argument that leaves the workspace is blocked; the worktree limit removes no worktree that was not committed and pushed before; the
  limit, the rollback of a patch and that of a team touch nothing else. Each theory ends with
  concrete runs; several of them show behaviour the code probably does not intend, and the manifest lists these as findings.

  \<^bold>\<open>Parameters.\<close> What is not code of the repository is an argument: SHA-256, the Unicode case tables, the text of times and of
  numbers in JSON (\<open>goenv\<close>), the home and working directory and URL parsing (\<open>secenv\<close>), JSON texts that are digested, the answers of \<open>git\<close>
  (\<open>git_run\<close> in \<open>exec_env\<close>, a function of the history of writing commands and the command, \<open>ed_merge\<close> and \<open>ed_git_apply\<close> in \<open>edenv\<close>), symbolic links (\<open>ed_real\<close>), the order \<open>sort.Slice\<close> gives
  equal keys and the iteration order of maps, which is that of the association list, the clock, random tokens, and the outcome of every read and write. Hypotheses on
  them state what their documentation says: \<open>links_ok\<close> that resolving links is idempotent and does not depend on how far the way is resolved,
  \<open>sorts_edits\<close> that sorting permutes, \<open>git_commits_all\<close> and \<open>git_push_keeps\<close> that staging everything and committing leaves
  an empty status and that a push keeps it, and an injective digest on the contents at hand where a property rests on it.

  \<^bold>\<open>Bounds and fuel.\<close> Replays read at most 5000 events, as the code does, and the restart theorems assume no more. Sequence numbers and
  generations are 64-bit words; theorems that count on them assume fewer than \<open>2 ^ 64 - 1\<close> steps. The search for cycles
  (\<open>visit\<close>) runs on fuel of one more than the number of nodes, which \<open>visit_enough_fuel\<close> shows to be enough. The star of a regular expression
  is bounded by the length of the text that remains, which suffices because each round consumes some. Exponents of decimal numbers are unbounded here.

  \<^bold>\<open>Concurrency.\<close> Every operation holds the mutex of its component, so it is one step and interleavings are sequences of steps. Where the
  code releases a lock in between, the operation is split (\<open>SetState\<close>), or what others do in between is an argument (\<open>ApplyPatchSet\<close>).

  \<^bold>\<open>Not modelled.\<close> Carrying out the deletions of a rewind plan, which no code of the repository does; changes other processes make to
  a repository between two Git commands of one operation. Line lengths beyond the 4 MiB buffer of the log reader; Windows paths; texts for display; nil receivers; the umask and
  ownership of files; the content that is copied into a worktree, of which only the failure is an input; more than one reading
  of the clock in one call of \<open>Ensure\<close>. Of the packages above, the remembered approvals (\<open>approval/memory.go\<close>), planners, executors and routing of
  \<open>orchestration\<close> and the registry and providers of \<open>agentruntime\<close>: they call injected agents or are heuristics without a stated contract. The cloud
  server and client, HTTP and WebSocket endpoints, desktop and browser automation, language servers, search and project indexes,
  tool programs and the command-line entry points are input and output around these parts.
\<close>

end
